(* ===== verification/Prelude.thy ===== *)
theory Prelude
  imports Main "HOL-Library.Word" "HOL-Library.Multiset" "HOL-Library.List_Lexorder" "HOL-Library.Sublist"
begin

text \<open>
  The vocabulary shared by every component: the machine integers of the source, byte strings,
  insertion into a list at a position, and the lower bound of a key in a list.

  The source's fixed width integers are words of the same width. Its \<^verbatim>\<open>std::string_view\<close> keys
  are lists of bytes; the list order of \<^theory_text>\<open>List_Lexorder\<close> on bytes is the bytewise order of
  \<^verbatim>\<open>memcmp\<close> with the shorter string first on a tie.
\<close>

unbundle bit_operations_syntax

type_synonym u8 = "8 word"
type_synonym u32 = "32 word"
type_synonym u64 = "64 word"
type_synonym bytes = "u8 list"

named_theorems order_word_simps "what the order word operations compute on an encoded permutation"
named_theorems kernel_simps "what a search kernel computes, as a count of lanes"
named_theorems heap_simps "reads of the table after a write"

section \<open>Insertion at a position\<close>

definition ins_at :: "nat \<Rightarrow> 'a \<Rightarrow> 'a list \<Rightarrow> 'a list" where
  "ins_at p x xs = take p xs @ x # drop p xs"

lemma length_ins_at [simp]: "length (ins_at p x xs) = Suc (length xs)"
  by (simp add: ins_at_def)

lemma ins_at_not_Nil [simp]: "ins_at p x xs \<noteq> []"
  by (simp add: ins_at_def)

lemma ins_at_Nil [simp]: "ins_at p x [] = [x]"
  by (simp add: ins_at_def)

lemma ins_at_0 [simp]: "ins_at 0 x xs = x # xs"
  by (simp add: ins_at_def)

lemma ins_at_length [simp]: "ins_at (length xs) x xs = xs @ [x]"
  by (simp add: ins_at_def)

lemma mset_ins_at [simp]: "mset (ins_at p x xs) = add_mset x (mset xs)"
  by (simp add: ins_at_def) (metis append_take_drop_id mset_append)

lemma set_ins_at [simp]: "set (ins_at p x xs) = insert x (set xs)"
  by (metis mset_ins_at set_mset_add_mset_insert set_mset_mset)

lemma nth_ins_at:
  "p \<le> length xs \<Longrightarrow> i \<le> length xs \<Longrightarrow>
   ins_at p x xs ! i = (if i < p then xs ! i else if i = p then x else xs ! (i - 1))"
  by (cases "i - p") (auto simp: ins_at_def nth_append intro!: arg_cong [where f = "nth xs"])

lemma map_ins_at: "map f (ins_at p x xs) = ins_at p (f x) (map f xs)"
  by (simp add: ins_at_def take_map drop_map)

lemma ins_at_append1: "p \<le> length xs \<Longrightarrow> ins_at p x (xs @ ys) = ins_at p x xs @ ys"
  by (simp add: ins_at_def)

lemma ins_at_append2: "ins_at (length xs + p) x (xs @ ys) = xs @ ins_at p x ys"
  by (simp add: ins_at_def)

lemma remove_ins_at: "p \<le> length xs \<Longrightarrow> take p (ins_at p x xs) @ drop (Suc p) (ins_at p x xs) = xs"
  by (simp add: ins_at_def)

lemma sorted_wrt_ins_at:
  assumes "sorted_wrt P xs" "\<forall>y \<in> set (take p xs). P y x" "\<forall>y \<in> set (drop p xs). P x y"
  shows "sorted_wrt P (ins_at p x xs)"
proof -
  have s: "sorted_wrt P (take p xs @ drop p xs)"
    using assms(1) by simp
  show ?thesis
    using s assms(2,3) unfolding ins_at_def sorted_wrt_append by auto
qed

section \<open>The lower bound of a predicate in a list\<close>

text \<open>
  \<open>lower_bound_of below xs\<close> is the index of the first element that is not \<open>below\<close> the probe:
  what \<^verbatim>\<open>std::lower_bound\<close> returns on a sorted sequence.
\<close>

definition lower_bound_of :: "('a \<Rightarrow> bool) \<Rightarrow> 'a list \<Rightarrow> nat" where
  "lower_bound_of below xs = length (takeWhile below xs)"

lemma lower_bound_of_le [simp]: "lower_bound_of below xs \<le> length xs"
  by (simp add: lower_bound_of_def length_takeWhile_le)

lemma lower_bound_of_below: "i < lower_bound_of below xs \<Longrightarrow> below (xs ! i)"
  unfolding lower_bound_of_def by (metis nth_mem set_takeWhileD takeWhile_nth)

lemma lower_bound_of_stop: "lower_bound_of below xs < length xs \<Longrightarrow> \<not> below (xs ! lower_bound_of below xs)"
  unfolding lower_bound_of_def by (rule nth_length_takeWhile)

lemma take_lower_bound: "take (lower_bound_of below xs) xs = takeWhile below xs"
  unfolding lower_bound_of_def by (metis takeWhile_eq_take)

lemma drop_lower_bound: "drop (lower_bound_of below xs) xs = dropWhile below xs"
  unfolding lower_bound_of_def by (metis dropWhile_eq_drop)

text \<open>
  On a list where \<open>below\<close> holds of a prefix only (a sorted list), a position that is below on its
  left and not below on its right is the lower bound: the check the search confirms a candidate with.
\<close>

lemma lower_bound_of_unique:
  assumes mono: "\<And>i j. i < j \<Longrightarrow> j < length xs \<Longrightarrow> below (xs ! j) \<Longrightarrow> below (xs ! i)"
    and p: "p \<le> length xs"
    and left: "p = 0 \<or> below (xs ! (p - 1))"
    and right: "p = length xs \<or> \<not> below (xs ! p)"
  shows "p = lower_bound_of below xs"
proof -
  let ?q = "lower_bound_of below xs"
  have "\<not> ?q < p"
  proof
    assume q: "?q < p"
    then have b: "below (xs ! (p - 1))" and qp: "?q \<le> p - 1" and pl: "p - 1 < length xs"
      using left p by auto
    have "below (xs ! ?q)"
      using mono [of ?q "p - 1"] b qp pl by (cases "?q = p - 1") auto
    then show False using lower_bound_of_stop [of below xs] q p by simp
  qed
  moreover have "\<not> p < ?q"
  proof
    assume q: "p < ?q"
    then have "below (xs ! p)" by (rule lower_bound_of_below)
    moreover have "p < length xs" using q lower_bound_of_le [of below xs] by linarith
    ultimately show False using right by simp
  qed
  ultimately show ?thesis by simp
qed

lemma sorted_wrt_mono_below:
  assumes "sorted_wrt P xs" "\<And>x y. P x y \<Longrightarrow> below y \<Longrightarrow> below x" "i < j" "j < length xs" "below (xs ! j)"
  shows "below (xs ! i)"
  using assms sorted_wrt_nth_less [of P xs i j] by blast

lemma lower_bound_of_filter:
  assumes "\<And>i j. i < j \<Longrightarrow> j < length xs \<Longrightarrow> below (xs ! j) \<Longrightarrow> below (xs ! i)"
  shows "lower_bound_of below xs = length (filter below xs)"
  using assms
proof (induction xs)
  case Nil
  then show ?case by (simp add: lower_bound_of_def)
next
  case (Cons x xs)
  show ?case
  proof (cases "below x")
    case True
    have "\<And>i j. i < j \<Longrightarrow> j < length xs \<Longrightarrow> below (xs ! j) \<Longrightarrow> below (xs ! i)"
      using Cons.prems [of "Suc i" "Suc j" for i j] by simp
    then show ?thesis using True Cons.IH by (simp add: lower_bound_of_def)
  next
    case False
    have "\<not> below y" if y: "y \<in> set xs" for y
    proof
      assume "below y"
      from y obtain j where "j < length xs" "xs ! j = y" by (auto simp: in_set_conv_nth)
      then have "below x" using Cons.prems [of 0 "Suc j"] \<open>below y\<close> by simp
      with False show False by simp
    qed
    then have "filter below xs = []" by (simp add: filter_empty_conv)
    then show ?thesis using False by (simp add: lower_bound_of_def)
  qed
qed

section \<open>Bits of small numbers\<close>

lemma nat_bit_small: "x < 2 ^ n \<Longrightarrow> n \<le> i \<Longrightarrow> \<not> bit (x :: nat) i"
proof
  assume "x < 2 ^ n" "n \<le> i" "bit x i"
  have "2 ^ n \<le> (2 ^ i :: nat)" using \<open>n \<le> i\<close> by simp
  then have "x < 2 ^ i" using \<open>x < 2 ^ n\<close> by linarith
  then have "x div 2 ^ i = 0" by simp
  with \<open>bit x i\<close> show False by (simp add: bit_nat_def)
qed

lemma bit_word_of_nat: "bit (of_nat n :: 'w::len word) i \<longleftrightarrow> i < LENGTH('w) \<and> bit n i"
  by (simp add: bit_simps)

lemma bit_Suc_word: "bit (1 + word_of_nat n :: 'w::len word) i \<longleftrightarrow> i < LENGTH('w) \<and> bit (Suc n) i"
  by (metis bit_word_of_nat of_nat_Suc)

end
