(* ===== verification/Order_Word.thy ===== *)
theory Order_Word
  imports Prelude
begin

text \<open>
  \<^verbatim>\<open>include/aparajita/node.hpp\<close>: the cache line of sixteen surrogates and the order word, sixteen
  four-bit slot indices packed in one 64-bit integer. The abstraction of an order word is the list
  of slots in rank order (\<open>encode\<close>, \<open>ranks\<close>); the lemmas say that \<open>order_slot\<close>, \<open>order_count\<close>,
  \<open>order_identity\<close> and \<open>order_insert\<close> are lookup, length, identity and list insertion on it, and
  that an unused rank decodes to the padding slot.
\<close>

section \<open>The node\<close>

definition kCacheLine :: nat where "kCacheLine = 64"

definition kNodeKeys :: nat where "kNodeKeys = 16"

record node =
  keys :: "u32 list"

text \<open>The array of the struct has exactly \<open>kNodeKeys\<close> lanes.\<close>

definition node_wf :: "node \<Rightarrow> bool" where
  "node_wf n \<longleftrightarrow> length (keys n) = kNodeKeys"

definition kEmptyKey :: u32 where "kEmptyKey = 0xFFFFFFFF"

definition kNodeCapacity :: nat where "kNodeCapacity = kNodeKeys - 1"

definition kPadSlot :: nat where "kPadSlot = kNodeKeys - 1"

lemmas node_consts = kCacheLine_def kNodeKeys_def kNodeCapacity_def kPadSlot_def

section \<open>The order word\<close>

text \<open>\<^verbatim>\<open>std::countl_zero\<close> on 64 bits: the zero bits above the highest set bit, 64 for zero.\<close>

definition countl_zero :: "u64 \<Rightarrow> nat" where
  "countl_zero w = length (takeWhile (\<lambda>i. \<not> bit w i) (rev [0..<64]))"

definition order_slot :: "u64 \<Rightarrow> nat \<Rightarrow> nat" where
  "order_slot order rank = unat ((drop_bit (4 * rank) order - 1) AND 0xF)"

definition order_count :: "u64 \<Rightarrow> nat" where
  "order_count order = drop_bit 2 (67 - countl_zero order)"

fun order_identity_loop :: "nat \<Rightarrow> nat \<Rightarrow> u64 \<Rightarrow> u64" where
  "order_identity_loop 0 i w = w"
| "order_identity_loop (Suc n) i w =
     order_identity_loop n (i + 1) (w OR push_bit (4 * i) (of_nat (i + 1)))"

definition order_identity :: "nat \<Rightarrow> u64" where
  "order_identity n = order_identity_loop n 0 0"

definition order_insert :: "u64 \<Rightarrow> nat \<Rightarrow> nat \<Rightarrow> u64" where
  "order_insert order rank slot =
     (let b = 4 * rank;
          below = (if b = 0 then 0 else order AND (push_bit b 1 - 1));
          above = push_bit (b + 4) (drop_bit b order)
      in below OR above OR push_bit b (of_nat (slot + 1)))"

section \<open>The permutation an order word stands for\<close>

fun encode :: "nat list \<Rightarrow> u64" where
  "encode [] = 0"
| "encode (s # ss) = of_nat (s + 1) OR push_bit 4 (encode ss)"

definition ranks :: "u64 \<Rightarrow> nat list" where
  "ranks order = map (order_slot order) [0..<order_count order]"

definition packable :: "nat list \<Rightarrow> bool" where
  "packable ss \<longleftrightarrow> length ss \<le> 16 \<and> (\<forall>s \<in> set ss. s < kNodeCapacity)"

lemma packable_Nil [simp]: "packable []"
  by (simp add: packable_def)

lemma packable_Cons [simp]: "packable (s # ss) \<longleftrightarrow> length ss < 16 \<and> s < 15 \<and> packable ss"
  by (auto simp: packable_def node_consts)

lemma bit_encode:
  "\<forall>s \<in> set ss. s < 15 \<Longrightarrow>
   bit (encode ss) i \<longleftrightarrow> i < 64 \<and> i div 4 < length ss \<and> bit (ss ! (i div 4) + 1) (i mod 4)"
proof (induction ss arbitrary: i)
  case Nil
  then show ?case by simp
next
  case (Cons s ss)
  show ?case
  proof (cases "i < 4")
    case True
    then show ?thesis by (simp add: bit_or_iff bit_push_bit_iff bit_word_of_nat bit_Suc_word)
  next
    case False
    have s: "\<not> bit (Suc s) i" using nat_bit_small [of "Suc s" 4 i] Cons.prems False by simp
    have d: "i div 4 = Suc ((i - 4) div 4)" and m: "i mod 4 = (i - 4) mod 4"
      using False by (auto simp: div_if mod_if)
    have "bit (encode (s # ss)) i \<longleftrightarrow> i < 64 \<and> bit (encode ss) (i - 4)"
      using s False by (auto simp: bit_or_iff bit_push_bit_iff bit_word_of_nat bit_Suc_word)
    then show ?thesis using Cons.IH [of "i - 4"] Cons.prems False by (auto simp: d m)
  qed
qed

lemma bit_encode_packable:
  "packable ss \<Longrightarrow>
   bit (encode ss) i \<longleftrightarrow> i div 4 < length ss \<and> bit (ss ! (i div 4) + 1) (i mod 4)"
  using bit_encode [of ss i] unfolding packable_def node_consts
  by (auto simp: bit_encode)

lemma nibble_encode:
  assumes "packable ss" "r < 16"
  shows "unat (take_bit 4 (drop_bit (4 * r) (encode ss))) = (if r < length ss then ss ! r + 1 else 0)"
proof -
  let ?v = "if r < length ss then ss ! r + 1 else 0 :: nat"
  have v: "?v < 2 ^ 4" using assms(1) by (auto simp: packable_def node_consts)
  have "take_bit 4 (drop_bit (4 * r) (encode ss)) = (of_nat ?v :: u64)"
  proof (rule bit_word_eqI)
    fix i :: nat
    assume i: "i < LENGTH(64)"
    show "bit (take_bit 4 (drop_bit (4 * r) (encode ss))) i \<longleftrightarrow> bit (of_nat ?v :: u64) i"
    proof (cases "i < 4")
      case True
      then have "(4 * r + i) div 4 = r" "(4 * r + i) mod 4 = i" by auto
      then show ?thesis using True i assms
        by (simp add: bit_take_bit_iff bit_drop_bit_eq bit_encode_packable bit_word_of_nat bit_Suc_word)
    next
      case False
      then show ?thesis using nat_bit_small [OF v, of i]
        by (simp add: bit_take_bit_iff bit_word_of_nat bit_Suc_word)
    qed
  qed
  moreover have "?v < 2 ^ 64" using v by simp
  ultimately show ?thesis by (simp add: unat_of_nat take_bit_nat_eq_self)
qed


section \<open>The operations on an encoded permutation\<close>

lemma unat_and_15: "unat (w AND 0xF :: u64) = unat w mod 16"
proof -
  have "w AND 0xF = take_bit 4 w"
    by (simp add: take_bit_eq_mask mask_eq_exp_minus_1)
  then show ?thesis by (simp add: take_bit_eq_mod unat_mod)
qed

lemma pred_mod16: "n \<noteq> 0 \<Longrightarrow> (n - 1) mod 16 = (if n mod 16 = 0 then 15 else n mod 16 - (1::nat))"
  by (induction n) (auto simp: mod_Suc)

text \<open>Subtracting before masking makes a zero nibble borrow and land on 15.\<close>

lemma order_slot_nibble:
  "order_slot w r = (let v = unat (take_bit 4 (drop_bit (4 * r) w)) in if v = 0 then 15 else v - 1)"
proof -
  let ?x = "drop_bit (4 * r) w"
  have v: "unat (take_bit 4 ?x) = unat ?x mod 16"
    by (simp add: take_bit_eq_mod unat_mod)
  have "unat ((?x - 1) AND 0xF) = unat (?x - 1) mod 16" by (rule unat_and_15)
  also have "\<dots> = (if unat ?x mod 16 = 0 then 15 else unat ?x mod 16 - 1)"
  proof (cases "?x = 0")
    case True
    have "unat (- 1 :: u64) = 2 ^ 64 - 1" by (simp add: unsigned_minus_1_eq_mask mask_eq_exp_minus_1)
    then have "unat (- 1 :: u64) mod 16 = 15" by simp
    then show ?thesis using True by simp
  next
    case False
    then have "unat ?x \<noteq> 0" by (simp add: unat_eq_0)
    moreover have "unat (?x - 1) = unat ?x - 1" using False by (simp add: unat_minus_one)
    ultimately show ?thesis using pred_mod16 [of "unat ?x"] by metis
  qed
  finally show ?thesis by (simp add: order_slot_def v Let_def)
qed

lemma order_slot_encode [order_word_simps]:
  "packable ss \<Longrightarrow> r < 16 \<Longrightarrow> order_slot (encode ss) r = (if r < length ss then ss ! r else kPadSlot)"
  by (simp add: order_slot_nibble nibble_encode node_consts)

lemma countl_zero_highest:
  assumes "bit w h" "h < 64" "\<And>i. h < i \<Longrightarrow> i < 64 \<Longrightarrow> \<not> bit w i"
  shows "countl_zero w = 63 - h"
proof -
  have split: "rev [0..<64] = rev [Suc h..<64] @ h # rev [0..<h]"
    using assms(2) upt_add_eq_append [of 0 "Suc h" "63 - h"] by simp
  have "\<forall>i \<in> set (rev [Suc h..<64]). \<not> bit w i" using assms(3) by auto
  then have "takeWhile (\<lambda>i. \<not> bit w i) (rev [Suc h..<64] @ h # rev [0..<h]) = rev [Suc h..<64]"
    using assms(1) by (subst takeWhile_append2) auto
  then have "takeWhile (\<lambda>i. \<not> bit w i) (rev [0..<64]) = rev [Suc h..<64]"
    by (simp only: split)
  then show ?thesis by (simp add: countl_zero_def)
qed

lemma countl_zero_0: "countl_zero 0 = 64"
proof -
  have "takeWhile (\<lambda>i. \<not> bit (0::u64) i) (rev [0..<64]) = rev [0..<64]"
    by (rule takeWhile_eq_all_conv [THEN iffD2]) simp
  then show ?thesis unfolding countl_zero_def by (metis length_rev length_upt diff_zero)
qed

lemma small_nat_top_bit: "0 < (v::nat) \<Longrightarrow> v < 16 \<Longrightarrow> \<exists>k<4. bit v k \<and> (\<forall>j>k. \<not> bit v j)"
proof -
  assume "0 < v" "v < 16"
  have high: "\<not> bit v j" if "4 \<le> j" for j
    using \<open>v < 16\<close> nat_bit_small [of v 4 j] that by simp
  have "\<exists>k. bit v k"
  proof (rule ccontr)
    assume "\<nexists>k. bit v k"
    then have "v = 0" by (intro bit_eqI) auto
    with \<open>0 < v\<close> show False by simp
  qed
  then have ne: "{k. bit v k} \<noteq> {}" by simp
  have sub: "{k. bit v k} \<subseteq> {..<4}" using high by (metis (mono_tags) lessThan_iff mem_Collect_eq not_le_imp_less subsetI)
  then have fin: "finite {k. bit v k}" by (rule finite_subset) simp
  let ?k = "Max {k. bit v k}"
  have "bit v ?k" using Max_in [OF fin ne] by simp
  moreover have "\<forall>j>?k. \<not> bit v j" using Max_ge [OF fin] by fastforce
  moreover have "?k < 4" using Max_in [OF fin ne] sub by auto
  ultimately show ?thesis by blast
qed

lemma order_count_encode [order_word_simps]:
  assumes "packable ss"
  shows "order_count (encode ss) = length ss"
proof (cases "ss = []")
  case True
  then show ?thesis by (simp add: order_count_def countl_zero_0 drop_bit_eq_div)
next
  case False
  let ?n = "length ss - 1"
  have n: "?n < length ss" "length ss \<le> 16" using False assms by (auto simp: packable_def)
  have "ss ! ?n < 15" using n(1) assms nth_mem by (fastforce simp: packable_def node_consts)
  then obtain k where k: "k < 4" "bit (ss ! ?n + 1) k" "\<forall>j>k. \<not> bit (ss ! ?n + 1) j"
    using small_nat_top_bit [of "ss ! ?n + 1"] by auto
  let ?h = "4 * ?n + k"
  have hd: "?h div 4 = ?n" "?h mod 4 = k" using k(1) by auto
  have "bit (encode ss) ?h"
    using k n hd assms by (simp add: bit_encode_packable)
  moreover have "\<not> bit (encode ss) i" if "?h < i" "i < 64" for i
  proof (cases "i div 4 = ?n")
    case True
    moreover have "i = 4 * (i div 4) + i mod 4" by simp
    ultimately have "k < i mod 4" using that(1) by linarith
    then show ?thesis using True k(3) assms by (simp add: bit_encode_packable)
  next
    case False
    moreover have "i = 4 * (i div 4) + i mod 4" "i mod 4 < 4" by simp_all
    ultimately have "\<not> i div 4 < length ss" using that(1) False n(1) by linarith
    then show ?thesis using assms by (simp add: bit_encode_packable)
  qed
  moreover have "?h < 64" using n k(1) by linarith
  ultimately have "countl_zero (encode ss) = 63 - ?h" by (intro countl_zero_highest) auto
  then have "67 - countl_zero (encode ss) = 4 * length ss + k" using n \<open>?h < 64\<close> by linarith
  then show ?thesis using k(1) by (simp add: order_count_def drop_bit_eq_div)
qed

lemma ranks_encode [order_word_simps]: "packable ss \<Longrightarrow> ranks (encode ss) = ss"
proof (rule nth_equalityI)
  assume p: "packable ss"
  show "length (ranks (encode ss)) = length ss"
    using p by (simp add: ranks_def order_count_encode)
  fix i assume "i < length (ranks (encode ss))"
  then have "i < length ss" using p by (simp add: ranks_def order_count_encode)
  moreover have "length ss \<le> 16" using p by (simp add: packable_def)
  ultimately show "ranks (encode ss) ! i = ss ! i"
    using p by (simp add: ranks_def order_count_encode order_slot_encode)
qed

lemma encode_append_one:
  "encode (ss @ [s]) = encode ss OR push_bit (4 * length ss) (of_nat (s + 1))"
  by (induction ss) (simp_all add: push_bit_or or.assoc add.commute)

lemma order_identity_loop_encode:
  "order_identity_loop n (length ss) (encode ss) = encode (ss @ [length ss..<length ss + n])"
proof (induction n arbitrary: ss)
  case 0
  then show ?case by simp
next
  case (Suc n)
  have "order_identity_loop (Suc n) (length ss) (encode ss)
      = order_identity_loop n (length (ss @ [length ss])) (encode (ss @ [length ss]))"
    by (simp add: encode_append_one)
  also have "\<dots> = encode ((ss @ [length ss]) @ [length (ss @ [length ss])..<length (ss @ [length ss]) + n])"
    by (rule Suc.IH)
  also have "\<dots> = encode (ss @ [length ss..<length ss + Suc n])"
    using upt_conv_Cons [of "length ss" "length ss + Suc n"] by simp
  finally show ?case .
qed

lemma order_identity_encode [order_word_simps]: "order_identity n = encode [0..<n]"
  using order_identity_loop_encode [of n "[]"] by (simp add: order_identity_def)

lemma packable_ins_at:
  "packable ss \<Longrightarrow> length ss < 16 \<Longrightarrow> slot < 15 \<Longrightarrow> packable (ins_at r slot ss)"
  by (auto simp: packable_def node_consts)

lemma div4_mod4: "4 * r \<le> i \<Longrightarrow> i < 4 * r + 4 \<Longrightarrow> i div 4 = r" "4 * r \<le> i \<Longrightarrow> i < 4 * r + 4 \<Longrightarrow> i mod 4 = i - 4 * (r::nat)"
  by presburger+

lemma order_insert_encode [order_word_simps]:
  assumes "packable ss" "length ss < 16" "r \<le> length ss" "r < 15" "slot < 15"
  shows "order_insert (encode ss) r slot = encode (ins_at r slot ss)"
proof (rule bit_word_eqI)
  fix i :: nat
  assume i: "i < LENGTH(64)"
  have p: "packable (ins_at r slot ss)" using assms by (intro packable_ins_at)
  have sl: "j < 4" if "bit (Suc slot) j" for j
    using nat_bit_small [of "Suc slot" 4 j] assms(5) that by force
  have mask: "2 ^ (4 * r) - 1 = (mask (4 * r) :: u64)"
    by (simp add: mask_eq_exp_minus_1)
  have bits: "bit (order_insert (encode ss) r slot) i \<longleftrightarrow>
      (i < 4 * r \<and> bit (encode ss) i) \<or> (4 * r + 4 \<le> i \<and> bit (encode ss) (i - 4)) \<or>
      (4 * r \<le> i \<and> i < 4 * r + 4 \<and> bit (slot + 1) (i - 4 * r))"
    using i sl [of "i - 4 * r"]
    by (auto simp: order_insert_def Let_def mask bit_or_iff bit_and_iff bit_mask_iff bit_push_bit_iff
      bit_drop_bit_eq bit_word_of_nat bit_Suc_word)
  show "bit (order_insert (encode ss) r slot) i \<longleftrightarrow> bit (encode (ins_at r slot ss)) i"
  proof -
    consider (lo) "i < 4 * r" | (mid) "4 * r \<le> i" "i < 4 * r + 4" | (hi) "4 * r + 4 \<le> i" by linarith
    then show ?thesis
    proof cases
      case lo
      then have "i div 4 < r" by (simp add: less_mult_imp_div_less mult.commute)
      then show ?thesis using lo assms p unfolding bits
        by (simp add: bit_encode_packable nth_ins_at)
    next
      case mid
      then have "i div 4 = r" "i mod 4 = i - 4 * r" by (rule div4_mod4)+
      then show ?thesis using mid assms p unfolding bits
        by (simp add: bit_encode_packable nth_ins_at)
    next
      case hi
      then obtain j where j: "i = j + 4" "4 * r \<le> j" by (metis add_le_imp_le_right le_add_diff_inverse2 add_leD2)
      have "(j + 4) div 4 = Suc (j div 4)" by simp
      moreover have "r \<le> j div 4" using j(2) by (simp add: less_eq_div_iff_mult_less_eq mult.commute)
      ultimately show ?thesis using hi assms p unfolding bits
        by (simp add: bit_encode_packable nth_ins_at j(1) del: div_add_self2 cong: conj_cong)
    qed
  qed
qed

section \<open>Properties\<close>

text \<open>C15: splicing a slot into the order word at a rank is inserting it into the list of slots the
  word encodes: the count grows by one, ranks below stay, ranks above move up by one.\<close>

theorem order_insert_correct:
  assumes "packable ss" "length ss < kNodeCapacity" "r \<le> length ss" "slot < kNodeCapacity"
  shows "ranks (order_insert (encode ss) r slot) = ins_at r slot ss \<and>
    order_count (order_insert (encode ss) r slot) = Suc (order_count (encode ss))"
proof -
  have p: "packable (ins_at r slot ss)" using assms by (intro packable_ins_at) (simp_all add: node_consts)
  have "order_insert (encode ss) r slot = encode (ins_at r slot ss)"
    using assms by (intro order_insert_encode) (simp_all add: node_consts)
  then show ?thesis using p assms(1) by (simp add: ranks_encode order_count_encode)
qed

theorem order_insert_correct_witness:
  "ranks (order_insert (encode [0, 1]) 1 2) = [0, 2, 1] \<and> order_count (order_insert (encode [0, 1]) 1 2) = 3"
  using order_insert_correct [of "[0, 1]" 1 2] order_count_encode [of "[0, 1]"] by (simp add: node_consts ins_at_def)

text \<open>The order over slots in slot order, as a node built in one go publishes it: rank \<open>i\<close> is slot
  \<open>i\<close>, every rank from the count on decodes to the padding slot, and the count is read off the word.\<close>

theorem order_identity_correct:
  assumes "n \<le> kNodeCapacity" "r < kNodeKeys"
  shows "order_count (order_identity n) = n \<and> order_slot (order_identity n) r = (if r < n then r else kPadSlot)"
proof -
  have "packable [0..<n]" using assms(1) by (auto simp: packable_def node_consts)
  then show ?thesis using assms by (simp add: order_identity_encode order_count_encode order_slot_encode node_consts)
qed

theorem order_identity_correct_witness:
  "order_count (order_identity 15) = 15 \<and> order_slot (order_identity 15) 15 = kPadSlot"
  using order_identity_correct [of 15 15] by (simp add: node_consts)

end
