(* ===== verification/Surrogate.thy ===== *)
theory Surrogate
  imports Prelude Order_Word
begin

text \<open>
  \<^verbatim>\<open>include/aparajita/surrogate.hpp\<close>: the 32-bit lane and the 64-bit descent hint taken from the
  front of a key, the common prefix of two keys and the bytewise comparison. The lemmas say that the
  two loads read the key as a zero padded big-endian number, so that they never contradict the key
  order, also past a prefix that both keys share.

  \<^verbatim>\<open>surrogate\<close> and \<^verbatim>\<open>descent_hint\<close> end in a shift whose count is 32 respectively 64 for an empty
  key, a count that C++ leaves undefined. The shifted value is 0 there and the model returns 0, as
  every implementation of the shift that returns a value does; \<open>surrogate_shift\<close> and
  \<open>descent_hint_shift\<close> keep the count visible.
\<close>

section \<open>Loading bytes\<close>

text \<open>The loop shared by the two loads: shift the accumulator by eight and append one byte.\<close>

definition load_be :: "bytes \<Rightarrow> 'w::len word" where
  "load_be bs = foldl (\<lambda>s b. push_bit 8 s OR ucast b) 0 bs"

definition surrogate_shift :: "bytes \<Rightarrow> nat" where
  "surrogate_shift key = 8 * (4 - (if length key < 4 then length key else 4))"

definition surrogate :: "bytes \<Rightarrow> u32" where
  "surrogate key =
     (let n = (if length key < 4 then length key else 4)
      in push_bit (surrogate_shift key) (load_be (take n key)))"

definition surrogate_at :: "bytes \<Rightarrow> nat \<Rightarrow> u32" where
  "surrogate_at key offset = (if offset \<ge> length key then 0 else surrogate (drop offset key))"

definition descent_hint_shift :: "bytes \<Rightarrow> nat" where
  "descent_hint_shift key = 8 * (8 - (if length key < 8 then length key else 8))"

definition descent_hint :: "bytes \<Rightarrow> u64" where
  "descent_hint key =
     (let n = (if length key < 8 then length key else 8)
      in push_bit (descent_hint_shift key) (load_be (take n key)))"

function common_prefix_loop :: "bytes \<Rightarrow> bytes \<Rightarrow> nat \<Rightarrow> nat \<Rightarrow> nat" where
  "common_prefix_loop a b n i =
     (if i < n \<and> a ! i = b ! i then common_prefix_loop a b n (i + 1) else i)"
  by pat_completeness auto
termination
  by (relation "measure (\<lambda>(a, b, n, i). n - i)") auto

declare common_prefix_loop.simps [simp del]

definition common_prefix_len :: "bytes \<Rightarrow> bytes \<Rightarrow> nat" where
  "common_prefix_len a b =
     common_prefix_loop a b (if length a < length b then length a else length b) 0"

text \<open>
  \<^verbatim>\<open>std::memcmp\<close> over the first \<open>n\<close> bytes of both arguments, with the difference of the first
  unequal bytes as its result; the callers read its sign only.
\<close>

fun memcmp :: "bytes \<Rightarrow> bytes \<Rightarrow> nat \<Rightarrow> int" where
  "memcmp (a # as) (b # bs) (Suc n) = (if a = b then memcmp as bs n else int (unat a) - int (unat b))"
| "memcmp as bs n = 0"

definition compare_keys :: "bytes \<Rightarrow> bytes \<Rightarrow> int" where
  "compare_keys a b =
     (let n = (if length a < length b then length a else length b);
          c = (if n \<noteq> 0 then memcmp a b n else 0)
      in if c \<noteq> 0 then c
         else if length a = length b then 0
         else if length a < length b then - 1 else 1)"

definition aliases_empty_sentinel :: "u32 \<Rightarrow> bool" where
  "aliases_empty_sentinel s \<longleftrightarrow> s = kEmptyKey"

section \<open>The loads as numbers\<close>

text \<open>\<open>pad n k\<close>: the first \<open>n\<close> bytes of \<open>k\<close>, zeros to the right where \<open>k\<close> is shorter.\<close>

fun pad :: "nat \<Rightarrow> bytes \<Rightarrow> bytes" where
  "pad 0 k = []"
| "pad (Suc n) [] = 0 # pad n []"
| "pad (Suc n) (b # k) = b # pad n k"

fun big_endian :: "bytes \<Rightarrow> nat" where
  "big_endian [] = 0"
| "big_endian (b # bs) = unat b * 256 ^ length bs + big_endian bs"

lemma length_pad [simp]: "length (pad n k) = n"
  by (induction n k rule: pad.induct) auto

lemma unat_u8_less [simp]: "unat (b :: u8) < 256"
  using unsigned_less [of b, where ?'a = nat] by simp

lemma big_endian_less: "big_endian bs < 256 ^ length bs"
proof (induction bs)
  case Nil
  then show ?case by simp
next
  case (Cons b bs)
  have "Suc (unat b) \<le> 256" using unat_u8_less [of b] by linarith
  then have "Suc (unat b) * 256 ^ length bs \<le> (256 * 256 ^ length bs :: nat)"
    by (rule mult_right_mono) simp
  moreover have "big_endian (b # bs) < Suc (unat b) * 256 ^ length bs" using Cons.IH by simp
  ultimately show ?case using power_Suc [of "256::nat" "length bs"] by (simp only: length_Cons)
qed

lemma big_endian_mono:
  "length as = length bs \<Longrightarrow> as < bs \<Longrightarrow> big_endian as < big_endian bs"
proof (induction as bs rule: list_induct2)
  case Nil
  then show ?case by simp
next
  case (Cons a as b bs)
  show ?case
  proof (cases "a < b")
    case True
    then have "Suc (unat a) * 256 ^ length bs \<le> unat b * 256 ^ length bs"
      by (simp add: Suc_le_eq word_less_nat_alt del: mult_Suc)
    then show ?thesis using Cons.hyps big_endian_less [of as] by (simp add: algebra_simps)
  next
    case False
    then show ?thesis using Cons by auto
  qed
qed

lemma big_endian_le_iff:
  "length as = length bs \<Longrightarrow> big_endian as \<le> big_endian bs \<longleftrightarrow> as \<le> bs"
  by (metis big_endian_mono leD linorder_le_cases order.order_iff_strict)

lemma unat_push_bit:
  assumes "unat (w :: 'w::len word) * 2 ^ n < 2 ^ LENGTH('w)"
  shows "unat (push_bit n w) = unat w * 2 ^ n"
proof -
  have "unat (push_bit n w) = take_bit LENGTH('w) (push_bit n (unat w))"
    by (rule unsigned_push_bit_eq)
  also have "\<dots> = unat w * 2 ^ n"
    using assms by (simp add: push_bit_nat_def take_bit_nat_eq_self)
  finally show ?thesis .
qed

lemma append_byte:
  assumes "unat s < 256 ^ k" "8 * Suc k \<le> LENGTH('w::len)"
  shows "unat (push_bit 8 (s :: 'w word) OR ucast (b :: u8)) = unat s * 256 + unat b"
proof -
  have "unat s * 256 + 255 < 256 ^ Suc k" using assms(1) by simp
  also have "(256::nat) ^ Suc k = 2 ^ (8 * Suc k)" using power_mult [of "2::nat" 8 "Suc k"] by simp
  also have "\<dots> \<le> 2 ^ LENGTH('w)" using assms(2) by (intro power_increasing) auto
  finally have bound: "unat s * 256 + 255 < 2 ^ LENGTH('w)" .
  have "\<not> bit (push_bit 8 s) n \<or> \<not> bit (ucast b :: 'w word) n" for n
    by (auto simp: bit_push_bit_iff bit_ucast_iff dest: bit_imp_le_length)
  then have "push_bit 8 s OR ucast b = push_bit 8 s + (ucast b :: 'w word)"
    by (metis disjunctive_add)
  also have "unat \<dots> = unat s * 256 + unat b"
  proof -
    have "unat (push_bit 8 s) = unat s * 256"
      using bound unat_push_bit [of s 8] by simp
    moreover have "unat (ucast b :: 'w word) = unat b"
    proof -
      have "(256::nat) \<le> 2 ^ LENGTH('w)"
        using power_increasing [of 8 "LENGTH('w)" "2::nat"] assms(2) by simp
      then have "unat b < 2 ^ LENGTH('w)" using unat_u8_less [of b] by linarith
      then show ?thesis by (simp add: unsigned_ucast_eq take_bit_nat_eq_self)
    qed
    moreover have "unat s * 256 + unat b < 2 ^ LENGTH('w)"
      using bound unat_u8_less [of b] by linarith
    ultimately show ?thesis by (simp add: unat_word_ariths)
  qed
  finally show ?thesis .
qed


lemma unat_load_be_acc:
  assumes "unat s < 256 ^ k" "8 * (k + length bs) \<le> LENGTH('w::len)"
  shows "unat (foldl (\<lambda>s b. push_bit 8 s OR ucast b) (s :: 'w word) bs) =
         unat s * 256 ^ length bs + big_endian bs"
  using assms
proof (induction bs arbitrary: s k)
  case Nil
  then show ?case by simp
next
  case (Cons b bs)
  let ?s = "push_bit 8 s OR ucast b"
  have u: "unat ?s = unat s * 256 + unat b"
    using Cons.prems by (intro append_byte) auto
  have "unat s * 256 + 255 < 256 ^ Suc k" using Cons.prems(1) by simp
  then have "unat ?s < 256 ^ Suc k" using u unat_u8_less [of b] by linarith
  then have "unat (foldl (\<lambda>s b. push_bit 8 s OR ucast b) ?s bs) =
      unat ?s * 256 ^ length bs + big_endian bs"
    using Cons.prems(2) by (intro Cons.IH [of _ "Suc k"]) auto
  then show ?case by (simp add: u algebra_simps)
qed

lemma unat_load_be:
  "8 * length bs \<le> LENGTH('w::len) \<Longrightarrow> unat (load_be bs :: 'w word) = big_endian bs"
  using unat_load_be_acc [where ?'w = 'w, of 0 0 bs] by (simp add: load_be_def)

lemma big_endian_pad_short:
  "length k \<le> n \<Longrightarrow> big_endian (pad n k) = big_endian k * 256 ^ (n - length k)"
proof (induction n k rule: pad.induct)
  case (3 n b k)
  then show ?case by (simp add: algebra_simps power_add [symmetric])
qed auto

lemma pad_take: "pad n (take n k) = pad n k"
  by (induction n k rule: pad.induct) auto

lemma unat_padded_load:
  assumes "LENGTH('w::len) = 8 * n"
  shows "unat (push_bit (8 * (n - length (take n k))) (load_be (take n k)) :: 'w word) = big_endian (pad n k)"
proof -
  let ?t = "take n k"
  let ?j = "n - length ?t"
  have t: "length ?t \<le> n" by simp
  have "(2::nat) ^ (8 * ?j) = 256 ^ ?j" by (simp add: power_mult)
  then have u: "unat (load_be ?t :: 'w word) * 2 ^ (8 * ?j) = big_endian (pad n k)"
    using assms t big_endian_pad_short [OF t] by (simp add: unat_load_be pad_take)
  have "big_endian (pad n k) < 256 ^ n" using big_endian_less [of "pad n k"] by simp
  also have "(256::nat) ^ n = 2 ^ LENGTH('w)" using power_mult [of "2::nat" 8 n] assms by simp
  finally show ?thesis
    using u by (simp add: unat_push_bit del: length_take)
qed

lemma unat_surrogate: "unat (surrogate key) = big_endian (pad 4 key)"
  using unat_padded_load [where ?'w = 32, of 4 key]
  by (cases "length key < 4") (simp_all add: surrogate_def surrogate_shift_def)

lemma unat_descent_hint: "unat (descent_hint key) = big_endian (pad 8 key)"
  using unat_padded_load [where ?'w = 64, of 8 key]
  by (cases "length key < 8") (simp_all add: descent_hint_def descent_hint_shift_def)

lemma surrogate_Nil [simp]: "surrogate [] = 0"
  by (simp add: surrogate_def load_be_def)

lemma descent_hint_Nil [simp]: "descent_hint [] = 0"
  by (simp add: descent_hint_def load_be_def)

lemma surrogate_at_drop: "surrogate_at key p = surrogate (drop p key)"
  by (simp add: surrogate_at_def)

section \<open>The loads and the key order\<close>

lemma pad_mono: "a \<le> b \<Longrightarrow> pad n a \<le> pad n b"
proof (induction n arbitrary: a b)
  case 0
  then show ?case by simp
next
  case (Suc n)
  show ?case
  proof (cases b)
    case Nil
    with Suc.prems show ?thesis by simp
  next
    case (Cons y ys)
    show ?thesis
    proof (cases a)
      case Nil
      have "pad n [] \<le> pad n ys" by (rule Suc.IH) simp
      moreover have "0 \<le> y" by simp
      ultimately show ?thesis using Nil Cons by (auto simp: order.order_iff_strict)
    next
      case (Cons x xs)
      with \<open>b = y # ys\<close> Suc show ?thesis by auto
    qed
  qed
qed

lemma surrogate_mono: "a \<le> b \<Longrightarrow> surrogate a \<le> surrogate b"
  by (simp add: word_le_nat_alt unat_surrogate big_endian_le_iff pad_mono)

lemma descent_hint_mono: "a \<le> b \<Longrightarrow> descent_hint a \<le> descent_hint b"
  by (simp add: word_le_nat_alt unat_descent_hint big_endian_le_iff pad_mono)

lemma descent_hint_less: "descent_hint a < descent_hint b \<Longrightarrow> a < b"
  using descent_hint_mono [of b a] by (cases "a < b") (auto simp: not_less)

lemma pad_cong_take: "take n a = take n b \<Longrightarrow> pad n a = pad n b"
  using pad_take [of n a] pad_take [of n b] by simp

lemma descent_hint_take: "take 8 a = take 8 b \<Longrightarrow> descent_hint a = descent_hint b"
  using pad_cong_take [of 8 a b] unat_descent_hint [of a] unat_descent_hint [of b]
  by (intro unsigned_word_eqI [where ?'a = nat]) simp

lemma drop_le_same_take:
  "take p a = take p b \<Longrightarrow> p \<le> length a \<Longrightarrow> p \<le> length b \<Longrightarrow> drop p a \<le> drop p b \<longleftrightarrow> a \<le> (b :: bytes)"
proof (induction p arbitrary: a b)
  case 0
  then show ?case by simp
next
  case (Suc p)
  then show ?case by (cases a; cases b) auto
qed

lemma surrogate_at_mono:
  "take p a = take p b \<Longrightarrow> p \<le> length a \<Longrightarrow> p \<le> length b \<Longrightarrow> a \<le> b \<Longrightarrow>
   surrogate_at a p \<le> surrogate_at b p"
  by (simp add: surrogate_at_drop drop_le_same_take surrogate_mono)

section \<open>The bytewise comparison is the list order\<close>

lemma memcmp_neg:
  "n \<le> length a \<Longrightarrow> n \<le> length b \<Longrightarrow> memcmp a b n < 0 \<longleftrightarrow> take n a < take n b"
  by (induction a b n rule: memcmp.induct) (auto simp: word_less_def)

lemma memcmp_zero:
  "n \<le> length a \<Longrightarrow> n \<le> length b \<Longrightarrow> memcmp a b n = 0 \<longleftrightarrow> take n a = take n b"
  by (induction a b n rule: memcmp.induct) (auto dest: unsigned_word_eqI)

lemma take_min_less:
  "take (min (length a) (length b)) a < take (min (length a) (length b)) b \<Longrightarrow> a < (b :: bytes)"
proof (induction a arbitrary: b)
  case Nil
  then show ?case by simp
next
  case (Cons x a)
  then show ?case by (cases b) auto
qed

lemma take_min_eq:
  "take (min (length a) (length b)) a = take (min (length a) (length b)) b \<Longrightarrow>
   (a < b \<longleftrightarrow> length a < length b) \<and> (a = b \<longleftrightarrow> length a = length (b :: bytes))"
proof (induction a arbitrary: b)
  case Nil
  then show ?case by (cases b) auto
next
  case (Cons x a)
  then show ?case by (cases b) auto
qed

lemma compare_keys_min:
  "compare_keys a b =
     (let n = min (length a) (length b); c = memcmp a b n
      in if c \<noteq> 0 then c else if length a = length b then 0 else if length a < length b then - 1 else 1)"
  by (cases "length a < length b"; cases "length a"; cases "length b")
     (simp_all add: compare_keys_def Let_def min_def)

lemma compare_keys_less: "compare_keys a b < 0 \<longleftrightarrow> a < b"
proof -
  let ?n = "min (length a) (length b)"
  note neg = memcmp_neg [of ?n a b] and zero = memcmp_zero [of ?n a b]
  show ?thesis
  proof (cases "memcmp a b ?n = 0")
    case True
    then have "take ?n a = take ?n b" using zero by simp
    then show ?thesis using True take_min_eq [of a b] by (simp add: compare_keys_min Let_def)
  next
    case False
    then have c: "compare_keys a b = memcmp a b ?n" by (simp add: compare_keys_min Let_def)
    have "take ?n a \<noteq> take ?n b" using False zero by simp
    then consider "take ?n a < take ?n b" | "take ?n b < take ?n a" by (rule linorder_neqE)
    then show ?thesis
    proof cases
      case 1
      then show ?thesis using neg c take_min_less [of a b] by simp
    next
      case 2
      then have "b < a" using take_min_less [of b a] by (simp add: min.commute)
      moreover have "\<not> take ?n a < take ?n b" using 2 by (rule less_not_sym)
      ultimately show ?thesis using neg c by (auto dest: less_not_sym)
    qed
  qed
qed

lemma compare_keys_eq: "compare_keys a b = 0 \<longleftrightarrow> a = b"
  using memcmp_zero [of "min (length a) (length b)" a b] take_min_eq [of a b]
  by (auto simp: compare_keys_min Let_def split: if_splits)

lemma compare_keys_greater: "compare_keys a b > 0 \<longleftrightarrow> b < a"
  using compare_keys_less [of a b] compare_keys_eq [of a b] by (metis linorder_less_linear not_less_iff_gr_or_eq)

lemma compare_keys_le: "compare_keys a b \<le> 0 \<longleftrightarrow> a \<le> b"
  using compare_keys_greater [of a b] by (auto simp: not_less [symmetric])

lemmas compare_keys_order = compare_keys_less compare_keys_eq compare_keys_greater compare_keys_le

section \<open>The common prefix\<close>

lemma common_prefix_loop_spec:
  "i \<le> n \<Longrightarrow> take i a = take i b \<Longrightarrow> n \<le> length a \<Longrightarrow> n \<le> length b \<Longrightarrow>
   (let r = common_prefix_loop a b n i
    in i \<le> r \<and> r \<le> n \<and> take r a = take r b \<and> (r < n \<longrightarrow> a ! r \<noteq> b ! r))"
proof (induction a b n i rule: common_prefix_loop.induct)
  case (1 a b n i)
  show ?case
  proof (cases "i < n \<and> a ! i = b ! i")
    case True
    then have "take (i + 1) a = take (i + 1) b" using "1.prems" by (simp add: take_Suc_conv_app_nth)
    then have "let r = common_prefix_loop a b n (i + 1)
       in i + 1 \<le> r \<and> r \<le> n \<and> take r a = take r b \<and> (r < n \<longrightarrow> a ! r \<noteq> b ! r)"
      using "1.IH" True "1.prems" by simp
    then show ?thesis using True by (simp add: common_prefix_loop.simps [of a b n i] Let_def)
  next
    case False
    then have "common_prefix_loop a b n i = i" by (simp only: common_prefix_loop.simps [of a b n i] if_False)
    then show ?thesis using False "1.prems" by (auto simp: Let_def)
  qed
qed

lemma common_prefix_len_min:
  "common_prefix_len a b = common_prefix_loop a b (min (length a) (length b)) 0"
  by (cases "length a < length b") (simp_all add: common_prefix_len_def min_def)

lemma common_prefix_len:
  shows common_prefix_take: "take (common_prefix_len a b) a = take (common_prefix_len a b) b"
    and common_prefix_le1: "common_prefix_len a b \<le> length a"
    and common_prefix_le2: "common_prefix_len a b \<le> length b"
    and common_prefix_stop: "common_prefix_len a b < length a \<Longrightarrow> common_prefix_len a b < length b \<Longrightarrow>
      a ! common_prefix_len a b \<noteq> b ! common_prefix_len a b"
  using common_prefix_loop_spec [of 0 "min (length a) (length b)" a b]
  by (simp_all add: common_prefix_len_min Let_def)

text \<open>The longest common prefix is determined by its two properties.\<close>

lemma common_prefix_len_ge:
  assumes "take p a = take p b" "p \<le> length a" "p \<le> length b"
  shows "p \<le> common_prefix_len a b"
proof (rule ccontr)
  let ?c = "common_prefix_len a b"
  assume "\<not> p \<le> ?c"
  then have c: "?c < p" by simp
  then have "a ! ?c = b ! ?c" using assms(1) by (metis nth_take)
  with common_prefix_stop [of a b] c assms(2,3) show False by simp
qed

text \<open>Over a sorted run the prefix of the two ends is shared by everything between.\<close>

lemma take_between:
  "a \<le> k \<Longrightarrow> k \<le> b \<Longrightarrow> take p a = take p b \<Longrightarrow> p \<le> length a \<Longrightarrow> p \<le> length b \<Longrightarrow>
   take p k = take p (a :: bytes) \<and> p \<le> length k"
proof (induction p arbitrary: a k b)
  case 0
  then show ?case by simp
next
  case (Suc p)
  obtain x xs y ys where ab: "a = x # xs" "b = y # ys"
    using Suc.prems by (cases a; cases b) auto
  then obtain z zs where k: "k = z # zs" using Suc.prems(1) by (cases k) auto
  have "x = y" "take p xs = take p ys" using Suc.prems ab by auto
  moreover have "z = x" using Suc.prems(1,2) ab k \<open>x = y\<close> by auto
  ultimately show ?case using Suc.IH [of xs zs ys] Suc.prems ab k by auto
qed

section \<open>Properties\<close>

text \<open>When two lanes taken past a shared prefix differ, they order the keys: the lane a search
  compares is never wrong about strict order, only silent on ties.\<close>

theorem surrogate_orders_keys:
  assumes "take p a = take p b" "p \<le> length a" "p \<le> length b" "surrogate_at a p < surrogate_at b p"
  shows "compare_keys a b < 0"
proof -
  have "a < b"
  proof (rule ccontr)
    assume "\<not> a < b"
    then have "surrogate_at b p \<le> surrogate_at a p" using surrogate_at_mono [of p b a] assms by simp
    then show False using assms(4) by simp
  qed
  then show ?thesis by (simp add: compare_keys_less)
qed

theorem surrogate_orders_keys_witness: "compare_keys [7, 7, 1] [7, 7, 2] < 0"
  by (rule surrogate_orders_keys [of 2]) (simp_all add: surrogate_at_drop surrogate_def surrogate_shift_def load_be_def word_less_nat_alt)

text \<open>The descent hint decides a hop soundly: a strictly smaller hint means a strictly smaller key,
  and keys that agree on their first eight bytes have the same hint.\<close>

theorem descent_hint_orders_keys:
  "(descent_hint a < descent_hint b \<longrightarrow> compare_keys a b < 0) \<and> (take 8 a = take 8 b \<longrightarrow> descent_hint a = descent_hint b)"
  by (auto simp: compare_keys_less dest: descent_hint_less descent_hint_take)

theorem descent_hint_orders_keys_witness:
  "compare_keys [1] [2] < 0 \<and> descent_hint [1, 2, 3, 4, 5, 6, 7, 8, 9] = descent_hint [1, 2, 3, 4, 5, 6, 7, 8]"
  using descent_hint_orders_keys [of "[1]" "[2]"]
    descent_hint_orders_keys [of "[1, 2, 3, 4, 5, 6, 7, 8, 9]" "[1, 2, 3, 4, 5, 6, 7, 8]"]
  by (simp add: descent_hint_def descent_hint_shift_def load_be_def word_less_nat_alt)

text \<open>\<^verbatim>\<open>compare_keys\<close> is the lexicographic order on unsigned bytes with the shorter key first, a
  total order whose zero is equality.\<close>

theorem compare_keys_lexicographic:
  "(compare_keys a b < 0 \<longleftrightarrow> a < b) \<and> (compare_keys a b = 0 \<longleftrightarrow> a = b) \<and> (compare_keys a b > 0 \<longleftrightarrow> b < a)"
  by (simp add: compare_keys_order)

text \<open>\<^verbatim>\<open>common_prefix_len\<close> is the greatest length at which both keys have the same prefix.\<close>

theorem common_prefix_len_greatest:
  "p \<le> common_prefix_len a b \<longleftrightarrow> p \<le> length a \<and> p \<le> length b \<and> take p a = take p b"
proof
  assume p: "p \<le> common_prefix_len a b"
  have "take p a = take p (take (common_prefix_len a b) a)" using p by (simp add: min_def)
  also have "\<dots> = take p (take (common_prefix_len a b) b)" by (rule arg_cong [OF common_prefix_take])
  also have "\<dots> = take p b" using p by (simp add: min_def)
  finally show "p \<le> length a \<and> p \<le> length b \<and> take p a = take p b"
    using p common_prefix_le1 [of a b] common_prefix_le2 [of a b] by simp
qed (simp add: common_prefix_len_ge)

text \<open>Both final shifts stay below the word's width exactly when the key is not empty; on an empty key
  the source shifts a 32-bit word by 32 and a 64-bit word by 64.\<close>

theorem shifts_below_width_iff_nonempty:
  "(surrogate_shift key < 32 \<longleftrightarrow> key \<noteq> []) \<and> (descent_hint_shift key < 64 \<longleftrightarrow> key \<noteq> [])"
  by (cases key) (auto simp: surrogate_shift_def descent_hint_shift_def)

end
