(* ===== verification/Search.thy ===== *)
theory Search
  imports Prelude Order_Word
begin

text \<open>
  \<^verbatim>\<open>include/aparajita/search.hpp\<close>: the kernels that search one cache line, in three families
  (equality over a line, lower bound over a sorted line, lower bound over an append-only line) and
  three instruction sets, and the runtime dispatch between them.

  The vector intrinsics are modelled as the lane operations the instruction set manuals document: a
  256-bit register is the list of its eight 32-bit lanes, a 512-bit register the list of its sixteen,
  a mask register a word with one bit per lane. \<open>_mm256_cmpgt_epi32\<close> compares signed lanes, as the
  instruction does, so that the bias by \<open>0x80000000\<close> is part of what is proved.
\<close>

section \<open>Bit counting builtins and masks\<close>

text \<open>\<^verbatim>\<open>__builtin_ctz\<close>, the index of the lowest set bit; every call site has a set bit.\<close>

definition builtin_ctz :: "u32 \<Rightarrow> nat" where
  "builtin_ctz w = length (takeWhile (\<lambda>i. \<not> bit w i) [0..<32])"

definition builtin_popcount :: "u32 \<Rightarrow> nat" where
  "builtin_popcount w = length (filter (bit w) [0..<32])"

fun mask_of :: "bool list \<Rightarrow> 'w::len word" where
  "mask_of [] = 0"
| "mask_of (b # bs) = of_bool b OR push_bit 1 (mask_of bs)"

lemma bit_mask_of: "bit (mask_of bs :: 'w::len word) i \<longleftrightarrow> i < LENGTH('w) \<and> i < length bs \<and> bs ! i"
proof (induction bs arbitrary: i)
  case Nil
  then show ?case by simp
next
  case (Cons b bs)
  show ?case
    unfolding mask_of.simps bit_or_iff bit_push_bit_iff Cons.IH
    by (cases i) (auto simp: bit_of_bool_iff)
qed

section \<open>Equality kernels\<close>

definition kNotFound :: nat where "kNotFound = kNodeKeys"

function search_linear_loop :: "node \<Rightarrow> u32 \<Rightarrow> nat \<Rightarrow> nat" where
  "search_linear_loop n key i =
     (if i < kNodeKeys then if keys n ! i = key then i else search_linear_loop n key (i + 1)
      else kNotFound)"
  by pat_completeness auto
termination
  by (relation "measure (\<lambda>(n, key, i). kNodeKeys - i)") auto

declare search_linear_loop.simps [simp del]

definition search_scalar_linear :: "node \<Rightarrow> u32 \<Rightarrow> nat" where
  "search_scalar_linear n key = search_linear_loop n key 0"

definition search_scalar_autovec :: "node \<Rightarrow> u32 \<Rightarrow> nat" where
  "search_scalar_autovec n key = search_linear_loop n key 0"

definition search_scalar_branchless :: "node \<Rightarrow> u32 \<Rightarrow> nat" where
  "search_scalar_branchless n key =
     (let mask = fold (\<lambda>i mask. mask OR push_bit i (of_bool (keys n ! i = key))) [0..<kNodeKeys] 0
      in builtin_ctz (mask OR push_bit kNodeKeys 1))"

text \<open>\<open>hi\<close> starts at 15 and may step to \<open>- 1\<close>: the indices are the source's signed \<^verbatim>\<open>int\<close>.\<close>

function search_binary_loop :: "node \<Rightarrow> u32 \<Rightarrow> int \<Rightarrow> int \<Rightarrow> nat" where
  "search_binary_loop n key lo hi =
     (if lo \<le> hi then
        let mid = lo + drop_bit 1 (hi - lo); v = keys n ! nat mid
        in if v = key then nat mid
           else if v < key then search_binary_loop n key (mid + 1) hi
           else search_binary_loop n key lo (mid - 1)
      else kNotFound)"
  by pat_completeness auto
termination
  by (relation "measure (\<lambda>(n, key, lo, hi). nat (hi - lo + 1))") (auto simp: drop_bit_eq_div)

declare search_binary_loop.simps [simp del]

definition search_scalar_binary :: "node \<Rightarrow> u32 \<Rightarrow> nat" where
  "search_scalar_binary n key = search_binary_loop n key 0 (int kNodeKeys - 1)"

section \<open>AVX2 and AVX-512 lane operations\<close>

definition mm256_set1_epi32 :: "u32 \<Rightarrow> u32 list" where
  "mm256_set1_epi32 x = replicate 8 x"

definition mm256_load_si256 :: "u32 list \<Rightarrow> nat \<Rightarrow> u32 list" where
  "mm256_load_si256 line half = take 8 (drop (8 * half) line)"

definition mm256_cmpeq_epi32 :: "u32 list \<Rightarrow> u32 list \<Rightarrow> u32 list" where
  "mm256_cmpeq_epi32 = map2 (\<lambda>a b. if a = b then - 1 else 0)"

definition mm256_cmpgt_epi32 :: "u32 list \<Rightarrow> u32 list \<Rightarrow> u32 list" where
  "mm256_cmpgt_epi32 = map2 (\<lambda>a b. if sint a > sint b then - 1 else 0)"

definition mm256_xor_si256 :: "u32 list \<Rightarrow> u32 list \<Rightarrow> u32 list" where
  "mm256_xor_si256 = map2 (XOR)"

definition mm256_movemask_ps :: "u32 list \<Rightarrow> u32" where
  "mm256_movemask_ps v = mask_of (map (\<lambda>x. bit x 31) v)"

definition mm256_maskload_epi32 :: "u32 list \<Rightarrow> u32 list \<Rightarrow> u32 list" where
  "mm256_maskload_epi32 = map2 (\<lambda>x m. if bit m 31 then x else 0)"

text \<open>\<^verbatim>\<open>_mm256_blendv_epi8\<close> selects byte by byte, on the top bit of the mask byte.\<close>

definition blend_byte :: "u32 \<Rightarrow> u32 \<Rightarrow> u32 \<Rightarrow> nat \<Rightarrow> u32" where
  "blend_byte a b m j =
     push_bit (8 * j) (take_bit 8 (drop_bit (8 * j) (if bit m (8 * j + 7) then b else a)))"

definition mm256_blendv_epi8 :: "u32 list \<Rightarrow> u32 list \<Rightarrow> u32 list \<Rightarrow> u32 list" where
  "mm256_blendv_epi8 as bs ms =
     map2 (\<lambda>a (b, m). blend_byte a b m 0 OR blend_byte a b m 1 OR blend_byte a b m 2 OR blend_byte a b m 3)
       as (zip bs ms)"

type_synonym mmask16 = "16 word"

definition mm512_set1_epi32 :: "u32 \<Rightarrow> u32 list" where
  "mm512_set1_epi32 x = replicate 16 x"

definition mm512_cmpeq_epi32_mask :: "u32 list \<Rightarrow> u32 list \<Rightarrow> mmask16" where
  "mm512_cmpeq_epi32_mask as bs = mask_of (map2 (=) as bs)"

definition mm512_cmplt_epu32_mask :: "u32 list \<Rightarrow> u32 list \<Rightarrow> mmask16" where
  "mm512_cmplt_epu32_mask as bs = mask_of (map2 (<) as bs)"

definition mm512_mask_load_epi32 :: "u32 list \<Rightarrow> mmask16 \<Rightarrow> u32 list \<Rightarrow> u32 list" where
  "mm512_mask_load_epi32 src k line = map2 (\<lambda>i (s, x). if bit k i then x else s) [0..<16] (zip src line)"

lemmas intrinsic_defs = mm256_set1_epi32_def mm256_load_si256_def mm256_cmpeq_epi32_def
  mm256_cmpgt_epi32_def mm256_xor_si256_def mm256_movemask_ps_def mm256_maskload_epi32_def
  mm256_blendv_epi8_def mm512_set1_epi32_def mm512_cmpeq_epi32_mask_def
  mm512_cmplt_epu32_mask_def mm512_mask_load_epi32_def

section \<open>Vector equality kernels\<close>

definition search_avx2 :: "node \<Rightarrow> u32 \<Rightarrow> nat" where
  "search_avx2 n key =
     (let needle = mm256_set1_epi32 key;
          lo = mm256_load_si256 (keys n) 0;
          hi = mm256_load_si256 (keys n) 1;
          eq_lo = mm256_cmpeq_epi32 lo needle;
          eq_hi = mm256_cmpeq_epi32 hi needle;
          m_lo = mm256_movemask_ps eq_lo;
          m_hi = mm256_movemask_ps eq_hi;
          mask = m_lo OR push_bit 8 m_hi
      in builtin_ctz (mask OR push_bit kNodeKeys 1))"

definition search_avx512 :: "node \<Rightarrow> u32 \<Rightarrow> nat" where
  "search_avx512 n key =
     (let needle = mm512_set1_epi32 key;
          mask = mm512_cmpeq_epi32_mask (keys n) needle
      in builtin_ctz (ucast mask OR push_bit kNodeKeys 1))"

section \<open>Lower bound over a sorted line\<close>

function lower_bound_loop :: "node \<Rightarrow> u32 \<Rightarrow> nat \<Rightarrow> nat" where
  "lower_bound_loop n key i =
     (if i < kNodeKeys \<and> keys n ! i < key then lower_bound_loop n key (i + 1) else i)"
  by pat_completeness auto
termination
  by (relation "measure (\<lambda>(n, key, i). kNodeKeys - i)") auto

declare lower_bound_loop.simps [simp del]

definition lower_bound_scalar :: "node \<Rightarrow> u32 \<Rightarrow> nat" where
  "lower_bound_scalar n key = lower_bound_loop n key 0"

definition lower_bound_scalar_branchless :: "node \<Rightarrow> u32 \<Rightarrow> nat" where
  "lower_bound_scalar_branchless n key =
     fold (\<lambda>i cnt. cnt + of_bool (keys n ! i < key)) [0..<kNodeKeys] 0"

definition lower_bound_avx2 :: "node \<Rightarrow> u32 \<Rightarrow> nat" where
  "lower_bound_avx2 n key =
     (let bias = mm256_set1_epi32 0x80000000;
          needle = mm256_xor_si256 (mm256_set1_epi32 key) bias;
          lo = mm256_load_si256 (keys n) 0;
          hi = mm256_load_si256 (keys n) 1;
          lt_lo = mm256_cmpgt_epi32 needle (mm256_xor_si256 lo bias);
          lt_hi = mm256_cmpgt_epi32 needle (mm256_xor_si256 hi bias);
          m_lo = mm256_movemask_ps lt_lo;
          m_hi = mm256_movemask_ps lt_hi
      in builtin_popcount (m_lo OR push_bit 8 m_hi))"

definition lower_bound_avx512 :: "node \<Rightarrow> u32 \<Rightarrow> nat" where
  "lower_bound_avx512 n key =
     (let needle = mm512_set1_epi32 key;
          mask = mm512_cmplt_epu32_mask (keys n) needle
      in builtin_popcount (ucast mask))"

section \<open>Lower bound over an append-only line\<close>

function lower_bound_perm_loop :: "node \<Rightarrow> u32 \<Rightarrow> u64 \<Rightarrow> nat \<Rightarrow> nat \<Rightarrow> nat" where
  "lower_bound_perm_loop n key order cnt rank =
     (if rank < cnt \<and> keys n ! order_slot order rank < key
      then lower_bound_perm_loop n key order cnt (rank + 1) else rank)"
  by pat_completeness auto
termination
  by (relation "measure (\<lambda>(n, key, order, cnt, rank). cnt - rank)") auto

declare lower_bound_perm_loop.simps [simp del]

definition lower_bound_perm_scalar :: "node \<Rightarrow> u32 \<Rightarrow> u64 \<Rightarrow> nat" where
  "lower_bound_perm_scalar n key order =
     (let cnt = order_count order in lower_bound_perm_loop n key order cnt 0)"

definition lower_bound_perm_avx512 :: "node \<Rightarrow> u32 \<Rightarrow> u64 \<Rightarrow> nat" where
  "lower_bound_perm_avx512 n key order =
     (let live = ucast (push_bit (order_count order) 1 - 1 :: u32) :: mmask16;
          line = mm512_mask_load_epi32 (mm512_set1_epi32 kEmptyKey) live (keys n);
          lt = mm512_cmplt_epu32_mask line (mm512_set1_epi32 key)
      in builtin_popcount (ucast lt))"

definition lower_bound_perm_avx2 :: "node \<Rightarrow> u32 \<Rightarrow> u64 \<Rightarrow> nat" where
  "lower_bound_perm_avx2 n key order =
     (let pad = mm256_set1_epi32 kEmptyKey;
          cnt = mm256_set1_epi32 (of_nat (order_count order));
          live_lo = mm256_cmpgt_epi32 cnt [0, 1, 2, 3, 4, 5, 6, 7];
          live_hi = mm256_cmpgt_epi32 cnt [8, 9, 10, 11, 12, 13, 14, 15];
          src_lo = mm256_blendv_epi8 pad (mm256_maskload_epi32 (take 8 (keys n)) live_lo) live_lo;
          src_hi = mm256_blendv_epi8 pad (mm256_maskload_epi32 (take 8 (drop 8 (keys n))) live_hi) live_hi;
          bias = mm256_set1_epi32 0x80000000;
          needle = mm256_xor_si256 (mm256_set1_epi32 key) bias;
          lt_lo = mm256_cmpgt_epi32 needle (mm256_xor_si256 src_lo bias);
          lt_hi = mm256_cmpgt_epi32 needle (mm256_xor_si256 src_hi bias);
          m_lo = mm256_movemask_ps lt_lo;
          m_hi = mm256_movemask_ps lt_hi
      in builtin_popcount (m_lo OR push_bit 8 m_hi))"

section \<open>Runtime dispatch\<close>

datatype isa = Scalar | Avx2 | Avx512

text \<open>The compile time macro and the two CPUID answers are the arguments.\<close>

definition detect_isa :: "bool \<Rightarrow> bool \<Rightarrow> bool \<Rightarrow> isa" where
  "detect_isa x86 has_avx512f has_avx2 =
     (if x86 then if has_avx512f then Avx512 else if has_avx2 then Avx2 else Scalar else Scalar)"

fun isa_name :: "isa \<Rightarrow> string" where
  "isa_name Avx512 = ''avx512f''"
| "isa_name Avx2 = ''avx2''"
| "isa_name Scalar = ''scalar''"

fun lower_bound_dispatch :: "isa \<Rightarrow> node \<Rightarrow> u32 \<Rightarrow> nat" where
  "lower_bound_dispatch Avx512 = lower_bound_avx512"
| "lower_bound_dispatch Avx2 = lower_bound_avx2"
| "lower_bound_dispatch Scalar = lower_bound_scalar_branchless"

fun lower_bound_perm_dispatch :: "isa \<Rightarrow> node \<Rightarrow> u32 \<Rightarrow> u64 \<Rightarrow> nat" where
  "lower_bound_perm_dispatch Avx512 = lower_bound_perm_avx512"
| "lower_bound_perm_dispatch Avx2 = lower_bound_perm_avx2"
| "lower_bound_perm_dispatch Scalar = lower_bound_perm_scalar"

fun search_dispatch :: "isa \<Rightarrow> node \<Rightarrow> u32 \<Rightarrow> nat" where
  "search_dispatch Avx512 = search_avx512"
| "search_dispatch Avx2 = search_avx2"
| "search_dispatch Scalar = search_scalar_branchless"


section \<open>Masks and counts\<close>

lemma popcount_mask:
  assumes "\<And>i. i < 32 \<Longrightarrow> bit w i \<longleftrightarrow> i < length bs \<and> bs ! i" "length bs \<le> 32"
  shows "builtin_popcount w = length (filter (\<lambda>b. b) bs)"
proof -
  have "filter (bit w) [0..<32] = filter (\<lambda>i. i < length bs \<and> bs ! i) [0..<32]"
    using assms(1) by (intro filter_cong) auto
  also have "\<dots> = filter (\<lambda>i. bs ! i) [0..<length bs]"
  proof -
    have "[0..<32] = [0..<length bs] @ [length bs..<32]"
      using assms(2) upt_add_eq_append [of 0 "length bs" "32 - length bs"] by simp
    then show ?thesis by (simp add: filter_False) (metis (mono_tags, lifting) filter_cong atLeastLessThan_iff set_upt)
  qed
  also have "length \<dots> = length (filter (\<lambda>b. b) (map ((!) bs) [0..<length bs]))"
    by (simp add: filter_map comp_def)
  finally show ?thesis by (simp add: builtin_popcount_def map_nth)
qed

lemma ctz_lowest:
  assumes "bit w r" "r < 32" "\<And>i. i < r \<Longrightarrow> \<not> bit w i"
  shows "builtin_ctz w = r"
proof -
  have "[0..<32] = [0..<r] @ r # [Suc r..<32]"
    using assms(2) upt_add_eq_append [of 0 r "32 - r"] by (simp add: upt_conv_Cons)
  moreover have "takeWhile (\<lambda>i. \<not> bit w i) ([0..<r] @ r # [Suc r..<32]) = [0..<r]"
    using assms(1,3) by (subst takeWhile_append2) auto
  ultimately show ?thesis by (simp add: builtin_ctz_def)
qed

lemma ctz_mask:
  assumes bits: "\<And>i. i < 32 \<Longrightarrow> bit w i \<longleftrightarrow> i < length bs \<and> bs ! i" and "length bs = kNodeKeys"
  shows "builtin_ctz (w OR push_bit kNodeKeys 1) = length (takeWhile Not bs)"
proof (rule ctz_lowest)
  let ?r = "length (takeWhile Not bs)"
  have r: "?r \<le> 16" using assms(2) length_takeWhile_le [of Not bs] by (simp add: node_consts)
  then show "?r < 32" by simp
  have w: "bit (w OR push_bit kNodeKeys 1) i \<longleftrightarrow> i < length bs \<and> bs ! i \<or> i = 16" if "i < 32" for i
    unfolding bit_or_iff bit_push_bit_iff using bits [OF that] that by (auto simp: node_consts bit_1_iff)
  show "bit (w OR push_bit kNodeKeys 1) ?r"
  proof (cases "?r = 16")
    case True
    then show ?thesis by (simp only: w) simp
  next
    case False
    then have "?r < length bs" using r assms(2) by (simp add: node_consts)
    then have "bs ! ?r" using nth_length_takeWhile [of Not bs] by simp
    then show ?thesis using \<open>?r < 32\<close> \<open>?r < length bs\<close> by (simp only: w simp_thms)
  qed
  fix i
  assume i: "i < ?r"
  then have "\<not> bs ! i" using nth_mem [OF i] set_takeWhileD [of _ Not bs] takeWhile_nth [OF i] by metis
  then show "\<not> bit (w OR push_bit kNodeKeys 1) i" using i r by (simp only: w) simp
qed

section \<open>The lanes of a vector compare\<close>

lemma node_halves: "node_wf n \<Longrightarrow> take 8 (keys n) @ take 8 (drop 8 (keys n)) = keys n"
  by (simp add: node_wf_def node_consts)

text \<open>Two eight bit movemasks glued at bit 8 are the mask of the sixteen lanes.\<close>

lemma bit_glued_masks:
  assumes "length as = 8" "length bs = 8" "i < 32"
  shows "bit (mask_of as OR push_bit 8 (mask_of bs) :: u32) i \<longleftrightarrow> i < length (as @ bs) \<and> (as @ bs) ! i"
  unfolding bit_or_iff bit_push_bit_iff bit_mask_of using assms
  by (auto simp: nth_append)

lemma bit_all_ones [simp]: "bit (- 1 :: u32) 31"
  by simp

lemma xor_top_bit: "(w XOR 0x80000000 :: u32) + 0x80000000 = w"
proof -
  have top: "bit (0x80000000 :: u32) i \<longleftrightarrow> i = 31" for i
  proof -
    have "(0x80000000 :: u32) = push_bit 31 1" by simp
    then show ?thesis by (simp only: bit_push_bit_iff bit_1_iff) auto
  qed
  have flip: "bit (w XOR 0x80000000 :: u32) i \<longleftrightarrow> (if i = 31 then \<not> bit w 31 else bit w i)" for i
    using top [of i] by (cases "i = 31") (simp_all only: bit_xor_iff, auto)
  have join: "bit (x OR 0x80000000 :: u32) i \<longleftrightarrow> i = 31 \<or> bit x i" for x i
    using top [of i] by (simp only: bit_or_iff) auto
  show ?thesis
  proof (cases "bit w 31")
    case True
    have "\<not> bit (w XOR 0x80000000) i \<or> \<not> bit (0x80000000 :: u32) i" for i
      using top [of i] flip [of i] True by metis
    then have "(w XOR 0x80000000) + 0x80000000 = (w XOR 0x80000000) OR (0x80000000 :: u32)"
      by (rule disjunctive_add)
    also have "\<dots> = w"
      by (rule bit_word_eqI) (simp only: join flip, use True in auto)
    finally show ?thesis .
  next
    case False
    have "\<not> bit w i \<or> \<not> bit (0x80000000 :: u32) i" for i
      using top [of i] False by metis
    then have "w + 0x80000000 = w OR (0x80000000 :: u32)"
      by (rule disjunctive_add)
    moreover have "w XOR 0x80000000 = w OR (0x80000000 :: u32)"
      by (rule bit_word_eqI) (simp only: join flip, use False in auto)
    ultimately have "w XOR 0x80000000 = w + 0x80000000" by simp
    then show ?thesis by simp
  qed
qed

lemma sint_bias: "sint (w XOR 0x80000000 :: u32) = uint w - 2 ^ 31"
proof -
  let ?v = "w XOR 0x80000000 :: u32"
  have "sint ?v = take_bit 32 (uint ?v + 2 ^ 31) - 2 ^ 31"
    by (simp add: sint_uint signed_take_bit_eq_take_bit_shift)
  also have "take_bit 32 (uint ?v + 2 ^ 31) = uint (?v + 0x80000000)"
    by (simp add: uint_word_ariths take_bit_eq_mod)
  finally show ?thesis by (simp add: xor_top_bit)
qed

text \<open>Biasing both sides turns the signed compare into the unsigned one.\<close>

lemma biased_less: "sint (a XOR 0x80000000 :: u32) < sint (b XOR 0x80000000) \<longleftrightarrow> a < b"
  by (simp add: sint_bias word_less_def)


lemma movemask_biased:
  "length xs = 8 \<Longrightarrow>
   mm256_movemask_ps (mm256_cmpgt_epi32 (mm256_xor_si256 (mm256_set1_epi32 key) (mm256_set1_epi32 0x80000000))
     (mm256_xor_si256 xs (mm256_set1_epi32 0x80000000))) = mask_of (map (\<lambda>x. x < key) xs)"
  unfolding intrinsic_defs
  by (rule arg_cong [where f = mask_of]) (rule nth_equalityI, auto simp: biased_less)

lemma movemask_eq:
  "length xs = 8 \<Longrightarrow>
   mm256_movemask_ps (mm256_cmpeq_epi32 xs (mm256_set1_epi32 key)) = mask_of (map (\<lambda>x. x = key) xs)"
  unfolding intrinsic_defs
  by (rule arg_cong [where f = mask_of]) (rule nth_equalityI, auto)

lemma load_halves:
  assumes "node_wf n"
  shows "length (mm256_load_si256 (keys n) 0) = 8" "length (mm256_load_si256 (keys n) 1) = 8"
    "mm256_load_si256 (keys n) 0 @ mm256_load_si256 (keys n) 1 = keys n"
  using assms node_halves [OF assms] by (simp_all add: mm256_load_si256_def node_wf_def node_consts)

lemma mm512_masks:
  "length xs = 16 \<Longrightarrow> mm512_cmpeq_epi32_mask xs (mm512_set1_epi32 key) = mask_of (map (\<lambda>x. x = key) xs)"
  "length xs = 16 \<Longrightarrow> mm512_cmplt_epu32_mask xs (mm512_set1_epi32 key) = mask_of (map (\<lambda>x. x < key) xs)"
  unfolding intrinsic_defs
  by (rule arg_cong [where f = mask_of], rule nth_equalityI; simp)+

lemma bit_ucast_mask16:
  "length bs = 16 \<Longrightarrow> i < 32 \<Longrightarrow> bit (ucast (mask_of bs :: mmask16) :: u32) i \<longleftrightarrow> i < length bs \<and> bs ! i"
  by (auto simp: bit_ucast_iff bit_mask_of)

section \<open>What the equality kernels compute\<close>

lemma search_linear_loop_eq:
  "node_wf n \<Longrightarrow> i \<le> kNodeKeys \<Longrightarrow>
   search_linear_loop n key i = i + length (takeWhile (\<lambda>x. x \<noteq> key) (drop i (keys n)))"
proof (induction n key i rule: search_linear_loop.induct)
  case (1 n key i)
  show ?case
  proof (cases "i < kNodeKeys")
    case True
    then have "drop i (keys n) = keys n ! i # drop (i + 1) (keys n)"
      using "1.prems" by (simp add: node_wf_def Cons_nth_drop_Suc)
    then show ?thesis using True "1" by (simp add: search_linear_loop.simps [of n key i])
  next
    case False
    then have "search_linear_loop n key i = kNotFound" by (subst search_linear_loop.simps) simp
    then show ?thesis using False "1.prems" by (simp add: kNotFound_def node_wf_def)
  qed
qed

lemma search_scalar_linear_first [kernel_simps]:
  "node_wf n \<Longrightarrow> search_scalar_linear n key = length (takeWhile (\<lambda>x. x \<noteq> key) (keys n))"
  by (simp add: search_scalar_linear_def search_linear_loop_eq)

lemma takeWhile_not_map: "length (takeWhile Not (map P xs)) = length (takeWhile (\<lambda>x. \<not> P x) xs)"
  by (induction xs) auto

lemma bit_branchless_mask:
  "m \<le> 32 \<Longrightarrow> i < 32 \<Longrightarrow>
   bit (fold (\<lambda>i mask. mask OR push_bit i (of_bool (P i))) [0..<m] (0::u32)) i \<longleftrightarrow> i < m \<and> P i"
proof (induction m)
  case 0
  then show ?case by simp
next
  case (Suc m)
  have "bit (push_bit m (of_bool (P m)) :: u32) i \<longleftrightarrow> i = m \<and> P m"
    unfolding bit_push_bit_iff using Suc.prems by (auto simp: bit_of_bool_iff)
  then show ?case using Suc by (auto simp: bit_or_iff less_Suc_eq)
qed

lemma search_scalar_branchless_first [kernel_simps]:
  assumes "node_wf n"
  shows "search_scalar_branchless n key = length (takeWhile (\<lambda>x. x \<noteq> key) (keys n))"
proof -
  let ?bs = "map (\<lambda>x. x = key) (keys n)"
  have "length ?bs = kNodeKeys" using assms by (simp add: node_wf_def)
  then have "search_scalar_branchless n key = length (takeWhile Not ?bs)"
    unfolding search_scalar_branchless_def Let_def
    by (intro ctz_mask) (auto simp: bit_branchless_mask node_consts)
  then show ?thesis by (simp add: takeWhile_not_map)
qed

lemma search_avx2_first [kernel_simps]:
  assumes "node_wf n"
  shows "search_avx2 n key = length (takeWhile (\<lambda>x. x \<noteq> key) (keys n))"
proof -
  let ?lo = "mm256_load_si256 (keys n) 0" and ?hi = "mm256_load_si256 (keys n) 1"
  note h = load_halves [OF assms]
  let ?bs = "map (\<lambda>x. x = key) ?lo @ map (\<lambda>x. x = key) ?hi"
  have bs: "?bs = map (\<lambda>x. x = key) (keys n)" using h(3) by (metis map_append)
  have "search_avx2 n key = length (takeWhile Not ?bs)"
    unfolding search_avx2_def Let_def movemask_eq [OF h(1)] movemask_eq [OF h(2)]
    by (rule ctz_mask) (use h in \<open>simp_all add: bit_glued_masks node_consts del: map_append\<close>)
  then show ?thesis unfolding bs by (simp add: takeWhile_not_map)
qed

lemma search_avx512_first [kernel_simps]:
  assumes "node_wf n"
  shows "search_avx512 n key = length (takeWhile (\<lambda>x. x \<noteq> key) (keys n))"
proof -
  have len: "length (keys n) = 16" using assms by (simp add: node_wf_def node_consts)
  have "search_avx512 n key = length (takeWhile Not (map (\<lambda>x. x = key) (keys n)))"
    unfolding search_avx512_def Let_def mm512_masks [OF len]
    by (rule ctz_mask) (use len in \<open>simp_all add: bit_ucast_mask16 node_consts\<close>)
  then show ?thesis by (simp add: takeWhile_not_map)
qed


lemma search_binary_loop_spec:
  assumes "node_wf n" "sorted (keys n)" "0 \<le> lo" "hi < int kNodeKeys" "- 1 \<le> hi"
    and "\<forall>i. int i < lo \<longrightarrow> keys n ! i < key"
    and "\<forall>i < kNodeKeys. hi < int i \<longrightarrow> key < keys n ! i"
  shows "(let r = search_binary_loop n key lo hi
          in if key \<in> set (keys n) then r < kNodeKeys \<and> keys n ! r = key else r = kNotFound)"
  using assms
proof (induction n key lo hi rule: search_binary_loop.induct)
  case (1 n key lo hi)
  let ?mid = "lo + drop_bit 1 (hi - lo)"
  let ?v = "keys n ! nat ?mid"
  have len: "length (keys n) = kNodeKeys" using "1.prems"(1) by (simp add: node_wf_def)
  have mono: "keys n ! i \<le> keys n ! j" if "i \<le> j" "j < kNodeKeys" for i j
    using sorted_nth_mono [OF "1.prems"(2) that(1)] that(2) len by simp
  show ?case
  proof (cases "lo \<le> hi")
    case True
    then have mid: "lo \<le> ?mid" "?mid \<le> hi" by (simp_all add: drop_bit_eq_div)
    then have midn: "nat ?mid < kNodeKeys" using "1.prems"(3,4) by linarith
    consider "?v = key" | "?v < key" | "key < ?v" by (rule linorder_less_linear [THEN disjE]) auto
    then show ?thesis
    proof cases
      case 1
      then have "search_binary_loop n key lo hi = nat ?mid"
        using True by (simp add: search_binary_loop.simps [of n key lo hi] Let_def)
      moreover have "key \<in> set (keys n)" using 1 midn len nth_mem by metis
      ultimately show ?thesis using 1 midn by simp
    next
      case 2
      then have ne: "?v \<noteq> key" by simp
      then have r: "search_binary_loop n key lo hi = search_binary_loop n key (?mid + 1) hi"
        using True 2 by (simp add: search_binary_loop.simps [of n key lo hi] Let_def)
      have "keys n ! i < key" if "int i < ?mid + 1" for i
      proof -
        have "i \<le> nat ?mid" using that "1.prems"(3) mid(1) by linarith
        from mono [OF this midn] 2 show ?thesis by (rule order.strict_trans1)
      qed
      then show ?thesis unfolding r using "1.IH"(1) [OF True refl refl _ 2] 2 "1.prems" mid by fastforce
    next
      case 3
      then have r: "search_binary_loop n key lo hi = search_binary_loop n key lo (?mid - 1)"
        using True by (auto simp: search_binary_loop.simps [of n key lo hi] Let_def)
      have "key < keys n ! i" if "i < kNodeKeys" "?mid - 1 < int i" for i
      proof -
        have "nat ?mid \<le> i" using that by linarith
        from 3 mono [OF this that(1)] show ?thesis by (rule order.strict_trans2)
      qed
      then show ?thesis unfolding r using "1.IH"(2) [OF True refl refl] 3 "1.prems" mid by fastforce
    qed
  next
    case False
    then have r: "search_binary_loop n key lo hi = kNotFound" by (subst search_binary_loop.simps) simp
    have "key \<notin> set (keys n)"
    proof
      assume "key \<in> set (keys n)"
      then obtain i where i: "i < kNodeKeys" "keys n ! i = key" using len by (auto simp: in_set_conv_nth)
      have "int i < lo \<or> hi < int i" using False by linarith
      then show False using i "1.prems"(6,7) by auto
    qed
    then show ?thesis using r by simp
  qed
qed

lemma search_scalar_binary_spec:
  assumes "node_wf n" "sorted (keys n)"
  shows "if key \<in> set (keys n) then search_scalar_binary n key < kNodeKeys \<and> keys n ! search_scalar_binary n key = key
         else search_scalar_binary n key = kNotFound"
  using search_binary_loop_spec [OF assms, of 0 "int kNodeKeys - 1" key]
  by (simp add: search_scalar_binary_def Let_def)

section \<open>What the lower bound kernels compute\<close>

lemma lower_bound_loop_eq:
  "node_wf n \<Longrightarrow> i \<le> kNodeKeys \<Longrightarrow>
   lower_bound_loop n key i = i + length (takeWhile (\<lambda>x. x < key) (drop i (keys n)))"
proof (induction n key i rule: lower_bound_loop.induct)
  case (1 n key i)
  show ?case
  proof (cases "i < kNodeKeys")
    case True
    then have "drop i (keys n) = keys n ! i # drop (i + 1) (keys n)"
      using "1.prems" by (simp add: node_wf_def Cons_nth_drop_Suc)
    then show ?thesis using True "1" by (simp add: lower_bound_loop.simps [of n key i])
  next
    case False
    then have "lower_bound_loop n key i = i" by (subst lower_bound_loop.simps) simp
    then show ?thesis using False "1.prems" by (simp add: node_wf_def)
  qed
qed

lemma lower_bound_scalar_eq [kernel_simps]:
  "node_wf n \<Longrightarrow> lower_bound_scalar n key = lower_bound_of (\<lambda>x. x < key) (keys n)"
  by (simp add: lower_bound_scalar_def lower_bound_loop_eq lower_bound_of_def)

lemma fold_count: "fold (\<lambda>i c. c + of_bool (P i)) xs (c::nat) = c + length (filter P xs)"
  by (induction xs arbitrary: c) auto

lemma filter_nth_upt: "length (filter (\<lambda>i. P (xs ! i)) [0..<length xs]) = length (filter P xs)"
proof -
  have "length (filter P (map ((!) xs) [0..<length xs])) = length (filter (\<lambda>i. P (xs ! i)) [0..<length xs])"
    by (simp add: filter_map comp_def)
  then show ?thesis by (simp add: map_nth)
qed

lemma lower_bound_scalar_branchless_count [kernel_simps]:
  "node_wf n \<Longrightarrow> lower_bound_scalar_branchless n key = length (filter (\<lambda>x. x < key) (keys n))"
  using filter_nth_upt [of "\<lambda>x. x < key" "keys n"]
  by (simp add: lower_bound_scalar_branchless_def fold_count node_wf_def)

lemma length_filter_map_id: "length (filter (\<lambda>b. b) (map P xs)) = length (filter P xs)"
  by (simp add: filter_map comp_def)

lemma popcount_glued:
  assumes "length lo = 8" "length hi = 8"
  shows "builtin_popcount (mask_of (map P lo) OR push_bit 8 (mask_of (map P hi))) = length (filter P (lo @ hi))"
proof -
  have "builtin_popcount (mask_of (map P lo) OR push_bit 8 (mask_of (map P hi))) =
      length (filter (\<lambda>b. b) (map P lo @ map P hi))"
    using assms by (intro popcount_mask) (simp_all add: bit_glued_masks)
  then show ?thesis by (simp add: length_filter_map_id comp_def)
qed

lemma popcount_mask16:
  "length xs = 16 \<Longrightarrow> builtin_popcount (ucast (mask_of (map P xs) :: mmask16)) = length (filter P xs)"
  using popcount_mask [of "ucast (mask_of (map P xs) :: mmask16)" "map P xs"]
  by (simp add: bit_ucast_mask16 length_filter_map_id comp_def)

lemma lower_bound_avx2_count [kernel_simps]:
  assumes "node_wf n"
  shows "lower_bound_avx2 n key = length (filter (\<lambda>x. x < key) (keys n))"
  using load_halves [OF assms]
  by (simp add: lower_bound_avx2_def Let_def movemask_biased popcount_glued del: filter_append)

lemma lower_bound_avx512_count [kernel_simps]:
  "node_wf n \<Longrightarrow> lower_bound_avx512 n key = length (filter (\<lambda>x. x < key) (keys n))"
  by (simp add: lower_bound_avx512_def Let_def mm512_masks popcount_mask16 node_wf_def node_consts)

lemma sorted_below_prefix:
  "sorted xs \<Longrightarrow> i < j \<Longrightarrow> j < length xs \<Longrightarrow> xs ! j < key \<Longrightarrow> xs ! i < (key :: u32)"
  using sorted_nth_mono [of xs i j] by (simp add: order.strict_trans1)

lemma lower_bound_sorted_count:
  "sorted xs \<Longrightarrow> lower_bound_of (\<lambda>x. x < (key :: u32)) xs = length (filter (\<lambda>x. x < key) xs)"
  by (rule lower_bound_of_filter) (rule sorted_below_prefix)


section \<open>Lower bound over an append-only line\<close>

text \<open>
  The slots in rank order are a permutation of the used slots, which are \<open>0..<count\<close> because
  slots are consumed in order.
\<close>

definition slot_perm :: "nat list \<Rightarrow> bool" where
  "slot_perm ss \<longleftrightarrow> length ss \<le> kNodeCapacity \<and> mset ss = mset [0..<length ss]"

lemma slot_perm_set: "slot_perm ss \<Longrightarrow> set ss = {0..<length ss}"
  unfolding slot_perm_def by (metis atLeastLessThan_upt mset_eq_setD)

lemma slot_perm_distinct: "slot_perm ss \<Longrightarrow> distinct ss"
  unfolding slot_perm_def by (metis distinct_upt mset_eq_imp_distinct_iff)

lemma slot_perm_less: "slot_perm ss \<Longrightarrow> r < length ss \<Longrightarrow> ss ! r < length ss"
  using slot_perm_set [of ss] nth_mem by fastforce

lemma slot_perm_length: "slot_perm ss \<Longrightarrow> length ss \<le> 15"
  by (simp add: slot_perm_def node_consts)

lemma slot_perm_packable: "slot_perm ss \<Longrightarrow> packable ss"
  using slot_perm_set [of ss] slot_perm_length [of ss] by (auto simp: packable_def node_consts)

lemma slot_perm_Nil [simp]: "slot_perm []"
  by (simp add: slot_perm_def)

lemma slot_perm_upt: "n \<le> kNodeCapacity \<Longrightarrow> slot_perm [0..<n]"
  by (simp add: slot_perm_def)

lemma slot_perm_ins_at:
  "slot_perm ss \<Longrightarrow> length ss < kNodeCapacity \<Longrightarrow> slot_perm (ins_at r (length ss) ss)"
  by (simp add: slot_perm_def)

lemma slot_perm_map_mset:
  assumes "slot_perm ss" "length ss \<le> length xs"
  shows "mset (map ((!) xs) ss) = mset (take (length ss) xs)"
proof -
  have "mset (map ((!) xs) ss) = image_mset ((!) xs) (mset [0..<length ss])"
    using assms(1) by (simp add: slot_perm_def)
  also have "\<dots> = mset (map ((!) xs) [0..<length ss])" by (simp only: mset_map)
  also have "map ((!) xs) [0..<length ss] = take (length ss) xs"
    using assms(2) by (metis map_nth min.absorb2 take_map take_upt add_0)
  finally show ?thesis .
qed

lemma length_filter_mset: "mset xs = mset ys \<Longrightarrow> length (filter P xs) = length (filter P ys)"
  by (metis mset_filter size_mset)

text \<open>The lanes of the keys in rank order.\<close>

definition rank_lanes :: "node \<Rightarrow> nat list \<Rightarrow> u32 list" where
  "rank_lanes n ss = map ((!) (keys n)) ss"

lemma lower_bound_perm_loop_eq:
  assumes "packable ss" "length ss < 16"
  shows "rank \<le> length ss \<Longrightarrow> lower_bound_perm_loop n key (encode ss) (length ss) rank =
    rank + length (takeWhile (\<lambda>x. x < key) (drop rank (rank_lanes n ss)))"
proof (induction "length ss - rank" arbitrary: rank)
  case 0
  then have "lower_bound_perm_loop n key (encode ss) (length ss) rank = rank"
    by (subst lower_bound_perm_loop.simps) simp
  then show ?case using 0 by (simp add: rank_lanes_def)
next
  case (Suc m)
  then have r: "rank < length ss" by simp
  then have d: "drop rank (rank_lanes n ss) = keys n ! (ss ! rank) # drop (rank + 1) (rank_lanes n ss)"
    by (simp add: rank_lanes_def Cons_nth_drop_Suc [symmetric])
  have o: "order_slot (encode ss) rank = ss ! rank"
    using assms r by (simp add: order_slot_encode)
  show ?case
    using Suc.hyps(1) [of "rank + 1"] Suc.hyps(2) r
    by (simp add: lower_bound_perm_loop.simps [of n key _ _ rank] o d)
qed

lemma lower_bound_perm_scalar_eq [kernel_simps]:
  "slot_perm ss \<Longrightarrow> lower_bound_perm_scalar n key (encode ss) = lower_bound_of (\<lambda>x. x < key) (rank_lanes n ss)"
  using slot_perm_packable [of ss] slot_perm_length [of ss]
  by (simp add: lower_bound_perm_scalar_def lower_bound_perm_loop_eq order_count_encode lower_bound_of_def)

text \<open>A dead lane holds \<open>kEmptyKey\<close>, which is below no key.\<close>

lemma not_less_kEmptyKey [simp]: "\<not> kEmptyKey < key"
proof -
  have "key \<le> - 1" by (rule word_order.extremum)
  also have "- 1 = kEmptyKey" by (simp add: kEmptyKey_def)
  finally show ?thesis by (simp add: not_less)
qed

lemma filter_live:
  "length xs = 16 \<Longrightarrow> m \<le> 16 \<Longrightarrow>
   filter (\<lambda>x. x < key) (map2 (\<lambda>i x. if i < m then x else kEmptyKey) [0..<16] xs) =
   filter (\<lambda>x. x < key) (take m xs)"
proof -
  assume a: "length xs = 16" "m \<le> 16"
  have "map2 (\<lambda>i x. if i < m then x else kEmptyKey) [0..<16] xs = take m xs @ replicate (16 - m) kEmptyKey"
    using a by (intro nth_equalityI) (auto simp: nth_append)
  then show ?thesis by simp
qed

lemma bit_live_mask: "m \<le> 16 \<Longrightarrow> i < 16 \<Longrightarrow> bit (ucast (2 ^ m - 1 :: u32) :: mmask16) i \<longleftrightarrow> i < m"
proof -
  have "2 ^ m - 1 = (mask m :: u32)" by (simp add: mask_eq_exp_minus_1)
  then show "m \<le> 16 \<Longrightarrow> i < 16 \<Longrightarrow> ?thesis" by (simp add: bit_ucast_iff bit_mask_iff)
qed

lemma lower_bound_perm_avx512_count [kernel_simps]:
  assumes "node_wf n" "slot_perm ss"
  shows "lower_bound_perm_avx512 n key (encode ss) = length (filter (\<lambda>x. x < key) (take (length ss) (keys n)))"
proof -
  let ?m = "length ss"
  have m: "?m \<le> 16" and c: "order_count (encode ss) = ?m"
    using slot_perm_length [OF assms(2)] slot_perm_packable [OF assms(2)] by (auto simp: order_count_encode)
  have len: "length (keys n) = 16" using assms(1) by (simp add: node_wf_def node_consts)
  let ?live = "ucast (push_bit ?m 1 - 1 :: u32) :: mmask16"
  have line: "mm512_mask_load_epi32 (mm512_set1_epi32 kEmptyKey) ?live (keys n) =
      map2 (\<lambda>i x. if i < ?m then x else kEmptyKey) [0..<16] (keys n)"
    unfolding intrinsic_defs using len m
    by (intro nth_equalityI) (simp_all add: bit_live_mask)
  have lanes: "length (map2 (\<lambda>i x. if i < ?m then x else kEmptyKey) [0..<16] (keys n)) = 16"
    using len by simp
  show ?thesis
    unfolding lower_bound_perm_avx512_def Let_def c line mm512_masks(2) [OF lanes]
      popcount_mask16 [OF lanes] filter_live [OF len m] ..
qed

text \<open>AVX2 builds the live mask by a signed compare of the count against the lane numbers.\<close>

lemma sint_small: "k < 2 ^ 31 \<Longrightarrow> sint (of_nat k :: u32) = int k"
  by (simp add: sint_uint unsigned_of_nat take_bit_nat_eq_self signed_take_bit_eq_if_positive
      take_bit_int_eq_self bit_iff_odd)

lemma live_half:
  "m \<le> 16 \<Longrightarrow> b \<le> 8 \<Longrightarrow>
   mm256_cmpgt_epi32 (mm256_set1_epi32 (of_nat m)) (map of_nat [b..<b + 8]) =
   map (\<lambda>i. if i < m then - 1 else 0) [b..<b + 8]"
  unfolding intrinsic_defs
  by (intro nth_equalityI) (auto simp: sint_small simp del: of_nat_add)

lemma bit_blend_byte:
  "bit (blend_byte a b m j) i \<longleftrightarrow> i < 32 \<and> 8 * j \<le> i \<and> i < 8 * j + 8 \<and> bit (if bit m (8 * j + 7) then b else a) i"
  unfolding blend_byte_def bit_push_bit_iff bit_take_bit_iff bit_drop_bit_eq
  by (auto simp: bit_imp_le_length)

lemma blend_lane:
  "blend_byte a b (- 1) 0 OR blend_byte a b (- 1) 1 OR blend_byte a b (- 1) 2 OR blend_byte a b (- 1) 3 = b"
  "blend_byte a b 0 0 OR blend_byte a b 0 1 OR blend_byte a b 0 2 OR blend_byte a b 0 3 = a"
  by (rule bit_word_eqI; unfold bit_or_iff bit_blend_byte; simp; linarith)+

lemma blend_live:
  assumes "length xs = 8"
  shows "mm256_blendv_epi8 (mm256_set1_epi32 pad)
           (mm256_maskload_epi32 xs (map (\<lambda>i. if i < m then - 1 else 0) [b..<b + 8]))
           (map (\<lambda>i. if i < m then - 1 else 0) [b..<b + 8]) =
         map2 (\<lambda>i x. if i < m then x else pad) [b..<b + 8] xs"
  unfolding intrinsic_defs using assms
  by (intro nth_equalityI) (simp_all add: blend_lane del: One_nat_def)

lemma lower_bound_perm_avx2_count [kernel_simps]:
  assumes "node_wf n" "slot_perm ss"
  shows "lower_bound_perm_avx2 n key (encode ss) = length (filter (\<lambda>x. x < key) (take (length ss) (keys n)))"
proof -
  let ?m = "length ss"
  have m: "?m \<le> 16" and c: "order_count (encode ss) = ?m"
    using slot_perm_length [OF assms(2)] slot_perm_packable [OF assms(2)] by (auto simp: order_count_encode)
  have len: "length (keys n) = 16" using assms(1) by (simp add: node_wf_def node_consts)
  let ?lo = "take 8 (keys n)" and ?hi = "take 8 (drop 8 (keys n))"
  have ll: "length ?lo = 8" "length ?hi = 8" using len by simp_all
  have idx: "[0, 1, 2, 3, 4, 5, 6, 7] = map (of_nat :: nat \<Rightarrow> u32) [0..<0 + 8]"
    "[8, 9, 10, 11, 12, 13, 14, 15] = map (of_nat :: nat \<Rightarrow> u32) [8..<8 + 8]"
    by (simp_all add: upt_rec)
  let ?f = "\<lambda>i x. if i < ?m then x else kEmptyKey"
  have fl: "length (map2 ?f [0..<0 + 8] ?lo) = 8" "length (map2 ?f [8..<8 + 8] ?hi) = 8"
    using ll by simp_all
  have "lower_bound_perm_avx2 n key (encode ss) =
      length (filter (\<lambda>x. x < key) (map2 ?f [0..<0 + 8] ?lo @ map2 ?f [8..<8 + 8] ?hi))"
    unfolding lower_bound_perm_avx2_def Let_def c idx live_half [OF m le0] live_half [OF m order_refl]
      blend_live [OF ll(1)] blend_live [OF ll(2)] movemask_biased [OF fl(1)] movemask_biased [OF fl(2)]
      popcount_glued [OF fl] ..
  also have "map2 ?f [0..<0 + 8] ?lo @ map2 ?f [8..<8 + 8] ?hi = map2 ?f [0..<16] (keys n)"
  proof -
    have "[0..<16] = [0..<0 + 8] @ [8..<8 + 8]" by (simp add: upt_rec)
    moreover have "zip ([0..<0 + 8] @ [8..<8 + 8]) (?lo @ ?hi) = zip [0..<0 + 8] ?lo @ zip [8..<8 + 8] ?hi"
      using ll by (intro zip_append) simp
    ultimately show ?thesis by (simp only: node_halves [OF assms(1)] map_append)
  qed
  finally show ?thesis using filter_live [OF len m] by simp
qed


section \<open>The kernel interfaces\<close>

text \<open>What a caller of an equality kernel relies on: the first matching slot, or \<open>kNotFound\<close>.\<close>

locale eq_kernel =
  fixes kernel :: "node \<Rightarrow> u32 \<Rightarrow> nat"
  assumes first_slot: "node_wf n \<Longrightarrow> kernel n key = length (takeWhile (\<lambda>x. x \<noteq> key) (keys n))"
begin

lemma agrees_with_reference: "node_wf n \<Longrightarrow> kernel n key = search_scalar_linear n key"
  by (simp add: first_slot search_scalar_linear_first)

lemma hit: "node_wf n \<Longrightarrow> kernel n key < kNodeKeys \<Longrightarrow> keys n ! kernel n key = key"
  using nth_length_takeWhile [of "\<lambda>x. x \<noteq> key" "keys n"] by (simp add: first_slot node_wf_def)

lemma first: "node_wf n \<Longrightarrow> i < kernel n key \<Longrightarrow> keys n ! i \<noteq> key"
  using nth_mem [of i "takeWhile (\<lambda>x. x \<noteq> key) (keys n)"]
  by (auto simp: first_slot takeWhile_nth dest: set_takeWhileD)

lemma miss: "node_wf n \<Longrightarrow> kernel n key = kNotFound \<longleftrightarrow> key \<notin> set (keys n)"
proof -
  assume wf: "node_wf n"
  have "length (takeWhile (\<lambda>x. x \<noteq> key) (keys n)) = length (keys n) \<longleftrightarrow> key \<notin> set (keys n)"
  proof -
    have "length (takeWhile (\<lambda>x. x \<noteq> key) (keys n)) + length (dropWhile (\<lambda>x. x \<noteq> key) (keys n)) = length (keys n)"
      by (metis length_append takeWhile_dropWhile_id)
    moreover have "dropWhile (\<lambda>x. x \<noteq> key) (keys n) = [] \<longleftrightarrow> key \<notin> set (keys n)"
      by auto
    ultimately show ?thesis by (metis add_cancel_left_right length_0_conv)
  qed
  then show ?thesis using wf by (simp add: first_slot node_wf_def kNotFound_def)
qed

end

interpretation linear: eq_kernel search_scalar_linear
  by unfold_locales (rule search_scalar_linear_first)

interpretation autovec: eq_kernel search_scalar_autovec
  by unfold_locales (simp add: search_scalar_autovec_def search_scalar_linear_first [unfolded search_scalar_linear_def])

interpretation branchless: eq_kernel search_scalar_branchless
  by unfold_locales (rule search_scalar_branchless_first)

interpretation avx2: eq_kernel search_avx2
  by unfold_locales (rule search_avx2_first)

interpretation avx512: eq_kernel search_avx512
  by unfold_locales (rule search_avx512_first)

interpretation dispatched: eq_kernel "search_dispatch isa" for isa
  by unfold_locales (cases isa; simp add: kernel_simps)

text \<open>On distinct lanes there is one slot the binary search can find, the one the linear scan finds.\<close>

lemma binary_is_linear:
  assumes "node_wf n" "sorted_wrt (<) (keys n)"
  shows "search_scalar_binary n key = search_scalar_linear n key"
proof -
  have len: "length (keys n) = kNodeKeys" using assms(1) by (simp add: node_wf_def)
  have sorted: "sorted (keys n)" "distinct (keys n)" using assms(2) by (simp_all add: strict_sorted_iff)
  show ?thesis
  proof (cases "key \<in> set (keys n)")
    case True
    then have "search_scalar_binary n key < kNodeKeys" "keys n ! search_scalar_binary n key = key"
      using search_scalar_binary_spec [OF assms(1) sorted(1), of key] by simp_all
    moreover have "search_scalar_linear n key < kNodeKeys"
      using linear.miss [OF assms(1), of key] True linear.first_slot [OF assms(1), of key]
        length_takeWhile_le [of "\<lambda>x. x \<noteq> key" "keys n"] len by (simp add: kNotFound_def)
    ultimately show ?thesis
      using linear.hit [OF assms(1)] sorted(2) len by (metis nth_eq_iff_index_eq)
  next
    case False
    then show ?thesis
      using search_scalar_binary_spec [OF assms(1) sorted(1), of key] linear.miss [OF assms(1), of key] by simp
  qed
qed

text \<open>The lower bound over a sorted line: how many lanes are below the needle.\<close>

locale line_kernel =
  fixes kernel :: "node \<Rightarrow> u32 \<Rightarrow> nat"
  assumes lower_bound: "node_wf n \<Longrightarrow> sorted (keys n) \<Longrightarrow> kernel n key = lower_bound_of (\<lambda>x. x < key) (keys n)"
begin

lemma below: "node_wf n \<Longrightarrow> sorted (keys n) \<Longrightarrow> i < kernel n key \<Longrightarrow> keys n ! i < key"
  using lower_bound_of_below [of i "\<lambda>x. x < key" "keys n"] by (simp add: lower_bound)

lemma above:
  assumes "node_wf n" "sorted (keys n)" "kernel n key \<le> i" "i < kNodeKeys"
  shows "key \<le> keys n ! i"
proof -
  have len: "length (keys n) = kNodeKeys" using assms(1) by (simp add: node_wf_def)
  have "key \<le> keys n ! kernel n key"
    using lower_bound_of_stop [of "\<lambda>x. x < key" "keys n"] assms len by (simp add: lower_bound)
  also have "\<dots> \<le> keys n ! i" using sorted_nth_mono [OF assms(2,3)] assms(4) len by simp
  finally show ?thesis .
qed

end

interpretation line_scalar: line_kernel lower_bound_scalar
  by unfold_locales (rule lower_bound_scalar_eq)

interpretation line_branchless: line_kernel lower_bound_scalar_branchless
  by unfold_locales (simp add: kernel_simps lower_bound_sorted_count)

interpretation line_avx2: line_kernel lower_bound_avx2
  by unfold_locales (simp add: kernel_simps lower_bound_sorted_count)

interpretation line_avx512: line_kernel lower_bound_avx512
  by unfold_locales (simp add: kernel_simps lower_bound_sorted_count)

interpretation line_dispatched: line_kernel "lower_bound_dispatch isa" for isa
  by unfold_locales (cases isa; simp add: kernel_simps lower_bound_sorted_count)

text \<open>The lower bound over an append-only line: the rank of the first lane not below the needle.\<close>

lemma rank_lanes_count:
  assumes "node_wf n" "slot_perm ss" "sorted (rank_lanes n ss)"
  shows "lower_bound_of (\<lambda>x. x < (key :: u32)) (rank_lanes n ss) = length (filter (\<lambda>x. x < key) (take (length ss) (keys n)))"
proof -
  have "mset (rank_lanes n ss) = mset (take (length ss) (keys n))"
    using assms(1) slot_perm_length [OF assms(2)] unfolding rank_lanes_def
    by (intro slot_perm_map_mset [OF assms(2)]) (simp add: node_wf_def node_consts)
  then have "length (filter (\<lambda>x. x < key) (rank_lanes n ss)) = length (filter (\<lambda>x. x < key) (take (length ss) (keys n)))"
    by (rule length_filter_mset)
  then show ?thesis using lower_bound_sorted_count [OF assms(3)] by simp
qed

locale perm_kernel =
  fixes kernel :: "node \<Rightarrow> u32 \<Rightarrow> u64 \<Rightarrow> nat"
  assumes rank: "node_wf n \<Longrightarrow> slot_perm ss \<Longrightarrow> sorted (rank_lanes n ss) \<Longrightarrow>
    kernel n key (encode ss) = lower_bound_of (\<lambda>x. x < key) (rank_lanes n ss)"
begin

lemma counts_live_lanes:
  "node_wf n \<Longrightarrow> slot_perm ss \<Longrightarrow> sorted (rank_lanes n ss) \<Longrightarrow>
   kernel n key (encode ss) = length (filter (\<lambda>x. x < key) (take (length ss) (keys n)))"
  by (simp add: rank rank_lanes_count)

lemma agrees_with_reference:
  "node_wf n \<Longrightarrow> slot_perm ss \<Longrightarrow> sorted (rank_lanes n ss) \<Longrightarrow>
   kernel n key (encode ss) = lower_bound_perm_scalar n key (encode ss)"
  by (simp add: rank lower_bound_perm_scalar_eq)

end

interpretation perm_scalar: perm_kernel lower_bound_perm_scalar
  by unfold_locales (rule lower_bound_perm_scalar_eq)

interpretation perm_avx2: perm_kernel lower_bound_perm_avx2
  by unfold_locales (simp add: kernel_simps rank_lanes_count)

interpretation perm_avx512: perm_kernel lower_bound_perm_avx512
  by unfold_locales (simp add: kernel_simps rank_lanes_count)

interpretation perm_dispatched: perm_kernel "lower_bound_perm_dispatch isa" for isa
  by unfold_locales (cases isa; simp add: kernel_simps rank_lanes_count)

section \<open>Properties\<close>

text \<open>C25: on every line the five scanning equality kernels and the dispatched one return the first slot holding the
  needle, or \<open>kNotFound\<close>. The sixth, the binary search, needs sorted lanes: there it returns some slot holding the
  needle, or \<open>kNotFound\<close> when there is none, and on lanes without repetition the slot the others return.\<close>

theorem equality_kernels_agree:
  assumes "node_wf n"
  shows "search_scalar_linear n key = length (takeWhile (\<lambda>x. x \<noteq> key) (keys n)) \<and>
    search_scalar_autovec n key = search_scalar_linear n key \<and> search_scalar_branchless n key = search_scalar_linear n key \<and>
    search_avx2 n key = search_scalar_linear n key \<and> search_avx512 n key = search_scalar_linear n key \<and>
    search_dispatch isa n key = search_scalar_linear n key \<and>
    (sorted (keys n) \<longrightarrow>
      (if key \<in> set (keys n) then search_scalar_binary n key < kNodeKeys \<and> keys n ! search_scalar_binary n key = key
       else search_scalar_binary n key = kNotFound)) \<and>
    (sorted_wrt (<) (keys n) \<longrightarrow> search_scalar_binary n key = search_scalar_linear n key)"
  using assms dispatched.agrees_with_reference avx2.agrees_with_reference avx512.agrees_with_reference
    branchless.agrees_with_reference autovec.agrees_with_reference linear.first_slot
  by (intro conjI impI search_scalar_binary_spec binary_is_linear) simp_all

theorem equality_kernels_agree_witness:
  "search_avx2 \<lparr>keys = [1, 5] @ replicate 14 1\<rparr> 5 = 1 \<and> search_dispatch Avx512 \<lparr>keys = [1, 5] @ replicate 14 1\<rparr> 5 = 1 \<and>
   search_scalar_binary \<lparr>keys = map of_nat [0..<16]\<rparr> 5 = 5"
proof -
  have "sorted_wrt (<) (map of_nat [0..<16] :: u32 list)" by (simp add: upt_rec)
  moreover have "takeWhile (\<lambda>x. x \<noteq> 5) (map of_nat [0..<16]) = (map of_nat [0..<5] :: u32 list)" by (simp add: upt_rec)
  ultimately show ?thesis
    using equality_kernels_agree [of "\<lparr>keys = [1, 5] @ replicate 14 1\<rparr>" 5 Avx512]
      equality_kernels_agree [of "\<lparr>keys = map of_nat [0..<16]\<rparr>" 5 Avx512]
    by (simp add: node_wf_def node_consts)
qed

text \<open>Every ordered kernel over a sorted full line returns the number of lanes below the needle:
  the first slot not below it.\<close>

theorem lower_bound_kernels_agree:
  assumes "node_wf n" "sorted (keys n)"
  shows "lower_bound_dispatch isa n key = lower_bound_of (\<lambda>x. x < key) (keys n) \<and>
    lower_bound_scalar n key = lower_bound_of (\<lambda>x. x < key) (keys n) \<and>
    lower_bound_avx2 n key = lower_bound_of (\<lambda>x. x < key) (keys n) \<and>
    lower_bound_avx512 n key = lower_bound_of (\<lambda>x. x < key) (keys n)"
  using assms line_dispatched.lower_bound line_scalar.lower_bound line_avx2.lower_bound line_avx512.lower_bound by simp

theorem lower_bound_kernels_agree_witness:
  "lower_bound_dispatch Avx2 \<lparr>keys = 1 # 5 # replicate 14 5\<rparr> 4 = 1"
  using lower_bound_kernels_agree [of "\<lparr>keys = 1 # 5 # replicate 14 5\<rparr>" Avx2 4]
  by (simp add: node_wf_def node_consts lower_bound_of_def)

text \<open>C5: over an append-only line every ordered kernel returns the rank of the first used lane not below
  the needle, read through the order word, whatever the dead slots hold.\<close>

theorem permuted_kernels_agree:
  assumes "node_wf n" "slot_perm ss" "sorted (rank_lanes n ss)"
  shows "lower_bound_perm_dispatch isa n key (encode ss) = lower_bound_of (\<lambda>x. x < key) (rank_lanes n ss) \<and>
    lower_bound_perm_avx2 n key (encode ss) = lower_bound_perm_scalar n key (encode ss) \<and>
    lower_bound_perm_avx512 n key (encode ss) = lower_bound_perm_scalar n key (encode ss)"
  using perm_dispatched.rank [OF assms] perm_avx2.agrees_with_reference [OF assms]
    perm_avx512.agrees_with_reference [OF assms] by simp

theorem permuted_kernels_agree_witness:
  "lower_bound_perm_dispatch Avx512 \<lparr>keys = [9, 3, 5] @ replicate 13 0\<rparr> 4 (encode [1, 2, 0]) = 1"
  using permuted_kernels_agree [of "\<lparr>keys = [9, 3, 5] @ replicate 13 0\<rparr>" "[1, 2, 0]" Avx512 4]
  by (simp add: node_wf_def node_consts slot_perm_def rank_lanes_def lower_bound_of_def upt_rec)

end
