(* ===== verification/Traits.thy ===== *)
theory Traits
  imports Surrogate Search
begin

text \<open>
  The \<^verbatim>\<open>Traits\<close> policy of \<^verbatim>\<open>include/aparajita/memtable.hpp\<close>: what the ordered structure needs to
  know of its entries. The record has the policy's members and the two things a policy's host decides
  for the structure: the instruction set that \<^verbatim>\<open>detect_isa\<close> found, and the bytes that memory holds
  after an entry's order bytes, which \<^verbatim>\<open>shares_prefix\<close> may read.

  The locale \<open>ordered_traits\<close> is the contract the header states: \<^verbatim>\<open>compare\<close> is a total preorder, and
  \<^verbatim>\<open>hint_ordering()\<close> promises that it agrees with the order bytes where their first eight differ.
  \<open>bytewise_traits\<close> is the stronger contract of a comparator that follows the order bytes and only
  breaks ties. The standalone \<^verbatim>\<open>StringViewTraits\<close> is an instance of both.
\<close>

record 'e traits =
  order_bytes :: "'e \<Rightarrow> bytes"
  beyond :: "'e \<Rightarrow> nat \<Rightarrow> u8"
  compare :: "'e \<Rightarrow> 'e \<Rightarrow> int"
  null_entry :: 'e
  hint_ordering :: bool
  host_isa :: isa

text \<open>The byte at offset \<open>i\<close> from \<^verbatim>\<open>order_bytes(e).data()\<close>, also past its end.\<close>

definition byte_at :: "'e traits \<Rightarrow> 'e \<Rightarrow> nat \<Rightarrow> u8" where
  "byte_at T e i =
     (let bs = order_bytes T e in if i < length bs then bs ! i else beyond T e (i - length bs))"

abbreviation le :: "'e traits \<Rightarrow> 'e \<Rightarrow> 'e \<Rightarrow> bool" where
  "le T a b \<equiv> compare T a b \<le> 0"

locale ordered_traits =
  fixes T :: "'e traits"
  assumes sign: "compare T a b < 0 \<longleftrightarrow> compare T b a > 0"
    and le_trans: "le T a b \<Longrightarrow> le T b c \<Longrightarrow> le T a c"
    and hint_promise: "hint_ordering T \<Longrightarrow> take 8 (order_bytes T a) \<noteq> take 8 (order_bytes T b) \<Longrightarrow>
      compare T a b < 0 \<longleftrightarrow> compare_keys (order_bytes T a) (order_bytes T b) < 0"
begin

lemma refl [simp]: "compare T a a = 0"
  using sign [of a a] by linarith

lemma less_iff: "compare T a b < 0 \<longleftrightarrow> \<not> le T b a"
  using sign [of a b] by linarith

lemma not_less: "\<not> compare T a b < 0 \<longleftrightarrow> le T b a"
  by (simp add: less_iff)

lemma not_le: "\<not> le T a b \<longleftrightarrow> compare T b a < 0"
  by (simp add: less_iff)

lemma total: "le T a b \<or> le T b a"
  using sign [of a b] by linarith

lemma less_le_trans: "compare T a b < 0 \<Longrightarrow> le T b c \<Longrightarrow> compare T a c < 0"
  using le_trans [of b c a] by (auto simp: less_iff)

lemma le_less_trans: "le T a b \<Longrightarrow> compare T b c < 0 \<Longrightarrow> compare T a c < 0"
  using le_trans [of c a b] by (auto simp: less_iff)

lemma equal_sym: "compare T a b = 0 \<longleftrightarrow> compare T b a = 0"
  using sign [of a b] sign [of b a] by linarith

lemma antisym: "le T a b \<Longrightarrow> le T b a \<Longrightarrow> compare T a b = 0"
  using less_iff [of a b] by auto

lemma hint_less:
  assumes "hint_ordering T" "descent_hint (order_bytes T a) < descent_hint (order_bytes T b)"
  shows "compare T a b < 0"
proof -
  have "take 8 (order_bytes T a) \<noteq> take 8 (order_bytes T b)"
    using assms(2) by (auto dest: descent_hint_take)
  moreover have "compare_keys (order_bytes T a) (order_bytes T b) < 0"
    using descent_hint_less [OF assms(2)] by (simp add: compare_keys_less)
  ultimately show ?thesis using hint_promise [OF assms(1)] by blast
qed

text \<open>In a sorted list the entries below a probe come first.\<close>

lemma sorted_below_first:
  "sorted_wrt (le T) xs \<Longrightarrow> i < j \<Longrightarrow> j < length xs \<Longrightarrow> compare T (xs ! j) key < 0 \<Longrightarrow> compare T (xs ! i) key < 0"
  by (erule sorted_wrt_mono_below) (auto intro: le_less_trans)

lemma lower_bound_take:
  "x \<in> set (take (lower_bound_of (\<lambda>y. compare T y key < 0) xs) xs) \<Longrightarrow> compare T x key < 0"
  by (auto simp: take_lower_bound dest: set_takeWhileD)

lemma lower_bound_drop:
  assumes "sorted_wrt (le T) xs" "x \<in> set (drop (lower_bound_of (\<lambda>y. compare T y key < 0) xs) xs)"
  shows "le T key x"
proof -
  let ?b = "\<lambda>y. compare T y key < 0"
  obtain y ys where ys: "dropWhile ?b xs = y # ys" "x \<in> set (y # ys)"
    using assms(2) by (cases "dropWhile ?b xs") (auto simp: drop_lower_bound)
  have "sorted_wrt (le T) (dropWhile ?b xs)"
    using assms(1) by (metis sorted_wrt_drop dropWhile_eq_drop)
  then have "le T y x" using ys by auto
  moreover have "\<not> ?b y" using ys(1) hd_dropWhile [of ?b xs] by simp
  ultimately show ?thesis using le_trans not_less by blast
qed

end

locale bytewise_traits =
  fixes T :: "'e traits"
  assumes sign': "compare T a b < 0 \<longleftrightarrow> compare T b a > 0"
    and le_trans': "le T a b \<Longrightarrow> le T b c \<Longrightarrow> le T a c"
    and bytewise: "compare_keys (order_bytes T a) (order_bytes T b) < 0 \<Longrightarrow> compare T a b < 0"

sublocale bytewise_traits \<subseteq> ordered_traits
proof unfold_locales
  fix a b c :: 'e
  show "compare T a b < 0 \<longleftrightarrow> compare T b a > 0" by (rule sign')
  show "le T a b \<Longrightarrow> le T b c \<Longrightarrow> le T a c" by (rule le_trans')
  assume ne: "take 8 (order_bytes T a) \<noteq> take 8 (order_bytes T b)"
  have "compare T a b < 0 \<Longrightarrow> compare_keys (order_bytes T a) (order_bytes T b) < 0"
  proof (rule ccontr)
    assume "compare T a b < 0" and c: "\<not> compare_keys (order_bytes T a) (order_bytes T b) < 0"
    moreover have "order_bytes T b < order_bytes T a"
      using c ne by (auto simp: compare_keys_less not_less order.order_iff_strict)
    ultimately show False using bytewise [of b a] sign' [of a b] by (simp add: compare_keys_less)
  qed
  then show "compare T a b < 0 \<longleftrightarrow> compare_keys (order_bytes T a) (order_bytes T b) < 0"
    using bytewise by blast
qed

context bytewise_traits
begin

lemma le_bytes: "le T a b \<Longrightarrow> order_bytes T a \<le> order_bytes T b"
  using bytewise [of b a] sign' [of b a] by (force simp: compare_keys_less not_less)

end

section \<open>The standalone traits\<close>

text \<open>
  A \<^verbatim>\<open>std::string_view\<close> into the arena: where its bytes are (the arena chunk and the offset in it)
  and what they are. The comparison reads the bytes only.
\<close>

record string_view =
  sv_data :: "nat \<times> nat"
  sv_bytes :: bytes

definition string_view_traits :: "isa \<Rightarrow> (string_view \<Rightarrow> nat \<Rightarrow> u8) \<Rightarrow> string_view traits" where
  "string_view_traits isa mem =
     \<lparr>order_bytes = sv_bytes,
      beyond = mem,
      compare = (\<lambda>a b. compare_keys (sv_bytes a) (sv_bytes b)),
      null_entry = \<lparr>sv_data = (0, 0), sv_bytes = []\<rparr>,
      hint_ordering = True,
      host_isa = isa\<rparr>"

lemma string_view_traits_simps [simp]:
  "order_bytes (string_view_traits isa mem) = sv_bytes"
  "compare (string_view_traits isa mem) a b = compare_keys (sv_bytes a) (sv_bytes b)"
  "hint_ordering (string_view_traits isa mem)"
  "host_isa (string_view_traits isa mem) = isa"
  "beyond (string_view_traits isa mem) = mem"
  by (simp_all add: string_view_traits_def)

interpretation sv: bytewise_traits "string_view_traits isa mem" for isa mem
  by unfold_locales (auto simp: compare_keys_order)

end
