(* ===== verification/Node_Data.thy ===== *)
theory Node_Data
  imports Traits
begin

text \<open>
  \<^verbatim>\<open>BasicNodeData\<close> of \<^verbatim>\<open>include/aparajita/memtable.hpp\<close> and the operations on one payload: reading
  it through an order word, the prefix test, the search for a key's rank, building a payload from a
  sorted run, merging a key into a run, and the two slot writes of an append.

  The abstraction of a payload is \<open>node_entries\<close>, its entries in rank order. The main lemma is that
  \<open>sorted_position\<close> returns the lower bound of the key in them under any lawful comparator, whatever
  the surrogate lanes hold: the vector search proposes, the comparator decides.
\<close>

record 'e node_data =
  surrogates :: "u32 list"
  order :: u64
  prefix_len :: u32
  next_link :: "nat option"
  slots :: "'e list"

definition key_at :: "'e node_data \<Rightarrow> u64 \<Rightarrow> nat \<Rightarrow> 'e" where
  "key_at d ow rank = slots d ! order_slot ow rank"

definition surrogate_at_rank :: "'e node_data \<Rightarrow> u64 \<Rightarrow> nat \<Rightarrow> u32" where
  "surrogate_at_rank d ow rank = surrogates d ! order_slot ow rank"

definition lower_bound_surrogate :: "'e traits \<Rightarrow> 'e node_data \<Rightarrow> u64 \<Rightarrow> u32 \<Rightarrow> nat" where
  "lower_bound_surrogate T d ow s =
     lower_bound_perm_dispatch (host_isa T) \<lparr>keys = surrogates d\<rparr> s ow"

definition fresh_payload :: "'e traits \<Rightarrow> 'e node_data" where
  "fresh_payload T =
     \<lparr>surrogates = replicate kNodeKeys kEmptyKey, order = 0, prefix_len = 0, next_link = None,
      slots = replicate kNodeKeys (null_entry T)\<rparr>"

text \<open>
  The \<^verbatim>\<open>memcmp\<close> reads \<open>prefix_len\<close> bytes from both pointers. \<open>bytes\<close> is long enough; the node's
  first key need not be, which is why it is read through \<open>byte_at\<close>.
\<close>

definition shares_prefix :: "'e traits \<Rightarrow> 'e node_data \<Rightarrow> u64 \<Rightarrow> bytes \<Rightarrow> bool" where
  "shares_prefix T d ow bytes =
     (if order_count ow = 0 \<or> prefix_len d = 0 then True
      else if length bytes < unat (prefix_len d) then False
      else let first = key_at d ow 0; n = unat (prefix_len d)
           in memcmp bytes (map (byte_at T first) [0..<n]) n = 0)"

function scan_run :: "'e traits \<Rightarrow> 'e node_data \<Rightarrow> u64 \<Rightarrow> nat \<Rightarrow> u32 \<Rightarrow> 'e \<Rightarrow> nat \<Rightarrow> nat" where
  "scan_run T d ow n s key p =
     (if p < n \<and> surrogate_at_rank d ow p = s \<and> compare T (key_at d ow p) key < 0
      then scan_run T d ow n s key (p + 1) else p)"
  by pat_completeness auto
termination
  by (relation "measure (\<lambda>(T, d, ow, n, s, key, p). n - p)") auto

declare scan_run.simps [simp del]

function binary_position :: "'e traits \<Rightarrow> 'e node_data \<Rightarrow> u64 \<Rightarrow> 'e \<Rightarrow> nat \<Rightarrow> nat \<Rightarrow> nat" where
  "binary_position T d ow key lo hi =
     (if lo < hi then
        let mid = lo + drop_bit 1 (hi - lo)
        in if compare T (key_at d ow mid) key < 0 then binary_position T d ow key (mid + 1) hi
           else binary_position T d ow key lo mid
      else lo)"
  by pat_completeness auto
termination
  by (relation "measure (\<lambda>(T, d, ow, key, lo, hi). hi - lo)") (auto simp: drop_bit_eq_div)

declare binary_position.simps [simp del]

definition candidate_position :: "'e traits \<Rightarrow> 'e node_data \<Rightarrow> u64 \<Rightarrow> nat \<Rightarrow> 'e \<Rightarrow> bytes \<Rightarrow> nat" where
  "candidate_position T d ow n key bytes =
     (let s = surrogate_at bytes (unat (prefix_len d));
          p = lower_bound_surrogate T d ow s;
          p = (if p > n then n else p)
      in scan_run T d ow n s key p)"

definition confirmed :: "'e traits \<Rightarrow> 'e node_data \<Rightarrow> u64 \<Rightarrow> nat \<Rightarrow> 'e \<Rightarrow> nat \<Rightarrow> bool" where
  "confirmed T d ow n key p \<longleftrightarrow>
     (let left_ok = p = 0 \<or> compare T (key_at d ow (p - 1)) key < 0;
          right_ok = p \<ge> n \<or> compare T (key_at d ow p) key \<ge> 0
      in left_ok \<and> right_ok)"

definition sorted_position :: "'e traits \<Rightarrow> 'e node_data \<Rightarrow> u64 \<Rightarrow> nat \<Rightarrow> 'e \<Rightarrow> bytes \<Rightarrow> nat" where
  "sorted_position T d ow n key bytes =
     (if shares_prefix T d ow bytes \<and>
         confirmed T d ow n key (candidate_position T d ow n key bytes)
      then candidate_position T d ow n key bytes
      else binary_position T d ow key 0 n)"

text \<open>The caller's run has \<open>n\<close> entries; the arrays are written slot by slot, the tail with padding.\<close>

definition fill_prefix :: "'e traits \<Rightarrow> 'e list \<Rightarrow> u32" where
  "fill_prefix T ks =
     (if length ks > 1
      then of_nat (common_prefix_len (order_bytes T (ks ! 0)) (order_bytes T (ks ! (length ks - 1))))
      else 0)"

definition fill :: "'e traits \<Rightarrow> 'e node_data \<Rightarrow> 'e list \<Rightarrow> nat option \<Rightarrow> 'e node_data" where
  "fill T d ks nxt =
     (let n = length ks; pl = fill_prefix T ks
      in d\<lparr>next_link := nxt,
           prefix_len := pl,
           slots := ks @ replicate (kNodeKeys - n) (null_entry T),
           surrogates := map (\<lambda>k. surrogate_at (order_bytes T k) (unat pl)) ks @ replicate (kNodeKeys - n) kEmptyKey,
           order := order_identity n\<rparr>)"

definition merge :: "'e traits \<Rightarrow> 'e node_data \<Rightarrow> u64 \<Rightarrow> nat \<Rightarrow> 'e \<Rightarrow> bytes \<Rightarrow> 'e list" where
  "merge T d ow n key bytes =
     (let p = sorted_position T d ow n key bytes
      in map (key_at d ow) [0..<p] @ key # map (key_at d ow) [p..<n])"

text \<open>The lane an append writes: saturated towards the key's side when it lies outside the prefix.\<close>

definition append_lane :: "'e traits \<Rightarrow> 'e node_data \<Rightarrow> u64 \<Rightarrow> nat \<Rightarrow> bytes \<Rightarrow> u32" where
  "append_lane T d ow rank bytes =
     (if shares_prefix T d ow bytes then surrogate_at bytes (unat (prefix_len d))
      else if rank = 0 then 0 else kEmptyKey)"

definition write_slot :: "'e node_data \<Rightarrow> nat \<Rightarrow> 'e \<Rightarrow> u32 \<Rightarrow> 'e node_data" where
  "write_slot d slot key lane =
     d\<lparr>slots := (slots d)[slot := key], surrogates := (surrogates d)[slot := lane]\<rparr>"

section \<open>The entries of a payload\<close>

definition node_entries :: "'e node_data \<Rightarrow> 'e list" where
  "node_entries d = map (key_at d (order d)) [0..<order_count (order d)]"

definition node_lanes :: "'e node_data \<Rightarrow> u32 list" where
  "node_lanes d = map (surrogate_at_rank d (order d)) [0..<order_count (order d)]"

definition node_ok :: "'e node_data \<Rightarrow> bool" where
  "node_ok d \<longleftrightarrow> length (slots d) = kNodeKeys \<and> length (surrogates d) = kNodeKeys \<and>
     slot_perm (ranks (order d)) \<and> encode (ranks (order d)) = order d"

lemma node_okD:
  assumes "node_ok d"
  shows "length (slots d) = 16" "length (surrogates d) = 16" "packable (ranks (order d))"
    "slot_perm (ranks (order d))" "order d = encode (ranks (order d))"
    "length (ranks (order d)) = order_count (order d)" "order_count (order d) \<le> 15"
  using assms slot_perm_length [of "ranks (order d)"]
  by (auto simp: node_ok_def node_consts slot_perm_packable ranks_def)

lemma order_slot_ranks:
  "r < order_count w \<Longrightarrow> order_slot w r = ranks w ! r"
  by (simp add: ranks_def)

lemma node_entries_ranks: "node_entries d = map ((!) (slots d)) (ranks (order d))"
  by (simp add: node_entries_def ranks_def key_at_def)

lemma node_lanes_ranks: "node_lanes d = rank_lanes \<lparr>keys = surrogates d\<rparr> (ranks (order d))"
  by (simp add: node_lanes_def rank_lanes_def ranks_def surrogate_at_rank_def)

lemma length_node_entries [simp]: "length (node_entries d) = order_count (order d)"
  by (simp add: node_entries_def)

lemma length_node_lanes [simp]: "length (node_lanes d) = order_count (order d)"
  by (simp add: node_lanes_def)

lemma key_at_entries: "r < order_count (order d) \<Longrightarrow> key_at d (order d) r = node_entries d ! r"
  by (simp add: node_entries_def)

lemma key_at_ends:
  assumes "node_entries d \<noteq> []"
  shows "key_at d (order d) 0 = hd (node_entries d)"
    and "key_at d (order d) (order_count (order d) - 1) = last (node_entries d)"
  using assms length_node_entries [of d] key_at_entries [of 0 d] key_at_entries [of "order_count (order d) - 1" d]
  by (simp_all add: hd_conv_nth last_conv_nth flip: length_greater_0_conv del: length_node_entries)

lemma surrogate_at_lanes: "r < order_count (order d) \<Longrightarrow> surrogate_at_rank d (order d) r = node_lanes d ! r"
  by (simp add: node_lanes_def)

lemma order_count_0 [simp]: "order_count 0 = 0"
  using order_count_encode [of "[]"] by simp

lemma ranks_0 [simp]: "ranks 0 = []"
  by (simp add: ranks_def)

lemma node_ok_fresh [simp]: "node_ok (fresh_payload T)"
  by (simp add: node_ok_def fresh_payload_def)

lemma node_entries_fresh [simp]: "node_entries (fresh_payload T) = []"
  by (simp add: node_entries_def fresh_payload_def)

section \<open>The search for a rank\<close>

text \<open>The run scan stays between the candidate and the count.\<close>

lemma scan_run_le: "p \<le> n \<Longrightarrow> p \<le> scan_run T d w n s key p \<and> scan_run T d w n s key p \<le> n"
proof (induction T d w n s key p rule: scan_run.induct)
  case (1 T d w n s key p)
  then show ?case
    by (cases "p < n \<and> surrogate_at_rank d w p = s \<and> compare T (key_at d w p) key < 0")
       (auto simp: scan_run.simps [of T d w n s key p])
qed

lemma candidate_position_le: "candidate_position T d w n key bytes \<le> n"
  by (simp add: candidate_position_def Let_def scan_run_le)

context ordered_traits
begin

lemma binary_position_lower_bound:
  assumes "sorted_wrt (le T) (node_entries d)" "lo \<le> hi" "hi \<le> order_count (order d)"
    "\<forall>i < lo. compare T (node_entries d ! i) key < 0"
    "\<forall>i < order_count (order d). hi \<le> i \<longrightarrow> le T key (node_entries d ! i)"
  shows "binary_position T d (order d) key lo hi = lower_bound_of (\<lambda>x. compare T x key < 0) (node_entries d)"
  using assms
proof (induction "hi - lo" arbitrary: lo hi rule: less_induct)
  case less
  note first = sorted_below_first [OF less.prems(1)]
  show ?case
  proof (cases "lo < hi")
    case True
    let ?mid = "lo + drop_bit 1 (hi - lo)"
    have mid: "lo \<le> ?mid" "?mid < hi" using True by (auto simp: drop_bit_eq_div)
    then have k: "key_at d (order d) ?mid = node_entries d ! ?mid"
      using less.prems(3) by (simp add: key_at_entries)
    show ?thesis
    proof (cases "compare T (node_entries d ! ?mid) key < 0")
      case below: True
      have "compare T (node_entries d ! i) key < 0" if "i < ?mid + 1" for i
        using that below first [of i ?mid key] mid less.prems(3) by (cases "i = ?mid") auto
      then have "binary_position T d (order d) key (?mid + 1) hi = lower_bound_of (\<lambda>x. compare T x key < 0) (node_entries d)"
        using less.hyps [of hi "?mid + 1"] less.prems mid by auto
      then show ?thesis using True k below by (simp add: binary_position.simps [of T d _ key lo hi] Let_def)
    next
      case above: False
      have "le T key (node_entries d ! i)" if "i < order_count (order d)" "?mid \<le> i" for i
        using that above first [of ?mid i key] by (cases "i = ?mid") (auto simp: not_less [symmetric])
      then have "binary_position T d (order d) key lo ?mid = lower_bound_of (\<lambda>x. compare T x key < 0) (node_entries d)"
        using less.hyps [of ?mid lo] less.prems mid by auto
      then show ?thesis using True k above by (simp add: binary_position.simps [of T d _ key lo hi] Let_def)
    qed
  next
    case False
    then have "lo = hi" using less.prems(2) by simp
    moreover have "lo = lower_bound_of (\<lambda>x. compare T x key < 0) (node_entries d)"
    proof (rule lower_bound_of_unique)
      show "lo \<le> length (node_entries d)" using less.prems(2,3) by simp
      show "lo = 0 \<or> compare T (node_entries d ! (lo - 1)) key < 0" using less.prems(4) by (cases lo) auto
      show "lo = length (node_entries d) \<or> \<not> compare T (node_entries d ! lo) key < 0"
        using less.prems(3) less.prems(5) [rule_format, of lo] \<open>lo = hi\<close>
        by (cases "lo = order_count (order d)") (auto simp: not_less)
    qed (rule first)
    ultimately show ?thesis by (subst binary_position.simps) simp
  qed
qed

text \<open>A confirmed candidate is the lower bound, wherever it came from.\<close>

lemma confirmed_lower_bound:
  assumes "sorted_wrt (le T) (node_entries d)" "p \<le> order_count (order d)"
    "confirmed T d (order d) (order_count (order d)) key p"
  shows "p = lower_bound_of (\<lambda>x. compare T x key < 0) (node_entries d)"
proof (rule lower_bound_of_unique)
  show "p \<le> length (node_entries d)" using assms(2) by simp
  show "p = 0 \<or> compare T (node_entries d ! (p - 1)) key < 0"
    using assms(2,3) by (cases p) (auto simp: confirmed_def Let_def key_at_entries)
  show "p = length (node_entries d) \<or> \<not> compare T (node_entries d ! p) key < 0"
    using assms(2,3) by (auto simp: confirmed_def Let_def key_at_entries)
qed (rule sorted_below_first [OF assms(1)])

theorem sorted_position_lower_bound:
  assumes "sorted_wrt (le T) (node_entries d)"
  shows "sorted_position T d (order d) (order_count (order d)) key bytes =
    lower_bound_of (\<lambda>x. compare T x key < 0) (node_entries d)"
proof (cases "shares_prefix T d (order d) bytes \<and>
    confirmed T d (order d) (order_count (order d)) key (candidate_position T d (order d) (order_count (order d)) key bytes)")
  case True
  then have "candidate_position T d (order d) (order_count (order d)) key bytes = lower_bound_of (\<lambda>x. compare T x key < 0) (node_entries d)"
    by (intro confirmed_lower_bound [OF assms candidate_position_le]) simp
  then show ?thesis using True by (simp add: sorted_position_def)
next
  case False
  then show ?thesis
    using binary_position_lower_bound [OF assms, of 0 "order_count (order d)" key]
    by (simp add: sorted_position_def if_not_P)
qed

end


section \<open>Append, merge and fill on the entries\<close>

text \<open>The payload an append leaves behind: a slot written, then the order word republished.\<close>

definition appended :: "'e node_data \<Rightarrow> nat \<Rightarrow> 'e \<Rightarrow> u32 \<Rightarrow> 'e node_data" where
  "appended d rank key lane =
     (write_slot d (order_count (order d)) key lane)
       \<lparr>order := order_insert (order d) rank (order_count (order d))\<rparr>"

lemma write_slot_simps [simp]:
  "order (write_slot d slot key lane) = order d"
  "prefix_len (write_slot d slot key lane) = prefix_len d"
  "next_link (write_slot d slot key lane) = next_link d"
  by (simp_all add: write_slot_def)

lemma appended_simps [simp]:
  "prefix_len (appended d rank key lane) = prefix_len d"
  "next_link (appended d rank key lane) = next_link d"
  by (simp_all add: appended_def)

text \<open>Writing the free slot changes nothing an order word already names.\<close>

lemma write_slot_frozen:
  assumes "node_ok d" "order_count (order d) < kNodeCapacity" "r < order_count (order d)"
  shows "key_at (write_slot d (order_count (order d)) key lane) (order d) r = key_at d (order d) r"
    and "surrogate_at_rank (write_slot d (order_count (order d)) key lane) (order d) r = surrogate_at_rank d (order d) r"
proof -
  have "order_slot (order d) r < order_count (order d)"
    using slot_perm_less [of "ranks (order d)" r] node_okD [OF assms(1)] assms(3)
    by (simp add: order_slot_ranks)
  then show "key_at (write_slot d (order_count (order d)) key lane) (order d) r = key_at d (order d) r"
    and "surrogate_at_rank (write_slot d (order_count (order d)) key lane) (order d) r = surrogate_at_rank d (order d) r"
    by (simp_all add: key_at_def surrogate_at_rank_def write_slot_def)
qed

lemma write_slot_entries:
  "node_ok d \<Longrightarrow> order_count (order d) < kNodeCapacity \<Longrightarrow>
   node_entries (write_slot d (order_count (order d)) key lane) = node_entries d"
  by (simp add: node_entries_def write_slot_frozen)

definition appendable :: "'e node_data \<Rightarrow> nat \<Rightarrow> bool" where
  "appendable d rank \<longleftrightarrow> node_ok d \<and> order_count (order d) < kNodeCapacity \<and> rank \<le> order_count (order d)"

lemma appendableD:
  assumes "appendable d rank"
  shows "node_ok d" "order_count (order d) < kNodeCapacity" "rank \<le> order_count (order d)"
  using assms by (simp_all add: appendable_def)

lemma appended_order:
  assumes "appendable d rank"
  shows "order (appended d rank key lane) = encode (ins_at rank (order_count (order d)) (ranks (order d)))"
proof -
  have "order_insert (encode (ranks (order d))) rank (order_count (order d)) =
      encode (ins_at rank (order_count (order d)) (ranks (order d)))"
    using node_okD [OF appendableD(1) [OF assms]] appendableD [OF assms]
    by (intro order_insert_encode) (simp_all add: node_consts)
  then show ?thesis using node_okD(5) [OF appendableD(1) [OF assms]] by (simp add: appended_def)
qed

lemma appended_perm: "appendable d rank \<Longrightarrow> slot_perm (ins_at rank (order_count (order d)) (ranks (order d)))"
  using slot_perm_ins_at [of "ranks (order d)" rank] node_okD [of d] by (simp add: appendable_def)

lemma appended_ranks:
  "appendable d rank \<Longrightarrow> ranks (order (appended d rank key lane)) = ins_at rank (order_count (order d)) (ranks (order d))"
  by (simp add: appended_order ranks_encode slot_perm_packable appended_perm)

lemma appended_ok: "appendable d rank \<Longrightarrow> node_ok (appended d rank key lane)"
  using appended_perm [of d rank] appended_ranks [of d rank key lane] appended_order [of d rank key lane]
    node_okD(1,2) [OF appendableD(1), of d rank]
  by (simp add: node_ok_def node_consts) (simp add: appended_def write_slot_def)

lemma appended_count:
  "appendable d rank \<Longrightarrow> order_count (order (appended d rank key lane)) = Suc (order_count (order d))"
  using node_okD(6) [OF appended_ok, of d rank key lane] node_okD(6) [OF appendableD(1), of d rank]
  by (simp add: appended_ranks)

lemma slots_below: "node_ok d \<Longrightarrow> s \<in> set (ranks (order d)) \<Longrightarrow> s < order_count (order d)"
  using slot_perm_set [of "ranks (order d)"] node_okD [of d] by simp

lemma map_nth_update: "(\<And>s. s \<in> set ss \<Longrightarrow> s < n) \<Longrightarrow> map ((!) (xs[n := x])) ss = map ((!) xs) ss"
  by fastforce

lemma appended_entries:
  assumes "appendable d rank"
  shows "node_entries (appended d rank key lane) = ins_at rank key (node_entries d)"
proof -
  have "slots (appended d rank key lane) = (slots d)[order_count (order d) := key]"
    by (simp add: appended_def write_slot_def)
  moreover have "order_count (order d) < length (slots d)"
    using assms node_okD(1) [of d] by (simp add: appendable_def node_consts)
  moreover have "map ((!) ((slots d)[order_count (order d) := key])) (ranks (order d)) = map ((!) (slots d)) (ranks (order d))"
    using slots_below [OF appendableD(1) [OF assms]] by (rule map_nth_update)
  ultimately show ?thesis
    by (simp only: node_entries_ranks appended_ranks [OF assms] map_ins_at nth_list_update_eq)
qed

lemma appended_lanes:
  assumes "appendable d rank"
  shows "node_lanes (appended d rank key lane) = ins_at rank lane (node_lanes d)"
proof -
  have "surrogates (appended d rank key lane) = (surrogates d)[order_count (order d) := lane]"
    by (simp add: appended_def write_slot_def)
  moreover have "order_count (order d) < length (surrogates d)"
    using assms node_okD(2) [of d] by (simp add: appendable_def node_consts)
  moreover have "map ((!) ((surrogates d)[order_count (order d) := lane])) (ranks (order d)) = map ((!) (surrogates d)) (ranks (order d))"
    using slots_below [OF appendableD(1) [OF assms]] by (rule map_nth_update)
  ultimately show ?thesis
    by (simp only: node_lanes_ranks rank_lanes_def appended_ranks [OF assms] map_ins_at nth_list_update_eq node.select_convs)
qed

text \<open>A merge is the same insertion, into the run it hands to the split.\<close>

lemma map_key_at: "map (key_at d (order d)) [i..<order_count (order d)] = drop i (node_entries d)"
  by (simp add: node_entries_def drop_map)

lemma map_key_at_take:
  "i \<le> order_count (order d) \<Longrightarrow> map (key_at d (order d)) [0..<i] = take i (node_entries d)"
  by (simp add: node_entries_def take_map min_def)

context ordered_traits
begin

lemma merge_entries:
  assumes "sorted_wrt (le T) (node_entries d)"
  shows "merge T d (order d) (order_count (order d)) key bytes =
    ins_at (lower_bound_of (\<lambda>x. compare T x key < 0) (node_entries d)) key (node_entries d)"
proof -
  let ?p = "lower_bound_of (\<lambda>x. compare T x key < 0) (node_entries d)"
  have "?p \<le> order_count (order d)"
    using lower_bound_of_le [of "\<lambda>x. compare T x key < 0" "node_entries d"] by simp
  then show ?thesis
    by (simp add: merge_def Let_def sorted_position_lower_bound [OF assms] map_key_at map_key_at_take ins_at_def)
qed

end

text \<open>A filled payload holds its run in slot order.\<close>

lemma fill_simps [simp]:
  "next_link (fill T d ks nxt) = nxt"
  "order (fill T d ks nxt) = order_identity (length ks)"
  "prefix_len (fill T d ks nxt) = fill_prefix T ks"
  by (simp_all add: fill_def Let_def)

lemma fill_ranks: "length ks \<le> kNodeCapacity \<Longrightarrow> ranks (order (fill T d ks nxt)) = [0..<length ks]"
  by (simp add: order_identity_encode ranks_encode slot_perm_packable slot_perm_upt)

lemma fill_count: "length ks \<le> kNodeCapacity \<Longrightarrow> order_count (order (fill T d ks nxt)) = length ks"
  by (simp add: order_identity_encode order_count_encode slot_perm_packable slot_perm_upt)

lemma fill_ok: "length ks \<le> kNodeCapacity \<Longrightarrow> node_ok (fill T d ks nxt)"
  using fill_ranks [of ks T d nxt]
  by (simp add: node_ok_def slot_perm_upt order_identity_encode) (simp add: fill_def Let_def node_consts)

lemma map_nth_append: "map ((!) (xs @ ys)) [0..<length xs] = xs"
  by (rule nth_equalityI) (auto simp: nth_append)

lemma fill_entries: "length ks \<le> kNodeCapacity \<Longrightarrow> node_entries (fill T d ks nxt) = ks"
  by (simp add: node_entries_ranks fill_ranks del: fill_simps)
     (simp add: fill_def Let_def map_nth_append)

lemma fill_lanes:
  "length ks \<le> kNodeCapacity \<Longrightarrow>
   node_lanes (fill T d ks nxt) = map (\<lambda>k. surrogate_at (order_bytes T k) (unat (fill_prefix T ks))) ks"
  using map_nth_append [of "map (\<lambda>k. surrogate_at (order_bytes T k) (unat (fill_prefix T ks))) ks"]
  by (simp add: node_lanes_ranks rank_lanes_def fill_ranks del: fill_simps)
     (simp add: fill_def Let_def)

section \<open>Properties\<close>

text \<open>C4: whatever the surrogate lanes hold, and also when the prefix test reads past the first key, the
  rank \<^verbatim>\<open>sorted_position\<close> returns is the lower bound of the key under the comparator.\<close>

theorem sorted_position_correct:
  assumes "ordered_traits T" "sorted_wrt (le T) (node_entries d)"
  shows "sorted_position T d (order d) (order_count (order d)) key bytes =
    lower_bound_of (\<lambda>x. compare T x key < 0) (node_entries d)"
  using assms by (intro ordered_traits.sorted_position_lower_bound)

theorem sorted_position_correct_witness:
  "let T = string_view_traits Scalar (\<lambda>_ _. 0); e = (\<lambda>bs. \<lparr>sv_data = (0, 0), sv_bytes = bs\<rparr>);
     d = fill T (fresh_payload T) [e [1], e [3]] None
   in sorted_position T d (order d) (order_count (order d)) (e [2]) [9, 9] = 1"
proof -
  let ?T = "string_view_traits Scalar (\<lambda>_ _. 0)" and ?e = "\<lambda>bs. \<lparr>sv_data = (0, 0), sv_bytes = bs\<rparr>"
  have e: "node_entries (fill ?T (fresh_payload ?T) [?e [1], ?e [3]] None) = [?e [1], ?e [3]]"
    by (rule fill_entries) (simp add: node_consts)
  show ?thesis
    using sorted_position_correct [OF sv.ordered_traits_axioms [of Scalar "\<lambda>_ _. 0"],
        of "fill ?T (fresh_payload ?T) [?e [1], ?e [3]] None" "?e [2]" "[9, 9]"]
    unfolding e by (simp add: Let_def lower_bound_of_def compare_keys_order del: fill_simps)
qed

text \<open>A reader that holds an order word taken before an append sees the same keys and lanes at every
  rank the word covers, after the slot has been written and after the new word is published.\<close>

theorem append_keeps_snapshot:
  assumes "node_ok d" "order_count (order d) < kNodeCapacity" "r < order_count (order d)"
  shows "key_at (write_slot d (order_count (order d)) key lane) (order d) r = key_at d (order d) r \<and>
    surrogate_at_rank (write_slot d (order_count (order d)) key lane) (order d) r = surrogate_at_rank d (order d) r \<and>
    key_at (appended d rank key lane) (order d) r = key_at d (order d) r"
  using write_slot_frozen [OF assms, of key lane] by (simp add: appended_def key_at_def)

theorem append_keeps_snapshot_witness:
  "let T = string_view_traits Scalar (\<lambda>_ _. 0); e = (\<lambda>bs. \<lparr>sv_data = (0, 0), sv_bytes = bs\<rparr>);
     d = fill T (fresh_payload T) [e [1], e [3]] None
   in key_at (appended d 0 (e [0]) 0) (order d) 0 = e [1]"
proof -
  let ?T = "string_view_traits Scalar (\<lambda>_ _. 0)" and ?e = "\<lambda>bs. \<lparr>sv_data = (0, 0), sv_bytes = bs\<rparr>"
  let ?d = "fill ?T (fresh_payload ?T) [?e [1], ?e [3]] None"
  have c: "order_count (order ?d) = 2" using fill_count [of "[?e [1], ?e [3]]" ?T "fresh_payload ?T" None] by (simp add: node_consts)
  have "key_at ?d (order ?d) 0 = ?e [1]"
    using key_at_ends(1) [of ?d] fill_entries [of "[?e [1], ?e [3]]" ?T "fresh_payload ?T" None] by (simp add: node_consts del: fill_simps)
  moreover have "node_ok ?d" by (rule fill_ok) (simp add: node_consts)
  ultimately show ?thesis
    using append_keeps_snapshot [of ?d 0 "?e [0]" 0 0] c by (simp add: Let_def node_consts del: fill_simps)
qed

text \<open>An append to a payload with room inserts the key at its rank among the entries, keeps the slots
  a permutation of the used ones, and leaves the successor link and the frozen prefix alone.\<close>

theorem append_inserts_at_rank:
  assumes "node_ok d" "order_count (order d) < kNodeCapacity" "r \<le> order_count (order d)"
  shows "node_ok (appended d r key lane) \<and> node_entries (appended d r key lane) = ins_at r key (node_entries d) \<and>
    node_lanes (appended d r key lane) = ins_at r lane (node_lanes d) \<and>
    next_link (appended d r key lane) = next_link d \<and> prefix_len (appended d r key lane) = prefix_len d"
  using assms by (simp add: appendable_def appended_ok appended_entries appended_lanes)

theorem append_inserts_at_rank_witness:
  "node_entries (appended (fresh_payload (string_view_traits Scalar (\<lambda>_ _. 0))) 0 \<lparr>sv_data = (0, 0), sv_bytes = [7]\<rparr> 0) =
    [\<lparr>sv_data = (0, 0), sv_bytes = [7]\<rparr>]"
proof -
  let ?d = "fresh_payload (string_view_traits Scalar (\<lambda>_ _. 0))"
  have "order ?d = 0" by (simp add: fresh_payload_def)
  then show ?thesis
    using append_inserts_at_rank [of ?d 0 "\<lparr>sv_data = (0, 0), sv_bytes = [7]\<rparr>" 0] by (simp add: node_consts)
qed

text \<open>C24: \<^verbatim>\<open>fill\<close> and reading back through the published order word round-trip: the entries are the run,
  in its order, the link is the one given, and every lane is the surrogate past the stored prefix.\<close>

theorem fill_round_trip:
  assumes "length ks \<le> kNodeCapacity"
  shows "node_ok (fill T d ks nxt) \<and> node_entries (fill T d ks nxt) = ks \<and> next_link (fill T d ks nxt) = nxt \<and>
    node_lanes (fill T d ks nxt) = map (\<lambda>k. surrogate_at (order_bytes T k) (unat (prefix_len (fill T d ks nxt)))) ks"
  using assms by (simp add: fill_ok fill_entries fill_lanes)

theorem fill_round_trip_witness:
  "node_entries (fill (string_view_traits Avx2 (\<lambda>_ _. 0)) (fresh_payload (string_view_traits Avx2 (\<lambda>_ _. 0)))
     [\<lparr>sv_data = (0, 0), sv_bytes = [7]\<rparr>, \<lparr>sv_data = (0, 1), sv_bytes = [8]\<rparr>] (Some 3)) =
   [\<lparr>sv_data = (0, 0), sv_bytes = [7]\<rparr>, \<lparr>sv_data = (0, 1), sv_bytes = [8]\<rparr>]"
  using fill_round_trip [of "[\<lparr>sv_data = (0, 0), sv_bytes = [7]\<rparr>, \<lparr>sv_data = (0, 1), sv_bytes = [8]\<rparr>]"
      "string_view_traits Avx2 (\<lambda>_ _. 0)" "fresh_payload (string_view_traits Avx2 (\<lambda>_ _. 0))" "Some 3"]
  by (simp add: node_consts)

end
