(* ===== verification/Node_Lanes.thy ===== *)
theory Node_Lanes
  imports Node_Data
begin

text \<open>
  The surrogate lanes of a payload, under a comparator that follows the order bytes. A payload is
  \<open>anchored\<close> when its smallest key carries the frozen prefix and every lane is \<open>prefix_lane\<close> of its
  key: the surrogate past the prefix, saturated towards the key's side outside it. Building a payload
  anchors it, appending keeps it anchored unless a key outside the prefix becomes its smallest, and in
  an anchored payload the lanes are sorted and the vector search alone finds the rank: the candidate is
  always confirmed, at the cost of two comparator calls and one for each lane equal to the key's.
\<close>

definition prefix_lane :: "bytes \<Rightarrow> bytes \<Rightarrow> u32" where
  "prefix_lane P b =
     (if take (length P) b = P then surrogate_at b (length P) else if b < P then 0 else kEmptyKey)"

definition lanes_at :: "'e traits \<Rightarrow> 'e node_data \<Rightarrow> bytes \<Rightarrow> bool" where
  "lanes_at T d P \<longleftrightarrow>
     length P = unat (prefix_len d) \<and>
     node_lanes d = map (\<lambda>k. prefix_lane P (order_bytes T k)) (node_entries d) \<and>
     (node_entries d \<noteq> [] \<longrightarrow> take (length P) (order_bytes T (hd (node_entries d))) = P)"

definition anchored :: "'e traits \<Rightarrow> 'e node_data \<Rightarrow> bool" where
  "anchored T d \<longleftrightarrow> (\<exists>P. lanes_at T d P)"

lemma prefix_le: "P \<le> P @ (zs :: bytes)"
  by (induction P) auto

lemma prefix_take_le: "take (length P) b = P \<Longrightarrow> P \<le> (b :: bytes)"
  by (metis append_take_drop_id prefix_le)

lemma take_eq_length: "take (length P) b = P \<Longrightarrow> length P \<le> length b"
  by (metis length_take min.cobounded1)

lemma between_prefix: "P \<le> k \<Longrightarrow> k \<le> b \<Longrightarrow> take (length P) b = P \<Longrightarrow> take (length P) k = (P :: bytes)"
  using take_between [of P k b "length P"] take_eq_length [of P b] by simp

lemma prefix_lane_mono:
  assumes "a \<le> b"
  shows "prefix_lane P a \<le> prefix_lane P b"
proof -
  have max: "x \<le> kEmptyKey" for x using not_less_kEmptyKey not_less by blast
  consider "take (length P) a = P" "take (length P) b = P" | "take (length P) b \<noteq> P" "\<not> b < P"
    | "take (length P) a \<noteq> P" "a < P" | "take (length P) a = P" "b < P" | "take (length P) b = P" "take (length P) a \<noteq> P" "P \<le> a"
    | "b < P" "P \<le> a"
    by (metis not_less)
  then show ?thesis
  proof cases
    case 1
    then show ?thesis using assms take_eq_length [of P] by (simp add: prefix_lane_def surrogate_at_mono)
  next
    case 4
    then show ?thesis using assms prefix_take_le [of P a] by simp
  next
    case 5
    then show ?thesis using assms between_prefix [of P a b] by simp
  qed (use assms max in \<open>auto simp: prefix_lane_def\<close>)
qed

lemma node_entries_Nil: "node_entries d = [] \<longleftrightarrow> order_count (order d) = 0"
  by (simp add: node_entries_def)

text \<open>The memory read of the prefix test while it stays inside the payload's smallest key.\<close>

lemma map_byte_at: "n \<le> length (order_bytes T e) \<Longrightarrow> map (byte_at T e) [0..<n] = take n (order_bytes T e)"
  by (rule nth_equalityI) (auto simp: byte_at_def Let_def)

lemma shares_prefix_inside:
  assumes ne: "node_entries d \<noteq> []" and pl: "prefix_len d \<noteq> 0"
    and len: "unat (prefix_len d) \<le> length (order_bytes T (hd (node_entries d)))"
  shows "shares_prefix T d (order d) bytes \<longleftrightarrow> unat (prefix_len d) \<le> length bytes \<and>
    take (unat (prefix_len d)) bytes = take (unat (prefix_len d)) (order_bytes T (hd (node_entries d)))"
proof -
  have c: "order_count (order d) \<noteq> 0" using ne by (simp add: node_entries_Nil)
  have k: "key_at d (order d) 0 = hd (node_entries d)" using ne c by (simp add: key_at_entries hd_conv_nth)
  show ?thesis
    using c pl len memcmp_zero [of "unat (prefix_len d)" bytes "take (unat (prefix_len d)) (order_bytes T (hd (node_entries d)))"]
    by (auto simp: shares_prefix_def Let_def k map_byte_at not_less)
qed


lemma shares_prefix_anchored:
  assumes "lanes_at T d P"
  shows "shares_prefix T d (order d) bytes \<longleftrightarrow> node_entries d = [] \<or> take (length P) bytes = P"
proof (cases "node_entries d = [] \<or> length P = 0")
  case True
  then have "order_count (order d) = 0 \<or> prefix_len d = 0"
    using assms by (auto simp: lanes_at_def unat_eq_0 node_entries_Nil)
  then show ?thesis using True by (auto simp: shares_prefix_def)
next
  case False
  have n: "unat (prefix_len d) = length P" and first: "take (length P) (order_bytes T (hd (node_entries d))) = P"
    using assms False by (auto simp: lanes_at_def)
  have "prefix_len d \<noteq> 0" using False n by (auto simp: unat_eq_0 [symmetric])
  then show ?thesis
    using shares_prefix_inside [of d T bytes] False n first take_eq_length [OF first] take_eq_length [of P bytes] by auto
qed

section \<open>The comparator's calls\<close>

text \<open>
  \<^verbatim>\<open>sorted_position\<close> once more, with the calls of \<^verbatim>\<open>traits_.compare\<close> counted: the scan calls it on every rank whose
  lane equals the surrogate until one stops it, the confirmation on either side of the candidate that exists, the binary
  search once a step.
\<close>

function counted_scan :: "'e traits \<Rightarrow> 'e node_data \<Rightarrow> u64 \<Rightarrow> nat \<Rightarrow> u32 \<Rightarrow> 'e \<Rightarrow> nat \<Rightarrow> nat \<Rightarrow> nat \<times> nat" where
  "counted_scan T d ow n s key p calls =
     (if p < n \<and> surrogate_at_rank d ow p = s
      then if compare T (key_at d ow p) key < 0 then counted_scan T d ow n s key (p + 1) (calls + 1) else (p, calls + 1)
      else (p, calls))"
  by pat_completeness auto
termination
  by (relation "measure (\<lambda>(T, d, ow, n, s, key, p, calls). n - p)") auto

declare counted_scan.simps [simp del]

function counted_binary :: "'e traits \<Rightarrow> 'e node_data \<Rightarrow> u64 \<Rightarrow> 'e \<Rightarrow> nat \<Rightarrow> nat \<Rightarrow> nat \<Rightarrow> nat \<times> nat" where
  "counted_binary T d ow key lo hi calls =
     (if lo < hi then
        let mid = lo + drop_bit 1 (hi - lo)
        in if compare T (key_at d ow mid) key < 0 then counted_binary T d ow key (mid + 1) hi (calls + 1)
           else counted_binary T d ow key lo mid (calls + 1)
      else (lo, calls))"
  by pat_completeness auto
termination
  by (relation "measure (\<lambda>(T, d, ow, key, lo, hi, calls). hi - lo)") (auto simp: drop_bit_eq_div)

declare counted_binary.simps [simp del]

definition counted_position :: "'e traits \<Rightarrow> 'e node_data \<Rightarrow> u64 \<Rightarrow> nat \<Rightarrow> 'e \<Rightarrow> bytes \<Rightarrow> nat \<times> nat" where
  "counted_position T d ow n key bytes =
     (if shares_prefix T d ow bytes then
        let s = surrogate_at bytes (unat (prefix_len d));
            p = lower_bound_surrogate T d ow s;
            (p, calls) = counted_scan T d ow n s key (if p > n then n else p) 0;
            (left_ok, calls) = (if p = 0 then (True, calls) else (compare T (key_at d ow (p - 1)) key < 0, calls + 1));
            (right_ok, calls) = (if p \<ge> n then (True, calls) else (compare T (key_at d ow p) key \<ge> 0, calls + 1))
        in if left_ok \<and> right_ok then (p, calls) else counted_binary T d ow key 0 n calls
      else counted_binary T d ow key 0 n 0)"

lemma counted_scan_rank: "fst (counted_scan T d w n s key p c) = scan_run T d w n s key p"
proof (induction T d w n s key p c rule: counted_scan.induct)
  case (1 T d w n s key p c)
  then show ?case
    by (simp add: counted_scan.simps [of T d w n s key p c] scan_run.simps [of T d w n s key p])
qed

lemma counted_binary_rank: "fst (counted_binary T d w key lo hi c) = binary_position T d w key lo hi"
proof (induction T d w key lo hi c rule: counted_binary.induct)
  case (1 T d w key lo hi c)
  then show ?case
    by (simp add: counted_binary.simps [of T d w key lo hi c] binary_position.simps [of T d w key lo hi] Let_def)
qed

text \<open>Every call of the scan is on a lane equal to the surrogate.\<close>

lemma counted_scan_calls:
  "snd (counted_scan T d w n s key p c) \<le> c + length (filter (\<lambda>i. surrogate_at_rank d w i = s) [p..<n])"
proof (induction T d w n s key p c rule: counted_scan.induct)
  case (1 T d w n s key p c)
  then show ?case
    by (cases "p < n \<and> surrogate_at_rank d w p = s")
       (auto simp: counted_scan.simps [of T d w n s key p c] upt_conv_Cons)
qed

lemma counted_position_rank: "fst (counted_position T d w n key bytes) = sorted_position T d w n key bytes"
  by (auto simp: counted_position_def sorted_position_def candidate_position_def confirmed_def Let_def split_beta
      counted_scan_rank counted_binary_rank)

lemma filter_drop_le: "length (filter Q (drop k xs)) \<le> length (filter Q xs)"
  by (metis append_take_drop_id filter_append le_add2 length_append)

text \<open>A confirmed candidate costs its run of equal lanes and the two confirmations.\<close>

lemma counted_position_calls:
  assumes "shares_prefix T d (order d) bytes"
    "confirmed T d (order d) (order_count (order d)) key (candidate_position T d (order d) (order_count (order d)) key bytes)"
  shows "snd (counted_position T d (order d) (order_count (order d)) key bytes) \<le>
    2 + count_list (node_lanes d) (surrogate_at bytes (unat (prefix_len d)))"
proof -
  let ?n = "order_count (order d)" and ?s = "surrogate_at bytes (unat (prefix_len d))"
  let ?l = "surrogate_at_rank d (order d)"
  let ?p = "lower_bound_surrogate T d (order d) ?s"
  let ?p' = "if ?p > ?n then ?n else ?p"
  let ?r = "counted_scan T d (order d) ?n ?s key ?p' 0"
  have "length (filter (\<lambda>i. ?l i = ?s) [?p'..<?n]) \<le> length (filter (\<lambda>i. ?l i = ?s) [0..<?n])"
    using filter_drop_le [of "\<lambda>i. ?l i = ?s" ?p' "[0..<?n]"] by (simp only: drop_upt add_0)
  also have "\<dots> = count_list (node_lanes d) ?s"
    by (simp add: node_lanes_def count_list_eq_length_filter filter_map o_def eq_commute [of ?s])
  finally have "snd ?r \<le> count_list (node_lanes d) ?s"
    using counted_scan_calls [of T d "order d" ?n ?s key ?p' 0] by simp
  moreover have cand: "fst ?r = candidate_position T d (order d) ?n key bytes"
    by (simp add: counted_scan_rank candidate_position_def Let_def)
  moreover have "snd (counted_position T d (order d) ?n key bytes) \<le> 2 + snd ?r"
    using assms cand by (cases ?r) (auto simp: counted_position_def confirmed_def Let_def)
  ultimately show ?thesis by simp
qed

context bytewise_traits
begin

lemma bytes_less: "order_bytes T a < order_bytes T b \<Longrightarrow> compare T a b < 0"
  by (simp add: bytewise compare_keys_less)

text \<open>Lanes in comparator order are sorted.\<close>

lemma anchored_sorted:
  assumes "lanes_at T d P" "sorted_wrt (le T) (node_entries d)"
  shows "sorted (node_lanes d)"
proof -
  have "sorted_wrt (\<lambda>a b. prefix_lane P (order_bytes T a) \<le> prefix_lane P (order_bytes T b)) (node_entries d)"
    using assms(2) by (rule sorted_wrt_mono_rel [rotated]) (simp add: le_bytes prefix_lane_mono)
  then show ?thesis using assms(1) by (simp add: lanes_at_def sorted_map sorted_wrt_map)
qed

lemma append_lane_prefix:
  assumes lanes: "lanes_at T d P" and sorted: "sorted_wrt (le T) (node_entries d)"
    and r: "r = lower_bound_of (\<lambda>x. compare T x key < 0) (node_entries d)"
    and ne: "node_entries d \<noteq> [] \<or> P = []"
  shows "append_lane T d (order d) r (order_bytes T key) = prefix_lane P (order_bytes T key)"
proof (cases "node_entries d = [] \<or> take (length P) (order_bytes T key) = P")
  case True
  then have "take (length P) (order_bytes T key) = P" using ne by auto
  then show ?thesis using shares_prefix_anchored [OF lanes] lanes
    by (simp add: append_lane_def prefix_lane_def lanes_at_def)
next
  case False
  let ?first = "hd (node_entries d)" and ?b = "order_bytes T key"
  have first: "take (length P) (order_bytes T ?first) = P" using lanes False unfolding lanes_at_def by blast
  obtain x xs where es: "node_entries d = x # xs" using False by (cases "node_entries d") auto
  have "?b < P" if "r = 0"
  proof (rule ccontr)
    assume "\<not> ?b < P"
    then have "P \<le> ?b" by simp
    moreover have "?b \<le> order_bytes T ?first"
      using that r es by (auto simp: lower_bound_of_def not_less split: if_splits intro: le_bytes)
    ultimately show False using between_prefix [OF _ _ first] False by blast
  qed
  moreover have "\<not> ?b < P" if "r \<noteq> 0"
  proof -
    have "compare T ?first key < 0" using that r es by (auto simp: lower_bound_of_def split: if_splits)
    then have "order_bytes T ?first \<le> ?b" by (simp add: le_bytes)
    then show ?thesis using prefix_take_le [OF first] by auto
  qed
  ultimately show ?thesis using False shares_prefix_anchored [OF lanes] by (auto simp: append_lane_def prefix_lane_def)
qed

text \<open>An append keeps a payload anchored unless its smallest key leaves the prefix.\<close>

lemma appended_anchored:
  assumes lanes: "lanes_at T d P" and sorted: "sorted_wrt (le T) (node_entries d)" and ap: "appendable d r"
    and r: "r = lower_bound_of (\<lambda>x. compare T x key < 0) (node_entries d)"
    and ne: "node_entries d \<noteq> [] \<or> P = []"
    and keeps: "r = 0 \<Longrightarrow> take (length P) (order_bytes T key) = P"
  shows "lanes_at T (appended d r key (append_lane T d (order d) r (order_bytes T key))) P"
proof -
  have "take (length P) (order_bytes T (hd (ins_at r key (node_entries d)))) = P"
  proof (cases "r = 0")
    case True
    then show ?thesis using keeps by simp
  next
    case False
    then obtain x xs where "node_entries d = x # xs" using r by (cases "node_entries d") (auto simp: lower_bound_of_def)
    then show ?thesis using lanes False by (cases r) (auto simp: ins_at_def lanes_at_def)
  qed
  then show ?thesis
    using lanes append_lane_prefix [OF lanes sorted r ne]
    by (simp add: lanes_at_def appended_lanes [OF ap] appended_entries [OF ap] map_ins_at)
qed

text \<open>A built payload is anchored: its prefix is shared by its first and last key, so by all.\<close>

lemma fill_anchored:
  assumes ks: "sorted_wrt (le T) ks" "ks \<noteq> []" "length ks \<le> kNodeCapacity"
  shows "lanes_at T (fill T d ks nxt) (take (unat (fill_prefix T ks)) (order_bytes T (hd ks)))"
proof -
  let ?first = "order_bytes T (hd ks)" and ?last = "order_bytes T (last ks)" and ?n = "unat (fill_prefix T ks)"
  have n: "?n \<le> length ?first \<and> ?n \<le> length ?last \<and> take ?n ?first = take ?n ?last"
  proof (cases "length ks > 1")
    case True
    let ?c = "common_prefix_len ?first ?last"
    have "?n = ?c mod 2 ^ 32"
      using True ks(2) by (simp add: fill_prefix_def unat_of_nat hd_conv_nth last_conv_nth)
    then have "?n \<le> ?c" by simp
    moreover have "take ?n (take ?c ?first) = take ?n (take ?c ?last)" by (simp only: common_prefix_take)
    ultimately show ?thesis
      using common_prefix_le1 [of ?first ?last] common_prefix_le2 [of ?first ?last] by (simp add: min_def)
  next
    case False
    then show ?thesis by (simp add: fill_prefix_def)
  qed
  let ?P = "take ?n ?first"
  have P: "length ?P = ?n" using n by simp
  have share: "take ?n (order_bytes T k) = ?P" if "k \<in> set ks" for k
  proof -
    obtain i where i: "i < length ks" "k = ks ! i" using \<open>k \<in> set ks\<close> by (auto simp: in_set_conv_nth)
    have mono: "order_bytes T (ks ! i) \<le> order_bytes T (ks ! j)" if "i \<le> j" "j < length ks" for i j
      using sorted_wrt_nth_less [OF ks(1), of i j] that by (cases "i = j") (auto intro: le_bytes)
    have "?first \<le> order_bytes T k" "order_bytes T k \<le> ?last"
      using mono [of 0 i] mono [of i "length ks - 1"] i ks(2) by (simp_all add: hd_conv_nth last_conv_nth)
    then show ?thesis using take_between [of ?first "order_bytes T k" ?last ?n] n by simp
  qed
  have "map (\<lambda>k. surrogate_at (order_bytes T k) ?n) ks = map (\<lambda>k. prefix_lane ?P (order_bytes T k)) ks"
    using share P by (simp add: prefix_lane_def)
  then show ?thesis
    using P ks share [OF hd_in_set] by (simp add: lanes_at_def fill_lanes fill_entries)
qed

text \<open>
  In an anchored payload the vector search and the scan of its run of equal lanes end on a position
  the comparator confirms: the binary search is never taken.
\<close>

lemma scan_run_spec:
  "p \<le> n \<Longrightarrow>
   (\<forall>i. p \<le> i \<and> i < scan_run T d w n s key p \<longrightarrow> surrogate_at_rank d w i = s \<and> compare T (key_at d w i) key < 0) \<and>
   (scan_run T d w n s key p < n \<longrightarrow> surrogate_at_rank d w (scan_run T d w n s key p) \<noteq> s \<or>
     compare T (key_at d w (scan_run T d w n s key p)) key \<ge> 0)"
proof (induction T d w n s key p rule: scan_run.induct)
  case (1 T d w n s key p)
  show ?case
  proof (cases "p < n \<and> surrogate_at_rank d w p = s \<and> compare T (key_at d w p) key < 0")
    case True
    have "i = p \<or> p + 1 \<le> i" if "p \<le> i" for i :: nat using that by auto
    then show ?thesis using "1" True by (auto simp: scan_run.simps [of T d w n s key p])
  next
    case False
    then have "scan_run T d w n s key p = p" by (simp only: scan_run.simps [of T d w n s key p] if_False)
    then show ?thesis using False by auto
  qed
qed

lemma candidate_confirmed:
  assumes ok: "node_ok d" and lanes: "lanes_at T d P" and sorted: "sorted_wrt (le T) (node_entries d)"
    and shares: "take (length P) (order_bytes T key) = P"
  shows "confirmed T d (order d) (order_count (order d)) key
    (candidate_position T d (order d) (order_count (order d)) key (order_bytes T key))"
proof -
  let ?n = "order_count (order d)" and ?b = "order_bytes T key" and ?w = "order d"
  let ?s = "surrogate_at ?b (unat (prefix_len d))"
  have s: "?s = prefix_lane P ?b" using lanes shares by (simp add: prefix_lane_def lanes_at_def)
  have lane: "surrogate_at_rank d ?w i = prefix_lane P (order_bytes T (node_entries d ! i))" if "i < ?n" for i
    using lanes that by (simp add: surrogate_at_lanes lanes_at_def)
  have below: "compare T (key_at d ?w i) key < 0" if "i < ?n" "surrogate_at_rank d ?w i < ?s" for i
  proof -
    have "order_bytes T (node_entries d ! i) < ?b"
      using that prefix_lane_mono [of ?b "order_bytes T (node_entries d ! i)" P] by (fastforce simp: s lane not_less)
    then show ?thesis using bytes_less that(1) by (simp add: key_at_entries)
  qed
  have above: "\<not> compare T (key_at d ?w i) key < 0" if "i < ?n" "?s < surrogate_at_rank d ?w i" for i
  proof -
    have "?b < order_bytes T (node_entries d ! i)"
      using that prefix_lane_mono [of "order_bytes T (node_entries d ! i)" ?b P] by (fastforce simp: s lane not_less)
    then show ?thesis using bytes_less that(1) not_less by (fastforce simp: key_at_entries)
  qed
  have sorted_lanes: "sorted (node_lanes d)" by (rule anchored_sorted [OF lanes sorted])
  let ?p = "lower_bound_of (\<lambda>x. x < ?s) (node_lanes d)"
  have lb: "lower_bound_surrogate T d ?w ?s = ?p"
    using perm_dispatched.rank [of "\<lparr>keys = surrogates d\<rparr>" "ranks ?w" "host_isa T" ?s] sorted_lanes node_okD [OF ok]
    by (simp add: lower_bound_surrogate_def node_lanes_ranks node_wf_def node_consts)
  have p: "?p \<le> ?n" using lower_bound_of_le [of "\<lambda>x. x < ?s" "node_lanes d"] by simp
  let ?q = "scan_run T d ?w ?n ?s key ?p"
  have cand: "candidate_position T d ?w ?n key ?b = ?q"
    using p by (simp add: candidate_position_def Let_def lb)
  have q: "?p \<le> ?q" "?q \<le> ?n" using scan_run_le [OF p, of T d ?w ?s key] by blast+
  note run = scan_run_spec [OF p, of d ?w ?s key]
  have "compare T (key_at d ?w (?q - 1)) key < 0" if "?q \<noteq> 0"
  proof (cases "?q - 1 < ?p")
    case True
    then have "surrogate_at_rank d ?w (?q - 1) < ?s"
      using lower_bound_of_below [OF True] p by (simp add: surrogate_at_lanes)
    then show ?thesis using True p by (intro below) auto
  next
    case False
    then show ?thesis using run that by auto
  qed
  moreover have "\<not> compare T (key_at d ?w ?q) key < 0" if "?q < ?n"
  proof (cases "surrogate_at_rank d ?w ?q = ?s")
    case True
    then show ?thesis using run that by auto
  next
    case False
    have "?s \<le> surrogate_at_rank d ?w ?q"
    proof -
      have "?p < ?n" using q that by simp
      then have "?s \<le> node_lanes d ! ?p" using lower_bound_of_stop [of "\<lambda>x. x < ?s" "node_lanes d"] by simp
      also have "\<dots> \<le> node_lanes d ! ?q" using sorted_nth_mono [OF sorted_lanes q(1)] that by simp
      finally show ?thesis using that by (simp add: surrogate_at_lanes)
    qed
    then show ?thesis using False that by (intro above) auto
  qed
  ultimately show ?thesis by (cases "?q < ?n") (auto simp: confirmed_def cand Let_def)
qed

lemma appended_lanes_sorted:
  assumes lanes: "lanes_at T d P" and sorted: "sorted_wrt (le T) (node_entries d)" and ap: "appendable d r"
    and r: "r = lower_bound_of (\<lambda>x. compare T x key < 0) (node_entries d)" and ne: "node_entries d \<noteq> [] \<or> P = []"
  shows "sorted (node_lanes (appended d r key (append_lane T d (order d) r (order_bytes T key))))"
proof -
  let ?es = "ins_at r key (node_entries d)"
  have "sorted_wrt (le T) ?es"
    using sorted unfolding r by (rule sorted_wrt_ins_at) (auto dest: lower_bound_take lower_bound_drop [OF sorted])
  then have "sorted_wrt (\<lambda>a b. prefix_lane P (order_bytes T a) \<le> prefix_lane P (order_bytes T b)) ?es"
    by (rule sorted_wrt_mono_rel [rotated]) (simp add: le_bytes prefix_lane_mono)
  moreover have "node_lanes (appended d r key (append_lane T d (order d) r (order_bytes T key))) =
      map (\<lambda>k. prefix_lane P (order_bytes T k)) ?es"
    using lanes append_lane_prefix [OF lanes sorted r ne] by (simp add: appended_lanes [OF ap] lanes_at_def map_ins_at)
  ultimately show ?thesis by (simp add: sorted_map sorted_wrt_map)
qed

text \<open>
  What happens when the smallest key leaves the prefix: the prefix test compares with that key from then on, so a key
  that does carry the prefix is given the lane of a key above it, and no longer sorts with the lanes before it.
\<close>

lemma lower_bound_after:
  assumes "sorted_wrt (le T) xs" "i < length xs" "compare T key (xs ! i) < 0"
  shows "lower_bound_of (\<lambda>x. compare T x key < 0) xs \<le> i"
proof (rule ccontr)
  assume "\<not> ?thesis"
  then have "compare T (xs ! i) key < 0" using lower_bound_of_below [of i "\<lambda>x. compare T x key < 0" xs] by simp
  then show False using assms(3) sign [of key "xs ! i"] by simp
qed

lemma prefix_lost:
  assumes lanes: "lanes_at T d P" and sorted: "sorted_wrt (le T) (node_entries d)"
    and ap: "appendable d 0" and room: "Suc (order_count (order d)) < kNodeCapacity"
    and low: "compare T k0 (hd (node_entries d)) < 0" and k0: "length P \<le> length (order_bytes T k0)" "take (length P) (order_bytes T k0) \<noteq> P"
    and k1: "take (length P) (order_bytes T k1) = P"
    and x: "x \<in> set (node_entries d)" "compare T k1 x < 0" "take (length P) (order_bytes T x) = P"
      "surrogate_at (order_bytes T x) (length P) \<noteq> kEmptyKey"
  defines "d0 \<equiv> appended d 0 k0 (append_lane T d (order d) 0 (order_bytes T k0))"
  defines "r \<equiv> lower_bound_of (\<lambda>y. compare T y k1 < 0) (node_entries d0)"
  defines "d1 \<equiv> appended d0 r k1 (append_lane T d0 (order d0) r (order_bytes T k1))"
  shows "append_lane T d0 (order d0) r (order_bytes T k1) = kEmptyKey" and "\<not> sorted (node_lanes d1)"
proof -
  have ne: "node_entries d \<noteq> []" using x(1) by auto
  have first: "take (length P) (order_bytes T (hd (node_entries d))) = P" using lanes ne unfolding lanes_at_def by blast
  have e0: "node_entries d0 = k0 # node_entries d" by (simp add: d0_def appended_entries [OF ap])
  have pl: "unat (prefix_len d0) = length P" "prefix_len d0 \<noteq> 0"
    using lanes k0(2) by (auto simp: d0_def lanes_at_def)
  have "\<not> shares_prefix T d0 (order d0) (order_bytes T k1)"
    using shares_prefix_inside [of d0 T] pl k0 k1 by (simp add: e0)
  moreover have "r \<noteq> 0"
  proof -
    have "order_bytes T k0 \<le> order_bytes T (hd (node_entries d))" using low by (intro le_bytes) simp
    then have "order_bytes T k0 < P" using between_prefix [OF _ _ first, of "order_bytes T k0"] k0(2) by fastforce
    then have "order_bytes T k0 < order_bytes T k1" using prefix_take_le [OF k1] by simp
    then have "compare T k0 k1 < 0" by (rule bytes_less)
    then show ?thesis by (simp add: r_def e0 lower_bound_of_def)
  qed
  ultimately show lane: "append_lane T d0 (order d0) r (order_bytes T k1) = kEmptyKey" by (simp add: append_lane_def)
  have ap1: "appendable d0 r"
    using lower_bound_of_le [of "\<lambda>y. compare T y k1 < 0" "node_entries d0"] appended_ok [OF ap] room
    by (simp add: appendable_def d0_def appended_count [OF ap] r_def)
  have sorted0: "sorted_wrt (le T) (node_entries d0)"
    using sorted low less_le_trans [OF low] ne by (cases "node_entries d") (auto simp: e0 intro: less_imp_le)
  obtain i where i: "i < length (node_entries d0)" "node_entries d0 ! i = x"
    using x(1) by (metis e0 in_set_conv_nth list.set_intros(2))
  have r: "r \<le> i" unfolding r_def using sorted0 i x(2) by (intro lower_bound_after) simp_all
  then obtain j where j: "i = Suc j" using \<open>r \<noteq> 0\<close> by (cases i) auto
  have "node_lanes d0 ! i = surrogate_at (order_bytes T x) (length P)"
  proof -
    have "node_lanes d0 = append_lane T d (order d) 0 (order_bytes T k0) # node_lanes d"
      by (simp add: d0_def appended_lanes [OF ap])
    then show ?thesis using i j lanes x(3) by (simp add: e0 lanes_at_def prefix_lane_def)
  qed
  moreover have "surrogate_at (order_bytes T x) (length P) < kEmptyKey" using x(4) not_less_kEmptyKey by (metis linorder_neqE)
  ultimately have "node_lanes d1 ! Suc i < node_lanes d1 ! r"
    using i(1) r lane by (simp add: d1_def appended_lanes [OF ap1] nth_ins_at)
  moreover have "Suc i < length (node_lanes d1)" using i(1) by (simp add: d1_def appended_count [OF ap1])
  ultimately show "\<not> sorted (node_lanes d1)" using sorted_nth_mono [of "node_lanes d1" r "Suc i"] r by auto
qed

end

section \<open>Properties\<close>

text \<open>C18: into an anchored payload (its smallest key carries the frozen prefix \<open>P\<close> and each lane is its key's) an append
  writes the surrogate past the prefix of a key that carries it, the lowest lane for a key that sorts below the
  prefix and the highest for one above it, and the lanes stay sorted in rank order. The payload stays anchored
  unless a key outside the prefix has become its smallest.\<close>

theorem append_keeps_lanes_sorted:
  assumes "bytewise_traits T" "node_ok d" "order_count (order d) < kNodeCapacity"
    "lanes_at T d P" "sorted_wrt (le T) (node_entries d)" "node_entries d \<noteq> [] \<or> P = []"
    "r = lower_bound_of (\<lambda>x. compare T x key < 0) (node_entries d)"
  shows "let bytes = order_bytes T key; lane = append_lane T d (order d) r bytes; d' = appended d r key lane
    in lane = (if take (length P) bytes = P then surrogate_at bytes (length P) else if bytes < P then 0 else kEmptyKey) \<and>
       node_lanes d' = ins_at r lane (node_lanes d) \<and> sorted (node_lanes d') \<and>
       (r \<noteq> 0 \<or> take (length P) bytes = P \<longrightarrow> lanes_at T d' P)"
proof -
  let ?lane = "append_lane T d (order d) r (order_bytes T key)"
  have ap: "appendable d r" using assms(2,3,7) lower_bound_of_le [of _ "node_entries d"] by (simp add: appendable_def)
  have "?lane = prefix_lane P (order_bytes T key)"
    by (rule bytewise_traits.append_lane_prefix [OF assms(1,4,5,7,6)])
  moreover have "node_lanes (appended d r key ?lane) = ins_at r ?lane (node_lanes d)" by (rule appended_lanes [OF ap])
  moreover have "sorted (node_lanes (appended d r key ?lane))"
    by (rule bytewise_traits.appended_lanes_sorted [OF assms(1,4,5) ap assms(7,6)])
  moreover have "lanes_at T (appended d r key ?lane) P" if "r \<noteq> 0 \<or> take (length P) (order_bytes T key) = P"
    by (rule bytewise_traits.appended_anchored [OF assms(1,4,5) ap assms(7,6)]) (use that in simp)
  ultimately show ?thesis unfolding Let_def prefix_lane_def by blast
qed

text \<open>C17: in an anchored payload (its smallest key carries the frozen prefix and each lane is its key's) the vector
  search answers every key that carries the prefix: the candidate always passes its confirmation, is the answer, and
  costs no more than two comparator calls besides one for each lane equal to the key's surrogate, so two when there is
  none. The calls are counted along \<^verbatim>\<open>sorted_position\<close> itself: the counting search returns the same rank on every payload,
  anchored or not.\<close>

theorem vector_search_suffices:
  assumes "bytewise_traits T" "node_ok d" "lanes_at T d P" "sorted_wrt (le T) (node_entries d)"
    "take (length P) (order_bytes T key) = P"
  shows "(\<forall>d w n key bytes. fst (counted_position T d w n key bytes) = sorted_position T d w n key bytes) \<and>
    (let w = order d; n = order_count w; bytes = order_bytes T key; candidate = candidate_position T d w n key bytes
     in shares_prefix T d w bytes \<and> confirmed T d w n key candidate \<and> sorted_position T d w n key bytes = candidate \<and>
        snd (counted_position T d w n key bytes) \<le> 2 + count_list (node_lanes d) (surrogate_at bytes (length P)))"
proof -
  let ?n = "order_count (order d)" and ?bytes = "order_bytes T key"
  have c: "confirmed T d (order d) ?n key (candidate_position T d (order d) ?n key ?bytes)"
    using assms by (intro bytewise_traits.candidate_confirmed)
  have s: "shares_prefix T d (order d) ?bytes" using shares_prefix_anchored [OF assms(3)] assms(5) by simp
  have "length P = unat (prefix_len d)" using assms(3) by (simp add: lanes_at_def)
  then show ?thesis
    using c s counted_position_calls [OF s c] by (simp add: sorted_position_def counted_position_rank)
qed

text \<open>A payload of two keys that share their first byte.\<close>

definition two_key_payload :: "string_view node_data" where
  "two_key_payload =
     (let T = string_view_traits Scalar (\<lambda>_ _. 0)
      in fill T (fresh_payload T) [\<lparr>sv_data = (0, 0), sv_bytes = [7, 1]\<rparr>, \<lparr>sv_data = (0, 0), sv_bytes = [7, 3]\<rparr>] None)"

lemma two_key_payload:
  shows "node_ok two_key_payload" and "order_count (order two_key_payload) = 2"
    and "node_entries two_key_payload = [\<lparr>sv_data = (0, 0), sv_bytes = [7, 1]\<rparr>, \<lparr>sv_data = (0, 0), sv_bytes = [7, 3]\<rparr>]"
    and "lanes_at (string_view_traits Scalar (\<lambda>_ _. 0)) two_key_payload [7]"
    and "sorted_wrt (le (string_view_traits Scalar (\<lambda>_ _. 0))) (node_entries two_key_payload)"
proof -
  let ?T = "string_view_traits Scalar (\<lambda>_ _. 0)"
  let ?ks = "[\<lparr>sv_data = (0, 0), sv_bytes = [7, 1]\<rparr>, \<lparr>sv_data = (0, 0), sv_bytes = [7, 3]\<rparr>]"
  have len: "length ?ks \<le> kNodeCapacity" by (simp add: node_consts)
  show "node_ok two_key_payload" unfolding two_key_payload_def Let_def by (rule fill_ok [OF len])
  show "order_count (order two_key_payload) = 2" using fill_count [OF len] by (simp add: two_key_payload_def Let_def)
  show e: "node_entries two_key_payload = ?ks" unfolding two_key_payload_def Let_def by (rule fill_entries [OF len])
  show s: "sorted_wrt (le ?T) (node_entries two_key_payload)" by (simp add: e compare_keys_order)
  have "fill_prefix ?T ?ks = 1"
    by (simp add: fill_prefix_def common_prefix_len_def common_prefix_loop.simps)
  then have "take (unat (fill_prefix ?T ?ks)) (order_bytes ?T (hd ?ks)) = [7]" by simp
  then show "lanes_at ?T two_key_payload [7]"
    using sv.fill_anchored [of Scalar "\<lambda>_ _. 0" ?ks "fresh_payload ?T" None] len s e by (simp add: two_key_payload_def Let_def)
qed

theorem append_keeps_lanes_sorted_witness:
  "let T = string_view_traits Scalar (\<lambda>_ _. 0); k = \<lparr>sv_data = (0, 0), sv_bytes = [6]\<rparr>;
     lane = append_lane T two_key_payload (order two_key_payload) 0 [6]
   in lane = 0 \<and> sorted (node_lanes (appended two_key_payload 0 k lane))"
proof -
  have "0 = lower_bound_of (\<lambda>x. compare (string_view_traits Scalar (\<lambda>_ _. 0)) x \<lparr>sv_data = (0, 0), sv_bytes = [6]\<rparr> < 0)
      (node_entries two_key_payload)"
    by (simp add: two_key_payload(3) lower_bound_of_def compare_keys_order)
  from append_keeps_lanes_sorted [OF sv.bytewise_traits_axioms two_key_payload(1) _ two_key_payload(4,5) _ this]
  show ?thesis unfolding Let_def by (auto simp: two_key_payload(2,3) node_consts)
qed

theorem vector_search_suffices_witness:
  "let T = string_view_traits Scalar (\<lambda>_ _. 0); k = \<lparr>sv_data = (0, 0), sv_bytes = [7, 2]\<rparr>
   in snd (counted_position T two_key_payload (order two_key_payload) 2 k [7, 2]) \<le>
        2 + count_list (node_lanes two_key_payload) (surrogate_at [7, 2] 1) \<and>
      confirmed T two_key_payload (order two_key_payload) 2 k
        (candidate_position T two_key_payload (order two_key_payload) 2 k [7, 2])"
  using vector_search_suffices [OF sv.bytewise_traits_axioms two_key_payload(1,4,5), of "\<lparr>sv_data = (0, 0), sv_bytes = [7, 2]\<rparr>"]
  by (simp add: two_key_payload(2) Let_def)

end
