(* ===== verification/Table.thy ===== *)
theory Table
  imports Node_Data
begin

text \<open>
  The table of \<^verbatim>\<open>include/aparajita/memtable.hpp\<close> at rest: the list nodes and payloads the allocator
  has handed out, addressed by their index, publication, and the read paths through the tower and
  level 0 (\<^verbatim>\<open>descend\<close>, \<^verbatim>\<open>pred_node\<close>, \<^verbatim>\<open>last_node\<close>, \<^verbatim>\<open>pred_at_level\<close>, \<^verbatim>\<open>contains_target\<close>).

  A null pointer is \<open>None\<close>. Every loop that follows pointers is a \<open>partial_function\<close> into
  \<open>option\<close>: \<open>None\<close> is a walk that does not end, and the lemmas prove \<open>Some\<close>.
\<close>

definition kMaxHeight :: nat where "kMaxHeight = 12"

record list_node =
  data :: "nat option"
  first_hint :: u64
  write_lock :: bool
  height :: u8
  tower :: "nat option list"

record 'e table =
  lnodes :: "list_node list"
  payloads :: "'e node_data list"
  head_node :: nat
  hints :: bool

definition new_list_node :: list_node where
  "new_list_node =
     \<lparr>data = None, first_hint = 0, write_lock = False, height = 1, tower = replicate kMaxHeight None\<rparr>"

definition upd_node :: "'e table \<Rightarrow> nat \<Rightarrow> (list_node \<Rightarrow> list_node) \<Rightarrow> 'e table" where
  "upd_node t n f = t\<lparr>lnodes := (lnodes t)[n := f (lnodes t ! n)]\<rparr>"

definition upd_payload :: "'e table \<Rightarrow> nat \<Rightarrow> ('e node_data \<Rightarrow> 'e node_data) \<Rightarrow> 'e table" where
  "upd_payload t p f = t\<lparr>payloads := (payloads t)[p := f (payloads t ! p)]\<rparr>"

text \<open>The payload a node shows: the load of \<^verbatim>\<open>data\<close> and the dereference.\<close>

definition get_data :: "'e table \<Rightarrow> nat \<Rightarrow> 'e node_data" where
  "get_data t n = payloads t ! the (data (lnodes t ! n))"

definition next_of :: "'e table \<Rightarrow> nat \<Rightarrow> nat option" where
  "next_of t n = next_link (get_data t n)"

definition tower_at :: "'e table \<Rightarrow> nat \<Rightarrow> nat \<Rightarrow> nat option" where
  "tower_at t lv n = tower (lnodes t ! n) ! lv"

section \<open>Allocation and publication\<close>

definition create_node :: "'e table \<Rightarrow> nat \<times> 'e table" where
  "create_node t = (length (lnodes t), t\<lparr>lnodes := lnodes t @ [new_list_node]\<rparr>)"

definition fresh_data :: "'e traits \<Rightarrow> 'e table \<Rightarrow> nat \<times> 'e table" where
  "fresh_data T t = (length (payloads t), t\<lparr>payloads := payloads t @ [fresh_payload T]\<rparr>)"

definition publish_hint :: "'e traits \<Rightarrow> 'e table \<Rightarrow> nat \<Rightarrow> 'e \<Rightarrow> 'e table" where
  "publish_hint T t n first =
     (let h = descent_hint (order_bytes T first)
      in if first_hint (lnodes t ! n) \<noteq> h then upd_node t n (\<lambda>x. x\<lparr>first_hint := h\<rparr>) else t)"

definition publish :: "'e traits \<Rightarrow> 'e table \<Rightarrow> nat \<Rightarrow> nat \<Rightarrow> 'e table" where
  "publish T t n nd =
     (let d = payloads t ! nd; w = order d;
          t = (if order_count w > 0 then publish_hint T t n (key_at d w 0) else t)
      in upd_node t n (\<lambda>x. x\<lparr>data := Some nd\<rparr>))"

definition new_table :: "'e traits \<Rightarrow> 'e table" where
  "new_table T =
     (let t = \<lparr>lnodes = [], payloads = [], head_node = 0, hints = hint_ordering T\<rparr>;
          (h, t) = create_node t;
          t = t\<lparr>head_node := h\<rparr>;
          t = upd_node t h (\<lambda>x. x\<lparr>height := of_nat kMaxHeight\<rparr>);
          (p, t) = fresh_data T t
      in publish T t h p)"

section \<open>The walks\<close>

definition starts_at_or_below :: "'e traits \<Rightarrow> 'e table \<Rightarrow> 'e \<Rightarrow> u64 \<Rightarrow> nat \<Rightarrow> bool" where
  "starts_at_or_below T t key hint n =
     (if hints t \<and> first_hint (lnodes t ! n) \<noteq> hint then first_hint (lnodes t ! n) < hint
      else let d = get_data t n; w = order d
           in order_count w > 0 \<and> compare T (key_at d w 0) key \<le> 0)"

definition starts_strictly_below :: "'e traits \<Rightarrow> 'e table \<Rightarrow> 'e \<Rightarrow> u64 \<Rightarrow> nat \<Rightarrow> bool" where
  "starts_strictly_below T t key hint n =
     (if hints t \<and> first_hint (lnodes t ! n) \<noteq> hint then first_hint (lnodes t ! n) < hint
      else let d = get_data t n; w = order d
           in order_count w > 0 \<and> compare T (key_at d w 0) key < 0)"

text \<open>The inner loop of every walk: follow \<open>nx\<close> while the successor passes the test.\<close>

partial_function (option) advance :: "(nat \<Rightarrow> nat option) \<Rightarrow> (nat \<Rightarrow> bool) \<Rightarrow> nat \<Rightarrow> nat option" where
  "advance nx ok cur =
     (case nx cur of None \<Rightarrow> Some cur
      | Some n \<Rightarrow> if ok n then advance nx ok n else Some cur)"

declare advance.simps [code]

fun tower_walk :: "'e table \<Rightarrow> (nat \<Rightarrow> bool) \<Rightarrow> nat list \<Rightarrow> nat \<Rightarrow> nat option" where
  "tower_walk t ok [] cur = Some cur"
| "tower_walk t ok (lv # lvs) cur =
     Option.bind (advance (tower_at t lv) ok cur) (tower_walk t ok lvs)"

text \<open>The levels from the top of the tower down to \<open>lv\<close>.\<close>

definition levels_down_to :: "nat \<Rightarrow> nat list" where
  "levels_down_to lv = rev [lv..<kMaxHeight]"

definition search_hint :: "'e table \<Rightarrow> bytes \<Rightarrow> u64" where
  "search_hint t bytes = (if hints t then descent_hint bytes else 0)"

definition descend :: "'e traits \<Rightarrow> 'e table \<Rightarrow> 'e \<Rightarrow> bytes \<Rightarrow> nat option" where
  "descend T t key bytes =
     (let ok = starts_at_or_below T t key (search_hint t bytes)
      in Option.bind (tower_walk t ok (levels_down_to 1) (head_node t)) (advance (next_of t) ok))"

text \<open>\<open>Some None\<close> is the null result; \<open>n\<close> is the node the caller stands on, with its snapshot.\<close>

definition pred_node :: "'e traits \<Rightarrow> 'e table \<Rightarrow> nat option \<Rightarrow> 'e node_data \<Rightarrow> u64 \<Rightarrow> nat option option" where
  "pred_node T t n d w =
     (if n = Some (head_node t) \<or> order_count w = 0 then Some None
      else
        let first = key_at d w 0;
            ok = (\<lambda>nx. Some nx \<noteq> n \<and> starts_strictly_below T t first (search_hint t (order_bytes T first)) nx)
        in map_option Some
             (Option.bind (tower_walk t ok (levels_down_to 1) (head_node t)) (advance (next_of t) ok)))"

definition last_node :: "'e table \<Rightarrow> nat option" where
  "last_node t =
     Option.bind (tower_walk t (\<lambda>_. True) (levels_down_to 1) (head_node t)) (advance (next_of t) (\<lambda>_. True))"

definition pred_at_level :: "'e traits \<Rightarrow> 'e table \<Rightarrow> nat \<Rightarrow> 'e \<Rightarrow> u64 \<Rightarrow> nat option" where
  "pred_at_level T t lv key hint =
     tower_walk t (starts_at_or_below T t key hint) (levels_down_to lv) (head_node t)"

definition belongs_here :: "'e traits \<Rightarrow> 'e table \<Rightarrow> 'e node_data \<Rightarrow> 'e \<Rightarrow> bool" where
  "belongs_here T t d key =
     (case next_link d of None \<Rightarrow> True
      | Some n \<Rightarrow> let nd = get_data t n; w = order nd
                 in order_count w = 0 \<or> compare T (key_at nd w 0) key > 0)"

definition contains_target :: "'e traits \<Rightarrow> 'e table \<Rightarrow> 'e \<Rightarrow> bool option" where
  "contains_target T t key =
     (let bytes = order_bytes T key
      in Option.bind (descend T t key bytes) (\<lambda>cur.
           let d = get_data t cur; w = order d; n = order_count w;
               p = sorted_position T d w n key bytes
           in Some (p < n \<and> compare T (key_at d w p) key = 0)))"

section \<open>The level 0 chain\<close>

fun path :: "'e table \<Rightarrow> nat option \<Rightarrow> nat list \<Rightarrow> bool" where
  "path t n [] \<longleftrightarrow> n = None"
| "path t n (x # xs) \<longleftrightarrow> n = Some x \<and> path t (next_of t x) xs"

abbreviation entries_of :: "'e table \<Rightarrow> nat \<Rightarrow> 'e list" where
  "entries_of t n \<equiv> node_entries (get_data t n)"

definition chain_entries :: "'e table \<Rightarrow> nat list \<Rightarrow> 'e list" where
  "chain_entries t ns = concat (map (entries_of t) ns)"

text \<open>What holds of a node of the chain by itself.\<close>

definition lnode_ok :: "'e traits \<Rightarrow> 'e table \<Rightarrow> nat \<Rightarrow> bool" where
  "lnode_ok T t n \<longleftrightarrow>
     n < length (lnodes t) \<and>
     (\<exists>p. data (lnodes t ! n) = Some p \<and> p < length (payloads t)) \<and>
     node_ok (get_data t n) \<and>
     (entries_of t n \<noteq> [] \<longrightarrow> first_hint (lnodes t ! n) = descent_hint (order_bytes T (hd (entries_of t n)))) \<and>
     length (tower (lnodes t ! n)) = kMaxHeight"

text \<open>
  A tower pointer leads to a node of the chain, and the pointers of one level have no cycle: some
  rank grows along them. Which pointers exist, and whether they point forward on level 0, is never
  relied on (with equal keys in several nodes a freshly linked sibling can be placed after a node
  that follows it on level 0).
\<close>

definition level_ranked :: "'e table \<Rightarrow> nat list \<Rightarrow> nat \<Rightarrow> bool" where
  "level_ranked t ns lv \<longleftrightarrow>
     (\<exists>f :: nat \<Rightarrow> nat. \<forall>x \<in> set ns. \<forall>y. tower_at t lv x = Some y \<longrightarrow> f x < f y)"

definition towers_ok :: "'e table \<Rightarrow> nat list \<Rightarrow> bool" where
  "towers_ok t ns \<longleftrightarrow>
     (\<forall>lv < kMaxHeight. level_ranked t ns lv \<and> (\<forall>x \<in> set ns. \<forall>y. tower_at t lv x = Some y \<longrightarrow> y \<in> set ns))"

definition chain_ok :: "'e traits \<Rightarrow> 'e table \<Rightarrow> nat list \<Rightarrow> bool" where
  "chain_ok T t ns \<longleftrightarrow>
     path t (Some (head_node t)) ns \<and> distinct ns \<and> distinct (map (\<lambda>n. data (lnodes t ! n)) ns) \<and>
     (\<forall>n \<in> set ns. lnode_ok T t n) \<and> (\<forall>n \<in> set (tl ns). entries_of t n \<noteq> []) \<and>
     sorted_wrt (le T) (chain_entries t ns) \<and> towers_ok t ns \<and> hints t = hint_ordering T"

text \<open>Between operations no lock is held.\<close>

definition quiescent :: "'e table \<Rightarrow> bool" where
  "quiescent t \<longleftrightarrow> (\<forall>x \<in> set (lnodes t). \<not> write_lock x)"

definition table_ok :: "'e traits \<Rightarrow> 'e table \<Rightarrow> bool" where
  "table_ok T t \<longleftrightarrow> (\<exists>ns. chain_ok T t ns) \<and> quiescent t"

text \<open>The chain itself, read off the links; a chain is no longer than the list of nodes.\<close>

fun follow :: "nat \<Rightarrow> 'e table \<Rightarrow> nat option \<Rightarrow> nat list" where
  "follow 0 t n = []"
| "follow (Suc k) t None = []"
| "follow (Suc k) t (Some n) = n # follow k t (next_of t n)"

definition level0 :: "'e table \<Rightarrow> nat list" where
  "level0 t = follow (length (lnodes t)) t (Some (head_node t))"

text \<open>The abstraction of a table: its entries in level 0 order.\<close>

definition entries :: "'e table \<Rightarrow> 'e list" where
  "entries t = chain_entries t (level0 t)"

lemma follow_path: "path t n xs \<Longrightarrow> length xs \<le> k \<Longrightarrow> follow k t n = xs"
proof (induction xs arbitrary: n k)
  case Nil
  then show ?case by (cases k) auto
next
  case (Cons x xs)
  then show ?case by (cases k) auto
qed

lemma chain_length:
  assumes "chain_ok T t ns"
  shows "length ns \<le> length (lnodes t)"
proof -
  have "set ns \<subseteq> {..<length (lnodes t)}" "distinct ns"
    using assms by (auto simp: chain_ok_def lnode_ok_def)
  then show ?thesis by (metis card_lessThan card_mono distinct_card finite_lessThan)
qed

lemma level0_chain: "chain_ok T t ns \<Longrightarrow> level0 t = ns"
  using chain_length [of T t ns] by (auto simp: level0_def chain_ok_def intro: follow_path)

lemma table_ok_level0: "table_ok T t \<longleftrightarrow> chain_ok T t (level0 t) \<and> quiescent t"
  using level0_chain unfolding table_ok_def by metis

lemma entries_chain: "chain_ok T t ns \<Longrightarrow> entries t = chain_entries t ns"
  by (simp add: entries_def level0_chain)


section \<open>The walks end, and where\<close>

text \<open>A walk along ranked pointers inside a finite set ends, on its start or on a node that passed the test.\<close>

lemma advance_ranked:
  assumes closed: "\<And>x y. x \<in> set ns \<Longrightarrow> nx x = Some y \<Longrightarrow> y \<in> set ns \<and> f x < (f y :: nat)"
  shows "cur \<in> set ns \<Longrightarrow> \<exists>c. advance nx ok cur = Some c \<and> c \<in> set ns \<and> (c = cur \<or> ok c)"
proof (induction "card {y \<in> set ns. f cur < f y}" arbitrary: cur rule: less_induct)
  case less
  show ?case
  proof (cases "\<exists>n. nx cur = Some n \<and> ok n")
    case True
    then obtain n where n: "nx cur = Some n" "ok n" by blast
    then have m: "n \<in> set ns" "f cur < f n" using closed less.prems by blast+
    then have "{y \<in> set ns. f n < f y} \<subset> {y \<in> set ns. f cur < f y}" by auto
    then have "card {y \<in> set ns. f n < f y} < card {y \<in> set ns. f cur < f y}"
      by (intro psubset_card_mono) auto
    then obtain c where "advance nx ok n = Some c" "c \<in> set ns" "c = n \<or> ok c"
      using less.hyps m(1) by blast
    then show ?thesis using n by (auto simp: advance.simps [of nx ok cur])
  next
    case False
    then show ?thesis using less.prems by (auto simp: advance.simps [of nx ok cur] split: option.split)
  qed
qed

lemma tower_walk_ends:
  assumes "towers_ok t ns"
  shows "set lvs \<subseteq> {..<kMaxHeight} \<Longrightarrow> cur \<in> set ns \<Longrightarrow>
    \<exists>c. tower_walk t ok lvs cur = Some c \<and> c \<in> set ns \<and> (c = cur \<or> ok c)"
proof (induction lvs arbitrary: cur)
  case Nil
  then show ?case by simp
next
  case (Cons lv lvs)
  then have lv: "lv < kMaxHeight" by simp
  then obtain f where f: "\<forall>x \<in> set ns. \<forall>y. tower_at t lv x = Some y \<longrightarrow> f x < (f y :: nat)"
    using assms by (auto simp: towers_ok_def level_ranked_def)
  have "\<exists>c. advance (tower_at t lv) ok cur = Some c \<and> c \<in> set ns \<and> (c = cur \<or> ok c)"
    using f lv assms Cons.prems(2) by (intro advance_ranked [where f = f]) (auto simp: towers_ok_def)
  then obtain c where c: "advance (tower_at t lv) ok cur = Some c" "c \<in> set ns" "c = cur \<or> ok c" by blast
  then obtain c' where "tower_walk t ok lvs c = Some c'" "c' \<in> set ns" "c' = c \<or> ok c'"
    using Cons by auto
  then show ?case using c by auto
qed

lemma levels_down_to_subset: "set (levels_down_to lv) \<subseteq> {..<kMaxHeight}"
  by (auto simp: levels_down_to_def)

text \<open>On level 0 the walk stops before the first node that fails the test.\<close>

lemma advance_path:
  "path t (next_of t cur) vs \<Longrightarrow> advance (next_of t) ok cur = Some (last (cur # takeWhile ok vs))"
proof (induction vs arbitrary: cur)
  case Nil
  then show ?case by (simp add: advance.simps)
next
  case (Cons v vs)
  then show ?case by (cases "ok v") (simp_all add: advance.simps [of _ ok cur])
qed

lemma path_append_Cons: "path t n (us @ c # vs) \<Longrightarrow> path t (next_of t c) vs"
  by (induction us arbitrary: n) auto

definition downward :: "('a \<Rightarrow> bool) \<Rightarrow> 'a list \<Rightarrow> bool" where
  "downward ok vs \<longleftrightarrow> (\<forall>us x ws. vs = us @ x # ws \<longrightarrow> ok x \<longrightarrow> (\<forall>u \<in> set us. ok u))"

text \<open>
  The whole search: through any levels of the tower, then along level 0. The tower only shortens it.
\<close>

lemma search_walk:
  assumes path: "path t (Some h) (h # vs)" and towers: "towers_ok t (h # vs)"
    and down: "downward ok vs" and lvs: "set lvs \<subseteq> {..<kMaxHeight}"
  shows "Option.bind (tower_walk t ok lvs h) (advance (next_of t) ok) = Some (last (h # takeWhile ok vs))"
proof -
  obtain c where c: "tower_walk t ok lvs h = Some c" "c \<in> set (h # vs)" "c = h \<or> ok c"
    using tower_walk_ends [OF towers lvs, of h ok] by auto
  have "advance (next_of t) ok c = Some (last (h # takeWhile ok vs))"
  proof (cases "c = h")
    case True
    then show ?thesis using path by (simp add: advance_path)
  next
    case False
    then have "ok c" "c \<in> set vs" using c by auto
    then obtain us ws where v: "vs = us @ c # ws" by (metis split_list)
    then have "\<forall>u \<in> set us. ok u" using down \<open>ok c\<close> by (auto simp: downward_def)
    then have tw: "takeWhile ok vs = us @ c # takeWhile ok ws" using v \<open>ok c\<close> by simp
    have "path t (next_of t c) ws" using path path_append_Cons [of t _ "h # us" c ws] v by auto
    then have "advance (next_of t) ok c = Some (last (c # takeWhile ok ws))" by (rule advance_path)
    then show ?thesis using tw by simp
  qed
  then show ?thesis using c by simp
qed


section \<open>Where the searches stop on a lawful chain\<close>

abbreviation first_of :: "'e table \<Rightarrow> nat \<Rightarrow> 'e" where
  "first_of t n \<equiv> hd (entries_of t n)"

lemma chain_entries_simps [simp]:
  "chain_entries t [] = []"
  "chain_entries t (n # ns) = entries_of t n @ chain_entries t ns"
  "chain_entries t (us @ vs) = chain_entries t us @ chain_entries t vs"
  by (simp_all add: chain_entries_def)

lemma chain_okD:
  assumes "chain_ok T t ns"
  shows "path t (Some (head_node t)) ns" "distinct ns" "distinct (map (\<lambda>n. data (lnodes t ! n)) ns)"
    "\<And>n. n \<in> set ns \<Longrightarrow> lnode_ok T t n" "\<And>n. n \<in> set (tl ns) \<Longrightarrow> entries_of t n \<noteq> []"
    "sorted_wrt (le T) (chain_entries t ns)" "towers_ok t ns" "hints t = hint_ordering T"
  using assms by (auto simp: chain_ok_def)

lemma chain_head: "chain_ok T t ns \<Longrightarrow> \<exists>ts. ns = head_node t # ts"
  using chain_okD(1) [of T t ns] by (cases ns) auto

lemma set_tl_subset: "n \<in> set (tl ns) \<Longrightarrow> n \<in> set ns"
  by (cases ns) auto

lemma first_key_at: "entries_of t n \<noteq> [] \<Longrightarrow> key_at (get_data t n) (order (get_data t n)) 0 = first_of t n"
  using key_at_entries [of 0 "get_data t n"] length_node_entries [of "get_data t n"]
  by (cases "entries_of t n") auto

lemma order_count_pos: "entries_of t n \<noteq> [] \<longleftrightarrow> order_count (order (get_data t n)) > 0"
  using length_node_entries [of "get_data t n"] by (metis length_greater_0_conv)

definition locate :: "'e traits \<Rightarrow> 'e table \<Rightarrow> nat list \<Rightarrow> 'e \<Rightarrow> nat" where
  "locate T t ns key = last (hd ns # takeWhile (\<lambda>n. le T (first_of t n) key) (tl ns))"

lemma last_takeWhile_split:
  "\<exists>us. h # vs = us @ last (h # takeWhile ok vs) # dropWhile ok vs \<and>
     (us \<noteq> [] \<longrightarrow> ok (last (h # takeWhile ok vs)) \<and> last (h # takeWhile ok vs) \<in> set vs)"
proof (cases "takeWhile ok vs = []")
  case True
  then have "h # vs = [] @ h # dropWhile ok vs" by (metis append_Nil takeWhile_dropWhile_id)
  then show ?thesis using True by (metis last_ConsL)
next
  case False
  let ?l = "last (takeWhile ok vs)"
  have "takeWhile ok vs = butlast (takeWhile ok vs) @ [?l]" using False by simp
  then have "h # vs = (h # butlast (takeWhile ok vs)) @ ?l # dropWhile ok vs"
    by (metis append_Cons append_assoc append_Nil takeWhile_dropWhile_id)
  moreover have "ok ?l" "?l \<in> set vs" using last_in_set [OF False] by (auto dest: set_takeWhileD)
  ultimately show ?thesis using False by (intro exI [of _ "h # butlast (takeWhile ok vs)"]) simp
qed

context ordered_traits
begin

lemma at_or_below_iff:
  assumes "lnode_ok T t n" "entries_of t n \<noteq> []" "hints t = hint_ordering T"
  shows "starts_at_or_below T t key (search_hint t (order_bytes T key)) n \<longleftrightarrow> le T (first_of t n) key"
proof -
  have h: "first_hint (lnodes t ! n) = descent_hint (order_bytes T (first_of t n))"
    using assms(1,2) by (simp add: lnode_ok_def)
  consider "\<not> hint_ordering T \<or> first_hint (lnodes t ! n) = search_hint t (order_bytes T key)"
    | "hint_ordering T" "first_hint (lnodes t ! n) < search_hint t (order_bytes T key)"
    | "hint_ordering T" "search_hint t (order_bytes T key) < first_hint (lnodes t ! n)"
    by (metis linorder_neqE)
  then show ?thesis
  proof cases
    case 1
    then show ?thesis
      using assms(2,3) order_count_pos [of t n] first_key_at [OF assms(2)]
      by (auto simp: starts_at_or_below_def Let_def)
  next
    case 2
    then have "compare T (first_of t n) key < 0"
      using assms(3) h by (intro hint_less) (auto simp: search_hint_def)
    then show ?thesis using 2 assms(3) by (auto simp: starts_at_or_below_def)
  next
    case 3
    then have "compare T key (first_of t n) < 0"
      using assms(3) h by (intro hint_less) (auto simp: search_hint_def)
    then have "\<not> le T (first_of t n) key" by (simp add: not_le)
    moreover have "first_hint (lnodes t ! n) \<noteq> search_hint t (order_bytes T key)" using 3(2) by auto
    ultimately show ?thesis using 3 assms(3) less_not_sym [OF 3(2)] by (simp add: starts_at_or_below_def)
  qed
qed

lemma strictly_below_iff:
  assumes "lnode_ok T t n" "entries_of t n \<noteq> []" "hints t = hint_ordering T"
  shows "starts_strictly_below T t key (search_hint t (order_bytes T key)) n \<longleftrightarrow> compare T (first_of t n) key < 0"
proof -
  have h: "first_hint (lnodes t ! n) = descent_hint (order_bytes T (first_of t n))"
    using assms(1,2) by (simp add: lnode_ok_def)
  consider "\<not> hint_ordering T \<or> first_hint (lnodes t ! n) = search_hint t (order_bytes T key)"
    | "hint_ordering T" "first_hint (lnodes t ! n) < search_hint t (order_bytes T key)"
    | "hint_ordering T" "search_hint t (order_bytes T key) < first_hint (lnodes t ! n)"
    by (metis linorder_neqE)
  then show ?thesis
  proof cases
    case 1
    then show ?thesis
      using assms(2,3) order_count_pos [of t n] first_key_at [OF assms(2)]
      by (auto simp: starts_strictly_below_def Let_def)
  next
    case 2
    then have "compare T (first_of t n) key < 0"
      using assms(3) h by (intro hint_less) (auto simp: search_hint_def)
    then show ?thesis using 2 assms(3) by (auto simp: starts_strictly_below_def)
  next
    case 3
    then have "compare T key (first_of t n) < 0"
      using assms(3) h by (intro hint_less) (auto simp: search_hint_def)
    then have "\<not> compare T (first_of t n) key < 0" by (simp add: not_less)
    moreover have "first_hint (lnodes t ! n) \<noteq> search_hint t (order_bytes T key)" using 3(2) by auto
    ultimately show ?thesis using 3 assms(3) less_not_sym [OF 3(2)] by (simp add: starts_strictly_below_def)
  qed
qed

text \<open>First keys do not decrease along the chain.\<close>

lemma first_of_mono:
  assumes "chain_ok T t ns" "tl ns = us @ x # ws" "u \<in> set us"
  shows "le T (first_of t u) (first_of t x)"
proof -
  obtain ys zs where us: "us = ys @ u # zs" using assms(3) by (metis split_list)
  obtain h where ns: "ns = h # ys @ u # zs @ x # ws"
    using assms(2) us chain_head [OF assms(1)] by auto
  have "u \<in> set (tl ns)" "x \<in> set (tl ns)" using ns by auto
  then have ne: "entries_of t u \<noteq> []" "entries_of t x \<noteq> []" using chain_okD(5) [OF assms(1)] by auto
  have s: "sorted_wrt (le T) (entries_of t u @ chain_entries t zs @ entries_of t x @ chain_entries t ws)"
    using chain_okD(6) [OF assms(1)] unfolding ns by (simp add: sorted_wrt_append)
  then show ?thesis using ne by (auto simp: sorted_wrt_append hd_in_set)
qed

lemma downward_first_below:
  assumes "chain_ok T t ns" "\<And>a b. le T a b \<Longrightarrow> P b \<Longrightarrow> P a"
  shows "downward (\<lambda>n. P (first_of t n)) (tl ns)"
  unfolding downward_def using first_of_mono [OF assms(1)] assms(2) by blast

lemma search_walk_chain:
  assumes ok: "chain_ok T t ns" and down: "downward test (tl ns)"
    and same: "\<And>n. n \<in> set (tl ns) \<Longrightarrow> test n \<longleftrightarrow> test' n"
    and lvs: "set lvs \<subseteq> {..<kMaxHeight}"
  shows "Option.bind (tower_walk t test lvs (head_node t)) (advance (next_of t) test) =
    Some (last (hd ns # takeWhile test' (tl ns)))"
proof -
  obtain ts where ns: "ns = head_node t # ts" using chain_head [OF ok] by blast
  have "Option.bind (tower_walk t test lvs (head_node t)) (advance (next_of t) test) =
      Some (last (head_node t # takeWhile test ts))"
    using chain_okD(1,7) [OF ok] down lvs ns by (intro search_walk) auto
  also have "takeWhile test ts = takeWhile test' ts"
    using same ns by (intro takeWhile_cong) auto
  finally show ?thesis using ns by simp
qed

lemma downward_cong: "downward P vs \<Longrightarrow> (\<And>n. n \<in> set vs \<Longrightarrow> P n \<longleftrightarrow> Q n) \<Longrightarrow> downward Q vs"
  unfolding downward_def by auto

lemma descend_locate:
  assumes ok: "chain_ok T t ns"
  shows "descend T t key (order_bytes T key) = Some (locate T t ns key)"
proof -
  let ?test = "starts_at_or_below T t key (search_hint t (order_bytes T key))"
  have same: "?test n \<longleftrightarrow> le T (first_of t n) key" if "n \<in> set (tl ns)" for n
    using chain_okD(4) [OF ok set_tl_subset [OF that]] chain_okD(5) [OF ok that] chain_okD(8) [OF ok]
    by (rule at_or_below_iff)
  have "downward (\<lambda>n. le T (first_of t n) key) (tl ns)"
    by (rule downward_first_below [OF ok]) (rule le_trans)
  then have "downward ?test (tl ns)" by (rule downward_cong) (simp add: same)
  from search_walk_chain [OF ok this same levels_down_to_subset [of 1]] show ?thesis
    by (simp add: descend_def Let_def locate_def)
qed

text \<open>The located node separates the chain at the key.\<close>

lemma locate_split:
  assumes ok: "chain_ok T t ns"
  obtains us vs where "ns = us @ locate T t ns key # vs"
    "us \<noteq> [] \<Longrightarrow> entries_of t (locate T t ns key) \<noteq> [] \<and> le T (first_of t (locate T t ns key)) key"
    "\<And>x. x \<in> set (chain_entries t us) \<Longrightarrow> le T x key"
    "\<And>x. x \<in> set (chain_entries t vs) \<Longrightarrow> compare T key x < 0"
    "\<And>v. v \<in> set vs \<Longrightarrow> compare T key (first_of t v) < 0"
proof -
  let ?test = "\<lambda>n. le T (first_of t n) key"
  let ?c = "locate T t ns key"
  obtain ts where ns: "ns = head_node t # ts" using chain_head [OF ok] by blast
  have c_def: "?c = last (head_node t # takeWhile ?test ts)"
    by (simp only: locate_def ns list.sel)
  obtain us where split: "ns = us @ ?c # dropWhile ?test ts"
    and c: "us \<noteq> [] \<Longrightarrow> ?test ?c" "us \<noteq> [] \<Longrightarrow> ?c \<in> set ts"
    using last_takeWhile_split [of "head_node t" ts ?test] unfolding c_def [symmetric] ns by blast
  have sorted: "sorted_wrt (le T) (chain_entries t us @ entries_of t ?c @ chain_entries t (dropWhile ?test ts))"
    using chain_okD(6) [OF ok] split by (metis chain_entries_simps(2,3))
  have ne: "n \<in> set ts \<Longrightarrow> entries_of t n \<noteq> []" for n using chain_okD(5) [OF ok] ns by simp
  have drop: "compare T key x < 0" if "x \<in> set (chain_entries t (dropWhile ?test ts))" for x
  proof -
    obtain v ws where vs: "dropWhile ?test ts = v # ws" using \<open>x \<in> _\<close> by (cases "dropWhile ?test ts") auto
    have "v \<in> set ts" using vs by (metis list.set_intros(1) set_dropWhileD)
    moreover have "\<not> ?test v" using vs hd_dropWhile [of ?test ts] by simp
    moreover have "x = first_of t v \<or> le T (first_of t v) x"
      using sorted that vs ne [OF \<open>v \<in> set ts\<close>]
      by (cases "entries_of t v") (auto simp: sorted_wrt_append)
    ultimately show ?thesis using less_le_trans not_le by blast
  qed
  show thesis
  proof (rule that [OF split])
    assume "us \<noteq> []"
    then show "entries_of t ?c \<noteq> [] \<and> ?test ?c" using c ne by simp
  next
    fix x
    assume x: "x \<in> set (chain_entries t us)"
    then have "us \<noteq> []" by auto
    then have "?test ?c" "entries_of t ?c \<noteq> []" using c ne by auto
    then show "le T x key"
      using sorted x le_trans [of x "first_of t ?c" key] by (auto simp: sorted_wrt_append)
  next
    fix v
    assume v: "v \<in> set (dropWhile ?test ts)"
    then have "entries_of t v \<noteq> []" using ne set_dropWhileD by metis
    then have "first_of t v \<in> set (chain_entries t (dropWhile ?test ts))"
      using v hd_in_set by (fastforce simp: chain_entries_def)
    then show "compare T key (first_of t v) < 0" by (rule drop)
  qed (rule drop)
qed

end

end
