(* ===== verification/Lookup.thy ===== *)
theory Lookup
  imports Table
begin

text \<open>
  What the read paths answer on a lawful table: \<open>contains_target\<close> decides membership, duplicates or
  not; the descent and the rank search together find a position that splits the entries at the key;
  \<open>last_node\<close> is the end of the chain and \<open>pred_node\<close> the last node that starts strictly below.
\<close>

lemma takeWhile_True: "takeWhile (\<lambda>_. True) xs = xs"
  by (induction xs) auto

section \<open>Lists in comparator order\<close>

definition splits_at :: "'e traits \<Rightarrow> 'e list \<Rightarrow> 'e \<Rightarrow> nat \<Rightarrow> bool" where
  "splits_at T xs key q \<longleftrightarrow>
     q \<le> length xs \<and> (\<forall>x \<in> set (take q xs). le T x key) \<and> (\<forall>x \<in> set (drop q xs). le T key x)"

text \<open>No two entries compare equal: RocksDB's internal keys, where the sequence number separates.\<close>

definition strict_keys :: "'e traits \<Rightarrow> 'e list \<Rightarrow> bool" where
  "strict_keys T xs \<longleftrightarrow> sorted_wrt (\<lambda>a b. compare T a b < 0) xs"

context ordered_traits
begin

lemma lower_bound_hit:
  assumes "sorted_wrt (le T) xs"
  shows "lower_bound_of (\<lambda>x. compare T x key < 0) xs < length xs \<and>
      compare T (xs ! lower_bound_of (\<lambda>x. compare T x key < 0) xs) key = 0 \<longleftrightarrow>
    (\<exists>x \<in> set xs. compare T x key = 0)"
proof (safe)
  fix x
  assume x: "x \<in> set xs" "compare T x key = 0"
  let ?q = "lower_bound_of (\<lambda>x. compare T x key < 0) xs"
  obtain i where i: "i < length xs" "xs ! i = x" using x by (auto simp: in_set_conv_nth)
  have "\<not> i < ?q" using lower_bound_of_below [of i "\<lambda>x. compare T x key < 0" xs] i x by auto
  then have qi: "?q \<le> i" by simp
  then show q: "?q < length xs" using i by simp
  have "le T (xs ! ?q) x" using sorted_wrt_nth_less [OF assms, of ?q i] qi i by (cases "?q = i") auto
  then have "le T (xs ! ?q) key" using le_trans [of "xs ! ?q" x key] x by simp
  moreover have "\<not> compare T (xs ! ?q) key < 0" using lower_bound_of_stop [of "\<lambda>x. compare T x key < 0" xs] q by simp
  ultimately show "compare T (xs ! ?q) key = 0" by simp
qed auto

lemma strict_keys_sorted: "strict_keys T xs \<Longrightarrow> sorted_wrt (le T) xs"
  unfolding strict_keys_def by (erule sorted_wrt_mono_rel [rotated]) simp

lemma splits_at_lower_bound:
  "sorted_wrt (le T) xs \<Longrightarrow> splits_at T xs key (lower_bound_of (\<lambda>x. compare T x key < 0) xs)"
  unfolding splits_at_def
  by (intro conjI ballI lower_bound_of_le lower_bound_drop less_imp_le lower_bound_take)

text \<open>Without an equal entry below it, a split is the lower bound.\<close>

lemma splits_at_unique:
  assumes "splits_at T xs key q" "\<And>x. x \<in> set (take q xs) \<Longrightarrow> compare T x key \<noteq> 0"
  shows "q = lower_bound_of (\<lambda>x. compare T x key < 0) xs"
proof -
  have below: "\<forall>x \<in> set (take q xs). compare T x key < 0"
    using assms by (force simp: splits_at_def)
  have "xs = take q xs @ drop q xs" by simp
  have above: "drop q xs = [] \<or> \<not> compare T (hd (drop q xs)) key < 0"
    using assms(1) by (cases "drop q xs") (auto simp: splits_at_def not_less)
  have "takeWhile (\<lambda>x. compare T x key < 0) (take q xs @ drop q xs) = take q xs"
    using below above by (cases "drop q xs") (auto simp: takeWhile_append)
  then show ?thesis using assms(1) by (simp add: lower_bound_of_def splits_at_def)
qed

text \<open>Inserting at a split, with no equal entry there, keeps distinct keys distinct.\<close>

lemma ins_at_strict:
  assumes s: "strict_keys T xs" and sp: "splits_at T xs e k" and ne: "\<forall>x \<in> set xs. compare T x e \<noteq> 0"
  shows "strict_keys T (ins_at k e xs)"
proof -
  have "compare T x e < 0" if "x \<in> set (take k xs)" for x
  proof -
    have "x \<in> set xs" using that by (rule in_set_takeD)
    then have "le T x e" "compare T x e \<noteq> 0" using sp ne that by (auto simp: splits_at_def)
    then show ?thesis by simp
  qed
  moreover have "compare T e x < 0" if "x \<in> set (drop k xs)" for x
  proof -
    have "x \<in> set xs" using that by (rule in_set_dropD)
    then have "le T e x" "compare T x e \<noteq> 0" using sp ne that by (auto simp: splits_at_def)
    then show ?thesis using equal_sym [of e x] by simp
  qed
  ultimately show ?thesis using s unfolding strict_keys_def by (intro sorted_wrt_ins_at) auto
qed

section \<open>The read paths\<close>

lemma chain_node_sorted:
  assumes "chain_ok T t ns" "n \<in> set ns"
  shows "sorted_wrt (le T) (entries_of t n)"
proof -
  obtain us vs where "ns = us @ n # vs" using assms(2) by (metis split_list)
  then show ?thesis using chain_okD(6) [OF assms(1)] by (auto simp: sorted_wrt_append)
qed

lemma locate_in_chain:
  assumes "chain_ok T t ns"
  shows "locate T t ns key \<in> set ns"
  by (rule locate_split [OF assms, of key]) (metis in_set_conv_decomp)

text \<open>The rank search in the located node, as a position in the whole table.\<close>

definition node_position :: "'e table \<Rightarrow> 'e \<Rightarrow> nat \<Rightarrow> nat" where
  "node_position t key n = lower_bound_of (\<lambda>x. compare T x key < 0) (entries_of t n)"

lemma sorted_position_node:
  assumes "chain_ok T t ns" "n \<in> set ns"
  shows "sorted_position T (get_data t n) (order (get_data t n)) (order_count (order (get_data t n))) key bytes =
    node_position t key n"
  using sorted_position_lower_bound [OF chain_node_sorted [OF assms]] by (simp add: node_position_def)

lemma locate_position:
  assumes ok: "chain_ok T t ns"
  obtains us vs where "ns = us @ locate T t ns key # vs"
    "splits_at T (chain_entries t ns) key (length (chain_entries t us) + node_position t key (locate T t ns key))"
    "\<And>x. x \<in> set (chain_entries t vs) \<Longrightarrow> compare T key x < 0"
    "strict_keys T (chain_entries t ns) \<Longrightarrow> length (chain_entries t us) + node_position t key (locate T t ns key) =
      lower_bound_of (\<lambda>x. compare T x key < 0) (chain_entries t ns)"
proof -
  let ?c = "locate T t ns key"
  obtain us vs where ns: "ns = us @ ?c # vs"
    and ne: "us \<noteq> [] \<Longrightarrow> entries_of t ?c \<noteq> [] \<and> le T (first_of t ?c) key"
    and below: "\<And>x. x \<in> set (chain_entries t us) \<Longrightarrow> le T x key"
    and above: "\<And>x. x \<in> set (chain_entries t vs) \<Longrightarrow> compare T key x < 0"
    by (rule locate_split [OF ok, of key]) blast
  have c: "chain_entries t ns = chain_entries t us @ entries_of t ?c @ chain_entries t vs"
    by (subst ns) simp
  have q: "node_position t key ?c \<le> length (entries_of t ?c)"
    unfolding node_position_def by (rule lower_bound_of_le)
  have s: "splits_at T (entries_of t ?c) key (node_position t key ?c)"
    unfolding node_position_def
    by (rule splits_at_lower_bound) (rule chain_node_sorted [OF ok locate_in_chain [OF ok]])
  let ?pos = "length (chain_entries t us) + node_position t key ?c"
  have "splits_at T (chain_entries t ns) key ?pos"
    using s q below above unfolding c splits_at_def by (auto intro: less_imp_le)
  moreover have "?pos = lower_bound_of (\<lambda>x. compare T x key < 0) (chain_entries t ns)"
    if strict: "strict_keys T (chain_entries t ns)"
  proof (rule splits_at_unique [OF calculation])
    fix x
    assume "x \<in> set (take ?pos (chain_entries t ns))"
    then consider "x \<in> set (chain_entries t us)" | "x \<in> set (take (node_position t key ?c) (entries_of t ?c))"
      using q unfolding c by auto
    then show "compare T x key \<noteq> 0"
    proof cases
      case 1
      then have "us \<noteq> []" by auto
      then have f: "entries_of t ?c \<noteq> []" "le T (first_of t ?c) key" using ne by auto
      have "compare T x (first_of t ?c) < 0"
        using strict 1 hd_in_set [OF f(1)] by (auto simp: c strict_keys_def sorted_wrt_append)
      then have "compare T x key < 0" using f(2) by (rule less_le_trans)
      then show ?thesis by simp
    next
      case 2
      then have "compare T x key < 0" unfolding node_position_def by (rule lower_bound_take)
      then show ?thesis by simp
    qed
  qed
  ultimately show thesis using ns above that by blast
qed

lemma contains_target_iff:
  assumes ok: "chain_ok T t ns"
  shows "contains_target T t key = Some (\<exists>x \<in> set (entries t). compare T x key = 0)"
proof -
  let ?c = "locate T t ns key"
  obtain us vs where ns: "ns = us @ ?c # vs"
    and ne: "us \<noteq> [] \<Longrightarrow> entries_of t ?c \<noteq> [] \<and> le T (first_of t ?c) key"
    and below: "\<And>x. x \<in> set (chain_entries t us) \<Longrightarrow> le T x key"
    and above: "\<And>x. x \<in> set (chain_entries t vs) \<Longrightarrow> compare T key x < 0"
    by (rule locate_split [OF ok, of key]) blast
  have c: "entries t = chain_entries t us @ entries_of t ?c @ chain_entries t vs"
    unfolding entries_chain [OF ok] by (subst ns) simp
  have sorted: "sorted_wrt (le T) (entries t)"
    using chain_okD(6) [OF ok] by (simp add: entries_chain [OF ok])
  have us: "\<exists>y \<in> set (entries_of t ?c). compare T y key = 0"
    if x: "x \<in> set (chain_entries t us)" "compare T x key = 0" for x
  proof -
    have "us \<noteq> []" using x by auto
    then have f: "entries_of t ?c \<noteq> []" "le T (first_of t ?c) key" using ne by auto
    then have "le T x (first_of t ?c)" using sorted x(1) by (auto simp: c sorted_wrt_append)
    then have "le T key (first_of t ?c)" using x(2) le_trans [of key x] equal_sym [of x key] by simp
    then show ?thesis using f antisym hd_in_set by blast
  qed
  have vs: "compare T x key \<noteq> 0" if "x \<in> set (chain_entries t vs)" for x
    using above [OF that] equal_sym [of x key] by auto
  have "(\<exists>x \<in> set (entries t). compare T x key = 0) \<longleftrightarrow> (\<exists>x \<in> set (entries_of t ?c). compare T x key = 0)"
    using us vs by (auto simp: c)
  then show ?thesis
    using lower_bound_hit [OF chain_node_sorted [OF ok locate_in_chain [OF ok, of key]], of key]
    by (auto simp: contains_target_def Let_def descend_locate [OF ok] sorted_position_node [OF ok locate_in_chain [OF ok]]
        node_position_def key_at_entries)
qed

lemma last_node_chain:
  assumes ok: "chain_ok T t ns"
  shows "last_node t = Some (last ns)"
proof -
  obtain ts where ns: "ns = head_node t # ts" using chain_head [OF ok] by blast
  have "downward (\<lambda>_. True) (tl ns)" by (simp add: downward_def)
  from search_walk_chain [OF ok this, of "\<lambda>_. True" "levels_down_to 1"] ns show ?thesis
    by (simp add: last_node_def levels_down_to_subset del: last.simps) (simp only: takeWhile_True)
qed

text \<open>Where \<open>pred_node\<close> stops: on the last node that starts strictly below the node it is given.\<close>

lemma pred_node_chain:
  assumes ok: "chain_ok T t ns" and n: "n \<in> set (tl ns)"
  shows "pred_node T t (Some n) (get_data t n) (order (get_data t n)) =
    Some (Some (last (hd ns # takeWhile (\<lambda>x. compare T (first_of t x) (first_of t n) < 0) (tl ns))))"
proof -
  obtain ts where ns: "ns = head_node t # ts" using chain_head [OF ok] by blast
  have ne: "entries_of t n \<noteq> []" and nh: "n \<noteq> head_node t"
    using chain_okD(2,5) [OF ok] n ns by auto
  let ?first = "first_of t n"
  let ?test = "\<lambda>nx. Some nx \<noteq> Some n \<and>
    starts_strictly_below T t ?first (search_hint t (order_bytes T ?first)) nx"
  let ?test' = "\<lambda>x. compare T (first_of t x) ?first < 0"
  have same: "?test x \<longleftrightarrow> ?test' x" if "x \<in> set (tl ns)" for x
    using strictly_below_iff [OF chain_okD(4) [OF ok set_tl_subset [OF that]] chain_okD(5) [OF ok that] chain_okD(8) [OF ok], of ?first]
    by auto
  have "downward ?test' (tl ns)"
    by (rule downward_first_below [OF ok]) (rule le_less_trans)
  then have "downward ?test (tl ns)" by (rule downward_cong) (rule same [symmetric])
  from search_walk_chain [OF ok this same levels_down_to_subset [of 1]] show ?thesis
    using nh ne order_count_pos [of t n] by (simp add: pred_node_def Let_def first_key_at [OF ne])
qed

lemma pred_node_before:
  assumes ok: "chain_ok T t (us @ n # vs)" and us: "us \<noteq> []" and strict: "strict_keys T (chain_entries t (us @ n # vs))"
  shows "pred_node T t (Some n) (get_data t n) (order (get_data t n)) = Some (Some (last us))"
proof -
  obtain h ws where hs: "us = h # ws" using us by (cases us) auto
  have ne: "x \<in> set ws \<union> set (n # vs) \<Longrightarrow> entries_of t x \<noteq> []" for x
    using chain_okD(5) [OF ok] hs by auto
  have "compare T (first_of t x) (first_of t n) < 0" if x: "x \<in> set ws" for x
  proof -
    obtain as bs where "ws = as @ x # bs" using split_list [OF x] by blast
    then have "strict_keys T (chain_entries t (h # as) @ entries_of t x @ chain_entries t bs @ entries_of t n @ chain_entries t vs)"
      using strict hs by simp
    moreover have "first_of t x \<in> set (entries_of t x)" "first_of t n \<in> set (entries_of t n)"
      by (auto intro!: hd_in_set ne x)
    ultimately show ?thesis unfolding strict_keys_def sorted_wrt_append set_append by blast
  qed
  then have "takeWhile (\<lambda>x. compare T (first_of t x) (first_of t n) < 0) (ws @ n # vs) = ws"
    by (simp add: takeWhile_append)
  then show ?thesis using pred_node_chain [OF ok, of n] hs by simp
qed

end

end
