(* ===== verification/Insert.thy ===== *)
theory Insert
  imports Lookup
begin

text \<open>
  The write path of \<^verbatim>\<open>include/aparajita/memtable.hpp\<close>: the tower height, the linking of a new sibling
  into the tower, the append into a node with room, the split of a full one, and \<^verbatim>\<open>insert_entry\<close>,
  which descends, takes the node's lock, checks that the key still belongs there and does one of the
  two. What the source leaves to chance is a parameter: \<open>draws\<close> are the numbers \<^verbatim>\<open>rng()\<close> yields for
  one height, \<open>cas lv a\<close> whether the weak compare-exchange of attempt \<open>a\<close> on level \<open>lv\<close> does not fail
  spuriously.

  The main result is \<open>insert_entry_correct\<close>: whatever the chance, an insert returns, keeps the table's
  invariant, and puts the entry at a position of level 0 that keeps it in comparator order.
\<close>

definition random_height_bits :: "u32 \<Rightarrow> bool" where
  "random_height_bits r \<longleftrightarrow> r AND 3 = 0"

function random_height_from :: "(nat \<Rightarrow> u32) \<Rightarrow> nat \<Rightarrow> nat" where
  "random_height_from draws h =
     (if h < kMaxHeight \<and> random_height_bits (draws (h - 1)) then random_height_from draws (h + 1) else h)"
  by pat_completeness auto
termination
  by (relation "measure (\<lambda>(draws, h). kMaxHeight - h)") auto

declare random_height_from.simps [simp del]

definition random_height :: "(nat \<Rightarrow> u32) \<Rightarrow> nat" where
  "random_height draws = random_height_from draws 1"

definition set_tower :: "'e table \<Rightarrow> nat \<Rightarrow> nat \<Rightarrow> nat option \<Rightarrow> 'e table" where
  "set_tower t n lv nx = upd_node t n (\<lambda>x. x\<lparr>tower := (tower x)[lv := nx]\<rparr>)"

fun link_level :: "'e traits \<Rightarrow> (nat \<Rightarrow> nat \<Rightarrow> bool) \<Rightarrow> nat \<Rightarrow> nat \<Rightarrow> 'e \<Rightarrow> u64 \<Rightarrow> nat list \<Rightarrow> 'e table \<Rightarrow> 'e table option" where
  "link_level T cas lv node first hint [] t = Some t"
| "link_level T cas lv node first hint (a # as) t =
     Option.bind (pred_at_level T t lv first hint) (\<lambda>pred.
       if pred = node then Some t
       else
         let nx = tower_at t lv pred
         in if (case nx of None \<Rightarrow> False | Some x \<Rightarrow> starts_at_or_below T t first hint x)
            then link_level T cas lv node first hint as t
            else
              let t = set_tower t node lv nx
              in if cas lv a then Some (set_tower t pred lv (Some node))
                 else link_level T cas lv node first hint as t)"

fun link_levels :: "'e traits \<Rightarrow> (nat \<Rightarrow> nat \<Rightarrow> bool) \<Rightarrow> nat \<Rightarrow> 'e \<Rightarrow> u64 \<Rightarrow> nat list \<Rightarrow> 'e table \<Rightarrow> 'e table option" where
  "link_levels T cas node first hint [] t = Some t"
| "link_levels T cas node first hint (lv # lvs) t =
     Option.bind (link_level T cas lv node first hint [0..<8] t) (link_levels T cas node first hint lvs)"

definition link_tower :: "'e traits \<Rightarrow> (nat \<Rightarrow> nat \<Rightarrow> bool) \<Rightarrow> 'e table \<Rightarrow> nat \<Rightarrow> 'e \<Rightarrow> 'e table option" where
  "link_tower T cas t node first =
     link_levels T cas node first (search_hint t (order_bytes T first)) [1..<unat (height (lnodes t ! node))] t"

definition append_entry :: "'e traits \<Rightarrow> 'e table \<Rightarrow> nat \<Rightarrow> nat \<Rightarrow> u64 \<Rightarrow> nat \<Rightarrow> 'e \<Rightarrow> bytes \<Rightarrow> 'e table" where
  "append_entry T t cur p w n key bytes =
     (let d = payloads t ! p;
          rank = sorted_position T d w n key bytes;
          slot = n;
          t = upd_payload t p (\<lambda>d. write_slot d slot key (append_lane T d w rank bytes));
          t = (if rank = 0 then publish_hint T t cur key else t)
      in upd_payload t p (\<lambda>d. d\<lparr>order := order_insert w rank slot\<rparr>))"

definition kMid :: nat where "kMid = (kNodeCapacity + 1) div 2"

definition split_and_insert ::
  "'e traits \<Rightarrow> (nat \<Rightarrow> u32) \<Rightarrow> (nat \<Rightarrow> nat \<Rightarrow> bool) \<Rightarrow> 'e table \<Rightarrow> nat \<Rightarrow> nat \<Rightarrow> u64 \<Rightarrow> nat \<Rightarrow> 'e \<Rightarrow> bytes \<Rightarrow> 'e table option" where
  "split_and_insert T draws cas t cur p w n key bytes =
     (let d = payloads t ! p;
          merged = merge T d w n key bytes;
          (sibling, t) = create_node t;
          (right, t) = fresh_data T t;
          (left, t) = fresh_data T t;
          t = upd_payload t right (\<lambda>r. fill T r (drop kMid merged) (next_link d));
          t = upd_payload t left (\<lambda>l. fill T l (take kMid merged) (Some sibling));
          t = upd_node t sibling (\<lambda>x. x\<lparr>height := of_nat (random_height draws)\<rparr>);
          t = publish T t sibling right;
          t = publish T t cur left
      in link_tower T cas t sibling (slots (payloads t ! right) ! 0))"

text \<open>The spin on the lock ends only when the flag was clear; alone, a set flag stays set.\<close>

definition acquire :: "'e table \<Rightarrow> nat \<Rightarrow> 'e table option" where
  "acquire t n = (if write_lock (lnodes t ! n) then None else Some (upd_node t n (\<lambda>x. x\<lparr>write_lock := True\<rparr>)))"

definition release :: "'e table \<Rightarrow> nat \<Rightarrow> 'e table" where
  "release t n = upd_node t n (\<lambda>x. x\<lparr>write_lock := False\<rparr>)"

text \<open>What is done to the node once its lock is held and the entry is known to belong there.\<close>

definition insert_locked ::
  "'e traits \<Rightarrow> (nat \<Rightarrow> u32) \<Rightarrow> (nat \<Rightarrow> nat \<Rightarrow> bool) \<Rightarrow> 'e table \<Rightarrow> nat \<Rightarrow> 'e \<Rightarrow> 'e table option" where
  "insert_locked T draws cas t cur entry =
     (let bytes = order_bytes T entry; p = the (data (lnodes t ! cur)); w = order (payloads t ! p); n = order_count w
      in if n < kNodeCapacity then Some (append_entry T t cur p w n entry bytes)
         else split_and_insert T draws cas t cur p w n entry bytes)"

partial_function (option) insert_entry ::
  "'e traits \<Rightarrow> (nat \<Rightarrow> u32) \<Rightarrow> (nat \<Rightarrow> nat \<Rightarrow> bool) \<Rightarrow> 'e table \<Rightarrow> 'e \<Rightarrow> 'e table option" where
  "insert_entry T draws cas t entry =
     (let bytes = order_bytes T entry
      in Option.bind (descend T t entry bytes) (\<lambda>cur.
         Option.bind (acquire t cur) (\<lambda>t.
           if \<not> belongs_here T t (get_data t cur) entry
           then insert_entry T draws cas (release t cur) entry
           else map_option (\<lambda>t. release t cur) (insert_locked T draws cas t cur entry))))"

declare insert_entry.simps [code]

section \<open>Heights\<close>

lemma random_height_from_bounds: "1 \<le> h \<Longrightarrow> h \<le> kMaxHeight \<Longrightarrow> h \<le> random_height_from draws h \<and> random_height_from draws h \<le> kMaxHeight"
proof (induction draws h rule: random_height_from.induct)
  case (1 draws h)
  then show ?case
    by (cases "h < kMaxHeight \<and> random_height_bits (draws (h - 1))") (auto simp: random_height_from.simps [of draws h])
qed

lemma random_height_bounds: "1 \<le> random_height draws" "random_height draws \<le> kMaxHeight"
  using random_height_from_bounds [of 1 draws] by (simp_all add: random_height_def kMaxHeight_def)

lemma random_height_from_draws:
  "1 \<le> h \<Longrightarrow> h \<le> kMaxHeight \<Longrightarrow>
   (\<forall>i. h \<le> Suc i \<and> Suc i < random_height_from draws h \<longrightarrow> draws i AND 3 = 0) \<and>
   (random_height_from draws h < kMaxHeight \<longrightarrow> draws (random_height_from draws h - 1) AND 3 \<noteq> 0)"
proof (induction draws h rule: random_height_from.induct)
  case (1 draws h)
  show ?case
  proof (cases "h < kMaxHeight \<and> random_height_bits (draws (h - 1))")
    case True
    have "i = h - 1 \<or> h + 1 \<le> Suc i" if "h \<le> Suc i" for i using that by auto
    then show ?thesis using "1" True by (auto simp: random_height_from.simps [of draws h] random_height_bits_def)
  next
    case False
    then have "random_height_from draws h = h" by (simp only: random_height_from.simps [of draws h] if_False)
    then show ?thesis using False "1.prems" by (auto simp: random_height_bits_def)
  qed
qed

lemma random_height_draws:
  "Suc i < random_height draws \<Longrightarrow> draws i AND 3 = 0"
  "random_height draws < kMaxHeight \<Longrightarrow> draws (random_height draws - 1) AND 3 \<noteq> 0"
  using random_height_from_draws [of 1 draws] by (simp_all add: random_height_def kMaxHeight_def)

lemma random_height_byte: "unat (of_nat (random_height draws) :: u8) = random_height draws"
  using random_height_bounds [of draws] by (simp add: kMaxHeight_def unat_of_nat)

section \<open>What an operation leaves alone\<close>

text \<open>\<open>reads_same t t' x\<close>: node \<open>x\<close> looks the same in both tables, its tower and lock aside.\<close>

definition reads_same :: "'e table \<Rightarrow> 'e table \<Rightarrow> nat \<Rightarrow> bool" where
  "reads_same t t' x \<longleftrightarrow>
     data (lnodes t' ! x) = data (lnodes t ! x) \<and> first_hint (lnodes t' ! x) = first_hint (lnodes t ! x) \<and>
     length (tower (lnodes t' ! x)) = length (tower (lnodes t ! x)) \<and> get_data t' x = get_data t x"

definition grows :: "'e table \<Rightarrow> 'e table \<Rightarrow> bool" where
  "grows t t' \<longleftrightarrow> head_node t' = head_node t \<and> hints t' = hints t \<and>
     length (lnodes t) \<le> length (lnodes t') \<and> length (payloads t) \<le> length (payloads t')"

lemma reads_same_next: "reads_same t t' x \<Longrightarrow> next_of t' x = next_of t x"
  by (simp add: reads_same_def next_of_def)

lemma reads_same_lnode_ok: "reads_same t t' x \<Longrightarrow> grows t t' \<Longrightarrow> lnode_ok T t x \<Longrightarrow> lnode_ok T t' x"
  by (auto simp: reads_same_def grows_def lnode_ok_def)

lemma path_cong: "(\<And>x. x \<in> set xs \<Longrightarrow> next_of t' x = next_of t x) \<Longrightarrow> path t' n xs \<longleftrightarrow> path t n xs"
  by (induction xs arbitrary: n) auto

lemma path_replace:
  "path t n (us @ c # vs) \<Longrightarrow> (\<And>x. x \<in> set us \<Longrightarrow> next_of t' x = next_of t x) \<Longrightarrow> path t' (Some c) (c # ws) \<Longrightarrow>
   path t' n (us @ c # ws)"
  by (induction us arbitrary: n) auto

lemma chain_entries_cong:
  "(\<And>x. x \<in> set xs \<Longrightarrow> get_data t' x = get_data t x) \<Longrightarrow> chain_entries t' xs = chain_entries t xs"
  by (induction xs) auto

lemma distinct_between:
  "distinct (xs @ ys) \<Longrightarrow> set ms \<inter> set (xs @ ys) = {} \<Longrightarrow> distinct ms \<Longrightarrow> distinct (xs @ ms @ ys)"
  by auto

text \<open>A node of the chain replaced by itself with other contents, and possibly new nodes behind it.\<close>

lemma rebuilt_chain:
  assumes ok: "chain_ok T t (us @ c # vs)"
    and same: "\<And>x. x \<in> set us \<union> set vs \<Longrightarrow> reads_same t t' x" and grows: "grows t t'"
    and path: "path t' (next_of t' c) (ms @ vs)"
    and dist: "distinct (c # ms)" "set ms \<inter> set (us @ c # vs) = {}"
    and data: "distinct (map (\<lambda>n. data (lnodes t' ! n)) (c # ms))"
      "\<And>m x. m \<in> set (c # ms) \<Longrightarrow> x \<in> set us \<union> set vs \<Longrightarrow> data (lnodes t' ! m) \<noteq> data (lnodes t ! x)"
    and lnode: "\<And>m. m \<in> set (c # ms) \<Longrightarrow> lnode_ok T t' m"
    and nonempty: "us \<noteq> [] \<Longrightarrow> entries_of t' c \<noteq> []" "\<And>m. m \<in> set ms \<Longrightarrow> entries_of t' m \<noteq> []"
    and sorted: "sorted_wrt (le T) (chain_entries t us @ chain_entries t' (c # ms) @ chain_entries t vs)"
    and towers: "towers_ok t' (us @ c # ms @ vs)"
  shows "chain_ok T t' (us @ c # ms @ vs)"
    and "chain_entries t' (us @ c # ms @ vs) = chain_entries t us @ chain_entries t' (c # ms) @ chain_entries t vs"
proof -
  note d = chain_okD [OF ok]
  have gd: "x \<in> set us \<union> set vs \<Longrightarrow> get_data t' x = get_data t x" for x using same by (simp add: reads_same_def)
  show e: "chain_entries t' (us @ c # ms @ vs) = chain_entries t us @ chain_entries t' (c # ms) @ chain_entries t vs"
    using chain_entries_cong [of us t' t] chain_entries_cong [of vs t' t] gd by simp
  have "path t' (Some (head_node t)) (us @ c # ms @ vs)"
    using path_replace [OF d(1), of t' "ms @ vs"] path same by (auto intro: reads_same_next)
  moreover have "distinct (us @ c # ms @ vs)" using d(2) dist by auto
  moreover have "distinct (map (\<lambda>n. data (lnodes t' ! n)) (us @ c # ms @ vs))"
  proof -
    let ?D = "\<lambda>n. data (lnodes t ! n)" and ?D' = "\<lambda>n. data (lnodes t' ! n)"
    have m: "map ?D' us = map ?D us" "map ?D' vs = map ?D vs"
      using same by (auto simp: reads_same_def)
    have "distinct (map ?D us @ map ?D vs)" using d(3) by auto
    moreover have "set (map ?D' (c # ms)) \<inter> set (map ?D us @ map ?D vs) = {}" using data(2) by fastforce
    ultimately have "distinct (map ?D us @ map ?D' (c # ms) @ map ?D vs)"
      using data(1) by (intro distinct_between)
    then show ?thesis by (simp only: map_append append_Cons list.map m)
  qed
  moreover have "lnode_ok T t' n" if "n \<in> set (us @ c # ms @ vs)" for n
    using that lnode d(4) reads_same_lnode_ok [OF same grows, of n] by auto
  moreover have "entries_of t' n \<noteq> []" if "n \<in> set (tl (us @ c # ms @ vs))" for n
    using that nonempty d(5) gd by (cases us) auto
  moreover have "sorted_wrt (le T) (chain_entries t' (us @ c # ms @ vs))" using sorted unfolding e .
  moreover have "head_node t' = head_node t" "hints t' = hint_ordering T" using grows d(8) by (auto simp: grows_def)
  ultimately show "chain_ok T t' (us @ c # ms @ vs)"
    using towers unfolding chain_ok_def by (intro conjI ballI) simp_all
qed

text \<open>Writes that touch towers and locks only.\<close>

lemma retowered_chain:
  assumes ok: "chain_ok T t ns" and same: "\<And>x. x \<in> set ns \<Longrightarrow> reads_same t t' x" and grows: "grows t t'"
    and towers: "towers_ok t' ns"
  shows "chain_ok T t' ns" and "chain_entries t' ns = chain_entries t ns"
proof -
  note d = chain_okD [OF ok]
  show e: "chain_entries t' ns = chain_entries t ns"
    using same by (intro chain_entries_cong) (simp add: reads_same_def)
  have "distinct (map (\<lambda>n. data (lnodes t' ! n)) ns)"
    using d(3) same by (simp add: reads_same_def cong: map_cong)
  moreover have "path t' (Some (head_node t)) ns"
    using d(1) path_cong [of ns t' t] same by (simp add: reads_same_next)
  moreover have "entries_of t' n \<noteq> []" if "n \<in> set (tl ns)" for n
    using d(5) [OF that] same [OF set_tl_subset [OF that]] by (simp add: reads_same_def)
  ultimately show "chain_ok T t' ns"
    using d towers grows same by (auto simp: chain_ok_def e grows_def intro: reads_same_lnode_ok [OF _ grows])
qed

section \<open>Reads after a write\<close>

lemma upd_node_simps [heap_simps]:
  "payloads (upd_node t n f) = payloads t" "head_node (upd_node t n f) = head_node t" "hints (upd_node t n f) = hints t"
  "length (lnodes (upd_node t n f)) = length (lnodes t)"
  "m \<noteq> n \<Longrightarrow> lnodes (upd_node t n f) ! m = lnodes t ! m"
  "n < length (lnodes t) \<Longrightarrow> lnodes (upd_node t n f) ! n = f (lnodes t ! n)"
  by (simp_all add: upd_node_def)

lemma upd_payload_simps [heap_simps]:
  "lnodes (upd_payload t p f) = lnodes t" "head_node (upd_payload t p f) = head_node t"
  "hints (upd_payload t p f) = hints t" "length (payloads (upd_payload t p f)) = length (payloads t)"
  "q \<noteq> p \<Longrightarrow> payloads (upd_payload t p f) ! q = payloads t ! q"
  "p < length (payloads t) \<Longrightarrow> payloads (upd_payload t p f) ! p = f (payloads t ! p)"
  by (simp_all add: upd_payload_def)

lemma lnodes_set_tower:
  "lnodes (set_tower t n lv nx) ! x =
    (if x = n \<and> n < length (lnodes t) then (lnodes t ! n)\<lparr>tower := (tower (lnodes t ! n))[lv := nx]\<rparr> else lnodes t ! x)"
  by (auto simp: set_tower_def upd_node_def nth_list_update not_less list_update_beyond)

lemma set_tower_simps [heap_simps]:
  "payloads (set_tower t n lv nx) = payloads t" "head_node (set_tower t n lv nx) = head_node t"
  "hints (set_tower t n lv nx) = hints t" "length (lnodes (set_tower t n lv nx)) = length (lnodes t)"
  "data (lnodes (set_tower t n lv nx) ! x) = data (lnodes t ! x)"
  "first_hint (lnodes (set_tower t n lv nx) ! x) = first_hint (lnodes t ! x)"
  "length (tower (lnodes (set_tower t n lv nx) ! x)) = length (tower (lnodes t ! x))"
  "write_lock (lnodes (set_tower t n lv nx) ! x) = write_lock (lnodes t ! x)"
  by (simp_all add: lnodes_set_tower) (simp_all add: set_tower_def upd_node_def)

lemma get_data_set_tower [heap_simps]: "get_data (set_tower t n lv nx) x = get_data t x"
  by (simp add: get_data_def heap_simps)

lemma reads_same_set_tower: "reads_same t (set_tower t n lv nx) x"
  by (simp add: reads_same_def heap_simps)

lemma grows_set_tower: "grows t (set_tower t n lv nx)"
  by (simp add: grows_def heap_simps)

lemma tower_at_set_tower:
  assumes "n < length (lnodes t)" "lv < length (tower (lnodes t ! n))"
  shows "tower_at (set_tower t n lv nx) l x = (if x = n \<and> l = lv then nx else tower_at t l x)"
  using assms by (cases "x = n") (simp_all add: tower_at_def set_tower_def heap_simps)

definition locks :: "'e table \<Rightarrow> bool list" where
  "locks t = map write_lock (lnodes t)"

lemma quiescent_locks: "quiescent t \<longleftrightarrow> True \<notin> set (locks t)"
  by (auto simp: quiescent_def locks_def image_iff)

lemma locks_upd_payload [heap_simps]: "locks (upd_payload t p f) = locks t"
  by (simp add: locks_def heap_simps)

lemma locks_upd_node [heap_simps]: "(\<And>x. write_lock (f x) = write_lock x) \<Longrightarrow> locks (upd_node t n f) = locks t"
  by (cases "n < length (lnodes t)")
    (simp_all add: locks_def upd_node_def map_update list_update_beyond list_update_same_conv)

lemma locks_set_tower [heap_simps]: "locks (set_tower t n lv nx) = locks t"
  by (simp add: set_tower_def heap_simps)

section \<open>Linking into the tower\<close>

text \<open>
  \<open>node\<close> can be linked at \<open>lv\<close>: it is in the chain, and no tower pointer of that level leads to it yet.
\<close>

definition unlinked :: "'e table \<Rightarrow> nat list \<Rightarrow> nat \<Rightarrow> nat \<Rightarrow> bool" where
  "unlinked t ns lv node \<longleftrightarrow> (\<forall>x \<in> set ns. tower_at t lv x \<noteq> Some node)"

text \<open>
  Between \<open>pred\<close> and its successor there is room for \<open>node\<close>: double the ranks of the level. The first
  part is the state after a failed exchange, the second after a successful one.
\<close>

lemma level_ranked_between:
  assumes r: "level_ranked t ns lv" and un: "unlinked t ns lv node" and p: "pred \<in> set ns" "pred \<noteq> node"
    and bounds: "node < length (lnodes t)" "lv < length (tower (lnodes t ! node))"
      "pred < length (lnodes t)" "lv < length (tower (lnodes t ! pred))"
  shows "level_ranked (set_tower t node lv (tower_at t lv pred)) ns lv"
    and "level_ranked (set_tower (set_tower t node lv (tower_at t lv pred)) pred lv (Some node)) ns lv"
proof -
  obtain f where f: "\<forall>x \<in> set ns. \<forall>y. tower_at t lv x = Some y \<longrightarrow> f x < (f y :: nat)"
    using r by (auto simp: level_ranked_def)
  let ?f = "\<lambda>x. if x = node then 2 * f pred + 1 else 2 * f x"
  have t1: "tower_at (set_tower t node lv (tower_at t lv pred)) lv x = (if x = node then tower_at t lv pred else tower_at t lv x)" for x
    using bounds by (simp add: tower_at_set_tower)
  have t2: "tower_at (set_tower (set_tower t node lv (tower_at t lv pred)) pred lv (Some node)) lv x =
      (if x = pred then Some node else if x = node then tower_at t lv pred else tower_at t lv x)" for x
    using bounds by (simp add: tower_at_set_tower heap_simps)
  have up: "2 * f x + 1 < 2 * f y" "y \<noteq> node" if "tower_at t lv x = Some y" "x \<in> set ns" for x y
    using un f that by (force simp: unlinked_def)+
  show "level_ranked (set_tower t node lv (tower_at t lv pred)) ns lv"
    unfolding level_ranked_def t1
  proof (intro exI [of _ ?f] ballI allI impI)
    fix x y
    assume "x \<in> set ns" "(if x = node then tower_at t lv pred else tower_at t lv x) = Some y"
    then show "?f x < ?f y" using up [of pred y] up [of x y] p by (cases "x = node") auto
  qed
  show "level_ranked (set_tower (set_tower t node lv (tower_at t lv pred)) pred lv (Some node)) ns lv"
    unfolding level_ranked_def t2
  proof (intro exI [of _ ?f] ballI allI impI)
    fix x y
    assume x: "x \<in> set ns" and y: "(if x = pred then Some node else if x = node then tower_at t lv pred else tower_at t lv x) = Some y"
    consider "x = pred" "y = node" | "x = node" "tower_at t lv pred = Some y" | "x \<noteq> node" "tower_at t lv x = Some y"
      using y by (metis option.inject)
    then show "?f x < ?f y" using up [of pred y] up [of x y] p x by cases auto
  qed
qed

text \<open>What linking one level guarantees: the chain and everything read through it is untouched.\<close>

definition relinked :: "'e traits \<Rightarrow> nat list \<Rightarrow> nat set \<Rightarrow> 'e table \<Rightarrow> 'e table \<Rightarrow> bool" where
  "relinked T ns lvs t t' \<longleftrightarrow>
     chain_ok T t' ns \<and> chain_entries t' ns = chain_entries t ns \<and> locks t' = locks t \<and> grows t t' \<and>
     length (lnodes t') = length (lnodes t) \<and> payloads t' = payloads t \<and> (\<forall>x. get_data t' x = get_data t x) \<and> (\<forall>l x. l \<notin> lvs \<longrightarrow> tower_at t' l x = tower_at t l x)"

lemma relinked_refl: "chain_ok T t ns \<Longrightarrow> relinked T ns lvs t t"
  by (simp add: relinked_def grows_def)

lemma relinked_trans: "relinked T ns lvs t t' \<Longrightarrow> relinked T ns lvs' t' t'' \<Longrightarrow> relinked T ns (lvs \<union> lvs') t t''"
  by (auto simp: relinked_def grows_def)

lemma relinked_set_tower:
  assumes ok: "chain_ok T t ns" and r: "relinked T ns {lv} t t'" and n: "n \<in> set ns" and lv: "lv < kMaxHeight"
    and ranked: "level_ranked (set_tower t' n lv nx) ns lv" and nx: "\<And>y. nx = Some y \<Longrightarrow> y \<in> set ns"
  shows "relinked T ns {lv} t (set_tower t' n lv nx)"
proof -
  have ok': "chain_ok T t' ns" using r by (simp add: relinked_def)
  have b: "n < length (lnodes t')" "lv < length (tower (lnodes t' ! n))"
    using chain_okD(4) [OF ok' n] lv by (simp_all add: lnode_ok_def)
  note tw = tower_at_set_tower [OF b]
  have t: "towers_ok t' ns" by (rule chain_okD(7) [OF ok'])
  have other: "level_ranked (set_tower t' n lv nx) ns l" if "l < kMaxHeight" "l \<noteq> lv" for l
    using t that by (simp add: level_ranked_def towers_ok_def tw)
  have "towers_ok (set_tower t' n lv nx) ns"
    unfolding towers_ok_def
  proof (intro allI impI conjI ballI)
    fix l x y
    assume "l < kMaxHeight"
    then show "level_ranked (set_tower t' n lv nx) ns l" using ranked other by (cases "l = lv") auto
    assume "x \<in> set ns" "tower_at (set_tower t' n lv nx) l x = Some y"
    then show "y \<in> set ns" using t nx \<open>l < kMaxHeight\<close> by (auto simp: tw towers_ok_def split: if_splits)
  qed
  then have "chain_ok T (set_tower t' n lv nx) ns"
    and "chain_entries (set_tower t' n lv nx) ns = chain_entries t' ns"
    using retowered_chain [OF ok' reads_same_set_tower grows_set_tower] by blast+
  then show ?thesis using r by (simp add: relinked_def heap_simps grows_def tw)
qed

lemma link_level_relinks:
  assumes ok: "chain_ok T t ns" and node: "node \<in> set ns" and lv: "lv < kMaxHeight"
  shows "relinked T ns {lv} t t1 \<Longrightarrow> unlinked t1 ns lv node \<Longrightarrow>
    \<exists>t'. link_level T cas lv node first hint as t1 = Some t' \<and> relinked T ns {lv} t t'"
proof (induction "as" arbitrary: t1)
  case Nil
  then show ?case by simp
next
  case (Cons a as)
  have ok1: "chain_ok T t1 ns" using Cons.prems by (simp add: relinked_def)
  obtain ts where ns: "ns = head_node t1 # ts" using chain_head [OF ok1] by blast
  obtain pred where pred: "pred_at_level T t1 lv first hint = Some pred" "pred \<in> set ns"
    using tower_walk_ends [OF chain_okD(7) [OF ok1] levels_down_to_subset, of "head_node t1"] ns
    unfolding pred_at_level_def by (metis list.set_intros(1))
  let ?nx = "tower_at t1 lv pred"
  have b: "x < length (lnodes t1)" "lv < length (tower (lnodes t1 ! x))" if "x \<in> set ns" for x
    using chain_okD(4) [OF ok1 that] lv by (simp_all add: lnode_ok_def)
  have nx: "y \<in> set ns" if "?nx = Some y" for y
    using chain_okD(7) [OF ok1] lv pred(2) that by (auto simp: towers_ok_def)
  show ?case
  proof (cases "pred = node \<or> (case ?nx of None \<Rightarrow> False | Some x \<Rightarrow> starts_at_or_below T t1 first hint x)")
    case True
    then show ?thesis using pred Cons by (auto simp: Let_def)
  next
    case False
    have "level_ranked t1 ns lv" using chain_okD(7) [OF ok1] lv by (simp add: towers_ok_def)
    note ranked = level_ranked_between [OF this Cons.prems(2) pred(2) _ b [OF node] b [OF pred(2)]]
    let ?t2 = "set_tower t1 node lv ?nx" and ?t3 = "set_tower (set_tower t1 node lv ?nx) pred lv (Some node)"
    have r2: "relinked T ns {lv} t ?t2"
      using False ranked(1) nx by (intro relinked_set_tower [OF ok Cons.prems(1) node lv]) auto
    have r3: "relinked T ns {lv} t ?t3"
      using False ranked(2) node by (intro relinked_set_tower [OF ok r2 pred(2) lv]) auto
    have "unlinked ?t2 ns lv node"
      using Cons.prems(2) pred(2) by (simp add: unlinked_def tower_at_set_tower [OF b [OF node]])
    then show ?thesis using False pred(1) Cons.IH [OF r2] r3 by (simp add: Let_def)
  qed
qed

lemma link_levels_relinks:
  assumes ok: "chain_ok T t ns" and node: "node \<in> set ns"
  shows "relinked T ns ls t t1 \<Longrightarrow> distinct lvs \<Longrightarrow> set lvs \<subseteq> {..<kMaxHeight} \<Longrightarrow> (\<And>lv. lv \<in> set lvs \<Longrightarrow> unlinked t1 ns lv node) \<Longrightarrow>
    \<exists>t'. link_levels T cas node first hint lvs t1 = Some t' \<and> relinked T ns (ls \<union> set lvs) t t'"
proof (induction lvs arbitrary: t1 ls)
  case Nil
  then show ?case by simp
next
  case (Cons lv lvs)
  have ok1: "chain_ok T t1 ns" using Cons.prems by (simp add: relinked_def)
  have "\<exists>t2. link_level T cas lv node first hint [0..<8] t1 = Some t2 \<and> relinked T ns {lv} t1 t2"
    by (rule link_level_relinks [OF ok1 node _ relinked_refl [OF ok1]]) (use Cons.prems in auto)
  then obtain t2 where t2: "link_level T cas lv node first hint [0..<8] t1 = Some t2" "relinked T ns {lv} t1 t2"
    by blast
  have "unlinked t2 ns l node" if "l \<in> set lvs" for l
  proof -
    have "l \<noteq> lv" using Cons.prems(2) that by auto
    then have "tower_at t2 l x = tower_at t1 l x" for x using t2(2) by (simp add: relinked_def)
    then show ?thesis using Cons.prems(4) [of l] that by (simp add: unlinked_def)
  qed
  with Cons.IH [OF relinked_trans [OF Cons.prems(1) t2(2)]] Cons.prems(2,3)
  obtain t' where "link_levels T cas node first hint lvs t2 = Some t'" "relinked T ns (ls \<union> {lv} \<union> set lvs) t t'"
    by auto
  then show ?case using t2(1) by (simp add: insert_commute Un_assoc)
qed

lemma link_tower_relinks:
  assumes ok: "chain_ok T t ns" and node: "node \<in> set ns" and h: "unat (height (lnodes t ! node)) \<le> kMaxHeight"
    and un: "\<And>lv. 1 \<le> lv \<Longrightarrow> lv < kMaxHeight \<Longrightarrow> unlinked t ns lv node"
  shows "\<exists>t'. link_tower T cas t node first = Some t' \<and> relinked T ns {1..<kMaxHeight} t t'"
proof -
  let ?lvs = "[1..<unat (height (lnodes t ! node))]"
  have "\<exists>t'. link_levels T cas node first (search_hint t (order_bytes T first)) ?lvs t = Some t' \<and>
      relinked T ns ({} \<union> set ?lvs) t t'"
    by (rule link_levels_relinks [OF ok node relinked_refl [OF ok]]) (use h un in auto)
  then show ?thesis using h by (fastforce simp: link_tower_def relinked_def)
qed

section \<open>The append\<close>

lemma publish_hint_reads [heap_simps]:
  "payloads (publish_hint T t n e) = payloads t" "head_node (publish_hint T t n e) = head_node t"
  "hints (publish_hint T t n e) = hints t" "length (lnodes (publish_hint T t n e)) = length (lnodes t)"
  "m \<noteq> n \<Longrightarrow> lnodes (publish_hint T t n e) ! m = lnodes t ! m"
  "n < length (lnodes t) \<Longrightarrow>
     lnodes (publish_hint T t n e) ! n = (lnodes t ! n)\<lparr>first_hint := descent_hint (order_bytes T e)\<rparr>"
  "locks (publish_hint T t n e) = locks t"
  by (simp_all add: publish_hint_def Let_def heap_simps)

text \<open>An append replaces the payload of \<open>cur\<close> by the appended one and keeps the hint in step.\<close>

lemma append_reads:
  assumes "cur < length (lnodes t)" "data (lnodes t ! cur) = Some p" "p < length (payloads t)"
    and ap: "appendable (payloads t ! p) rank" and w: "w = order (payloads t ! p)"
    and rank: "rank = sorted_position T (payloads t ! p) w (order_count w) key bytes"
  defines "t' \<equiv> append_entry T t cur p w (order_count w) key bytes"
    and "lane \<equiv> append_lane T (payloads t ! p) w rank bytes"
  shows "payloads t' = (payloads t)[p := appended (payloads t ! p) rank key lane]"
    and "lnodes t' ! x = (if rank = 0 \<and> x = cur then (lnodes t ! cur)\<lparr>first_hint := descent_hint (order_bytes T key)\<rparr> else lnodes t ! x)"
    and "length (lnodes t') = length (lnodes t)"
    and "head_node t' = head_node t" "hints t' = hints t" "locks t' = locks t"
  using assms(1,3)
  by (simp_all add: t'_def lane_def append_entry_def Let_def appended_def w rank [symmetric, unfolded w] heap_simps)
    (auto simp: upd_payload_def heap_simps)

section \<open>The split\<close>

text \<open>The table a split leaves before it links the sibling into the tower.\<close>

definition split_payloads ::
  "'e traits \<Rightarrow> (nat \<Rightarrow> u32) \<Rightarrow> 'e table \<Rightarrow> nat \<Rightarrow> nat option \<Rightarrow> 'e list \<Rightarrow> 'e table" where
  "split_payloads T draws t cur nxt merged =
     (let (sibling, t) = create_node t;
          (right, t) = fresh_data T t;
          (left, t) = fresh_data T t;
          t = upd_payload t right (\<lambda>r. fill T r (drop kMid merged) nxt);
          t = upd_payload t left (\<lambda>l. fill T l (take kMid merged) (Some sibling));
          t = upd_node t sibling (\<lambda>x. x\<lparr>height := of_nat (random_height draws)\<rparr>);
          t = publish T t sibling right
      in publish T t cur left)"

lemma split_and_insert_payloads:
  "split_and_insert T draws cas t cur p w n key bytes =
     (let t' = split_payloads T draws t cur (next_link (payloads t ! p)) (merge T (payloads t ! p) w n key bytes)
      in link_tower T cas t' (length (lnodes t)) (slots (payloads t' ! length (payloads t)) ! 0))"
  by (simp add: split_and_insert_def split_payloads_def Let_def create_node_def fresh_data_def)

lemma publish_reads [heap_simps]:
  "payloads (publish T t n nd) = payloads t" "head_node (publish T t n nd) = head_node t"
  "hints (publish T t n nd) = hints t" "length (lnodes (publish T t n nd)) = length (lnodes t)"
  "m \<noteq> n \<Longrightarrow> lnodes (publish T t n nd) ! m = lnodes t ! m"
  "locks (publish T t n nd) = locks t"
  by (simp_all add: publish_def Let_def heap_simps)

lemma publish_node:
  assumes "n < length (lnodes t)" "node_entries (payloads t ! nd) \<noteq> []"
  shows "lnodes (publish T t n nd) ! n =
    (lnodes t ! n)\<lparr>first_hint := descent_hint (order_bytes T (hd (node_entries (payloads t ! nd)))), data := Some nd\<rparr>"
proof -
  have "order_count (order (payloads t ! nd)) > 0"
    using assms(2) length_node_entries [of "payloads t ! nd"] by (metis length_greater_0_conv)
  then have "key_at (payloads t ! nd) (order (payloads t ! nd)) 0 = hd (node_entries (payloads t ! nd))"
    using assms(2) by (simp add: key_at_entries hd_conv_nth)
  then show ?thesis using assms(1) \<open>order_count (order (payloads t ! nd)) > 0\<close>
    by (simp add: publish_def Let_def heap_simps)
qed

lemma split_payloads_reads:
  fixes T :: "'e traits" and t :: "'e table" and draws :: "nat \<Rightarrow> u32" and nxt :: "nat option"
  assumes cur: "cur < length (lnodes t)" and len: "length merged = Suc kNodeCapacity"
  defines "t' \<equiv> split_payloads T draws t cur nxt merged" and "sib \<equiv> length (lnodes t)"
  shows "payloads t' = payloads t @
      [fill T (fresh_payload T) (drop kMid merged) nxt, fill T (fresh_payload T) (take kMid merged) (Some sib)]"
    and "length (lnodes t') = Suc sib"
    and "x < sib \<Longrightarrow> x \<noteq> cur \<Longrightarrow> lnodes t' ! x = lnodes t ! x"
    and "lnodes t' ! cur = (lnodes t ! cur)\<lparr>first_hint := descent_hint (order_bytes T (hd merged)), data := Some (Suc (length (payloads t)))\<rparr>"
    and "lnodes t' ! sib = new_list_node\<lparr>height := of_nat (random_height draws),
        first_hint := descent_hint (order_bytes T (merged ! kMid)), data := Some (length (payloads t))\<rparr>"
    and "head_node t' = head_node t" "hints t' = hints t" "locks t' = locks t @ [False]"
proof -
  let ?R = "fill T (fresh_payload T) (drop kMid merged) nxt" and ?L = "fill T (fresh_payload T) (take kMid merged) (Some sib)"
  define t0 where "t0 = t\<lparr>payloads := payloads t @ [?R, ?L], lnodes := lnodes t @ [new_list_node\<lparr>height := of_nat (random_height draws)\<rparr>]\<rparr>"
  let ?q = "length (payloads t)"
  have t': "t' = publish T (publish T t0 sib ?q) cur (Suc ?q)"
    by (simp add: t'_def t0_def sib_def split_payloads_def create_node_def fresh_data_def upd_node_def upd_payload_def Let_def list_update_append nth_append)
  have P: "payloads t0 ! ?q = ?R" "payloads t0 ! Suc ?q = ?L" by (simp_all add: t0_def nth_append)
  have e: "node_entries ?R = drop kMid merged" "node_entries ?L = take kMid merged"
    "hd (drop kMid merged) = merged ! kMid" "hd (take kMid merged) = hd merged"
    "drop kMid merged \<noteq> []" "take kMid merged \<noteq> []"
    using len by (simp_all add: fill_entries kMid_def node_consts hd_drop_conv_nth) (cases merged; simp)+
  have ne: "cur \<noteq> sib" "cur < length (lnodes t0)" "sib < length (lnodes t0)" using cur by (simp_all add: sib_def t0_def)
  show "payloads t' = payloads t @ [?R, ?L]" "length (lnodes t') = Suc sib" "head_node t' = head_node t" "hints t' = hints t"
    by (simp_all add: t' heap_simps) (simp_all add: t0_def sib_def)
  show "locks t' = locks t @ [False]" by (simp add: t' heap_simps) (simp add: t0_def locks_def new_list_node_def)
  show "lnodes t' ! cur = (lnodes t ! cur)\<lparr>first_hint := descent_hint (order_bytes T (hd merged)), data := Some (Suc ?q)\<rparr>"
    using ne e P cur by (simp add: t' publish_node heap_simps) (simp add: t0_def nth_append)
  show "lnodes t' ! sib = new_list_node\<lparr>height := of_nat (random_height draws),
      first_hint := descent_hint (order_bytes T (merged ! kMid)), data := Some ?q\<rparr>"
    using ne e P by (simp add: t' publish_node heap_simps) (simp add: t0_def nth_append sib_def)
  show "x < sib \<Longrightarrow> x \<noteq> cur \<Longrightarrow> lnodes t' ! x = lnodes t ! x"
    by (simp add: t' heap_simps) (simp add: t0_def nth_append sib_def)
qed

text \<open>What an insert makes of the payload it found the key's place in.\<close>

definition new_payload :: "'e traits \<Rightarrow> 'e node_data \<Rightarrow> 'e \<Rightarrow> 'e node_data \<Rightarrow> bool" where
  "new_payload T d e d' \<longleftrightarrow>
     (let r = lower_bound_of (\<lambda>x. compare T x e < 0) (node_entries d); m = ins_at r e (node_entries d)
      in if order_count (order d) < kNodeCapacity
         then d' = appended d r e (append_lane T d (order d) r (order_bytes T e))
         else length m = Suc kNodeCapacity \<and>
           (\<exists>nxt. d' = fill T (fresh_payload T) (take kMid m) nxt \<or> d' = fill T (fresh_payload T) (drop kMid m) nxt))"

text \<open>
  What the write into node \<open>c\<close> leaves to everyone else: the nodes stay in the chain, the other payloads
  and every old payload that is not appended to stay as they are, and a new payload holds entries of
  the old node and the new entry.
\<close>

definition extends :: "'e table \<Rightarrow> nat list \<Rightarrow> nat \<Rightarrow> 'e list \<Rightarrow> 'e table \<Rightarrow> nat list \<Rightarrow> bool" where
  "extends t ns c es t' ns' \<longleftrightarrow>
     grows t t' \<and> set ns \<subseteq> set ns' \<and> (\<forall>x \<in> set ns. x \<noteq> c \<longrightarrow> get_data t' x = get_data t x) \<and>
     entries_of t' c = (if length (entries_of t c) < kNodeCapacity then es else take kMid es) \<and>
     (\<forall>d \<in> set (payloads t'). d \<in> set (payloads t) \<or> node_ok d \<and> set (node_entries d) \<subseteq> set es)"

context ordered_traits
begin

lemma node_position_le: "node_position t key n \<le> length (entries_of t n)"
  by (simp add: node_position_def lower_bound_of_def length_takeWhile_le del: length_node_entries)

text \<open>The entry's place in the whole table, as the chain splits at the located node.\<close>

lemma ins_at_chain:
  assumes "q = length (chain_entries t us) + r" "r \<le> length (entries_of t c)"
  shows "ins_at q e (chain_entries t (us @ c # vs)) =
    chain_entries t us @ ins_at r e (entries_of t c) @ chain_entries t vs"
  using assms by (simp add: ins_at_append2 ins_at_append1)

lemma splits_at_ins_sorted:
  "sorted_wrt (le T) xs \<Longrightarrow> splits_at T xs e q \<Longrightarrow> sorted_wrt (le T) (ins_at q e xs)"
  by (simp add: splits_at_def sorted_wrt_ins_at)

lemma append_chain:
  assumes ok: "chain_ok T t (us @ c # vs)" and p: "data (lnodes t ! c) = Some p"
    and w: "w = order (payloads t ! p)" and room: "order_count w < kNodeCapacity"
    and split: "splits_at T (chain_entries t (us @ c # vs)) key (length (chain_entries t us) + node_position t key c)"
  defines "t' \<equiv> append_entry T t c p w (order_count w) key (order_bytes T key)"
  shows "chain_ok T t' (us @ c # vs)"
    and "chain_entries t' (us @ c # vs) = ins_at (length (chain_entries t us) + node_position t key c) key (chain_entries t (us @ c # vs))"
    and "locks t' = locks t"
    and "\<And>x. x \<in> set (us @ c # vs) \<Longrightarrow> get_data t' x = get_data t x \<or> new_payload T (get_data t c) key (get_data t' x)"
    and "extends t (us @ c # vs) c (ins_at (node_position t key c) key (entries_of t c)) t' (us @ c # vs)"
proof -
  note d = chain_okD [OF ok]
  let ?P = "payloads t ! p" and ?r = "node_position t key c"
  have P: "get_data t c = ?P" by (simp add: get_data_def p)
  have c: "c < length (lnodes t)" "p < length (payloads t)" "node_ok ?P" "length (tower (lnodes t ! c)) = kMaxHeight"
    "entries_of t c \<noteq> [] \<Longrightarrow> first_hint (lnodes t ! c) = descent_hint (order_bytes T (first_of t c))"
    using d(4) [of c] p by (auto simp: lnode_ok_def get_data_def)
  have rank: "?r = sorted_position T ?P w (order_count w) key (order_bytes T key)"
    using sorted_position_node [OF ok, of c key] by (simp add: P w)
  have ap: "appendable ?P ?r"
    using c(3) room node_position_le [of t key c] by (simp add: appendable_def w P)
  let ?lane = "append_lane T ?P w ?r (order_bytes T key)"
  note reads = append_reads [OF c(1) p c(2) ap w rank, folded t'_def]
  have data': "data (lnodes t' ! x) = data (lnodes t ! x)" and tower': "tower (lnodes t' ! x) = tower (lnodes t ! x)" for x
    using reads(2) by simp_all
  have c': "get_data t' c = appended ?P ?r key ?lane"
    using c(2) by (simp add: get_data_def data' p reads(1))
  have e': "entries_of t' c = ins_at ?r key (entries_of t c)"
    by (simp add: c' appended_entries [OF ap] P)
  have grows: "grows t t'" using reads by (simp add: grows_def)
  have same: "reads_same t t' x" if x: "x \<in> set us \<union> set vs" for x
  proof -
    have "x \<noteq> c" using d(2) x by auto
    moreover have "data (lnodes t ! x) \<noteq> Some p" using d(3) x p [symmetric] by (auto simp: rev_image_eqI)
    moreover obtain q where "data (lnodes t ! x) = Some q" using d(4) [of x] x by (auto simp: lnode_ok_def)
    ultimately show ?thesis using reads by (simp add: reads_same_def get_data_def)
  qed
  have hint: "first_hint (lnodes t' ! c) = descent_hint (order_bytes T (first_of t' c))"
  proof (cases "?r = 0")
    case True
    then show ?thesis using reads(2) e' by simp
  next
    case False
    then have "entries_of t c \<noteq> []" using node_position_le [of t key c] by (auto simp del: length_node_entries)
    then have "first_of t' c = first_of t c" using False by (cases "entries_of t c"; cases ?r) (simp_all add: e' ins_at_def)
    then show ?thesis using reads(2) False c(5) \<open>entries_of t c \<noteq> []\<close> by simp
  qed
  have lnode: "lnode_ok T t' c"
    using c reads hint appended_ok [OF ap] by (simp add: lnode_ok_def data' tower' p c')
  have towers: "towers_ok t' (us @ c # vs)"
    using d(7) by (simp add: towers_ok_def level_ranked_def tower_at_def tower')
  have next': "next_of t' c = next_of t c" by (simp add: next_of_def c' P)
  have pos: "length (chain_entries t us) + ?r = length (chain_entries t us) + ?r" ..
  have sorted: "sorted_wrt (le T) (chain_entries t us @ chain_entries t' [c] @ chain_entries t vs)"
    using splits_at_ins_sorted [OF d(6) split] unfolding ins_at_chain [OF pos node_position_le] e' [symmetric] by simp
  have path: "path t' (next_of t' c) ([] @ vs)"
  proof -
    have "path t (next_of t c) vs" using path_append_Cons [OF d(1)] .
    then show ?thesis using path_cong [of vs t' t] same by (simp add: next' reads_same_next)
  qed
  have data: "data (lnodes t' ! m) \<noteq> data (lnodes t ! x)" if "m \<in> set [c]" "x \<in> set us \<union> set vs" for m x
    using d(3) that by (auto simp: data' rev_image_eqI)
  show "chain_ok T t' (us @ c # vs)"
    using rebuilt_chain(1) [OF ok same grows path _ _ _ data] lnode sorted towers by (simp add: e')
  show "chain_entries t' (us @ c # vs) = ins_at (length (chain_entries t us) + ?r) key (chain_entries t (us @ c # vs))"
    using rebuilt_chain(2) [OF ok same grows path _ _ _ data] lnode sorted towers
    unfolding ins_at_chain [OF pos node_position_le] by (simp add: e')
  show "locks t' = locks t" by (rule reads(6))
  have "new_payload T (get_data t c) key (get_data t' c)"
    using room by (simp add: new_payload_def c' P w node_position_def Let_def)
  then show "get_data t' x = get_data t x \<or> new_payload T (get_data t c) key (get_data t' x)" if "x \<in> set (us @ c # vs)" for x
    using that same by (auto simp: reads_same_def)
  have "d \<in> set (payloads t) \<or> node_ok d \<and> set (node_entries d) \<subseteq> set (ins_at ?r key (entries_of t c))" if "d \<in> set (payloads t')" for d
  proof -
    have "d = appended ?P ?r key ?lane \<or> d \<in> set (payloads t)"
      using that set_update_subset_insert [of "payloads t" p] unfolding reads(1) by blast
    then show ?thesis using appended_ok [OF ap] appended_entries [OF ap] by (auto simp: P)
  qed
  moreover have "get_data t' x = get_data t x" if "x \<in> set (us @ c # vs)" "x \<noteq> c" for x
    using same [of x] that by (simp add: reads_same_def)
  ultimately show "extends t (us @ c # vs) c (ins_at ?r key (entries_of t c)) t' (us @ c # vs)"
    using grows room by (simp add: extends_def e' P w)
qed

lemma split_payloads_chain:
  fixes draws :: "nat \<Rightarrow> u32"
  assumes ok: "chain_ok T t (us @ c # vs)" and full: "length merged = Suc kNodeCapacity"
    and full': "length (entries_of t c) = kNodeCapacity"
    and merged: "chain_entries t us @ merged @ chain_entries t vs = all" and sorted: "sorted_wrt (le T) all"
  defines "t' \<equiv> split_payloads T draws t c (next_of t c) merged" and "sib \<equiv> length (lnodes t)"
  shows "chain_ok T t' (us @ c # sib # vs)" and "chain_entries t' (us @ c # sib # vs) = all"
    and "1 \<le> lv \<Longrightarrow> lv < kMaxHeight \<Longrightarrow> unlinked t' (us @ c # sib # vs) lv sib"
    and "x \<in> set (us @ c # sib # vs) \<Longrightarrow> x \<in> set us \<union> set vs \<and> get_data t' x = get_data t x \<or>
      (\<exists>nxt. get_data t' x = fill T (fresh_payload T) (take kMid merged) nxt \<or> get_data t' x = fill T (fresh_payload T) (drop kMid merged) nxt)"
    and "extends t (us @ c # vs) c merged t' (us @ c # sib # vs)"
proof -
  note d = chain_okD [OF ok]
  let ?ns = "us @ c # vs" and ?q = "length (payloads t)"
  have old: "x < sib" "length (tower (lnodes t ! x)) = kMaxHeight" "\<exists>q. data (lnodes t ! x) = Some q \<and> q < ?q" if "x \<in> set ?ns" for x
    using d(4) [OF that] by (auto simp: lnode_ok_def sib_def)
  have c: "c < sib" using old by simp
  note reads = split_payloads_reads [OF c [unfolded sib_def] full, where T = T and draws = draws and nxt = "next_of t c", folded t'_def sib_def]
  have fresh: "sib \<notin> set ?ns" using old(1) by blast
  have data': "data (lnodes t' ! c) = Some (Suc ?q)" "data (lnodes t' ! sib) = Some ?q" using reads(4,5) by simp_all
  have same: "reads_same t t' x" if x: "x \<in> set us \<union> set vs" for x
  proof -
    have "x \<noteq> c" "x \<in> set ?ns" using d(2) x by auto
    then have "lnodes t' ! x = lnodes t ! x" using reads(3) old(1) by blast
    moreover obtain q where "data (lnodes t ! x) = Some q" "q < ?q" using old(3) [OF \<open>x \<in> set ?ns\<close>] by blast
    ultimately show ?thesis by (simp add: reads_same_def get_data_def nth_append reads(1))
  qed
  let ?L = "fill T (fresh_payload T) (take kMid merged) (Some sib)" and ?R = "fill T (fresh_payload T) (drop kMid merged) (next_of t c)"
  have gd: "get_data t' c = ?L" "get_data t' sib = ?R"
    by (simp_all add: get_data_def data' reads(1) nth_append)
  have short: "length (take kMid merged) \<le> kNodeCapacity" "length (drop kMid merged) \<le> kNodeCapacity"
    and ne: "take kMid merged \<noteq> []" "drop kMid merged \<noteq> []"
    using full by (auto simp: kMid_def node_consts)
  have e: "entries_of t' c = take kMid merged" "entries_of t' sib = drop kMid merged"
    using short by (simp_all add: gd fill_entries)
  have first: "first_of t' c = hd merged" "first_of t' sib = merged ! kMid"
    using ne full by (auto simp: e hd_drop_conv_nth kMid_def node_consts)
  have tower': "tower (lnodes t' ! x) = tower (lnodes t ! x)" if "x \<in> set ?ns" for x
    using reads(3) [of x] reads(4) old(1) [OF that] by (cases "x = c") auto
  have "tower (lnodes t' ! sib) = replicate kMaxHeight None" using reads(5) by (simp add: new_list_node_def)
  then have tsib: "lv < kMaxHeight \<Longrightarrow> tower_at t' lv sib = None" for lv by (simp add: tower_at_def)
  have tns: "x \<in> set ?ns \<Longrightarrow> tower_at t' lv x = tower_at t lv x" for lv x by (simp add: tower_at_def tower')
  have lnode: "lnode_ok T t' m" if "m \<in> set [c, sib]" for m
  proof (cases "m = c")
    case True
    then show ?thesis using c old(2) [of c] reads fill_ok [OF short(1)] first(1)
      by (simp add: lnode_ok_def gd(1) data')
  next
    case False
    then have "m = sib" using that by simp
    then show ?thesis using reads fill_ok [OF short(2)] first(2)
      by (simp add: lnode_ok_def gd(2) data' new_list_node_def)
  qed
  have grows: "grows t t'" using reads by (simp add: grows_def sib_def)
  have "set (us @ c # [sib] @ vs) = insert sib (set ?ns)" by auto
  have towers: "towers_ok t' (us @ c # [sib] @ vs)"
    using d(7) tsib tns unfolding towers_ok_def level_ranked_def \<open>set _ = _\<close> by (auto 0 4)
  have path: "path t' (next_of t' c) ([sib] @ vs)"
    using path_append_Cons [OF d(1)] path_cong [of vs t' t] same by (simp add: next_of_def gd reads_same_def)
  have data: "data (lnodes t' ! m) \<noteq> data (lnodes t ! x)" if "m \<in> set [c, sib]" "x \<in> set us \<union> set vs" for m x
    using data' old(3) [of x] that by auto
  have mids: "chain_entries t' [c, sib] = merged" by (simp add: e)
  note r = rebuilt_chain [OF ok same grows path _ _ _ data lnode]
  have "chain_ok T t' (us @ c # [sib] @ vs) \<and> chain_entries t' (us @ c # [sib] @ vs) = all"
    using r(1) r(2) fresh ne sorted towers merged data' mids by (simp add: e)
  then show "chain_ok T t' (us @ c # sib # vs)" "chain_entries t' (us @ c # sib # vs) = all" by simp_all
  show "x \<in> set (us @ c # sib # vs) \<Longrightarrow> x \<in> set us \<union> set vs \<and> get_data t' x = get_data t x \<or>
      (\<exists>nxt. get_data t' x = fill T (fresh_payload T) (take kMid merged) nxt \<or> get_data t' x = fill T (fresh_payload T) (drop kMid merged) nxt)"
    using gd same by (auto simp: reads_same_def)
  have "get_data t' x = get_data t x" if "x \<in> set ?ns" "x \<noteq> c" for x
    using same [of x] that by (simp add: reads_same_def)
  moreover have "d \<in> set (payloads t) \<or> node_ok d \<and> set (node_entries d) \<subseteq> set merged" if "d \<in> set (payloads t')" for d
    using that fill_ok [OF short(1)] fill_ok [OF short(2)] fill_entries [OF short(1)] fill_entries [OF short(2)]
    unfolding reads(1) by (auto dest: in_set_takeD in_set_dropD)
  ultimately show "extends t ?ns c merged t' (us @ c # sib # vs)"
    using grows full' by (auto simp: extends_def e(1))
  show "unlinked t' (us @ c # sib # vs) lv sib" if "1 \<le> lv" "lv < kMaxHeight"
    using d(7) tsib [OF that(2)] tns fresh that(2) by (auto simp: unlinked_def towers_ok_def)
qed

lemma split_chain:
  assumes ok: "chain_ok T t (us @ c # vs)" and p: "data (lnodes t ! c) = Some p"
    and w: "w = order (payloads t ! p)" and full: "\<not> order_count w < kNodeCapacity"
    and split: "splits_at T (chain_entries t (us @ c # vs)) key (length (chain_entries t us) + node_position t key c)"
  defines "q \<equiv> length (chain_entries t us) + node_position t key c"
  shows "\<exists>t' ns'. split_and_insert T draws cas t c p w (order_count w) key (order_bytes T key) = Some t' \<and>
    chain_ok T t' ns' \<and> chain_entries t' ns' = ins_at q key (chain_entries t (us @ c # vs)) \<and> locks t' = locks t @ [False] \<and>
    (\<forall>x \<in> set ns'. x \<in> set us \<union> set vs \<and> get_data t' x = get_data t x \<or> new_payload T (get_data t c) key (get_data t' x)) \<and>
    extends t (us @ c # vs) c (ins_at (node_position t key c) key (entries_of t c)) t' ns'"
proof -
  note d = chain_okD [OF ok]
  let ?P = "payloads t ! p" and ?r = "node_position t key c" and ?sib = "length (lnodes t)"
  have P: "get_data t c = ?P" by (simp add: get_data_def p)
  have c: "c < length (lnodes t)" and okP: "node_ok ?P" using d(4) [of c] by (auto simp: lnode_ok_def P)
  let ?merged = "merge T ?P w (order_count w) key (order_bytes T key)"
  have m: "?merged = ins_at ?r key (entries_of t c)"
    using merge_entries [OF chain_node_sorted [OF ok, of c]] by (simp add: w P node_position_def)
  have len: "length ?merged = Suc kNodeCapacity"
    using full node_okD(7) [OF okP] unfolding m by (simp add: w P node_consts)
  let ?all = "ins_at q key (chain_entries t (us @ c # vs))"
  have all: "chain_entries t us @ ?merged @ chain_entries t vs = ?all"
    unfolding m q_def by (rule ins_at_chain [OF HOL.refl node_position_le, symmetric])
  have sorted: "sorted_wrt (le T) ?all"
    unfolding q_def by (rule splits_at_ins_sorted [OF d(6) split])
  let ?t2 = "split_payloads T draws t c (next_of t c) ?merged" and ?ns = "us @ c # ?sib # vs"
  have full': "length (entries_of t c) = kNodeCapacity" using len unfolding m by (simp del: length_node_entries)
  note r = split_payloads_chain [OF ok len full' all sorted, where draws = draws]
  have "lnodes ?t2 ! ?sib = new_list_node\<lparr>height := of_nat (random_height draws),
      first_hint := descent_hint (order_bytes T (?merged ! kMid)), data := Some (length (payloads t))\<rparr>"
    by (rule split_payloads_reads(5) [OF c len])
  then have h: "unat (height (lnodes ?t2 ! ?sib)) \<le> kMaxHeight"
    using random_height_bounds(2) [of draws] by (simp add: random_height_byte)
  have "\<exists>t'. link_tower T cas ?t2 ?sib (slots (payloads ?t2 ! length (payloads t)) ! 0) = Some t' \<and> relinked T ?ns {1..<kMaxHeight} ?t2 t'"
    by (rule link_tower_relinks [OF r(1) _ h]) (auto intro: r(3))
  then obtain t' where t': "link_tower T cas ?t2 ?sib (slots (payloads ?t2 ! length (payloads t)) ! 0) = Some t'"
    "relinked T ?ns {1..<kMaxHeight} ?t2 t'" by blast
  have "split_and_insert T draws cas t c p w (order_count w) key (order_bytes T key) = Some t'"
    using t'(1) by (simp add: split_and_insert_payloads Let_def next_of_def P)
  moreover have "locks t' = locks t @ [False]"
    using t'(2) split_payloads_reads(8) [OF c len] by (simp add: relinked_def)
  moreover have "\<forall>x \<in> set ?ns. x \<in> set us \<union> set vs \<and> get_data t' x = get_data t x \<or> new_payload T (get_data t c) key (get_data t' x)"
  proof
    fix x
    assume x: "x \<in> set ?ns"
    have new: "new_payload T (get_data t c) key d'"
      if "\<exists>nxt. d' = fill T (fresh_payload T) (take kMid ?merged) nxt \<or> d' = fill T (fresh_payload T) (drop kMid ?merged) nxt" for d'
      using that full len unfolding m by (simp add: new_payload_def Let_def node_position_def P w)
    have "get_data t' x = get_data ?t2 x" using t'(2) by (simp add: relinked_def)
    then show "x \<in> set us \<union> set vs \<and> get_data t' x = get_data t x \<or> new_payload T (get_data t c) key (get_data t' x)"
      using r(4) [OF x] new [of "get_data ?t2 x"] by metis
  qed
  moreover have "extends t (us @ c # vs) c (ins_at ?r key (entries_of t c)) t' ?ns"
    using r(5) t'(2) unfolding m by (auto simp: extends_def relinked_def grows_def)
  moreover have "chain_ok T t' ?ns" "chain_entries t' ?ns = chain_entries ?t2 ?ns"
    using t'(2) unfolding relinked_def by blast+
  ultimately show ?thesis unfolding r(2) by blast
qed

text \<open>Taking or dropping a lock changes nothing the chain shows.\<close>

lemma set_lock_chain:
  assumes ok: "chain_ok T t ns" and t': "t' = upd_node t n (\<lambda>x. x\<lparr>write_lock := b\<rparr>)"
  shows "chain_ok T t' ns" "chain_entries t' ns = chain_entries t ns" "locks t' = (locks t)[n := b]"
    "get_data t' x = get_data t x" "node_position t' key x = node_position t key x"
proof -
  have l: "data (lnodes t' ! x) = data (lnodes t ! x)" "first_hint (lnodes t' ! x) = first_hint (lnodes t ! x)"
    "tower (lnodes t' ! x) = tower (lnodes t ! x)" for x
    by (cases "n < length (lnodes t)"; cases "x = n"; simp add: t' upd_node_def list_update_beyond)+
  have g: "get_data t' x = get_data t x" for x by (simp add: get_data_def l) (simp add: t' heap_simps)
  have grows: "grows t t'" by (simp add: t' grows_def heap_simps)
  have tw: "towers_ok t' ns" using chain_okD(7) [OF ok] by (simp add: towers_ok_def level_ranked_def tower_at_def l)
  have same: "reads_same t t' x" for x by (simp add: reads_same_def l g)
  show "chain_ok T t' ns" "chain_entries t' ns = chain_entries t ns"
    using retowered_chain [OF ok same grows tw] by simp_all
  show "locks t' = (locks t)[n := b]" by (simp add: t' locks_def upd_node_def map_update)
  show "get_data t' x = get_data t x" "node_position t' key x = node_position t key x"
    by (simp_all add: g node_position_def)
qed

lemma belongs_here_locate:
  assumes ok: "chain_ok T t ns" and ns: "ns = us @ c # vs"
    and above: "\<And>v. v \<in> set vs \<Longrightarrow> compare T key (first_of t v) < 0"
  shows "belongs_here T t (get_data t c) key"
proof (cases vs)
  case Nil
  then have "next_of t c = None" using path_append_Cons [of t _ us c vs] chain_okD(1) [OF ok] ns by auto
  then show ?thesis by (simp add: belongs_here_def next_of_def)
next
  case (Cons v vs')
  then have "next_of t c = Some v" using path_append_Cons [of t _ us c vs] chain_okD(1) [OF ok] ns by auto
  moreover have "entries_of t v \<noteq> []" using chain_okD(5) [OF ok, of v] ns Cons by (cases us) auto
  moreover have "compare T (first_of t v) key > 0" using above [of v] Cons sign by simp
  ultimately show ?thesis by (simp add: belongs_here_def next_of_def Let_def first_key_at)
qed

text \<open>The write of one locked node, whichever node the entry belongs to.\<close>

lemma insert_locked_chain:
  assumes ok: "chain_ok T t (us @ c # vs)"
    and split: "splits_at T (chain_entries t (us @ c # vs)) e (length (chain_entries t us) + node_position t e c)"
  obtains t' ns' extra where "insert_locked T draws cas t c e = Some t'" "chain_ok T t' ns'"
    "chain_entries t' ns' = ins_at (length (chain_entries t us) + node_position t e c) e (chain_entries t (us @ c # vs))"
    "locks t' = locks t @ extra" "True \<notin> set extra"
    "\<And>x. x \<in> set ns' \<Longrightarrow> x \<in> set (us @ c # vs) \<and> (ns' = us @ c # vs \<or> x \<noteq> c) \<and> get_data t' x = get_data t x \<or>
      new_payload T (get_data t c) e (get_data t' x)"
    "ns' = us @ c # vs \<or> \<not> order_count (order (get_data t c)) < kNodeCapacity"
    "extends t (us @ c # vs) c (ins_at (node_position t e c) e (entries_of t c)) t' ns'"
proof -
  obtain p where p: "data (lnodes t ! c) = Some p" using chain_okD(4) [OF ok, of c] by (auto simp: lnode_ok_def)
  let ?w = "order (payloads t ! p)"
  have w: "order (get_data t c) = ?w" by (simp add: get_data_def p)
  show thesis
  proof (cases "order_count ?w < kNodeCapacity")
    case True
    note a = append_chain [OF ok p HOL.refl True split]
    show thesis
      using True a by (intro that [of "append_entry T t c p ?w (order_count ?w) e (order_bytes T e)" "us @ c # vs" "[]"])
        (auto simp: insert_locked_def Let_def p)
  next
    case False
    obtain t' ns' where r: "split_and_insert T draws cas t c p ?w (order_count ?w) e (order_bytes T e) = Some t'"
      "chain_ok T t' ns'" "chain_entries t' ns' = ins_at (length (chain_entries t us) + node_position t e c) e (chain_entries t (us @ c # vs))"
      "locks t' = locks t @ [False]"
      "\<forall>x \<in> set ns'. x \<in> set us \<union> set vs \<and> get_data t' x = get_data t x \<or> new_payload T (get_data t c) e (get_data t' x)"
      "extends t (us @ c # vs) c (ins_at (node_position t e c) e (entries_of t c)) t' ns'"
      using split_chain [OF ok p HOL.refl False split, of draws cas] by blast
    have "x \<in> set us \<union> set vs \<Longrightarrow> x \<in> set (us @ c # vs) \<and> x \<noteq> c" for x using chain_okD(2) [OF ok] by auto
    then show thesis
      using False r w by (intro that [of t' ns' "[False]"]) (auto simp: insert_locked_def Let_def p)
  qed
qed

text \<open>Where an insert into a quiesced table takes its lock, and that the key belongs there.\<close>

lemma locked_place:
  fixes e :: 'e
  assumes ok: "chain_ok T t ns" and q: "quiescent t"
  defines "c \<equiv> locate T t ns e"
  defines "t1 \<equiv> upd_node t c (\<lambda>x. x\<lparr>write_lock := True\<rparr>)"
  obtains us vs where "ns = us @ c # vs" "splits_at T (chain_entries t ns) e (length (chain_entries t us) + node_position t e c)"
    "c < length (lnodes t)" "acquire t c = Some t1" "belongs_here T t1 (get_data t1 c) e"
proof -
  obtain us vs where ns: "ns = us @ c # vs"
    and sp: "splits_at T (chain_entries t ns) e (length (chain_entries t us) + node_position t e c)"
    and above: "\<And>x. x \<in> set (chain_entries t vs) \<Longrightarrow> compare T e x < 0"
    unfolding c_def by (rule locate_position [OF ok, of e]) blast
  have lk: "c < length (lnodes t)" "\<not> write_lock (lnodes t ! c)"
    using chain_okD(4) [OF ok, of c] ns q by (auto simp: lnode_ok_def quiescent_def)
  note l1 = set_lock_chain [OF ok meta_eq_to_obj_eq [OF t1_def]]
  have above1: "compare T e (first_of t1 v) < 0" if "v \<in> set vs" for v
  proof -
    have "entries_of t v \<noteq> []" using chain_okD(5) [OF ok, of v] ns that by (cases us) auto
    then have "first_of t v \<in> set (chain_entries t vs)" using that hd_in_set by (fastforce simp: chain_entries_def)
    then show ?thesis using above by (simp add: l1(4))
  qed
  show thesis
    using that [OF ns sp lk(1)] lk belongs_here_locate [OF l1(1) ns above1] by (simp add: acquire_def t1_def)
qed

text \<open>The whole insert: the chain splits at the node \<open>c\<close> it descended to, and the entry goes to its rank there.\<close>

theorem insert_entry_step:
  assumes ok: "chain_ok T t ns" and q: "quiescent t"
  obtains t' ns' us c vs where "insert_entry T draws cas t e = Some t'" "chain_ok T t' ns'" "quiescent t'"
    "c = locate T t ns e" "ns = us @ c # vs" "splits_at T (chain_entries t ns) e (length (chain_entries t us) + node_position t e c)"
    "chain_entries t' ns' = ins_at (length (chain_entries t us) + node_position t e c) e (chain_entries t ns)"
    "\<And>x. x \<in> set ns' \<Longrightarrow> x \<in> set ns \<and> (ns' = ns \<or> x \<noteq> c) \<and> get_data t' x = get_data t x \<or> new_payload T (get_data t c) e (get_data t' x)"
    "ns' = ns \<or> \<not> order_count (order (get_data t c)) < kNodeCapacity"
    "order_count (order (get_data t c)) < kNodeCapacity \<Longrightarrow> entries_of t' c = ins_at (node_position t e c) e (entries_of t c)"
proof -
  define c where c: "c = locate T t ns e"
  define t1 where "t1 = upd_node t c (\<lambda>x. x\<lparr>write_lock := True\<rparr>)"
  obtain us vs where ns: "ns = us @ c # vs"
    and sp: "splits_at T (chain_entries t ns) e (length (chain_entries t us) + node_position t e c)"
    and lk: "c < length (lnodes t)" and acq: "acquire t c = Some t1" and bel: "belongs_here T t1 (get_data t1 c) e"
    using locked_place [OF ok q, of e] unfolding c t1_def by metis
  let ?k = "length (chain_entries t us) + node_position t e c"
  note l1 = set_lock_chain [OF ok t1_def]
  have e1: "chain_entries t1 xs = chain_entries t xs" for xs by (simp add: chain_entries_def l1(4))
  have sp1: "splits_at T (chain_entries t1 (us @ c # vs)) e (length (chain_entries t1 us) + node_position t1 e c)"
    using sp by (simp only: ns [symmetric] e1 l1(5))
  obtain t2 ns2 extra where op: "insert_locked T draws cas t1 c e = Some t2" and t2: "chain_ok T t2 ns2"
    "chain_entries t2 ns2 = ins_at ?k e (chain_entries t ns)" "locks t2 = locks t1 @ extra" "True \<notin> set extra"
    "\<And>x. x \<in> set ns2 \<Longrightarrow> x \<in> set ns \<and> (ns2 = ns \<or> x \<noteq> c) \<and> get_data t2 x = get_data t x \<or> new_payload T (get_data t c) e (get_data t2 x)"
    "ns2 = ns \<or> \<not> order_count (order (get_data t c)) < kNodeCapacity"
    "extends t1 ns c (ins_at (node_position t e c) e (entries_of t c)) t2 ns2"
    using insert_locked_chain [OF l1(1) [unfolded ns] sp1, of draws cas] unfolding e1 l1(4,5) ns [symmetric] by metis
  note l2 = set_lock_chain [OF t2(1) release_def]
  have ins: "insert_entry T draws cas t e = Some (release t2 c)"
    using op bel acq descend_locate [OF ok, of e] by (subst insert_entry.simps) (simp add: Let_def c [symmetric])
  have quiet: "quiescent (release t2 c)"
  proof -
    have "locks (release t2 c) = (locks t)[c := False] @ extra"
      using lk l2(3) t2(3) l1(3) by (simp add: list_update_append1 locks_def)
    moreover have "True \<notin> set ((locks t)[c := False])"
      using q set_update_subset_insert [of "locks t" c False] by (auto simp: quiescent_locks)
    ultimately show ?thesis using t2(4) by (simp add: quiescent_locks)
  qed
  show thesis
  proof (rule that [OF ins l2(1) quiet c ns sp])
    show "chain_entries (release t2 c) ns2 = ins_at ?k e (chain_entries t ns)" using l2(2) t2(2) by simp
    show "x \<in> set ns \<and> (ns2 = ns \<or> x \<noteq> c) \<and> get_data (release t2 c) x = get_data t x \<or>
        new_payload T (get_data t c) e (get_data (release t2 c) x)" if "x \<in> set ns2" for x
      using t2(5) [OF that] by (simp add: l2(4))
    show "ns2 = ns \<or> \<not> order_count (order (get_data t c)) < kNodeCapacity" by (rule t2(6))
    show "entries_of (release t2 c) c = ins_at (node_position t e c) e (entries_of t c)"
      if "order_count (order (get_data t c)) < kNodeCapacity"
      using t2(7) that by (simp add: extends_def l2(4) l1(4))
  qed
qed

theorem insert_entry_chain:
  assumes ok: "chain_ok T t ns" and q: "quiescent t"
  obtains t' ns' k where "insert_entry T draws cas t e = Some t'" "chain_ok T t' ns'" "quiescent t'"
    "splits_at T (chain_entries t ns) e k" "chain_entries t' ns' = ins_at k e (chain_entries t ns)"
    "\<And>x. x \<in> set ns' \<Longrightarrow> x \<in> set ns \<and> (ns' = ns \<or> x \<noteq> locate T t ns e) \<and> get_data t' x = get_data t x \<or>
      new_payload T (get_data t (locate T t ns e)) e (get_data t' x)"
    "ns' = ns \<or> \<not> order_count (order (get_data t (locate T t ns e))) < kNodeCapacity"
proof (rule insert_entry_step [OF ok q, of draws cas e])
  fix t' ns' us c vs
  assume t': "insert_entry T draws cas t e = Some t'" "chain_ok T t' ns'" "quiescent t'" and c: "c = locate T t ns e"
    and k: "splits_at T (chain_entries t ns) e (length (chain_entries t us) + node_position t e c)"
      "chain_entries t' ns' = ins_at (length (chain_entries t us) + node_position t e c) e (chain_entries t ns)"
    and new: "\<And>x. x \<in> set ns' \<Longrightarrow> x \<in> set ns \<and> (ns' = ns \<or> x \<noteq> c) \<and> get_data t' x = get_data t x \<or>
      new_payload T (get_data t c) e (get_data t' x)"
    and room: "ns' = ns \<or> \<not> order_count (order (get_data t c)) < kNodeCapacity"
  show thesis by (rule that [OF t' k new [unfolded c] room [unfolded c]])
qed

text \<open>An insert that finds room replaces the payload of its node by the appended one.\<close>

lemma insert_entry_appends:
  assumes ok: "chain_ok T t ns" and q: "quiescent t" and c: "c = locate T t ns e"
    and room: "order_count (order (get_data t c)) < kNodeCapacity"
  defines "r \<equiv> lower_bound_of (\<lambda>x. compare T x e < 0) (entries_of t c)"
  obtains t' k where "insert_entry T draws cas t e = Some t'" "chain_ok T t' ns" "quiescent t'"
    "chain_entries t' ns = ins_at k e (chain_entries t ns)"
    "get_data t' c = appended (get_data t c) r e (append_lane T (get_data t c) (order (get_data t c)) r (order_bytes T e))"
proof (rule insert_entry_step [OF ok q, of draws cas e])
  fix t' ns' us c' vs
  assume t': "insert_entry T draws cas t e = Some t'" "chain_ok T t' ns'" "quiescent t'" and c': "c' = locate T t ns e"
    and "chain_entries t' ns' = ins_at (length (chain_entries t us) + node_position t e c') e (chain_entries t ns)"
    and new: "\<And>x. x \<in> set ns' \<Longrightarrow> x \<in> set ns \<and> (ns' = ns \<or> x \<noteq> c') \<and> get_data t' x = get_data t x \<or>
      new_payload T (get_data t c') e (get_data t' x)"
    and "ns' = ns \<or> \<not> order_count (order (get_data t c')) < kNodeCapacity"
    and grown: "order_count (order (get_data t c')) < kNodeCapacity \<Longrightarrow> entries_of t' c' = ins_at (node_position t e c') e (entries_of t c')"
  moreover have cc: "c' = c" using c c' by simp
  moreover have "get_data t' c \<noteq> get_data t c"
  proof
    assume "get_data t' c = get_data t c"
    then have "length (entries_of t c) = Suc (length (entries_of t c))" using grown room cc by (metis length_ins_at)
    then show False by simp
  qed
  ultimately show thesis
    using room locate_in_chain [OF ok, of e] c new [of c]
    by (intro that [of t']) (auto simp: new_payload_def r_def Let_def)
qed

end

section \<open>The empty table, and many inserts\<close>

lemma new_table_eq:
  "new_table T =
    \<lparr>lnodes = [new_list_node\<lparr>height := of_nat kMaxHeight, data := Some 0\<rparr>], payloads = [fresh_payload T],
     head_node = 0, hints = hint_ordering T\<rparr>"
  by (simp add: new_table_def create_node_def fresh_data_def upd_node_def publish_def Let_def)
    (simp add: fresh_payload_def)

lemma new_table_chain: "chain_ok T (new_table T) [0]" "chain_entries (new_table T) [0] = []" "quiescent (new_table T)"
proof -
  have d: "get_data (new_table T) 0 = fresh_payload T" by (simp add: get_data_def new_table_eq)
  have "next_of (new_table T) 0 = None" by (simp add: next_of_def d) (simp add: fresh_payload_def)
  moreover have "lnode_ok T (new_table T) 0" by (simp add: lnode_ok_def d) (simp add: new_table_eq new_list_node_def)
  moreover have "towers_ok (new_table T) [0]"
    by (simp add: towers_ok_def level_ranked_def tower_at_def new_table_eq new_list_node_def)
  ultimately show "chain_ok T (new_table T) [0]" by (simp add: chain_ok_def d) (simp add: new_table_eq)
  show "chain_entries (new_table T) [0] = []" by (simp add: d)
  show "quiescent (new_table T)" by (simp add: quiescent_def new_table_eq new_list_node_def)
qed

text \<open>Inserting one entry after the other; the \<open>i\<close>-th insert has its own draws and exchanges.\<close>

fun insert_all ::
  "'e traits \<Rightarrow> (nat \<Rightarrow> nat \<Rightarrow> u32) \<Rightarrow> (nat \<Rightarrow> nat \<Rightarrow> nat \<Rightarrow> bool) \<Rightarrow> nat \<Rightarrow> 'e list \<Rightarrow> 'e table \<Rightarrow> 'e table option" where
  "insert_all T draws cas i [] t = Some t"
| "insert_all T draws cas i (e # es) t =
     Option.bind (insert_entry T (draws i) (cas i) t e) (insert_all T draws cas (Suc i) es)"

lemma insert_all_append:
  "insert_all T draws cas i (xs @ ys) t = Option.bind (insert_all T draws cas i xs t) (insert_all T draws cas (i + length xs) ys)"
proof (induction xs arbitrary: i t)
  case (Cons x xs)
  then show ?case by (cases "insert_entry T (draws i) (cas i) t x") simp_all
qed simp

context ordered_traits
begin

lemma insert_entry_table:
  assumes "table_ok T t"
  obtains t' k where "insert_entry T draws cas t e = Some t'" "table_ok T t'"
    "splits_at T (entries t) e k" "entries t' = ins_at k e (entries t)"
proof -
  have ok: "chain_ok T t (level0 t)" "quiescent t" using assms by (simp_all add: table_ok_level0)
  obtain t' ns' k where r: "insert_entry T draws cas t e = Some t'" "chain_ok T t' ns'" "quiescent t'"
    "splits_at T (chain_entries t (level0 t)) e k" "chain_entries t' ns' = ins_at k e (chain_entries t (level0 t))"
    using insert_entry_chain [OF ok, of draws cas e] by metis
  then show thesis using that [of t' k] entries_chain [OF r(2)] entries_chain [OF ok(1)] by (auto simp: table_ok_def)
qed

lemma insert_all_table:
  "table_ok T t \<Longrightarrow> \<exists>t'. insert_all T draws cas i es t = Some t' \<and> table_ok T t' \<and> mset (entries t') = mset es + mset (entries t)"
proof (induction es arbitrary: i t)
  case Nil
  then show ?case by simp
next
  case (Cons e es)
  obtain t1 k where t1: "insert_entry T (draws i) (cas i) t e = Some t1" "table_ok T t1" "entries t1 = ins_at k e (entries t)"
    using insert_entry_table [OF Cons.prems, of "draws i" "cas i" e] by metis
  then show ?case using Cons.IH [OF t1(2), of "Suc i"] by auto
qed

lemma table_sorted: "table_ok T t \<Longrightarrow> sorted_wrt (le T) (entries t)"
  using chain_okD(6) entries_chain table_ok_level0 by metis

end

lemma new_table_ok: "table_ok T (new_table T)" "entries (new_table T) = []"
  using new_table_chain [of T] entries_chain [of T "new_table T"] by (auto simp: table_ok_def)

context ordered_traits
begin

text \<open>A table of one node takes entries until it is full, and then splits in the middle.\<close>

lemma insert_all_one_node:
  "chain_ok T t [n] \<Longrightarrow> quiescent t \<Longrightarrow> length es + length (chain_entries t [n]) \<le> kNodeCapacity \<Longrightarrow>
   \<exists>t'. insert_all T draws cas i es t = Some t' \<and> chain_ok T t' [n] \<and> quiescent t' \<and>
     mset (chain_entries t' [n]) = mset es + mset (chain_entries t [n])"
proof (induction es arbitrary: i t)
  case (Cons e es)
  have loc: "locate T t [n] e = n" by (simp add: locate_def)
  obtain t1 ns k where "insert_entry T (draws i) (cas i) t e = Some t1" "chain_ok T t1 ns" "quiescent t1"
    "chain_entries t1 ns = ins_at k e (chain_entries t [n])" "ns = [n] \<or> \<not> order_count (order (get_data t n)) < kNodeCapacity"
    using insert_entry_chain [OF Cons.prems(1,2), of "draws i" "cas i" e] unfolding loc by metis
  moreover have "order_count (order (get_data t n)) < kNodeCapacity" using Cons.prems(3) by simp
  ultimately have t1: "insert_entry T (draws i) (cas i) t e = Some t1" "chain_ok T t1 [n]" "quiescent t1"
    "chain_entries t1 [n] = ins_at k e (chain_entries t [n])" by auto
  have "length (chain_entries t1 [n]) = Suc (length (chain_entries t [n]))" "mset (chain_entries t1 [n]) = add_mset e (mset (chain_entries t [n]))"
    unfolding t1(4) by simp_all
  then show ?case using Cons.IH [OF t1(2,3), of "Suc i"] Cons.prems(3) t1(1) by auto
qed simp

lemma insert_entry_full_node:
  assumes ok: "chain_ok T t [n]" and q: "quiescent t" and full: "length (entries_of t n) = kNodeCapacity"
  obtains t' a b where "insert_entry T draws cas t e = Some t'" "chain_ok T t' [a, b]" "quiescent t'"
    "mset (chain_entries t' [a, b]) = add_mset e (mset (entries_of t n))"
    "length (entries_of t' a) = kMid" "length (entries_of t' b) = kMid"
proof -
  have loc: "locate T t [n] e = n" by (simp add: locate_def)
  obtain t' ns k where t': "insert_entry T draws cas t e = Some t'" "chain_ok T t' ns" "quiescent t'"
    "chain_entries t' ns = ins_at k e (chain_entries t [n])"
    and new: "\<And>x. x \<in> set ns \<Longrightarrow> x \<in> set [n] \<and> (ns = [n] \<or> x \<noteq> n) \<and> get_data t' x = get_data t x \<or>
      new_payload T (get_data t n) e (get_data t' x)"
    using insert_entry_chain [OF ok q, of draws cas e] unfolding loc by metis
  have len: "length (chain_entries t' ns) = 16" using t'(4) full by (simp add: node_consts del: length_node_entries)
  have half: "length (entries_of t' x) = kMid" if x: "x \<in> set ns" for x
  proof -
    have "get_data t' x \<noteq> get_data t n \<or> ns \<noteq> [n] \<or> x \<noteq> n" using len full by (auto simp: node_consts simp del: length_node_entries)
    then have "new_payload T (get_data t n) e (get_data t' x)" using new [OF x] by auto
    moreover have "\<not> order_count (order (get_data t n)) < kNodeCapacity" using full by simp
    ultimately show ?thesis
      using full by (auto simp: new_payload_def Let_def fill_count node_consts kMid_def simp del: fill_simps)
  qed
  have "length (chain_entries t' xs) = length xs * kMid" if "set xs \<subseteq> set ns" for xs
    using that half by (induction xs) (simp_all del: length_node_entries)
  from this [of ns] have "length (chain_entries t' ns) = length ns * kMid" by simp
  then have "length ns = 2" using len by (simp add: kMid_def node_consts)
  then obtain a b where ns: "ns = [a, b]" by (auto simp: numeral_2_eq_2 length_Suc_conv)
  have "mset (chain_entries t' [a, b]) = add_mset e (mset (entries_of t n))" using t'(4) by (simp add: ns)
  then show thesis using that [of t' a b] t'(1-3) half by (simp add: ns del: length_node_entries)
qed

lemma insert_all_full_node:
  assumes "length es = Suc kNodeCapacity"
  obtains t a b where "insert_all T draws cas 0 es (new_table T) = Some t" "table_ok T t" "level0 t = [a, b]"
    "mset (entries t) = mset es" "length (entries_of t a) = kMid" "length (entries_of t b) = kMid"
proof -
  obtain e es' where es: "es = es' @ [e]" "length es' = kNodeCapacity" using assms by (cases es rule: rev_cases) auto
  obtain t where t: "insert_all T draws cas 0 es' (new_table T) = Some t" "chain_ok T t [0]" "quiescent t"
    "mset (chain_entries t [0]) = mset es'"
    using insert_all_one_node [OF new_table_chain(1,3), of es' draws cas 0] es(2) unfolding new_table_chain(2) by auto
  have "length (entries_of t 0) = kNodeCapacity" using arg_cong [OF t(4), of size] es(2) by simp
  then obtain t' a b where t': "insert_entry T (draws (length es')) (cas (length es')) t e = Some t'" "chain_ok T t' [a, b]" "quiescent t'"
    "mset (chain_entries t' [a, b]) = add_mset e (mset (entries_of t 0))"
    "length (entries_of t' a) = kMid" "length (entries_of t' b) = kMid"
    using insert_entry_full_node [OF t(2,3)] by metis
  have "insert_all T draws cas 0 es (new_table T) = Some t'" by (simp add: es(1) insert_all_append t(1) t'(1))
  then show thesis
    using that [of t' a b] t' t(4) level0_chain [OF t'(2)] entries_chain [OF t'(2)] by (auto simp: table_ok_def es(1))
qed

end

end
