(* ===== verification/Check_Invariants.thy ===== *)
theory Check_Invariants
  imports Node_Lanes Insert
begin

text \<open>
  \<^verbatim>\<open>check_invariants\<close> of \<^verbatim>\<open>include/aparajita/memtable.hpp\<close>: a walk over level 0 that returns the message of
  the first violated invariant, or null. Each loop of the source is a function over the indices it
  runs through; \<open>None\<close> is "nothing violated". For the walk itself \<open>Some None\<close> is the null result.

  The lemmas relate it to the table's own invariants: which payloads pass, and that inserts under a
  bytewise comparator keep every payload passing as long as no key goes below the smallest one. When one does and
  leaves the head's prefix, a second insert puts the lanes out of order.
\<close>

fun check_slots :: "u64 \<Rightarrow> nat \<Rightarrow> nat list \<Rightarrow> bool list \<Rightarrow> string option" where
  "check_slots ow cnt [] seen = None"
| "check_slots ow cnt (r # rs) seen =
     (let slot = order_slot ow r
      in if slot \<ge> cnt then Some ''the order word names a slot that was never filled''
         else if seen ! slot then Some ''the order word names one slot at two ranks''
         else check_slots ow cnt rs (seen[slot := True]))"

fun check_ranks :: "'e traits \<Rightarrow> 'e node_data \<Rightarrow> u64 \<Rightarrow> nat list \<Rightarrow> string option" where
  "check_ranks T d ow [] = None"
| "check_ranks T d ow (r # rs) =
     (if compare T (key_at d ow (r - 1)) (key_at d ow r) > 0
      then Some ''keys within a node are out of comparator order''
      else if surrogate_at_rank d ow (r - 1) > surrogate_at_rank d ow r
      then Some ''surrogate lanes within a node are not sorted''
      else check_ranks T d ow rs)"

fun check_lanes :: "'e traits \<Rightarrow> 'e node_data \<Rightarrow> u64 \<Rightarrow> nat list \<Rightarrow> string option" where
  "check_lanes T d ow [] = None"
| "check_lanes T d ow (r # rs) =
     (let bytes = order_bytes T (key_at d ow r); lane = surrogate_at_rank d ow r
      in if shares_prefix T d ow bytes
         then if lane \<noteq> surrogate_at bytes (unat (prefix_len d))
              then Some ''a lane disagrees with the key stored beside it''
              else check_lanes T d ow rs
         else if lane \<noteq> 0 \<and> lane \<noteq> kEmptyKey
         then Some ''a key outside the node's prefix has an unsaturated lane''
         else check_lanes T d ow rs)"

definition check_prefix :: "'e traits \<Rightarrow> 'e table \<Rightarrow> nat \<Rightarrow> 'e node_data \<Rightarrow> u64 \<Rightarrow> nat \<Rightarrow> string option" where
  "check_prefix T t n d ow cnt =
     (let never_filled = (n = head_node t \<and> next_link d = None)
      in if cnt > 1 \<and> \<not> never_filled \<and>
            unat (prefix_len d) <
              common_prefix_len (order_bytes T (key_at d ow 0)) (order_bytes T (key_at d ow (cnt - 1)))
         then Some ''a node's stored prefix is shorter than its keys' common prefix'' else None)"

definition check_hint :: "'e traits \<Rightarrow> 'e table \<Rightarrow> nat \<Rightarrow> 'e node_data \<Rightarrow> u64 \<Rightarrow> nat \<Rightarrow> string option" where
  "check_hint T t n d ow cnt =
     (if cnt > 0 \<and> first_hint (lnodes t ! n) \<noteq> descent_hint (order_bytes T (key_at d ow 0))
      then Some ''a node's descent hint does not match its first key'' else None)"

definition check_across :: "'e traits \<Rightarrow> ('e node_data \<times> u64) option \<Rightarrow> 'e node_data \<Rightarrow> u64 \<Rightarrow> nat \<Rightarrow> string option" where
  "check_across T prev d ow cnt =
     (case prev of None \<Rightarrow> None
      | Some (pd, po) \<Rightarrow>
          let pc = order_count po
          in if cnt > 0 \<and> pc > 0 \<and> compare T (key_at pd po (pc - 1)) (key_at d ow 0) > 0
             then Some ''level 0 runs out of comparator order across nodes'' else None)"

fun first_error :: "string option list \<Rightarrow> string option" where
  "first_error [] = None"
| "first_error (None # es) = first_error es"
| "first_error (Some e # es) = Some e"

definition check_node :: "'e traits \<Rightarrow> 'e table \<Rightarrow> ('e node_data \<times> u64) option \<Rightarrow> nat \<Rightarrow> string option" where
  "check_node T t prev n =
     (let d = get_data t n; ow = order d; cnt = order_count ow
      in if cnt > kNodeCapacity then Some ''a node holds more keys than kNodeCapacity''
         else first_error
           [check_slots ow cnt [0..<cnt] (replicate kNodeKeys False),
            check_ranks T d ow [1..<cnt],
            check_lanes T d ow [0..<cnt],
            check_prefix T t n d ow cnt,
            check_hint T t n d ow cnt,
            check_across T prev d ow cnt])"

partial_function (option) check_from ::
  "'e traits \<Rightarrow> 'e table \<Rightarrow> ('e node_data \<times> u64) option \<Rightarrow> nat option \<Rightarrow> string option option" where
  "check_from T t prev n =
     (case n of None \<Rightarrow> Some None
      | Some x \<Rightarrow>
          (case check_node T t prev x of
             Some e \<Rightarrow> Some (Some e)
           | None \<Rightarrow> let d = get_data t x in check_from T t (Some (d, order d)) (next_link d)))"

declare check_from.simps [code]

definition check_invariants :: "'e traits \<Rightarrow> 'e table \<Rightarrow> string option option" where
  "check_invariants T t = check_from T t None (Some (head_node t))"

section \<open>What passes each check\<close>

lemma check_slots_pass:
  "distinct ss \<Longrightarrow> (\<And>r. r \<in> set rs \<Longrightarrow> order_slot ow r < cnt) \<Longrightarrow> ss = map (order_slot ow) rs \<Longrightarrow> cnt \<le> length seen \<Longrightarrow>
   (\<And>s. s \<in> set ss \<Longrightarrow> \<not> seen ! s) \<Longrightarrow> check_slots ow cnt rs seen = None"
proof (induction rs arbitrary: ss seen)
  case Nil
  then show ?case by simp
next
  case (Cons r rs)
  have "\<not> seen[order_slot ow r := True] ! s" if "s \<in> set (map (order_slot ow) rs)" for s
  proof -
    have "order_slot ow r \<noteq> s" using Cons.prems(1,3) that by auto
    then show ?thesis using Cons.prems(3,5) that by simp
  qed
  then have "check_slots ow cnt rs (seen[order_slot ow r := True]) = None"
    using Cons.prems by (intro Cons.IH [OF _ _ HOL.refl]) auto
  then show ?case using Cons.prems by (auto simp: Let_def not_le)
qed

lemma check_slots_ok:
  assumes ok: "node_ok d"
  shows "check_slots (order d) (order_count (order d)) [0..<order_count (order d)] (replicate kNodeKeys False) = None"
proof (rule check_slots_pass)
  note node = node_okD [OF ok]
  show "distinct (ranks (order d))" by (rule slot_perm_distinct [OF node(4)])
  show "ranks (order d) = map (order_slot (order d)) [0..<order_count (order d)]" by (simp add: ranks_def)
  show "order_slot (order d) r < order_count (order d)" if "r \<in> set [0..<order_count (order d)]" for r
    using slot_perm_less [OF node(4), of r] that node(6) by (simp add: order_slot_ranks)
  show "\<not> replicate kNodeKeys False ! s" if "s \<in> set (ranks (order d))" for s
    using slots_below [OF ok that] node(7) by (simp add: node_consts)
  show "order_count (order d) \<le> length (replicate kNodeKeys False)" using node(7) by (simp add: node_consts)
qed

lemma check_ranks_pass:
  "(\<And>r. r \<in> set rs \<Longrightarrow> compare T (key_at d ow (r - 1)) (key_at d ow r) \<le> 0 \<and>
     surrogate_at_rank d ow (r - 1) \<le> surrogate_at_rank d ow r) \<Longrightarrow> check_ranks T d ow rs = None"
  by (induction rs) (auto simp: not_less)

lemma check_lanes_pass:
  "(\<And>r. r \<in> set rs \<Longrightarrow>
     let bytes = order_bytes T (key_at d ow r); lane = surrogate_at_rank d ow r
     in if shares_prefix T d ow bytes then lane = surrogate_at bytes (unat (prefix_len d)) else lane = 0 \<or> lane = kEmptyKey) \<Longrightarrow>
   check_lanes T d ow rs = None"
proof (induction rs)
  case Nil
  then show ?case by simp
next
  case (Cons r rs)
  then show ?case using Cons.prems [of r] by (auto simp: Let_def split: if_splits)
qed

text \<open>The prefix of a payload that \<^verbatim>\<open>fill\<close> built is at least the common prefix of its keys.\<close>

definition prefix_long :: "'e traits \<Rightarrow> 'e node_data \<Rightarrow> bool" where
  "prefix_long T d \<longleftrightarrow> order_count (order d) > 1 \<and>
     common_prefix_len (order_bytes T (hd (node_entries d))) (order_bytes T (last (node_entries d))) \<le> unat (prefix_len d)"

text \<open>The lane invariant of a payload; an empty one has no prefix.\<close>

definition lanes_ok :: "'e traits \<Rightarrow> 'e node_data \<Rightarrow> bool" where
  "lanes_ok T d \<longleftrightarrow> anchored T d \<and> (node_entries d = [] \<longrightarrow> prefix_len d = 0)"

definition chain_lanes_ok :: "'e traits \<Rightarrow> 'e table \<Rightarrow> nat list \<Rightarrow> bool" where
  "chain_lanes_ok T t ns \<longleftrightarrow>
     (\<forall>n \<in> set ns. lanes_ok T (get_data t n)) \<and> (length ns > 1 \<longrightarrow> (\<forall>n \<in> set ns. prefix_long T (get_data t n)))"

context bytewise_traits
begin

lemma check_node_pass:
  assumes ok: "chain_ok T t ns" and ns: "ns = us @ n # vs" and lanes: "chain_lanes_ok T t ns"
    and prev: "prev = (if us = [] then None else Some (get_data t (last us), order (get_data t (last us))))"
  shows "check_node T t prev n = None"
proof -
  let ?d = "get_data t n"
  let ?ow = "order ?d"
  let ?cnt = "order_count ?ow"
  have n: "n \<in> set ns" using ns by simp
  note dok = chain_okD(4) [OF ok n]
  have nok: "node_ok ?d" using dok by (simp add: lnode_ok_def)
  note node = node_okD [OF nok]
  have sorted: "sorted_wrt (le T) (node_entries ?d)" by (rule chain_node_sorted [OF ok n])
  obtain P where P: "lanes_at T ?d P" using lanes n by (auto simp: chain_lanes_ok_def lanes_ok_def anchored_def)
  have slots: "check_slots ?ow ?cnt [0..<?cnt] (replicate kNodeKeys False) = None" by (rule check_slots_ok [OF nok])
  have rank_order: "check_ranks T ?d ?ow [1..<?cnt] = None"
  proof (rule check_ranks_pass)
    fix r
    assume "r \<in> set [1..<?cnt]"
    then have r: "r - 1 < r" "r < ?cnt" by auto
    show "compare T (key_at ?d ?ow (r - 1)) (key_at ?d ?ow r) \<le> 0 \<and> surrogate_at_rank ?d ?ow (r - 1) \<le> surrogate_at_rank ?d ?ow r"
      using sorted_wrt_nth_less [OF sorted r(1)] sorted_nth_mono [OF anchored_sorted [OF P sorted], of "r - 1" r] r
      by (simp add: key_at_entries surrogate_at_lanes)
  qed
  have lanes': "check_lanes T ?d ?ow [0..<?cnt] = None"
  proof (rule check_lanes_pass)
    fix r
    assume "r \<in> set [0..<?cnt]"
    then have r: "r < ?cnt" by simp
    then have ne: "node_entries ?d \<noteq> []" by (auto simp: node_entries_Nil)
    have "surrogate_at_rank ?d ?ow r = prefix_lane P (order_bytes T (key_at ?d ?ow r))"
      using P r by (simp add: surrogate_at_lanes key_at_entries lanes_at_def)
    then show "let bytes = order_bytes T (key_at ?d ?ow r); lane = surrogate_at_rank ?d ?ow r
      in if shares_prefix T ?d ?ow bytes then lane = surrogate_at bytes (unat (prefix_len ?d)) else lane = 0 \<or> lane = kEmptyKey"
      using shares_prefix_anchored [OF P] ne P by (auto simp: Let_def prefix_lane_def lanes_at_def)
  qed
  have prefix: "check_prefix T t n ?d ?ow ?cnt = None"
  proof (cases "n = head_node t \<and> next_link ?d = None")
    case False
    have "length ns > 1"
    proof (rule ccontr)
      assume "\<not> length ns > 1"
      then have "ns = [n]" using ns by (cases us; cases vs) auto
      then show False using False chain_okD(1) [OF ok] by (simp add: next_of_def)
    qed
    then have "prefix_long T ?d" using lanes n by (simp add: chain_lanes_ok_def)
    then show ?thesis
      using key_at_ends [of ?d] by (auto simp: check_prefix_def prefix_long_def node_entries_Nil not_less)
  qed (auto simp: check_prefix_def)
  have hint: "check_hint T t n ?d ?ow ?cnt = None"
    using dok first_key_at [of t n] by (cases "?cnt = 0") (auto simp: check_hint_def lnode_ok_def node_entries_Nil)
  have across: "check_across T prev ?d ?ow ?cnt = None"
  proof (cases "us = [] \<or> ?cnt = 0 \<or> order_count (order (get_data t (last us))) = 0")
    case True
    then show ?thesis using prev by (auto simp: check_across_def Let_def)
  next
    case False
    let ?p = "last us"
    let ?pd = "get_data t ?p"
    have us: "us = butlast us @ [?p]" using False by simp
    have pe: "node_entries ?pd \<noteq> []" "node_entries ?d \<noteq> []" using False by (auto simp: node_entries_Nil)
    have "sorted_wrt (le T) (chain_entries t (butlast us) @ node_entries ?pd @ node_entries ?d @ chain_entries t vs)"
    proof -
      have "ns = butlast us @ ?p # n # vs" using ns us by (metis append.assoc append_Cons append_Nil)
      then show ?thesis using chain_okD(6) [OF ok] by simp
    qed
    then have "le T (last (node_entries ?pd)) (hd (node_entries ?d))"
      using pe by (auto simp: sorted_wrt_append)
    then have "compare T (key_at ?pd (order ?pd) (order_count (order ?pd) - 1)) (key_at ?d ?ow 0) \<le> 0"
      by (simp only: key_at_ends [OF pe(1)] key_at_ends [OF pe(2)])
    then show ?thesis using prev False by (simp add: check_across_def Let_def)
  qed
  show ?thesis
    using node(7) slots rank_order lanes' prefix hint across by (simp add: check_node_def Let_def node_consts)
qed

text \<open>The whole walk finds nothing on a lawful chain whose payloads keep the lane invariant.\<close>

lemma check_invariants_pass:
  assumes ok: "chain_ok T t ns" and lanes: "chain_lanes_ok T t ns"
  shows "check_invariants T t = Some None"
proof -
  have "check_from T t (if us = [] then None else Some (get_data t (last us), order (get_data t (last us)))) x = Some None"
    if "ns = us @ vs" "path t x vs" for us vs x
    using that
  proof (induction vs arbitrary: us x)
    case Nil
    then show ?case by (simp add: check_from.simps)
  next
    case (Cons n vs)
    then have x: "x = Some n" and path: "path t (next_link (get_data t n)) vs" by (auto simp: next_of_def)
    show ?case
      using Cons.IH [of "us @ [n]" "next_link (get_data t n)"] path Cons.prems(1)
        check_node_pass [OF ok Cons.prems(1) lanes HOL.refl]
      by (subst check_from.simps) (simp add: x Let_def)
  qed
  from this [of "[]" ns] show ?thesis using chain_okD(1) [OF ok] by (simp add: check_invariants_def)
qed

text \<open>
  An insert keeps the lane invariant when its key is not below every entry already there. The keys of
  one payload are short enough for the 32-bit prefix length.
\<close>

definition short_keys :: "'e list \<Rightarrow> bool" where
  "short_keys es \<longleftrightarrow> (\<forall>e \<in> set es. length (order_bytes T e) < 2 ^ 32)"

lemma fill_lanes_ok:
  assumes "sorted_wrt (le T) ks" "length ks > 1" "length ks \<le> kNodeCapacity" "short_keys ks"
  shows "lanes_ok T (fill T d ks nxt) \<and> prefix_long T (fill T d ks nxt)"
proof -
  have ne: "ks \<noteq> []" using assms(2) by auto
  let ?c = "common_prefix_len (order_bytes T (hd ks)) (order_bytes T (last ks))"
  have "?c \<le> length (order_bytes T (hd ks))" by (rule common_prefix_le1)
  also have "\<dots> < 2 ^ 32" using assms(4) ne by (simp add: short_keys_def)
  finally have "unat (fill_prefix T ks) = ?c"
    using assms(2) ne by (simp add: fill_prefix_def hd_conv_nth last_conv_nth unat_of_nat take_bit_nat_eq_self)
  then show ?thesis
    using fill_anchored [OF assms(1) ne assms(3)] assms(2,3) ne
    by (auto simp: lanes_ok_def anchored_def prefix_long_def fill_entries fill_count simp del: fill_simps(2))
qed

lemma common_prefix_widen:
  assumes "le T a' a" "le T a b" "le T b b'"
  shows "common_prefix_len (order_bytes T a') (order_bytes T b') \<le> common_prefix_len (order_bytes T a) (order_bytes T b)"
proof -
  let ?A = "order_bytes T a'" and ?B = "order_bytes T b'" and ?a = "order_bytes T a" and ?b = "order_bytes T b"
  let ?p = "common_prefix_len ?A ?B"
  note o = assms [THEN le_bytes]
  have "take ?p k = take ?p ?A \<and> ?p \<le> length k" if "?A \<le> k" "k \<le> ?B" for k
    by (rule take_between [OF that common_prefix_take common_prefix_le1 common_prefix_le2])
  from this [of ?a] this [of ?b] have "take ?p ?a = take ?p ?A \<and> ?p \<le> length ?a" "take ?p ?b = take ?p ?A \<and> ?p \<le> length ?b"
    using o by simp_all
  then show ?thesis by (intro common_prefix_len_ge) auto
qed

lemma appended_prefix_long:
  assumes "prefix_long T d" "appendable d r" "sorted_wrt (le T) (node_entries d)" "sorted_wrt (le T) (ins_at r e (node_entries d))"
  shows "prefix_long T (appended d r e lane)"
proof -
  let ?es = "node_entries d" and ?es' = "ins_at r e (node_entries d)"
  have r: "r \<le> length ?es" and ne: "?es \<noteq> []" using assms(1,2) by (auto simp: appendable_def prefix_long_def node_entries_Nil)
  have in': "hd ?es \<in> set ?es'" "last ?es \<in> set ?es'" using ne by auto
  have ends: "le T (hd xs) x \<and> le T x (last xs)" if "sorted_wrt (le T) xs" "x \<in> set xs" for x xs
  proof -
    obtain i where i: "i < length xs" "x = xs ! i" using \<open>x \<in> set xs\<close> by (auto simp: in_set_conv_nth)
    have "le T (xs ! j) (xs ! k)" if "j \<le> k" "k < length xs" for j k
      using sorted_wrt_nth_less [OF \<open>sorted_wrt (le T) xs\<close>, of j k] that by (cases "j = k") auto
    from this [of 0 i] this [of i "length xs - 1"] i show ?thesis
      by (cases "xs = []") (auto simp: hd_conv_nth last_conv_nth)
  qed
  have "le T (hd ?es') (hd ?es)" "le T (hd ?es) (last ?es)" "le T (last ?es) (last ?es')"
    using ends [OF assms(4)] ends [OF assms(3)] in' ne by auto
  from common_prefix_widen [OF this] show ?thesis
    using assms(1) by (simp add: prefix_long_def appended_entries [OF assms(2)] appended_count [OF assms(2)])
qed

lemma new_payload_lanes:
  assumes new: "new_payload T d e d'" and ok: "node_ok d" and lanes: "lanes_ok T d"
    and sorted: "sorted_wrt (le T) (node_entries d)" and short: "short_keys (e # node_entries d)"
    and keeps: "node_entries d \<noteq> [] \<Longrightarrow> le T (hd (node_entries d)) e"
  shows "lanes_ok T d'" and "prefix_long T d \<or> \<not> order_count (order d) < kNodeCapacity \<Longrightarrow> prefix_long T d'"
proof -
  let ?r = "lower_bound_of (\<lambda>x. compare T x e < 0) (node_entries d)" and ?es = "node_entries d"
  let ?m = "ins_at ?r e ?es"
  have sorted': "sorted_wrt (le T) ?m" by (rule splits_at_ins_sorted [OF sorted splits_at_lower_bound [OF sorted]])
  obtain P where P: "lanes_at T d P" using lanes by (auto simp: lanes_ok_def anchored_def)
  have Pne: "?es \<noteq> [] \<or> P = []" using lanes P by (auto simp: lanes_ok_def lanes_at_def)
  have r0: "take (length P) (order_bytes T e) = P" if "?r = 0"
  proof (cases ?es)
    case Nil
    then show ?thesis using Pne by simp
  next
    case (Cons x xs)
    then have "le T e x" using that by (auto simp: lower_bound_of_def not_less split: if_splits)
    then have "order_bytes T e = order_bytes T x" using keeps Cons le_bytes [of e x] le_bytes [of x e] by auto
    then show ?thesis using P Cons unfolding lanes_at_def by auto
  qed
  have "lanes_ok T d' \<and> (prefix_long T d \<or> \<not> order_count (order d) < kNodeCapacity \<longrightarrow> prefix_long T d')"
  proof (cases "order_count (order d) < kNodeCapacity")
    case True
    then have d': "d' = appended d ?r e (append_lane T d (order d) ?r (order_bytes T e))"
      using new by (simp add: new_payload_def Let_def)
    have ap: "appendable d ?r" using True ok lower_bound_of_le [of _ ?es] by (simp add: appendable_def)
    have "lanes_at T d' P" unfolding d' by (rule appended_anchored [OF P sorted ap HOL.refl Pne r0])
    moreover have "node_entries d' \<noteq> []" by (simp add: d' appended_entries [OF ap])
    ultimately show ?thesis
      using True appended_prefix_long [OF _ ap sorted sorted'] by (auto simp: lanes_ok_def anchored_def d')
  next
    case False
    then obtain nxt ks where d': "d' = fill T (fresh_payload T) ks nxt" "ks = take kMid ?m \<or> ks = drop kMid ?m"
      and len: "length ?m = Suc kNodeCapacity"
      using new by (auto simp: new_payload_def Let_def)
    have "sorted_wrt (le T) ks" using d'(2) sorted' by (auto intro: sorted_wrt_take sorted_wrt_drop)
    moreover have "length ks > 1" "length ks \<le> kNodeCapacity" using d'(2) len by (auto simp: kMid_def node_consts)
    moreover have "set ks \<subseteq> set ?m" using d'(2) set_take_subset set_drop_subset by metis
    then have "short_keys ks" using short by (auto simp: short_keys_def)
    ultimately show ?thesis unfolding d'(1) using fill_lanes_ok by blast
  qed
  then show "lanes_ok T d'" "prefix_long T d \<or> \<not> order_count (order d) < kNodeCapacity \<Longrightarrow> prefix_long T d'" by auto
qed

theorem insert_entry_lanes:
  assumes ok: "chain_ok T t ns" and q: "quiescent t" and lanes: "chain_lanes_ok T t ns"
    and short: "short_keys (e # chain_entries t ns)"
    and smallest: "chain_entries t ns = [] \<or> le T (hd (chain_entries t ns)) e"
  obtains t' ns' k where "insert_entry T draws cas t e = Some t'" "chain_ok T t' ns'" "quiescent t'"
    "splits_at T (chain_entries t ns) e k" "chain_entries t' ns' = ins_at k e (chain_entries t ns)"
    "chain_lanes_ok T t' ns'"
proof -
  let ?c = "locate T t ns e"
  let ?d = "get_data t ?c"
  obtain t' ns' k where t': "insert_entry T draws cas t e = Some t'" "chain_ok T t' ns'" "quiescent t'"
    "splits_at T (chain_entries t ns) e k" "chain_entries t' ns' = ins_at k e (chain_entries t ns)"
    and new: "\<And>x. x \<in> set ns' \<Longrightarrow> x \<in> set ns \<and> (ns' = ns \<or> x \<noteq> ?c) \<and> get_data t' x = get_data t x \<or> new_payload T ?d e (get_data t' x)"
    and room: "ns' = ns \<or> \<not> order_count (order ?d) < kNodeCapacity"
    using insert_entry_chain [OF ok q, of draws cas e] by metis
  have c: "?c \<in> set ns" by (rule locate_in_chain [OF ok])
  obtain us vs where split: "ns = us @ ?c # vs"
    and first: "us \<noteq> [] \<Longrightarrow> entries_of t ?c \<noteq> [] \<and> le T (first_of t ?c) e"
    by (rule locate_split [OF ok, of e]) blast
  have nok: "node_ok ?d" using chain_okD(4) [OF ok c] by (simp add: lnode_ok_def)
  have sub: "set (node_entries ?d) \<subseteq> set (chain_entries t ns)" using c by (auto simp: chain_entries_def)
  have keeps: "le T (hd (node_entries ?d)) e" if "node_entries ?d \<noteq> []"
  proof (cases "us = []")
    case True
    have "chain_entries t ns = node_entries ?d @ chain_entries t vs" using split True by (metis append_Nil chain_entries_simps(2))
    then show ?thesis using smallest that by simp
  qed (use first in simp)
  note np = new_payload_lanes [OF _ nok _ chain_node_sorted [OF ok c] _ keeps]
  have shortd: "short_keys (e # node_entries ?d)" using short sub by (auto simp: short_keys_def)
  have lanes_d: "lanes_ok T ?d" using lanes c by (simp add: chain_lanes_ok_def)
  have "lanes_ok T (get_data t' x)" if "x \<in> set ns'" for x
    using new [OF that] np(1) [OF _ lanes_d shortd] lanes by (auto simp: chain_lanes_ok_def)
  moreover have "prefix_long T (get_data t' x)" if x: "x \<in> set ns'" and l: "length ns' > 1" for x
  proof -
    have old: "prefix_long T (get_data t y)" if "y \<in> set ns" "ns' = ns \<or> y \<noteq> ?c" for y
    proof -
      have "length ns > 1"
      proof (cases "ns' = ns")
        case False
        then have "y \<noteq> ?c" using that(2) by simp
        then have "\<exists>z \<in> set ns. z \<noteq> y" "y \<in> set ns" using c that(1) by auto
        then show ?thesis by (cases ns; cases "tl ns") auto
      qed (use l in simp)
      then show ?thesis using lanes that(1) by (simp add: chain_lanes_ok_def)
    qed
    have "prefix_long T ?d \<or> \<not> order_count (order ?d) < kNodeCapacity"
      using room old [OF c] by auto
    then show ?thesis using new [OF x] old [of x] np(2) [OF _ lanes_d shortd] by metis
  qed
  ultimately show thesis using that [OF t'] by (simp add: chain_lanes_ok_def)
qed

end

section \<open>Tables that do not pass\<close>

lemma check_ranks_unsorted:
  "(\<And>r. r \<in> set rs \<Longrightarrow> compare T (key_at d ow (r - 1)) (key_at d ow r) \<le> 0) \<Longrightarrow>
   \<exists>r \<in> set rs. surrogate_at_rank d ow r < surrogate_at_rank d ow (r - 1) \<Longrightarrow>
   check_ranks T d ow rs = Some ''surrogate lanes within a node are not sorted''"
  by (induction rs) (auto simp: not_less [symmetric])

lemma locate_head: "\<forall>v \<in> set (tl ns). \<not> le T (first_of t v) key \<Longrightarrow> locate T t ns key = hd ns"
  by (cases "tl ns") (simp_all add: locate_def)

context bytewise_traits
begin

text \<open>Lanes out of order in the first payload are what the walk reports.\<close>

lemma check_invariants_unsorted:
  assumes ok: "chain_ok T t ns" and lanes: "\<not> sorted (node_lanes (get_data t (head_node t)))"
  shows "check_invariants T t = Some (Some ''surrogate lanes within a node are not sorted'')"
proof -
  let ?d = "get_data t (head_node t)"
  let ?cnt = "order_count (order ?d)"
  have h: "head_node t \<in> set ns" using chain_head [OF ok] by auto
  have nok: "node_ok ?d" using chain_okD(4) [OF ok h] by (simp add: lnode_ok_def)
  have sorted: "sorted_wrt (le T) (node_entries ?d)" by (rule chain_node_sorted [OF ok h])
  have "check_ranks T ?d (order ?d) [1..<?cnt] = Some ''surrogate lanes within a node are not sorted''"
  proof (rule check_ranks_unsorted)
    fix r assume "r \<in> set [1..<?cnt]"
    then have "r - 1 < r" "r < ?cnt" by auto
    then show "compare T (key_at ?d (order ?d) (r - 1)) (key_at ?d (order ?d) r) \<le> 0"
      using sorted_wrt_nth_less [OF sorted, of "r - 1" r] by (simp add: key_at_entries)
  next
    obtain i where "Suc i < ?cnt" "node_lanes ?d ! Suc i < node_lanes ?d ! i"
      using lanes by (auto simp: sorted_iff_nth_Suc not_le)
    then show "\<exists>r \<in> set [1..<?cnt]. surrogate_at_rank ?d (order ?d) r < surrogate_at_rank ?d (order ?d) (r - 1)"
      by (intro bexI [of _ "Suc i"]) (auto simp: surrogate_at_lanes)
  qed
  then have "check_node T t None (head_node t) = Some ''surrogate lanes within a node are not sorted''"
    using check_slots_ok [OF nok] node_okD(7) [OF nok] by (simp add: check_node_def Let_def node_consts)
  then show ?thesis unfolding check_invariants_def by (subst check_from.simps) simp
qed

text \<open>Two inserts into the head, the first of a key below its prefix, the second of one that carries it.\<close>

lemma prefix_lost_check:
  assumes ok: "chain_ok T t ns" "quiescent t" and d: "d = get_data t (head_node t)"
    and lanes: "lanes_at T d P" and room: "Suc (order_count (order d)) < kNodeCapacity"
    and low: "\<forall>y \<in> set (chain_entries t ns). compare T k0 y < 0"
    and k0: "length P \<le> length (order_bytes T k0)" "take (length P) (order_bytes T k0) \<noteq> P"
    and k1: "take (length P) (order_bytes T k1) = P"
    and x: "x \<in> set (node_entries d)" "compare T k1 x < 0" "take (length P) (order_bytes T x) = P"
      "surrogate_at (order_bytes T x) (length P) \<noteq> kEmptyKey"
  obtains t1 t2 where "insert_entry T draws0 cas0 t k0 = Some t1" "insert_entry T draws1 cas1 t1 k1 = Some t2"
    "chain_ok T t2 ns" "quiescent t2" "mset (chain_entries t2 ns) = {#k0, k1#} + mset (chain_entries t ns)"
    "check_invariants T t2 = Some (Some ''surrogate lanes within a node are not sorted'')"
proof -
  let ?h = "head_node t"
  obtain ts where ns: "ns = ?h # ts" using chain_head [OF ok(1)] by blast
  have h: "?h \<in> set ns" by (simp add: ns)
  have sorted: "sorted_wrt (le T) (node_entries d)" unfolding d by (rule chain_node_sorted [OF ok(1) h])
  have entries: "chain_entries t ns = node_entries d @ chain_entries t ts" by (simp add: ns d)
  have first_in: "first_of u v \<in> set (chain_entries u ts)" if "chain_ok T u ns" "v \<in> set ts" for u v
    using chain_okD(5) [OF that(1), of v] that(2) hd_in_set by (fastforce simp: ns chain_entries_def)
  have low_d: "\<forall>y \<in> set (node_entries d). compare T k0 y < 0" using low by (simp add: entries)
  have c0: "?h = locate T t ns k0"
    using locate_head [of ns T t k0] low first_in [OF ok(1)] entries by (auto simp: ns less_iff)
  have r0: "lower_bound_of (\<lambda>y. compare T y k0 < 0) (node_entries d) = 0"
    using low_d sign by (cases "node_entries d") (force simp: lower_bound_of_def)+
  obtain t1 k where t1: "insert_entry T draws0 cas0 t k0 = Some t1" "chain_ok T t1 ns" "quiescent t1"
    "chain_entries t1 ns = ins_at k k0 (chain_entries t ns)"
    and d0: "get_data t1 ?h = appended d 0 k0 (append_lane T d (order d) 0 (order_bytes T k0))"
    using insert_entry_appends [OF ok c0, of draws0 cas0] room r0 unfolding d by (metis Suc_lessD)
  have h1: "head_node t1 = ?h" using chain_head [OF t1(2)] by (simp add: ns)
  have ap: "appendable d 0" using chain_okD(4) [OF ok(1) h] room by (simp add: appendable_def d lnode_ok_def)
  have e0: "entries_of t1 ?h = k0 # node_entries d" by (simp add: d0 appended_entries [OF ap])
  have "sorted_wrt (le T) (entries_of t1 ?h @ chain_entries t1 ts)" using chain_okD(6) [OF t1(2)] by (simp add: ns)
  then have above: "le T x y" if "y \<in> set (chain_entries t1 ts)" for y using that x(1) by (auto simp: sorted_wrt_append e0)
  have c1: "?h = locate T t1 ns k1"
    using locate_head [of ns T t1 k1] above first_in [OF t1(2)] less_le_trans [OF x(2)] by (auto simp: ns less_iff)
  let ?d0 = "appended d 0 k0 (append_lane T d (order d) 0 (order_bytes T k0))"
  let ?r = "lower_bound_of (\<lambda>y. compare T y k1 < 0) (node_entries ?d0)"
  obtain t2 k' where t2: "insert_entry T draws1 cas1 t1 k1 = Some t2" "chain_ok T t2 ns" "quiescent t2"
    "chain_entries t2 ns = ins_at k' k1 (chain_entries t1 ns)"
    and d1: "get_data t2 ?h = appended ?d0 ?r k1 (append_lane T ?d0 (order ?d0) ?r (order_bytes T k1))"
    using insert_entry_appends [OF t1(2,3) c1, of draws1 cas1] room unfolding d0 by (metis appended_count [OF ap])
  have "compare T k0 (hd (node_entries d)) < 0" using low_d x(1) by (cases "node_entries d") auto
  from prefix_lost(2) [OF lanes sorted ap room this k0 k1 x] have "\<not> sorted (node_lanes (get_data t2 ?h))"
    unfolding d1 .
  moreover have "head_node t2 = ?h" using chain_head [OF t2(2)] by (simp add: ns)
  ultimately have "check_invariants T t2 = Some (Some ''surrogate lanes within a node are not sorted'')"
    using check_invariants_unsorted [OF t2(2)] by simp
  then show thesis using that [OF t1(1) t2(1-3)] t1(4) t2(4) by simp
qed

end

section \<open>Tables that pass\<close>

definition table_lanes_ok :: "'e traits \<Rightarrow> 'e table \<Rightarrow> bool" where
  "table_lanes_ok T t \<longleftrightarrow> table_ok T t \<and> chain_lanes_ok T t (level0 t)"

lemma new_table_lanes: "table_lanes_ok T (new_table T)"
proof -
  have d: "get_data (new_table T) 0 = fresh_payload T" by (simp add: get_data_def new_table_eq)
  have "lanes_at T (fresh_payload T) []"
    by (simp add: lanes_at_def) (simp add: node_lanes_def fresh_payload_def)
  then have "lanes_ok T (fresh_payload T)" by (auto simp: lanes_ok_def anchored_def) (simp add: fresh_payload_def)
  then show ?thesis using new_table_ok [of T] level0_chain [OF new_table_chain(1) [of T]]
    by (simp add: table_lanes_ok_def chain_lanes_ok_def d)
qed

context bytewise_traits
begin

lemma table_lanes_pass: "table_lanes_ok T t \<Longrightarrow> check_invariants T t = Some None"
  unfolding table_lanes_ok_def table_ok_level0 by (blast intro: check_invariants_pass)

lemma insert_entry_table_lanes:
  assumes t: "table_lanes_ok T t" and short: "short_keys (e # entries t)" and s: "entries t = [] \<or> le T (hd (entries t)) e"
  obtains t' k where "insert_entry T draws cas t e = Some t'" "table_lanes_ok T t'"
    "splits_at T (entries t) e k" "entries t' = ins_at k e (entries t)"
proof -
  have ok: "chain_ok T t (level0 t)" "quiescent t" and lanes: "chain_lanes_ok T t (level0 t)"
    using t by (simp_all add: table_lanes_ok_def table_ok_level0)
  have e: "entries t = chain_entries t (level0 t)" by (rule entries_chain [OF ok(1)])
  obtain t' ns' k where t': "insert_entry T draws cas t e = Some t'" "chain_ok T t' ns'" "quiescent t'"
    "splits_at T (entries t) e k" "chain_entries t' ns' = ins_at k e (entries t)" "chain_lanes_ok T t' ns'"
    using insert_entry_lanes [OF ok lanes, of e draws cas] short s unfolding e by metis
  then have "table_lanes_ok T t'" using level0_chain [OF t'(2)] by (auto simp: table_lanes_ok_def table_ok_def)
  then show thesis using that t' entries_chain [OF t'(2)] by simp
qed

text \<open>A table filled from its smallest key on passes after every insert.\<close>

lemma insert_all_lanes:
  "table_lanes_ok T t \<Longrightarrow> short_keys (es @ entries t) \<Longrightarrow> entries t \<noteq> [] \<Longrightarrow> (\<And>e. e \<in> set es \<Longrightarrow> le T (hd (entries t)) e) \<Longrightarrow>
   \<exists>t'. insert_all T draws cas i es t = Some t' \<and> table_lanes_ok T t' \<and> mset (entries t') = mset es + mset (entries t)"
proof (induction es arbitrary: i t)
  case Nil
  then show ?case by simp
next
  case (Cons e es)
  have sh: "short_keys (e # entries t)" using Cons.prems(2) by (auto simp: short_keys_def)
  obtain t1 k where t1: "insert_entry T (draws i) (cas i) t e = Some t1" "table_lanes_ok T t1"
    "splits_at T (entries t) e k" "entries t1 = ins_at k e (entries t)"
    using insert_entry_table_lanes [OF Cons.prems(1) sh, of "draws i" "cas i"] Cons.prems(4) [of e] by auto
  have "sorted_wrt (le T) (entries t1)" using t1(2) table_sorted by (simp add: table_lanes_ok_def)
  moreover have "hd (entries t1) = e \<or> hd (entries t1) = hd (entries t)"
    using t1(4) Cons.prems(3) by (cases k; cases "entries t") (auto simp: ins_at_def)
  moreover have "le T (hd (entries t1)) (hd (entries t))"
  proof -
    have "hd (entries t) \<in> set (entries t1)" using t1(4) Cons.prems(3) by simp
    then show ?thesis using \<open>sorted_wrt (le T) (entries t1)\<close> by (cases "entries t1") auto
  qed
  ultimately have least: "le T (hd (entries t1)) x" if "x \<in> set es" for x
    using Cons.prems(4) [of x] le_trans that by auto
  have "short_keys (es @ entries t1)" using Cons.prems(2) t1(4) by (auto simp: short_keys_def)
  from Cons.IH [OF t1(2) this _ least, of "Suc i"] t1(1,4)
  show ?case by auto
qed

end

end
