(* ===== verification/Iterator.thy ===== *)
theory Iterator
  imports Insert
begin

text \<open>
  \<^verbatim>\<open>BasicMemTable::Iterator\<close>, \<^verbatim>\<open>begin()\<close> and \<^verbatim>\<open>size()\<close> of \<^verbatim>\<open>include/aparajita/memtable.hpp\<close>. An iterator
  stands on a node with one snapshot of its order word and a rank in it. Against the abstraction it
  is an index into the table's entries: \<open>points_at\<close> relates the two, and the lemmas show which index
  every operation moves to.
\<close>

record iterator =
  it_node :: "nat option"
  it_data :: "nat option"
  it_order :: u64
  it_count :: nat
  it_pos :: int

definition new_iterator :: iterator where
  "new_iterator = \<lparr>it_node = None, it_data = None, it_order = 0, it_count = 0, it_pos = 0\<rparr>"

definition valid :: "iterator \<Rightarrow> bool" where
  "valid it \<longleftrightarrow> it_data it \<noteq> None \<and> it_pos it \<ge> 0 \<and> it_pos it < int (it_count it)"

text \<open>The payload an iterator's data pointer leads to.\<close>

definition it_payload :: "'e table \<Rightarrow> iterator \<Rightarrow> 'e node_data" where
  "it_payload t it = payloads t ! the (it_data it)"

definition it_key :: "'e table \<Rightarrow> iterator \<Rightarrow> 'e" where
  "it_key t it = key_at (it_payload t it) (it_order it) (nat (it_pos it))"

definition adopt :: "'e table \<Rightarrow> nat option \<Rightarrow> iterator \<Rightarrow> iterator" where
  "adopt t n it =
     (let dp = (case n of None \<Rightarrow> None | Some x \<Rightarrow> data (lnodes t ! x));
          w = (case dp of None \<Rightarrow> 0 | Some p \<Rightarrow> order (payloads t ! p))
      in it\<lparr>it_node := n, it_data := dp, it_order := w, it_count := order_count w\<rparr>)"

partial_function (option) skip_forward :: "'e table \<Rightarrow> iterator \<Rightarrow> iterator option" where
  "skip_forward t it =
     (if it_data it \<noteq> None \<and> it_pos it \<ge> int (it_count it)
      then skip_forward t ((adopt t (next_link (it_payload t it)) it)\<lparr>it_pos := 0\<rparr>)
      else Some it)"

declare skip_forward.simps [code]

partial_function (option) skip_backward :: "'e traits \<Rightarrow> 'e table \<Rightarrow> iterator \<Rightarrow> iterator option" where
  "skip_backward T t it =
     Option.bind (pred_node T t (it_node it) (it_payload t it) (it_order it)) (\<lambda>p.
       if p = None then Some (it\<lparr>it_data := None\<rparr>)
       else
         let it = adopt t p it; it = it\<lparr>it_pos := int (it_count it) - 1\<rparr>
         in if it_pos it \<ge> 0 then Some it else skip_backward T t it)"

declare skip_backward.simps [code]

definition skip_backward_if_empty :: "'e traits \<Rightarrow> 'e table \<Rightarrow> iterator \<Rightarrow> iterator option" where
  "skip_backward_if_empty T t it = (if it_pos it < 0 then skip_backward T t it else Some it)"

definition next_entry :: "'e table \<Rightarrow> iterator \<Rightarrow> iterator option" where
  "next_entry t it = skip_forward t (it\<lparr>it_pos := it_pos it + 1\<rparr>)"

definition prev_entry :: "'e traits \<Rightarrow> 'e table \<Rightarrow> iterator \<Rightarrow> iterator option" where
  "prev_entry T t it =
     (if it_pos it > 0 then Some (it\<lparr>it_pos := it_pos it - 1\<rparr>) else skip_backward T t it)"

definition seek_to_first :: "'e table \<Rightarrow> iterator \<Rightarrow> iterator option" where
  "seek_to_first t it = skip_forward t ((adopt t (Some (head_node t)) it)\<lparr>it_pos := 0\<rparr>)"

definition seek_to_last :: "'e traits \<Rightarrow> 'e table \<Rightarrow> iterator \<Rightarrow> iterator option" where
  "seek_to_last T t it =
     Option.bind (last_node t) (\<lambda>n.
       let it = adopt t (Some n) it
       in skip_backward_if_empty T t (it\<lparr>it_pos := int (it_count it) - 1\<rparr>))"

definition seek :: "'e traits \<Rightarrow> 'e table \<Rightarrow> 'e \<Rightarrow> iterator \<Rightarrow> iterator option" where
  "seek T t target it =
     (let bytes = order_bytes T target
      in Option.bind (descend T t target bytes) (\<lambda>n.
           let it = adopt t (Some n) it
           in skip_forward t
                (it\<lparr>it_pos := int (sorted_position T (it_payload t it) (it_order it) (it_count it) target bytes)\<rparr>)))"

definition seek_for_prev :: "'e traits \<Rightarrow> 'e table \<Rightarrow> 'e \<Rightarrow> iterator \<Rightarrow> iterator option" where
  "seek_for_prev T t target it =
     Option.bind (seek T t target it) (\<lambda>it.
       if \<not> valid it then seek_to_last T t it
       else if compare T (it_key t it) target > 0 then prev_entry T t it
       else Some it)"

definition begin_iterator :: "'e table \<Rightarrow> iterator option" where
  "begin_iterator t = seek_to_first t new_iterator"

text \<open>The loops over \<open>valid\<close> and \<open>next\<close>: counting, and collecting the keys they pass.\<close>

partial_function (option) count_from :: "'e table \<Rightarrow> iterator \<Rightarrow> nat \<Rightarrow> nat option" where
  "count_from t it n =
     (if valid it then Option.bind (next_entry t it) (\<lambda>it. count_from t it (n + 1)) else Some n)"

declare count_from.simps [code]

definition table_size :: "'e table \<Rightarrow> nat option" where
  "table_size t = Option.bind (begin_iterator t) (\<lambda>it. count_from t it 0)"

partial_function (option) keys_from :: "'e table \<Rightarrow> iterator \<Rightarrow> 'e list option" where
  "keys_from t it =
     (if valid it then Option.bind (next_entry t it) (\<lambda>it'. Option.bind (keys_from t it') (\<lambda>ks. Some (it_key t it # ks)))
      else Some [])"

declare keys_from.simps [code]

section \<open>An iterator as an index into the entries\<close>

definition stands_on :: "'e table \<Rightarrow> iterator \<Rightarrow> nat \<Rightarrow> bool" where
  "stands_on t it c \<longleftrightarrow>
     it_node it = Some c \<and> it_data it = data (lnodes t ! c) \<and> data (lnodes t ! c) \<noteq> None \<and>
     it_order it = order (get_data t c) \<and> it_count it = order_count (order (get_data t c))"

definition points_at :: "'e table \<Rightarrow> nat list \<Rightarrow> iterator \<Rightarrow> nat \<Rightarrow> bool" where
  "points_at t ns it i \<longleftrightarrow>
     (\<exists>us c vs. ns = us @ c # vs \<and> stands_on t it c \<and> it_pos it \<ge> 0 \<and> it_pos it < int (it_count it) \<and>
        i = length (chain_entries t us) + nat (it_pos it))"

text \<open>Where an operation that is to reach index \<open>i\<close> ends: on it, or invalid when there is no such entry.\<close>

definition reaches :: "'e table \<Rightarrow> nat list \<Rightarrow> nat \<Rightarrow> iterator option \<Rightarrow> bool" where
  "reaches t ns i r \<longleftrightarrow>
     (\<exists>it. r = Some it \<and> (if i < length (chain_entries t ns) then points_at t ns it i else \<not> valid it))"

lemma it_payload_stands: "stands_on t it c \<Longrightarrow> it_payload t it = get_data t c"
  by (simp add: it_payload_def get_data_def stands_on_def)

lemma points_valid: "points_at t ns it i \<Longrightarrow> valid it"
  by (auto simp: points_at_def valid_def stands_on_def)

lemma points_less: "points_at t ns it i \<Longrightarrow> i < length (chain_entries t ns)"
  by (auto simp: points_at_def stands_on_def nat_less_iff)

lemma points_key:
  assumes "points_at t ns it i"
  shows "it_key t it = chain_entries t ns ! i"
proof -
  obtain us c vs where p: "ns = us @ c # vs" "stands_on t it c" "0 \<le> it_pos it" "it_pos it < int (it_count it)"
    "i = length (chain_entries t us) + nat (it_pos it)"
    using assms by (auto simp: points_at_def)
  then have r: "nat (it_pos it) < order_count (order (get_data t c))" by (auto simp: stands_on_def)
  have "it_key t it = key_at (get_data t c) (order (get_data t c)) (nat (it_pos it))"
    using p(2) it_payload_stands [OF p(2)] by (simp add: it_key_def stands_on_def)
  also have "\<dots> = chain_entries t ns ! i" using r p(1,5) by (simp add: key_at_entries nth_append)
  finally show ?thesis .
qed

lemma adopt_stands: "lnode_ok T t c \<Longrightarrow> stands_on t (adopt t (Some c) it) c"
  by (auto simp: lnode_ok_def adopt_def stands_on_def get_data_def Let_def)

lemma stands_on_pos [simp]: "stands_on t (it\<lparr>it_pos := i\<rparr>) c \<longleftrightarrow> stands_on t it c"
  by (simp add: stands_on_def)

text \<open>From a rank at most the count of its node, \<open>skip_forward\<close> ends on that index of the table.\<close>

lemma skip_forward_reaches:
  assumes ok: "chain_ok T t ns" and ns: "ns = us @ c # vs" and c: "stands_on t it c"
    and pos: "0 \<le> it_pos it" "it_pos it \<le> int (it_count it)"
    and i: "i = length (chain_entries t us) + nat (it_pos it)"
  shows "reaches t ns i (skip_forward t it)"
proof (cases "it_pos it < int (it_count it)")
  case True
  then have "points_at t ns it i" using ns c pos(1) i by (auto simp: points_at_def)
  moreover have "skip_forward t it = Some it" using True by (subst skip_forward.simps) simp
  ultimately show ?thesis using points_less by (fastforce simp: reaches_def)
next
  case False
  then have pc: "it_pos it = int (it_count it)" using pos by simp
  have i': "i = length (chain_entries t (us @ [c]))" using pc i c by (simp add: stands_on_def)
  have nx: "next_link (it_payload t it) = next_of t c" by (simp add: it_payload_stands [OF c] next_of_def)
  have path: "path t (next_of t c) vs" using path_append_Cons chain_okD(1) [OF ok] ns by metis
  have step: "skip_forward t it = skip_forward t ((adopt t (next_of t c) it)\<lparr>it_pos := 0\<rparr>)"
    using c pc nx by (subst skip_forward.simps) (auto simp: stands_on_def)
  show ?thesis
  proof (cases vs)
    case Nil
    then have "next_of t c = None" using path by simp
    then have "skip_forward t it = Some ((adopt t None it)\<lparr>it_pos := 0\<rparr>)"
      unfolding step by (subst skip_forward.simps) (simp add: adopt_def)
    then show ?thesis using Nil ns i' by (auto simp: reaches_def valid_def adopt_def)
  next
    case (Cons v vs')
    then have "next_of t c = Some v" using path by simp
    let ?it = "(adopt t (Some v) it)\<lparr>it_pos := 0\<rparr>"
    have "lnode_ok T t v" "entries_of t v \<noteq> []"
      using chain_okD(4) [OF ok, of v] chain_okD(5) [OF ok, of v] ns Cons by (cases us; auto)+
    then have st: "stands_on t ?it v" and "it_count ?it > 0"
      using adopt_stands [of T t v it] order_count_pos [of t v] by (auto simp: stands_on_def)
    then have "points_at t ns ?it i"
      using ns Cons i' unfolding points_at_def by (intro exI [of _ "us @ [c]"] exI [of _ v] exI [of _ vs']) simp
    moreover have "skip_forward t ?it = Some ?it"
      using \<open>it_count ?it > 0\<close> by (subst skip_forward.simps) simp
    ultimately show ?thesis using points_less step \<open>next_of t c = Some v\<close> by (fastforce simp: reaches_def)
  qed
qed

lemma seek_to_first_reaches:
  assumes ok: "chain_ok T t ns"
  shows "reaches t ns 0 (seek_to_first t it)"
proof -
  obtain ts where ns: "ns = head_node t # ts" using chain_head [OF ok] by blast
  have "lnode_ok T t (head_node t)" using chain_okD(4) [OF ok] ns by simp
  then have "stands_on t (adopt t (Some (head_node t)) it) (head_node t)" by (rule adopt_stands)
  then show ?thesis unfolding seek_to_first_def
    using ns by (intro skip_forward_reaches [OF ok, of "[]" "head_node t" ts]) simp_all
qed

lemma next_reaches:
  assumes ok: "chain_ok T t ns" and p: "points_at t ns it i"
  shows "reaches t ns (Suc i) (next_entry t it)"
proof -
  obtain us c vs where p: "ns = us @ c # vs" "stands_on t it c" "0 \<le> it_pos it" "it_pos it < int (it_count it)"
    "i = length (chain_entries t us) + nat (it_pos it)"
    using p by (auto simp: points_at_def)
  then show ?thesis unfolding next_entry_def by (intro skip_forward_reaches [OF ok p(1)]) (auto simp: nat_add_distrib)
qed

text \<open>
  What every loop \<^verbatim>\<open>for (...; it.valid(); it.next())\<close> goes through, as an induction over the entries from its
  start on; the counting and the collecting loop follow at once.
\<close>

lemma visit_induct:
  assumes ok: "chain_ok T t ns" and it: "reaches t ns i (Some it)"
    and stop: "\<And>it. \<not> valid it \<Longrightarrow> P it []"
    and step: "\<And>it it' es. valid it \<Longrightarrow> next_entry t it = Some it' \<Longrightarrow> P it' es \<Longrightarrow> P it (it_key t it # es)"
  shows "P it (drop i (chain_entries t ns))"
  using it
proof (induction "length (chain_entries t ns) - i" arbitrary: i it)
  case 0
  then have "\<not> valid it" by (simp add: reaches_def)
  then show ?case using 0 stop by simp
next
  case (Suc m)
  then have i: "i < length (chain_entries t ns)" and p: "points_at t ns it i" by (auto simp: reaches_def)
  obtain it' where it': "next_entry t it = Some it'" "reaches t ns (Suc i) (Some it')"
    using next_reaches [OF ok p] by (auto simp: reaches_def)
  have "P it' (drop (Suc i) (chain_entries t ns))" using Suc.hyps(1) [OF _ it'(2)] Suc.hyps(2) by auto
  from step [OF points_valid [OF p] it'(1) this] show ?case
    using i points_key [OF p] by (simp add: Cons_nth_drop_Suc)
qed

lemma loops_from:
  assumes ok: "chain_ok T t ns" and it: "reaches t ns i (Some it)"
  shows "count_from t it n = Some (n + (length (chain_entries t ns) - i)) \<and> keys_from t it = Some (drop i (chain_entries t ns))"
proof -
  have "\<forall>n. count_from t it n = Some (n + length (drop i (chain_entries t ns))) \<and> keys_from t it = Some (drop i (chain_entries t ns))"
    by (rule visit_induct [OF ok it]) (subst count_from.simps, subst keys_from.simps, simp)+
  then show ?thesis by simp
qed

section \<open>Seeks and backward moves\<close>

context ordered_traits
begin

text \<open>The node a key locates is the last one that starts at or below it.\<close>

lemma locate_last:
  assumes ok: "chain_ok T t (us @ c # vs)" and us: "us \<noteq> []" and c: "le T (first_of t c) key"
    and vs: "\<forall>v \<in> set vs. \<not> le T (first_of t v) key"
  shows "locate T t (us @ c # vs) key = c"
proof -
  have "le T (first_of t u) key" if "u \<in> set (tl us)" for u
    using first_of_mono [OF ok, of "tl us" c vs u] that us c le_trans by auto
  moreover have "takeWhile (\<lambda>n. le T (first_of t n) key) vs = []" using vs by (cases vs) auto
  ultimately have "takeWhile (\<lambda>n. le T (first_of t n) key) (tl us @ c # vs) = tl us @ [c]"
    using c by (simp add: takeWhile_append)
  then show ?thesis using us by (simp add: locate_def)
qed

text \<open>A seek adopts the node it descends to, at the target's rank there.\<close>

lemma seek_adopts:
  fixes target :: 'e
  assumes ok: "chain_ok T t ns"
  defines "c \<equiv> locate T t ns target"
  shows "stands_on t (adopt t (Some c) it) c"
    and "seek T t target it = skip_forward t ((adopt t (Some c) it)\<lparr>it_pos := int (node_position t target c)\<rparr>)"
proof -
  have "lnode_ok T t c" unfolding c_def by (rule chain_okD(4) [OF ok locate_in_chain [OF ok]])
  then show st: "stands_on t (adopt t (Some c) it) c" by (rule adopt_stands)
  show "seek T t target it = skip_forward t ((adopt t (Some c) it)\<lparr>it_pos := int (node_position t target c)\<rparr>)"
    using st sorted_position_node [OF ok locate_in_chain [OF ok, of target], of target "order_bytes T target"]
    by (simp add: seek_def descend_locate [OF ok] Let_def it_payload_stands [OF st] c_def [symmetric]) (simp add: stands_on_def)
qed

lemma seek_reaches:
  assumes ok: "chain_ok T t ns"
  obtains k where "splits_at T (chain_entries t ns) target k" "reaches t ns k (seek T t target it)"
    "strict_keys T (chain_entries t ns) \<Longrightarrow> k = lower_bound_of (\<lambda>x. compare T x target < 0) (chain_entries t ns)"
proof -
  let ?c = "locate T t ns target"
  obtain us vs where ns: "ns = us @ ?c # vs"
    and sp: "splits_at T (chain_entries t ns) target (length (chain_entries t us) + node_position t target ?c)"
    and exact: "strict_keys T (chain_entries t ns) \<Longrightarrow> length (chain_entries t us) + node_position t target ?c =
      lower_bound_of (\<lambda>x. compare T x target < 0) (chain_entries t ns)"
    by (rule locate_position [OF ok, of target]) blast
  note st = seek_adopts(1) [OF ok, of target it]
  have "reaches t ns (length (chain_entries t us) + node_position t target ?c)
      (skip_forward t ((adopt t (Some ?c) it)\<lparr>it_pos := int (node_position t target ?c)\<rparr>))"
    using st node_position_le [of t target ?c] by (intro skip_forward_reaches [OF ok ns]) (auto simp: stands_on_def)
  then show thesis using sp exact that by (simp add: seek_adopts(2) [OF ok])
qed

text \<open>With equal keys at the end of one node and the start of the next, everything looks for the later one.\<close>

lemma equal_across:
  assumes t: "table_ok T t" and chain: "level0 t = us @ c # vs"
    and before: "chain_entries t us \<noteq> []" "compare T (last (chain_entries t us)) key = 0"
    and first: "compare T (hd (entries_of t c)) key = 0"
    and after: "\<forall>v \<in> set vs. compare T key (hd (entries_of t v)) < 0"
  shows "let n = length (chain_entries t us); d = get_data t c
    in descend T t key (order_bytes T key) = Some c \<and> c \<noteq> head_node t \<and>
       sorted_position T d (order d) (order_count (order d)) key (order_bytes T key) = 0 \<and>
       (\<exists>t'. insert_entry T draws cas t key = Some t' \<and> table_ok T t' \<and> entries t' = ins_at n key (entries t)) \<and>
       (\<exists>it'. seek T t key it = Some it' \<and> valid it' \<and> it_node it' = Some c \<and> it_pos it' = 0 \<and> it_key t it' = entries t ! n) \<and>
       0 < n \<and> compare T (entries t ! (n - 1)) key = 0 \<and> lower_bound_of (\<lambda>x. compare T x key < 0) (entries t) < n"
proof -
  have ok: "chain_ok T t (level0 t)" and q: "quiescent t" using t by (simp_all add: table_ok_level0)
  note e = entries_chain [OF ok]
  let ?n = "length (chain_entries t us)"
  have us: "us \<noteq> []" using before(1) by auto
  have c_in: "c \<in> set (level0 t)" "c \<in> set (tl (level0 t))" using us by (simp_all add: chain)
  have loc: "c = locate T t (level0 t) key"
    unfolding chain
    by (rule locate_last [OF ok [unfolded chain] us, symmetric])
      (use first after less_iff in auto)
  have ne: "entries_of t c \<noteq> []" by (rule chain_okD(5) [OF ok c_in(2)])
  have pos: "node_position t key c = 0"
    using ne first by (cases "entries_of t c") (simp_all add: node_position_def lower_bound_of_def)
  have head: "c \<noteq> head_node t" using chain_head [OF ok] chain_okD(2) [OF ok] c_in(2) by auto
  have split: "entries t = chain_entries t us @ entries_of t c @ chain_entries t vs" by (simp add: e chain)
  have last: "entries t ! (?n - 1) = last (chain_entries t us)" "0 < ?n"
    using before(1) by (simp_all add: split nth_append last_conv_nth)
  have "lower_bound_of (\<lambda>x. compare T x key < 0) (entries t) < ?n"
  proof (rule ccontr)
    assume "\<not> ?thesis"
    then have "?n - 1 < lower_bound_of (\<lambda>x. compare T x key < 0) (entries t)" using last(2) by linarith
    from lower_bound_of_below [OF this] show False using last before(2) by simp
  qed
  moreover have "\<exists>t'. insert_entry T draws cas t key = Some t' \<and> table_ok T t' \<and> entries t' = ins_at ?n key (entries t)"
  proof (rule insert_entry_step [OF ok q, of draws cas key])
    fix t' ns' us' c' vs'
    assume t': "insert_entry T draws cas t key = Some t'" "chain_ok T t' ns'" "quiescent t'"
      and c': "c' = locate T t (level0 t) key" and chain': "level0 t = us' @ c' # vs'"
      and k: "chain_entries t' ns' = ins_at (length (chain_entries t us') + node_position t key c') key (chain_entries t (level0 t))"
    have "c' = c" using c' loc by simp
    then have "us' = us" using chain chain' chain_okD(2) [OF ok] by (metis append_Cons_eq_iff distinct_append distinct.simps(2) not_distinct_conv_prefix)
    then show ?thesis using t' k entries_chain [OF t'(2)] pos \<open>c' = c\<close> by (auto simp: table_ok_def e)
  qed
  moreover have "\<exists>it'. seek T t key it = Some it' \<and> valid it' \<and> it_node it' = Some c \<and> it_pos it' = 0 \<and> it_key t it' = entries t ! ?n"
  proof -
    let ?it = "(adopt t (Some c) it)\<lparr>it_pos := 0\<rparr>"
    have st: "stands_on t ?it c" using seek_adopts(1) [OF ok, of key it] loc by simp
    then have at: "points_at t (level0 t) ?it ?n"
      using ne order_count_pos [of t c] unfolding points_at_def chain by (intro exI [of _ us] exI [of _ c] exI [of _ vs]) (simp add: stands_on_def)
    have "seek T t key it = skip_forward t ?it"
      using seek_adopts(2) [OF ok, of key it] loc pos by simp
    also have "\<dots> = Some ?it" using points_valid [OF at] by (subst skip_forward.simps) (auto simp: valid_def)
    finally show ?thesis using points_valid [OF at] points_key [OF at] st by (auto simp: e stands_on_def)
  qed
  moreover have "sorted_position T (get_data t c) (order (get_data t c)) (order_count (order (get_data t c))) key (order_bytes T key) = 0"
    using sorted_position_node [OF ok c_in(1)] pos by simp
  ultimately show ?thesis
    using descend_locate [OF ok, of key] loc head last before by (simp add: Let_def)
qed

text \<open>Stepping back over the front of a node, or standing on an empty head.\<close>

lemma skip_backward_head:
  "it_node it = Some (head_node t) \<Longrightarrow> \<exists>it'. skip_backward T t it = Some it' \<and> \<not> valid it'"
  by (subst skip_backward.simps) (simp add: pred_node_def valid_def)

lemma skip_backward_reaches:
  assumes ok: "chain_ok T t ns" and strict: "strict_keys T (chain_entries t ns)"
    and ns: "ns = us @ c # vs" and us: "us \<noteq> []" and c: "stands_on t it c"
  shows "\<exists>it'. skip_backward T t it = Some it' \<and>
    (if chain_entries t us = [] then \<not> valid it' else points_at t ns it' (length (chain_entries t us) - 1))"
proof -
  obtain as p where as: "us = as @ [p]" using us by (cases us rule: rev_cases) auto
  have pred: "pred_node T t (Some c) (get_data t c) (order (get_data t c)) = Some (Some p)"
    using pred_node_before [of t us c vs] ok us strict as unfolding ns by simp
  let ?it = "adopt t (Some p) it" and ?n = "order_count (order (get_data t p))"
  let ?it' = "?it\<lparr>it_pos := int ?n - 1\<rparr>"
  have "lnode_ok T t p" using chain_okD(4) [OF ok] ns as by simp
  note st = adopt_stands [OF this, of it]
  then have cnt: "it_count ?it = ?n" by (simp add: stands_on_def)
  have step: "skip_backward T t it = (if ?n > 0 then Some ?it' else skip_backward T t ?it')"
    using c pred by (subst skip_backward.simps) (simp add: it_payload_stands [OF c] cnt Let_def stands_on_def)
  show ?thesis
  proof (cases "?n > 0")
    case True
    then have "points_at t ns ?it' (length (chain_entries t us) - 1)"
      unfolding points_at_def using st cnt ns as
      by (intro exI [of _ "as"] exI [of _ p] exI [of _ "c # vs"]) (simp add: nat_diff_distrib)
    moreover have "chain_entries t us \<noteq> []" using True order_count_pos [of t p] as by simp
    ultimately show ?thesis using step True by simp
  next
    case False
    then have "entries_of t p = []" using order_count_pos [of t p] by simp
    then have "as = []" using chain_okD(5) [OF ok, of p] ns as by (cases "as") auto
    then have "us = [head_node t]" "p = head_node t" using chain_head [OF ok] ns as by auto
    then show ?thesis using False step skip_backward_head [of ?it' t] st \<open>entries_of t p = []\<close>
      by (auto simp: stands_on_def)
  qed
qed

lemma prev_reaches:
  assumes ok: "chain_ok T t ns" and strict: "strict_keys T (chain_entries t ns)" and p: "points_at t ns it i"
  shows "\<exists>it'. prev_entry T t it = Some it' \<and> (if i = 0 then \<not> valid it' else points_at t ns it' (i - 1))"
proof -
  obtain us c vs where p: "ns = us @ c # vs" "stands_on t it c" "0 \<le> it_pos it" "it_pos it < int (it_count it)"
    "i = length (chain_entries t us) + nat (it_pos it)"
    using p by (auto simp: points_at_def)
  show ?thesis
  proof (cases "it_pos it > 0")
    case True
    then have "points_at t ns (it\<lparr>it_pos := it_pos it - 1\<rparr>) (i - 1)"
      unfolding points_at_def using p by (intro exI [of _ us] exI [of _ c] exI [of _ vs]) auto
    then show ?thesis using True p(5) by (simp add: prev_entry_def)
  next
    case False
    then have pos: "it_pos it = 0" using p(3) by simp
    then have prev: "prev_entry T t it = skip_backward T t it" by (simp add: prev_entry_def)
    show ?thesis
    proof (cases "us = []")
      case True
      then have "c = head_node t" using chain_head [OF ok] p(1) by auto
      then show ?thesis using prev True p(2,5) pos skip_backward_head [of it t] by (auto simp: stands_on_def)
    next
      case False
      then show ?thesis using skip_backward_reaches [OF ok strict p(1) False p(2)] prev p(5) pos by auto
    qed
  qed
qed

lemma seek_to_last_reaches:
  assumes ok: "chain_ok T t ns"
  shows "\<exists>it'. seek_to_last T t it = Some it' \<and>
    (if chain_entries t ns = [] then \<not> valid it' else points_at t ns it' (length (chain_entries t ns) - 1))"
proof -
  obtain as p where as: "ns = as @ [p]" using chain_head [OF ok] by (cases ns rule: rev_cases) auto
  have "lnode_ok T t p" using chain_okD(4) [OF ok] as by simp
  note st = adopt_stands [OF this, of it]
  let ?n = "order_count (order (get_data t p))"
  let ?it' = "(adopt t (Some p) it)\<lparr>it_pos := int ?n - 1\<rparr>"
  have step: "seek_to_last T t it = (if ?n > 0 then Some ?it' else skip_backward T t ?it')"
    using st by (simp add: seek_to_last_def last_node_chain [OF ok] as skip_backward_if_empty_def Let_def stands_on_def)
  show ?thesis
  proof (cases "?n > 0")
    case True
    then have "points_at t ns ?it' (length (chain_entries t ns) - 1)"
      unfolding points_at_def using st as
      by (intro exI [of _ "as"] exI [of _ p] exI [of _ "[]"])
        (simp add: stands_on_def nat_diff_distrib)
    moreover have "chain_entries t ns \<noteq> []" using True order_count_pos [of t p] as by simp
    ultimately show ?thesis using step True by simp
  next
    case False
    then have e: "entries_of t p = []" using order_count_pos [of t p] by simp
    then have "as = []" using chain_okD(5) [OF ok, of p] as by (cases "as") auto
    then have "ns = [head_node t]" "p = head_node t" using chain_head [OF ok] as by auto
    then show ?thesis using False step skip_backward_head [of ?it' t] st e by (auto simp: stands_on_def)
  qed
qed

text \<open>
  With distinct keys \<open>seek\<close> is exact, and \<open>seek_for_prev\<close> ends on the last entry at or below its target.
\<close>

definition upto :: "'e list \<Rightarrow> 'e \<Rightarrow> 'e list" where
  "upto xs target = takeWhile (\<lambda>x. le T x target) xs"

lemma strict_keys_nth: "strict_keys T xs \<Longrightarrow> i < j \<Longrightarrow> j < length xs \<Longrightarrow> compare T (xs ! i) (xs ! j) < 0"
  unfolding strict_keys_def by (rule sorted_wrt_nth_less)

text \<open>A split that is not the lower bound has an equal entry just below it.\<close>

lemma splits_at_strict:
  assumes s: "strict_keys T xs" and sp: "splits_at T xs target k"
  shows "length (upto xs target) = (if k < length xs \<and> compare T (xs ! k) target = 0 then Suc k else k)"
proof -
  have k: "k \<le> length xs" using sp by (simp add: splits_at_def)
  have below: "le T (xs ! i) target" if "i < k" for i
    using sp that nth_mem [of i "take k xs"] k by (simp add: splits_at_def)
  have above: "le T target (xs ! i)" if "k \<le> i" "i < length xs" for i
    using sp that nth_mem [of "i - k" "drop k xs"] by (simp add: splits_at_def)
  let ?m = "if k < length xs \<and> compare T (xs ! k) target = 0 then Suc k else k"
  have "?m = lower_bound_of (\<lambda>x. le T x target) xs"
  proof (rule lower_bound_of_unique)
    show "?m \<le> length xs" using k by simp
    show "le T (xs ! i) target" if "i < j" "j < length xs" "le T (xs ! j) target" for i j
      using le_trans [OF _ that(3), of "xs ! i"] strict_keys_nth [OF s that(1,2)] by simp
    show "?m = 0 \<or> le T (xs ! (?m - 1)) target" using below [of "k - 1"] by (cases k) auto
    show "?m = length xs \<or> \<not> le T (xs ! ?m) target"
    proof (cases "k < length xs \<and> compare T (xs ! k) target = 0")
      case True
      then have "compare T target (xs ! k) = 0" using equal_sym by simp
      then have "compare T target (xs ! Suc k) < 0" if "Suc k < length xs"
        using strict_keys_nth [OF s, of k "Suc k"] le_less_trans [of target "xs ! k"] that by simp
      then show ?thesis using True by (cases "Suc k < length xs") (auto simp: not_le)
    next
      case False
      then have "k < length xs \<Longrightarrow> compare T target (xs ! k) \<noteq> 0" using equal_sym by simp
      then show ?thesis using False above [of k] k by (cases "k < length xs") (auto simp: not_le)
    qed
  qed
  then show ?thesis by (simp add: upto_def lower_bound_of_def)
qed

lemma seek_for_prev_reaches:
  assumes ok: "chain_ok T t ns" and strict: "strict_keys T (chain_entries t ns)"
  shows "\<exists>it'. seek_for_prev T t target it = Some it' \<and>
    (let u = length (upto (chain_entries t ns) target) in if u = 0 then \<not> valid it' else points_at t ns it' (u - 1))"
proof -
  let ?es = "chain_entries t ns"
  obtain k it1 where sp: "splits_at T ?es target k" and it1: "seek T t target it = Some it1"
    "if k < length ?es then points_at t ns it1 k else \<not> valid it1"
    using seek_reaches [OF ok, of target it] by (metis reaches_def)
  note len = splits_at_strict [OF strict sp]
  have kn: "k \<le> length ?es" using sp by (simp add: splits_at_def)
  show ?thesis
  proof (cases "k < length ?es")
    case True
    then have p: "points_at t ns it1 k" using it1(2) by simp
    have key: "it_key t it1 = ?es ! k" by (rule points_key [OF p])
    show ?thesis
    proof (cases "compare T (?es ! k) target > 0")
      case above: True
      then show ?thesis
        using prev_reaches [OF ok strict p] points_valid [OF p] it1(1) len True key
        by (auto simp: seek_for_prev_def Let_def)
    next
      case False
      have "?es ! k \<in> set (drop k ?es)" using True by (metis Cons_nth_drop_Suc list.set_intros(1))
      then have "le T target (?es ! k)" using sp by (simp add: splits_at_def)
      then have "compare T (?es ! k) target = 0" using False antisym by simp
      then show ?thesis using p points_valid [OF p] it1(1) len True key by (simp add: seek_for_prev_def Let_def)
    qed
  next
    case False
    then have "k = length ?es" "\<not> valid it1" using kn it1(2) by auto
    then show ?thesis using seek_to_last_reaches [OF ok, of it1] it1(1) len by (simp add: seek_for_prev_def Let_def)
  qed
qed

end

end
