(* ===== verification/Two_Nodes.thy ===== *)
theory Two_Nodes
  imports Check_Invariants Iterator
begin

text \<open>
  The table two sorted runs make, as a split leaves it: a head and one sibling, each with a payload
  that \<^verbatim>\<open>fill\<close> built. It is lawful whenever the runs are, which gives concrete tables to evaluate the
  operations on; \<open>sample_table\<close> is the one the examples share.
\<close>

definition two_nodes :: "'e traits \<Rightarrow> 'e list \<Rightarrow> 'e list \<Rightarrow> 'e table" where
  "two_nodes T ks1 ks2 =
     \<lparr>lnodes =
        [new_list_node\<lparr>height := of_nat kMaxHeight, data := Some 0, first_hint := descent_hint (order_bytes T (hd ks1))\<rparr>,
         new_list_node\<lparr>data := Some 1, first_hint := descent_hint (order_bytes T (hd ks2))\<rparr>],
      payloads = [fill T (fresh_payload T) ks1 (Some 1), fill T (fresh_payload T) ks2 None],
      head_node = 0, hints = hint_ordering T\<rparr>"

context bytewise_traits
begin

lemma two_nodes_chain:
  assumes sorted: "sorted_wrt (le T) (ks1 @ ks2)" and len: "1 < length ks1" "length ks1 \<le> kNodeCapacity" "1 < length ks2" "length ks2 \<le> kNodeCapacity"
    and short: "short_keys (ks1 @ ks2)"
  defines "t \<equiv> two_nodes T ks1 ks2"
  shows "chain_ok T t [0, 1]" "chain_entries t [0, 1] = ks1 @ ks2" "quiescent t" "chain_lanes_ok T t [0, 1]"
proof -
  have gd: "get_data t 0 = fill T (fresh_payload T) ks1 (Some 1)" "get_data t (Suc 0) = fill T (fresh_payload T) ks2 None"
    by (simp_all add: get_data_def t_def two_nodes_def)
  have ln: "lnodes t ! 0 = new_list_node\<lparr>height := of_nat kMaxHeight, data := Some 0, first_hint := descent_hint (order_bytes T (hd ks1))\<rparr>"
    "lnodes t ! Suc 0 = new_list_node\<lparr>data := Some 1, first_hint := descent_hint (order_bytes T (hd ks2))\<rparr>"
    "length (lnodes t) = 2" "length (payloads t) = 2" "head_node t = 0" "hints t = hint_ordering T"
    by (simp_all add: t_def two_nodes_def)
  have ne: "ks1 \<noteq> []" "ks2 \<noteq> []" using len by auto
  have e: "entries_of t 0 = ks1" "entries_of t (Suc 0) = ks2" using len by (simp_all add: gd fill_entries)
  show ce: "chain_entries t [0, 1] = ks1 @ ks2" by (simp add: e)
  have nx: "next_of t 0 = Some 1" "next_of t (Suc 0) = None" by (simp_all add: next_of_def gd)
  have path: "path t (Some (head_node t)) [0, 1]" by (simp add: nx ln)
  have lnode: "lnode_ok T t 0" "lnode_ok T t (Suc 0)"
    using fill_ok [OF len(2)] fill_ok [OF len(4)] by (simp_all add: lnode_ok_def e gd(1) gd(2) ln new_list_node_def fill_entries len)
  have towers: "towers_ok t [0, 1]"
    by (auto simp: towers_ok_def level_ranked_def tower_at_def ln new_list_node_def)
  show "chain_ok T t [0, 1]"
    using path lnode towers sorted ne unfolding chain_ok_def ce by (simp add: ln e new_list_node_def)
  show "quiescent t" by (simp add: quiescent_def t_def two_nodes_def new_list_node_def)
  have s: "sorted_wrt (le T) ks1" "sorted_wrt (le T) ks2" "short_keys ks1" "short_keys ks2"
    using sorted short by (auto simp: sorted_wrt_append short_keys_def)
  show "chain_lanes_ok T t [0, 1]"
    using fill_lanes_ok [OF s(1) len(1,2) s(3)] fill_lanes_ok [OF s(2) len(3,4) s(4)]
    by (simp add: chain_lanes_ok_def gd)
qed

lemma two_nodes_lanes:
  assumes "sorted_wrt (le T) (ks1 @ ks2)" "1 < length ks1" "length ks1 \<le> kNodeCapacity" "1 < length ks2" "length ks2 \<le> kNodeCapacity"
    "short_keys (ks1 @ ks2)"
  shows "table_lanes_ok T (two_nodes T ks1 ks2)" "entries (two_nodes T ks1 ks2) = ks1 @ ks2"
  using two_nodes_chain [OF assms] level0_chain [OF two_nodes_chain(1) [OF assms]] entries_chain [OF two_nodes_chain(1) [OF assms]]
  by (auto simp: table_lanes_ok_def table_ok_def)

end

section \<open>The sample table\<close>

definition sample_traits :: "string_view traits" where
  "sample_traits = string_view_traits Scalar (\<lambda>_ _. 0)"

definition sample_key :: "bytes \<Rightarrow> string_view" where
  "sample_key bs = \<lparr>sv_data = (0, 0), sv_bytes = bs\<rparr>"

definition low_keys :: "string_view list" where
  "low_keys = map (\<lambda>i. sample_key [0x62, i]) [1, 2, 3, 4, 5, 6, 7, 8]"

definition high_keys :: "string_view list" where
  "high_keys = map (\<lambda>i. sample_key [0x62, i]) [9, 10, 11, 12, 13, 14, 15, 16]"

definition sample_table :: "string_view table" where
  "sample_table = two_nodes sample_traits low_keys high_keys"

lemma sample_traits_lawful: "bytewise_traits sample_traits" "ordered_traits sample_traits"
  unfolding sample_traits_def by (rule sv.bytewise_traits_axioms, rule sv.ordered_traits_axioms)

lemma sample_keys_strict: "strict_keys sample_traits (low_keys @ high_keys)"
  by (simp add: strict_keys_def sample_traits_def low_keys_def high_keys_def sample_key_def compare_keys_less)

lemma sample_ok:
  shows "table_lanes_ok sample_traits sample_table" and "entries sample_table = low_keys @ high_keys"
proof -
  have sorted: "sorted_wrt (le sample_traits) (low_keys @ high_keys)"
    by (rule ordered_traits.strict_keys_sorted [OF sample_traits_lawful(2) sample_keys_strict])
  have len: "1 < length low_keys" "length low_keys \<le> kNodeCapacity" "1 < length high_keys" "length high_keys \<le> kNodeCapacity"
    by (simp_all add: low_keys_def high_keys_def node_consts)
  have short: "bytewise_traits.short_keys sample_traits (low_keys @ high_keys)"
    unfolding bytewise_traits.short_keys_def [OF sample_traits_lawful(1)]
    by (simp add: low_keys_def high_keys_def sample_key_def sample_traits_def)
  note two = bytewise_traits.two_nodes_lanes [OF sample_traits_lawful(1) sorted len short]
  show "table_lanes_ok sample_traits sample_table" "entries sample_table = low_keys @ high_keys"
    unfolding sample_table_def by (rule two)+
qed

lemma sample_level0: "level0 sample_table = [0, 1]"
proof -
  have "get_data sample_table 0 = fill sample_traits (fresh_payload sample_traits) low_keys (Some 1)"
    "get_data sample_table 1 = fill sample_traits (fresh_payload sample_traits) high_keys None"
    by (simp_all add: get_data_def sample_table_def two_nodes_def)
  then show ?thesis by (simp add: level0_def next_of_def sample_table_def [unfolded two_nodes_def] numeral_2_eq_2)
qed

lemma sample_table_ok: "table_ok sample_traits sample_table"
  using sample_ok(1) by (simp add: table_lanes_ok_def)

end
