(* ===== verification/Memtable_Contract.thy ===== *)
theory Memtable_Contract
  imports Iterator
begin

text \<open>
  The contract of a memtable, as \<^verbatim>\<open>MemTableRep\<close> and the standalone \<^verbatim>\<open>MemTable\<close> promise it: inserts
  never lose an entry, membership is decided by the comparator, and a scan yields every entry in
  comparator order. The locale states it over an abstract table, its clients' lemmas are proved once
  from it, and the tree of nodes and payloads is an instance under every lawful traits.
\<close>

text \<open>A history of inserts, each step left to chance where the code is.\<close>

inductive steps :: "('t \<Rightarrow> 'e \<Rightarrow> 't \<Rightarrow> bool) \<Rightarrow> 't \<Rightarrow> 'e list \<Rightarrow> 't \<Rightarrow> bool" for step where
  none: "steps step t [] t"
| more: "steps step t es t' \<Longrightarrow> step t' e t'' \<Longrightarrow> steps step t (es @ [e]) t''"

inductive_cases steps_NilE: "steps step t [] t'"

locale ordered_memtable =
  fixes lawful :: "'t \<Rightarrow> bool"
    and contents :: "'t \<Rightarrow> 'e list"
    and cmp :: "'e \<Rightarrow> 'e \<Rightarrow> int"
    and empty :: 't
    and insert :: "'t \<Rightarrow> 'e \<Rightarrow> 't \<Rightarrow> bool"
    and member :: "'t \<Rightarrow> 'e \<Rightarrow> bool option"
    and scan :: "'t \<Rightarrow> 'e list option"
  assumes empty: "lawful empty" "contents empty = []"
    and insert_total: "lawful t \<Longrightarrow> \<exists>t'. insert t e t'"
    and insert_lawful: "lawful t \<Longrightarrow> insert t e t' \<Longrightarrow> lawful t'"
    and insert_contents: "lawful t \<Longrightarrow> insert t e t' \<Longrightarrow> mset (contents t') = add_mset e (mset (contents t))"
    and contents_sorted: "lawful t \<Longrightarrow> sorted_wrt (\<lambda>a b. cmp a b \<le> 0) (contents t)"
    and member: "lawful t \<Longrightarrow> member t e = Some (\<exists>x \<in> set (contents t). cmp x e = 0)"
    and scan: "lawful t \<Longrightarrow> scan t = Some (contents t)"
begin

lemma history: "steps insert t es t' \<Longrightarrow> lawful t \<Longrightarrow> lawful t' \<and> mset (contents t') = mset (contents t) + mset es"
proof (induction rule: steps.induct)
  case (none t)
  then show ?case by simp
next
  case (more t es t' e t'')
  then show ?case using insert_lawful [of t' e t''] insert_contents [of t' e t''] by simp
qed

lemma history_total: "lawful t \<Longrightarrow> \<exists>t'. steps insert t es t'"
proof (induction es rule: rev_induct)
  case Nil
  then show ?case using steps.none by metis
next
  case (snoc e es)
  then obtain t' where t': "steps insert t es t'" by blast
  then obtain t'' where "insert t' e t''" using insert_total history snoc.prems by metis
  then show ?case using steps.more [OF t'] by blast
qed

lemma history_set: "steps insert empty es t \<Longrightarrow> set (contents t) = set es"
  using history [of empty es t] local.empty by (metis add.left_neutral mset.simps(1) set_mset_mset)

lemma history_member: "steps insert empty es t \<Longrightarrow> member t e = Some (\<exists>x \<in> set es. cmp x e = 0)"
  using history [of empty es t] history_set [of es t] member [of t e] local.empty(1) by simp

lemma history_scan:
  "steps insert empty es t \<Longrightarrow> \<exists>xs. scan t = Some xs \<and> mset xs = mset es \<and> sorted_wrt (\<lambda>a b. cmp a b \<le> 0) xs"
  using history [of empty es t] scan [of t] contents_sorted [of t] local.empty by simp

end

section \<open>The table is an instance\<close>

definition insert_step :: "'e traits \<Rightarrow> 'e table \<Rightarrow> 'e \<Rightarrow> 'e table \<Rightarrow> bool" where
  "insert_step T t e t' \<longleftrightarrow> (\<exists>draws cas. insert_entry T draws cas t e = Some t')"

definition scan_table :: "'e table \<Rightarrow> 'e list option" where
  "scan_table t = Option.bind (begin_iterator t) (keys_from t)"

lemma scan_entries:
  assumes "table_ok T t"
  shows "scan_table t = Some (entries t)" and "table_size t = Some (length (entries t))"
proof -
  have ok: "chain_ok T t (level0 t)" using assms by (simp add: table_ok_level0)
  obtain it where it: "begin_iterator t = Some it" "reaches t (level0 t) 0 (Some it)"
    using seek_to_first_reaches [OF ok, of new_iterator] by (auto simp: begin_iterator_def reaches_def)
  then show "scan_table t = Some (entries t)" "table_size t = Some (length (entries t))"
    using loops_from [OF ok it(2), of 0] by (simp_all add: scan_table_def table_size_def entries_chain [OF ok])
qed

context ordered_traits
begin

lemma insert_step_table:
  assumes "table_ok T t" "insert_step T t e t'"
  shows "table_ok T t' \<and> (\<exists>k. splits_at T (entries t) e k \<and> entries t' = ins_at k e (entries t))"
proof -
  obtain draws cas where i: "insert_entry T draws cas t e = Some t'" using assms(2) by (auto simp: insert_step_def)
  show ?thesis by (rule insert_entry_table [OF assms(1), of draws cas e]) (use i in auto)
qed

end

sublocale ordered_traits \<subseteq> rep: ordered_memtable "table_ok T" entries "compare T" "new_table T" "insert_step T" "contains_target T" scan_table
proof unfold_locales
  fix t t' :: "'e table" and e
  show "table_ok T (new_table T)" "entries (new_table T) = []" by (rule new_table_ok)+
  assume t: "table_ok T t"
  show "\<exists>t'. insert_step T t e t'" using insert_entry_table [OF t] unfolding insert_step_def by metis
  show "sorted_wrt (le T) (entries t)" by (rule table_sorted [OF t])
  show "contains_target T t e = Some (\<exists>x \<in> set (entries t). compare T x e = 0)"
    using t unfolding table_ok_level0 by (blast intro: contains_target_iff)
  show "scan_table t = Some (entries t)" by (rule scan_entries [OF t])
  assume i: "insert_step T t e t'"
  show "table_ok T t'" using insert_step_table [OF t i] by simp
  show "mset (entries t') = add_mset e (mset (entries t))" using insert_step_table [OF t i] by auto
qed

context ordered_traits
begin

lemmas memtable = rep.ordered_memtable_axioms

end

end
