(* ===== verification/Arena.thy ===== *)
theory Arena
  imports Prelude
begin

text \<open>
  \<^verbatim>\<open>include/aparajita/arena.hpp\<close>: the bump allocator the standalone table takes all its memory from.

  A \<^verbatim>\<open>char*\<close> into the arena is a pair of a block number and an offset: block \<open>b\<close> is the \<open>b\<close>-th chunk, and
  block 0 is the null pointer the arena starts with. Sizes are \<^verbatim>\<open>size_t\<close>, words of 64 bits. What
  \<^verbatim>\<open>operator new\<close> does is a parameter: \<open>grants n\<close> says whether it returns a block of \<open>n\<close> bytes (aligned to
  \<open>kAlign\<close>) or throws, which is the value \<^const>\<open>None\<close> here. One mutex makes each call a single step.
\<close>

type_synonym pointer = "nat \<times> nat"

record arena =
  arena_chunks :: "u64 list"
  arena_cur :: nat
  arena_offset :: u64
  arena_limit :: u64
  arena_used :: u64

definition kChunkSize :: u64 where "kChunkSize = 64 * 1024"

definition kAlign :: u64 where "kAlign = 64"

definition new_arena :: arena where
  "new_arena = \<lparr>arena_chunks = [], arena_cur = 0, arena_offset = 0, arena_limit = 0, arena_used = 0\<rparr>"

definition new_chunk :: "(u64 \<Rightarrow> bool) \<Rightarrow> arena \<Rightarrow> u64 \<Rightarrow> arena option" where
  "new_chunk grants A sz =
     (if grants sz
      then Some (A\<lparr>arena_chunks := arena_chunks A @ [sz], arena_cur := Suc (length (arena_chunks A)),
        arena_offset := 0, arena_limit := sz\<rparr>)
      else None)"

definition rounded :: "u64 \<Rightarrow> u64 \<Rightarrow> u64" where
  "rounded bytes align = (bytes + align - 1) AND NOT (align - 1)"

definition padding :: "u64 \<Rightarrow> u64 \<Rightarrow> u64" where
  "padding offset align = (align - (offset AND (align - 1))) AND (align - 1)"

definition allocate :: "(u64 \<Rightarrow> bool) \<Rightarrow> arena \<Rightarrow> u64 \<Rightarrow> u64 \<Rightarrow> (pointer \<times> arena) option" where
  "allocate grants A bytes align =
     (let need = rounded bytes align;
          pad = padding (arena_offset A) align
      in map_option
           (\<lambda>A. ((arena_cur A, unat (arena_offset A)),
                 A\<lparr>arena_offset := arena_offset A + need, arena_used := arena_used A + need\<rparr>))
           (if arena_offset A + pad + need > arena_limit A
            then new_chunk grants A (if need > kChunkSize then need else kChunkSize)
            else Some (A\<lparr>arena_offset := arena_offset A + pad\<rparr>)))"

text \<open>\<^verbatim>\<open>create<T>\<close>: the size and alignment are the type's, the object is built in place.\<close>

definition create :: "(u64 \<Rightarrow> bool) \<Rightarrow> arena \<Rightarrow> u64 \<Rightarrow> u64 \<Rightarrow> 'a \<Rightarrow> (pointer \<times> 'a \<times> arena) option" where
  "create grants A sz align obj = map_option (\<lambda>(p, A). (p, obj, A)) (allocate grants A sz align)"

definition memory_usage :: "arena \<Rightarrow> u64" where
  "memory_usage A = arena_used A"

section \<open>The arithmetic of alignment\<close>

text \<open>The alignments C++ has up to \<open>kAlign\<close>, and sizes far from the end of the address space.\<close>

definition lawful_request :: "u64 \<times> u64 \<Rightarrow> bool" where
  "lawful_request r \<longleftrightarrow> unat (fst r) \<le> 2 ^ 62 \<and> (\<exists>k \<le> 6. snd r = 2 ^ k)"

lemma unat_low_bits: "unat (x AND (2 ^ k - 1) :: u64) = unat x mod 2 ^ k" if "k < 64"
proof -
  have "x AND (2 ^ k - 1) = take_bit k x" by (simp add: take_bit_eq_mask mask_eq_exp_minus_1)
  then show ?thesis by (simp only: unsigned_take_bit_eq) (rule take_bit_eq_mod)
qed

lemma and_not_minus: "x AND NOT y = x - (x AND y)" for x y :: u64
proof -
  have "NOT x AND (x AND y) = 0" by (simp add: bit_eq_iff bit_simps)
  then have "x - (x AND y) = x AND NOT (x AND y)" by (rule disjunctive_diff_eq_and_not)
  also have "\<dots> = x AND NOT y" by (rule bit_word_eqI) (auto simp: bit_simps)
  finally show ?thesis by simp
qed

lemma unat_pow2 [simp]: "k \<le> 6 \<Longrightarrow> unat (2 ^ k :: u64) = 2 ^ k"
  using unsigned_push_bit_eq [where ?'b = 64 and ?'a = nat and n = k and w = 1] power_strict_increasing [of k 64 "2::nat"]
  by (simp add: take_bit_nat_eq_self push_bit_eq_mult)

lemma pow2_small: "k \<le> 6 \<Longrightarrow> (2::nat) ^ k \<le> 64"
  using power_increasing [of k 6 "2::nat"] by simp

lemma unat_rounded:
  assumes "k \<le> 6" "unat n \<le> 2 ^ 62"
  shows "unat (rounded n (2 ^ k)) = (unat n + 2 ^ k - 1) div 2 ^ k * 2 ^ k"
proof -
  let ?s = "n + 2 ^ k - 1 :: u64"
  have p: "(2::nat) ^ k \<le> 64" "(1::nat) \<le> 2 ^ k" using pow2_small [OF assms(1)] by simp_all
  have w: "unat (n + 2 ^ k) = unat n + 2 ^ k"
    using assms p by (subst unat_add_lem [THEN iffD1]) simp_all
  have one: "(1 :: u64) \<le> n + 2 ^ k" unfolding word_le_nat_alt w unsigned_1 by (rule trans_le_add2) (rule p(2))
  have s: "unat ?s = unat n + 2 ^ k - 1" by (simp add: unat_sub [OF one] w)
  have "unat (rounded n (2 ^ k)) = unat ?s - unat (?s AND (2 ^ k - 1))"
    unfolding rounded_def and_not_minus
    by (intro unat_sub) (simp add: word_le_nat_alt unat_low_bits assms(1) [THEN order.strict_trans1])
  also have "\<dots> = unat ?s div 2 ^ k * 2 ^ k"
    using assms(1) by (simp add: unat_low_bits minus_mod_eq_div_mult)
  finally show ?thesis by (simp add: s)
qed

lemma rounded_bounds:
  assumes "lawful_request (n, a)"
  shows "unat n \<le> unat (rounded n a)" "unat (rounded n a) < unat n + unat a" "unat a dvd unat (rounded n a)" "0 < unat a" "unat a \<le> 64"
proof -
  obtain k where k: "k \<le> 6" "a = 2 ^ k" "unat n \<le> 2 ^ 62" using assms by (auto simp: lawful_request_def)
  have r: "unat (rounded n a) = (unat n + 2 ^ k - 1) div 2 ^ k * 2 ^ k" using unat_rounded k by simp
  have d: "(unat n + 2 ^ k - 1) div 2 ^ k * 2 ^ k + (unat n + 2 ^ k - 1) mod 2 ^ k = unat n + 2 ^ k - (1::nat)"
    by (rule div_mult_mod_eq)
  have m: "(unat n + 2 ^ k - 1) mod 2 ^ k < (2::nat) ^ k" by simp
  show "unat n \<le> unat (rounded n a)" using d m r by linarith
  show "unat (rounded n a) < unat n + unat a"
    proof -
    have "X < n + p" if "X + m = n + p - 1" "1 \<le> p" for X m n p :: nat using that by linarith
    from this [OF d] show ?thesis using r k(1,2) by simp
  qed
  show "unat a dvd unat (rounded n a)" "0 < unat a" "unat a \<le> 64" using r k pow2_small by simp_all
qed

lemma padding_bounds:
  assumes "lawful_request (n, a)"
  shows "unat (padding off a) < unat a" "unat a dvd unat off + unat (padding off a)"
proof -
  obtain k where k: "k \<le> 6" "a = 2 ^ k" using assms by (auto simp: lawful_request_def)
  let ?m = "unat off mod 2 ^ k"
  have low: "unat (off AND (a - 1)) = ?m" using k by (simp add: unat_low_bits)
  have m: "?m < 2 ^ k" by simp
  have le: "off AND (a - 1) \<le> a" using low m k by (simp add: word_le_nat_alt del: mod_less_divisor)
  have sub: "unat (a - (off AND (a - 1))) = 2 ^ k - ?m" unfolding unat_sub [OF le] low using k by simp
  have p: "unat (padding off a) = (2 ^ k - ?m) mod 2 ^ k"
    using k sub by (simp add: padding_def unat_low_bits)
  show "unat (padding off a) < unat a" unfolding p using k by simp
  have "(unat off + (2 ^ k - ?m)) mod 2 ^ k = (?m + (2 ^ k - ?m)) mod 2 ^ k" by (metis mod_add_left_eq)
  also have "\<dots> = 0" using m by simp
  finally show "unat a dvd unat off + unat (padding off a)"
    unfolding p using k by (simp add: mod_simps dvd_eq_mod_eq_0)
qed

section \<open>What an allocation promises\<close>

text \<open>The bytes \<open>n\<close> from a pointer on, the bytes of the chunks, and those already handed out.\<close>

definition region :: "pointer \<Rightarrow> nat \<Rightarrow> pointer set" where
  "region p n = {(fst p, i) |i. snd p \<le> i \<and> i < snd p + n}"

definition chunk_bytes :: "arena \<Rightarrow> pointer set" where
  "chunk_bytes A = {(Suc b, i) |b i. b < length (arena_chunks A) \<and> i < unat (arena_chunks A ! b)}"

definition in_use :: "arena \<Rightarrow> pointer set" where
  "in_use A = {p \<in> chunk_bytes A. fst p = arena_cur A \<longrightarrow> snd p < unat (arena_offset A)}"

definition arena_ok :: "arena \<Rightarrow> bool" where
  "arena_ok A \<longleftrightarrow> arena_cur A = length (arena_chunks A) \<and>
     arena_limit A = (if arena_chunks A = [] then 0 else last (arena_chunks A)) \<and>
     unat (arena_offset A) \<le> unat (arena_limit A) \<and> unat (arena_limit A) \<le> 2 ^ 63"

lemma region_mono: "m \<le> n \<Longrightarrow> region p m \<subseteq> region p n"
  by (auto simp: region_def)

lemma new_arena_ok: "arena_ok new_arena" "in_use new_arena = {}"
  by (simp_all add: arena_ok_def new_arena_def in_use_def chunk_bytes_def)

lemma in_use_chunk_bytes: "in_use A \<subseteq> chunk_bytes A"
  by (auto simp: in_use_def)

text \<open>A bump of the offset within the current chunk, and a fresh chunk.\<close>

lemma bump_in_use:
  assumes A: "arena_ok A" and off: "unat (arena_offset A) \<le> i" "i + n = unat off'" "unat off' \<le> unat (arena_limit A)"
    and A'_def: "A' = A\<lparr>arena_offset := off', arena_used := u\<rparr>"
  shows "arena_ok A'" "in_use A' = in_use A \<union> region (arena_cur A, unat (arena_offset A)) (unat off' - unat (arena_offset A))"
    "region (arena_cur A, i) n \<inter> in_use A = {}" "region (arena_cur A, i) n \<subseteq> in_use A'"
proof -
  show "arena_ok A'" using A off by (auto simp: arena_ok_def A'_def split: if_splits)
  have chunk: "(arena_cur A, j) \<in> chunk_bytes A" if "j < unat (arena_limit A)" for j
    using A that by (cases "arena_chunks A" rule: rev_cases) (auto simp: arena_ok_def chunk_bytes_def)
  show "in_use A' = in_use A \<union> region (arena_cur A, unat (arena_offset A)) (unat off' - unat (arena_offset A))"
    using off chunk by (auto simp: in_use_def A'_def region_def chunk_bytes_def)
  show "region (arena_cur A, i) n \<inter> in_use A = {}" using off(1) by (auto simp: in_use_def region_def)
  show "region (arena_cur A, i) n \<subseteq> in_use A'" using off chunk by (auto simp: in_use_def A'_def region_def chunk_bytes_def)
qed

lemma new_chunk_in_use:
  assumes A: "arena_ok A" and r: "new_chunk grants A sz = Some A'" and sz: "unat sz \<le> 2 ^ 63"
  shows "arena_ok A'" "in_use A' = in_use A \<union> (chunk_bytes A - in_use A)" "arena_offset A' = 0" "arena_limit A' = sz"
    "arena_used A' = arena_used A"
proof -
  have A': "A' = A\<lparr>arena_chunks := arena_chunks A @ [sz], arena_cur := Suc (length (arena_chunks A)), arena_offset := 0, arena_limit := sz\<rparr>"
    using r by (auto simp: new_chunk_def split: if_splits)
  show "arena_ok A'" "arena_offset A' = 0" "arena_limit A' = sz" "arena_used A' = arena_used A"
    using sz by (simp_all add: A' arena_ok_def)
  show "in_use A' = in_use A \<union> (chunk_bytes A - in_use A)"
    by (auto simp: A' in_use_def chunk_bytes_def nth_append)
qed

lemma allocate_ok:
  assumes A: "arena_ok A" and req: "lawful_request (n, a)" and r: "allocate grants A n a = Some (p, A')"
  shows "(arena_ok A' \<and> in_use A \<subseteq> in_use A') \<and> (region p (unat n) \<inter> in_use A = {} \<and> region p (unat n) \<subseteq> in_use A') \<and>
    (unat a dvd snd p \<and> memory_usage A' = memory_usage A + rounded n a)"
proof -
  let ?need = "rounded n a" and ?pad = "padding (arena_offset A) a"
  note rb = rounded_bounds [OF req] and pb = padding_bounds [OF req, of "arena_offset A"]
  have n: "unat n \<le> 2 ^ 62" using req by (simp add: lawful_request_def)
  have off: "unat (arena_offset A) \<le> unat (arena_limit A)" "unat (arena_limit A) \<le> 2 ^ 63" using A unfolding arena_ok_def by blast+
  have need: "unat ?need < 2 ^ 62 + 64" using rb(2,5) n by linarith
  have pad: "unat ?pad < 64" using pb(1) rb(5) by linarith
  have sum1: "unat (arena_offset A + ?pad) = unat (arena_offset A) + unat ?pad"
    using off pad by (subst unat_add_lem [THEN iffD1]) simp_all
  have sum: "unat (arena_offset A + ?pad + ?need) = unat (arena_offset A) + unat ?pad + unat ?need"
    using off pad need sum1 by (subst unat_add_lem [THEN iffD1]) simp_all
  have sub: "region q (unat n) \<subseteq> region q (unat ?need)" for q by (rule region_mono) (rule rb(1))
  show "(arena_ok A' \<and> in_use A \<subseteq> in_use A') \<and> (region p (unat n) \<inter> in_use A = {} \<and> region p (unat n) \<subseteq> in_use A') \<and>
    (unat a dvd snd p \<and> memory_usage A' = memory_usage A + rounded n a)"
  proof (cases "arena_offset A + ?pad + ?need > arena_limit A")
    case False
    have p: "p = (arena_cur A, unat (arena_offset A + ?pad))"
      and A': "A' = A\<lparr>arena_offset := arena_offset A + ?pad + ?need, arena_used := arena_used A + ?need\<rparr>"
      using r False by (auto simp: allocate_def Let_def)
    have "unat (arena_offset A + ?pad + ?need) \<le> unat (arena_limit A)" using False by (simp add: word_le_nat_alt not_less)
    from bump_in_use [OF A _ _ this A', of "unat (arena_offset A + ?pad)" "unat ?need"]
    have "arena_ok A'" "in_use A \<subseteq> in_use A'" "region p (unat ?need) \<inter> in_use A = {}" "region p (unat ?need) \<subseteq> in_use A'"
      using sum sum1 by (auto simp: p)
    then show "(arena_ok A' \<and> in_use A \<subseteq> in_use A') \<and> (region p (unat n) \<inter> in_use A = {} \<and> region p (unat n) \<subseteq> in_use A') \<and>
        (unat a dvd snd p \<and> memory_usage A' = memory_usage A + rounded n a)"
      using sub [of p] pb(2) sum1 by (auto simp: p A' memory_usage_def)
  next
    case True
    let ?sz = "if ?need > kChunkSize then ?need else kChunkSize"
    obtain B where B: "new_chunk grants A ?sz = Some B" and p: "p = (arena_cur B, unat (arena_offset B))"
      and A': "A' = B\<lparr>arena_offset := arena_offset B + ?need, arena_used := arena_used B + ?need\<rparr>"
      using r True by (auto simp: allocate_def Let_def)
    have sz: "unat ?sz \<le> 2 ^ 63" "unat ?need \<le> unat ?sz" using need by (auto simp: kChunkSize_def word_less_nat_alt)
    note nc = new_chunk_in_use [OF A B sz(1)]
    from bump_in_use [OF nc(1) _ _ _ A', of 0 "unat ?need"]
    have "arena_ok A'" "in_use B \<subseteq> in_use A'" "region p (unat ?need) \<inter> in_use B = {}" "region p (unat ?need) \<subseteq> in_use A'"
      using sz nc(3,4) by (auto simp: p)
    then show "(arena_ok A' \<and> in_use A \<subseteq> in_use A') \<and> (region p (unat n) \<inter> in_use A = {} \<and> region p (unat n) \<subseteq> in_use A') \<and>
        (unat a dvd snd p \<and> memory_usage A' = memory_usage A + rounded n a)"
      using sub [of p] nc(2,3,5) by (auto simp: p A' memory_usage_def)
  qed
qed

lemma allocate_total:
  assumes "\<forall>n. grants n"
  obtains p A' where "allocate grants A n a = Some (p, A')"
  using assms by (fastforce simp: allocate_def Let_def new_chunk_def split: if_splits)

text \<open>Out of memory: the exception leaves before any field is written.\<close>

lemma allocate_None: "allocate grants A n a = None \<longleftrightarrow>
    arena_offset A + padding (arena_offset A) a + rounded n a > arena_limit A \<and>
    \<not> grants (if rounded n a > kChunkSize then rounded n a else kChunkSize)"
  by (simp add: allocate_def Let_def new_chunk_def)

section \<open>A sequence of allocations\<close>

fun allocate_all :: "(u64 \<Rightarrow> bool) \<Rightarrow> arena \<Rightarrow> (u64 \<times> u64) list \<Rightarrow> (pointer list \<times> arena) option" where
  "allocate_all grants A [] = Some ([], A)"
| "allocate_all grants A (r # rs) =
     Option.bind (allocate grants A (fst r) (snd r)) (\<lambda>(p, A).
       map_option (\<lambda>(ps, A). (p # ps, A)) (allocate_all grants A rs))"

abbreviation regions :: "pointer list \<Rightarrow> (u64 \<times> u64) list \<Rightarrow> pointer set list" where
  "regions ps rs \<equiv> map2 (\<lambda>p r. region p (unat (fst r))) ps rs"

lemma allocate_all_ok:
  assumes "arena_ok A" "\<forall>r \<in> set rs. lawful_request r" "\<forall>n. grants n"
  shows "\<exists>ps A'. allocate_all grants A rs = Some (ps, A') \<and> length ps = length rs \<and> arena_ok A' \<and> in_use A \<subseteq> in_use A' \<and>
    list_all2 (\<lambda>p r. unat (snd r) dvd snd p) ps rs \<and>
    (\<forall>R \<in> set (regions ps rs). R \<subseteq> in_use A' - in_use A) \<and> sorted_wrt (\<lambda>R S. R \<inter> S = {}) (regions ps rs) \<and>
    memory_usage A' = memory_usage A + (\<Sum>r\<leftarrow>rs. rounded (fst r) (snd r))"
  using assms
proof (induction rs arbitrary: A)
  case Nil
  then show ?case by simp
next
  case (Cons r rs)
  obtain p A1 where 1: "allocate grants A (fst r) (snd r) = Some (p, A1)" using allocate_total [OF Cons.prems(3)] by blast
  have "lawful_request (fst r, snd r)" using Cons.prems(2) by simp
  note one = allocate_ok [OF Cons.prems(1) this 1]
  have c: "arena_ok A1" "\<forall>r \<in> set rs. lawful_request r" using one Cons.prems(2) by simp_all
  obtain ps A2 where 2: "allocate_all grants A1 rs = Some (ps, A2)" "length ps = length rs" "arena_ok A2" "in_use A1 \<subseteq> in_use A2"
    "list_all2 (\<lambda>p r. unat (snd r) dvd snd p) ps rs" "\<forall>R \<in> set (regions ps rs). R \<subseteq> in_use A2 - in_use A1"
    "sorted_wrt (\<lambda>R S. R \<inter> S = {}) (regions ps rs)" "memory_usage A2 = memory_usage A1 + (\<Sum>r\<leftarrow>rs. rounded (fst r) (snd r))"
    using Cons.IH [OF c Cons.prems(3)] by blast
  have rest: "R \<subseteq> in_use A2 - in_use A1" if "R \<in> set (regions ps rs)" for R using 2(6) that by blast
  have "R \<subseteq> in_use A2 - in_use A \<and> region p (unat (fst r)) \<inter> R = {}" if "R \<in> set (regions ps rs)" for R
    using one rest [OF that] by blast
  moreover have "region p (unat (fst r)) \<subseteq> in_use A2 - in_use A" using one 2(4) by blast
  ultimately show ?case
    using 1 one 2 by (intro exI [of _ "p # ps"] exI [of _ A2]) (auto simp: ac_simps)
qed

text \<open>C34: allocations from a fresh arena never overlap, each is aligned as asked and lies inside a chunk, and the
  memory charged is the sum of the sizes rounded up to their alignments, unless the system runs out of memory.\<close>

theorem arena_allocations_disjoint:
  assumes "\<forall>r \<in> set rs. lawful_request r" "\<forall>n. grants n"
  shows "\<exists>ps A. allocate_all grants new_arena rs = Some (ps, A) \<and>
    list_all2 (\<lambda>p r. unat (snd r) dvd snd p \<and> region p (unat (fst r)) \<subseteq> chunk_bytes A) ps rs \<and>
    sorted_wrt (\<lambda>R S. R \<inter> S = {}) (regions ps rs) \<and>
    memory_usage A = (\<Sum>r\<leftarrow>rs. rounded (fst r) (snd r))"
proof -
  obtain ps A where r: "allocate_all grants new_arena rs = Some (ps, A)" "length ps = length rs"
    "list_all2 (\<lambda>p r. unat (snd r) dvd snd p) ps rs" "\<forall>R \<in> set (regions ps rs). R \<subseteq> in_use A - in_use new_arena"
    "sorted_wrt (\<lambda>R S. R \<inter> S = {}) (regions ps rs)"
    "memory_usage A = memory_usage new_arena + (\<Sum>r\<leftarrow>rs. rounded (fst r) (snd r))"
    using allocate_all_ok [OF new_arena_ok(1) assms] by blast
  have "list_all2 (\<lambda>p r. region p (unat (fst r)) \<subseteq> chunk_bytes A) ps rs"
    using r(2,4) in_use_chunk_bytes [of A] by (auto simp: list_all2_iff)
  then show ?thesis
    using r by (auto simp: list_all2_iff memory_usage_def new_arena_def)
qed

theorem arena_allocations_disjoint_witness:
  "\<exists>ps A. allocate_all (\<lambda>_. True) new_arena [(13, 1), (384, 64), (100000, 1), (8, 8)] = Some (ps, A) \<and>
    ps = [(1, 0), (1, 64), (2, 0), (3, 0)] \<and> memory_usage A = 100405 \<and> sorted_wrt (\<lambda>R S. R \<inter> S = {}) (regions ps [(13, 1), (384, 64), (100000, 1), (8, 8)])"
proof -
  have "\<forall>r \<in> set [(13, 1), (384, 64), (100000, 1), (8, 8)]. lawful_request r"
    by (auto simp: lawful_request_def intro: exI [of _ 0] exI [of _ 6] exI [of _ 3])
  from arena_allocations_disjoint [OF this, of "\<lambda>_. True"] show ?thesis
    by (auto simp: allocate_def rounded_def padding_def new_arena_def new_chunk_def kChunkSize_def memory_usage_def Let_def)
qed

end
