(* ===== verification/Layout.thy ===== *)
theory Layout
  imports Table Arena
begin

text \<open>
  How the structs of \<^verbatim>\<open>node.hpp\<close> and \<^verbatim>\<open>memtable.hpp\<close> lie in memory, and what their static assertions claim
  of it. A struct is its members in declaration order, each with its size and alignment; the layout is
  the one every ABI uses for such structs, the next multiple of the member's alignment, and the size is
  rounded up to the struct's. Scalars are those of a 64-bit platform: a pointer and an atomic 64-bit integer
  take eight bytes, an \<^verbatim>\<open>atomic_flag\<close> one.
\<close>

record member =
  member_name :: string
  member_size :: nat
  member_align :: nat

definition align_up :: "nat \<Rightarrow> nat \<Rightarrow> nat" where
  "align_up n a = (n + (a - 1)) div a * a"

text \<open>The members with their offsets, from offset \<open>off\<close> on, and where the last one ends.\<close>

fun place :: "nat \<Rightarrow> member list \<Rightarrow> (member \<times> nat) list" where
  "place off [] = []"
| "place off (m # ms) = (let at = align_up off (member_align m) in (m, at) # place (at + member_size m) ms)"

fun members_end :: "nat \<Rightarrow> member list \<Rightarrow> nat" where
  "members_end off [] = off"
| "members_end off (m # ms) = members_end (align_up off (member_align m) + member_size m) ms"

text \<open>\<open>a\<close> is the \<^verbatim>\<open>alignas\<close> of the struct.\<close>

definition struct_align :: "nat \<Rightarrow> member list \<Rightarrow> nat" where
  "struct_align a ms = foldr (max \<circ> member_align) ms a"

definition struct_size :: "nat \<Rightarrow> member list \<Rightarrow> nat" where
  "struct_size a ms = align_up (members_end 0 ms) (struct_align a ms)"

definition offset_of :: "member list \<Rightarrow> string \<Rightarrow> nat" where
  "offset_of ms name = the (map_of (map (\<lambda>(m, at). (member_name m, at)) (place 0 ms)) name)"

definition scalar :: "string \<Rightarrow> nat \<Rightarrow> member" where
  "scalar name n = \<lparr>member_name = name, member_size = n, member_align = n\<rparr>"

definition array :: "string \<Rightarrow> nat \<Rightarrow> nat \<Rightarrow> nat \<Rightarrow> member" where
  "array name len n a = \<lparr>member_name = name, member_size = len * n, member_align = a\<rparr>"

section \<open>The structs\<close>

definition node_members :: "member list" where
  "node_members = [array ''keys'' kNodeKeys 4 4]"

text \<open>An entry is \<open>esz\<close> bytes, aligned to \<open>eal\<close>.\<close>

definition node_data_members :: "nat \<Rightarrow> nat \<Rightarrow> member list" where
  "node_data_members esz eal =
     [array ''surrogates'' kNodeKeys 4 4, scalar ''order'' 8, scalar ''prefix_len'' 4, scalar ''next'' 8, array ''keys'' kNodeKeys esz eal]"

definition list_node_members :: "member list" where
  "list_node_members =
     [scalar ''data'' 8, scalar ''first_hint'' 8, scalar ''write_lock'' 1, scalar ''height'' 1, array ''tower'' kMaxHeight 8 8]"

text \<open>The static assertions of the two headers, and the separation \<^verbatim>\<open>node.hpp\<close> asks of independently written lines.\<close>

definition kDestructiveInterference :: nat where "kDestructiveInterference = 64"

definition node_asserts :: bool where
  "node_asserts \<longleftrightarrow> struct_size kCacheLine node_members = kCacheLine \<and> struct_align kCacheLine node_members = kCacheLine"

definition table_asserts :: "nat \<Rightarrow> nat \<Rightarrow> bool" where
  "table_asserts esz eal \<longleftrightarrow>
     4 * kNodeKeys = kCacheLine \<and>
     offset_of (node_data_members esz eal) ''surrogates'' = 0 \<and>
     offset_of (node_data_members esz eal) ''order'' = kCacheLine \<and>
     struct_align kCacheLine (node_data_members esz eal) = kCacheLine \<and>
     struct_align kCacheLine list_node_members = kCacheLine \<and>
     offset_of list_node_members ''first_hint'' < kCacheLine"

section \<open>The layout rule\<close>

lemma align_up_props:
  assumes "0 < a"
  shows "a dvd align_up n a" "n \<le> align_up n a" "align_up n a < n + a"
proof -
  show "a dvd align_up n a" by (simp add: align_up_def)
  have "(n + (a - 1)) mod a < a" using assms by simp
  moreover have "align_up n a + (n + (a - 1)) mod a = n + (a - 1)" unfolding align_up_def by (rule div_mult_mod_eq)
  ultimately show "n \<le> align_up n a" "align_up n a < n + a" using assms by linarith+
qed

definition starts :: "member \<times> nat \<Rightarrow> nat" where "starts p = snd p"
definition stops :: "member \<times> nat \<Rightarrow> nat" where "stops p = snd p + member_size (fst p)"

lemma place_ok:
  assumes "\<forall>m \<in> set ms. 0 < member_align m"
  shows "map fst (place off ms) = ms" "off \<le> members_end off ms"
    "\<forall>p \<in> set (place off ms). member_align (fst p) dvd starts p \<and> off \<le> starts p \<and> stops p \<le> members_end off ms"
    "sorted_wrt (\<lambda>p q. stops p \<le> starts q) (place off ms)"
proof -
  have "map fst (place off ms) = ms \<and> off \<le> members_end off ms \<and>
    (\<forall>p \<in> set (place off ms). member_align (fst p) dvd starts p \<and> off \<le> starts p \<and> stops p \<le> members_end off ms) \<and>
    sorted_wrt (\<lambda>p q. stops p \<le> starts q) (place off ms)"
    using assms
  proof (induction ms arbitrary: off)
    case Nil
    then show ?case by simp
  next
    case (Cons m ms)
    let ?at = "align_up off (member_align m)"
    note a = align_up_props [of "member_align m" off] and IH = Cons.IH [of "?at + member_size m"]
    show ?case using a IH Cons.prems by (auto simp: Let_def starts_def stops_def)
  qed
  then show "map fst (place off ms) = ms" "off \<le> members_end off ms"
    "\<forall>p \<in> set (place off ms). member_align (fst p) dvd starts p \<and> off \<le> starts p \<and> stops p \<le> members_end off ms"
    "sorted_wrt (\<lambda>p q. stops p \<le> starts q) (place off ms)" by blast+
qed

lemma struct_align_least: "a \<le> struct_align a ms" "m \<in> set ms \<Longrightarrow> member_align m \<le> struct_align a ms"
  unfolding struct_align_def by (induction ms) auto

lemma struct_size_ok:
  assumes "0 < a"
  shows "struct_align a ms dvd struct_size a ms" "members_end 0 ms \<le> struct_size a ms"
  using align_up_props [of "struct_align a ms"] struct_align_least(1) [of a ms] assms unfolding struct_size_def by auto

lemma layout_places:
  assumes "\<forall>m \<in> set ms. 0 < member_align m"
  shows "\<forall>(m, at) \<in> set (place 0 ms). member_align m dvd at \<and> at + member_size m \<le> struct_size kCacheLine ms"
    "sorted_wrt (\<lambda>(m, at) (m', at'). at + member_size m \<le> at') (place 0 ms)"
proof -
  have "members_end 0 ms \<le> struct_size kCacheLine ms" by (rule struct_size_ok) (simp add: kCacheLine_def)
  then show "\<forall>(m, at) \<in> set (place 0 ms). member_align m dvd at \<and> at + member_size m \<le> struct_size kCacheLine ms"
    using place_ok(3) [OF assms, of 0] by (fastforce simp: starts_def stops_def)
  show "sorted_wrt (\<lambda>(m, at) (m', at'). at + member_size m \<le> at') (place 0 ms)"
    using place_ok(4) [OF assms, of 0] by (rule sorted_wrt_mono_rel [rotated]) (auto simp: starts_def stops_def)
qed

lemmas layout_defs = node_members_def node_data_members_def list_node_members_def scalar_def array_def

lemma list_node_layout:
  "offset_of list_node_members ''first_hint'' = 8" "struct_align kCacheLine list_node_members = 64" "struct_size kCacheLine list_node_members = 128"
  by (simp_all add: offset_of_def layout_defs Let_def align_up_def struct_align_def struct_size_def node_consts kMaxHeight_def)

lemma node_data_layout:
  assumes "0 < eal" "eal \<le> kCacheLine"
  shows "offset_of (node_data_members esz eal) ''surrogates'' = 0" "offset_of (node_data_members esz eal) ''order'' = 64"
    "struct_align kCacheLine (node_data_members esz eal) = 64"
  using assms by (simp_all add: offset_of_def layout_defs Let_def align_up_def struct_align_def node_consts)

lemma node_data_size:
  "struct_size kCacheLine (node_data_members 16 8) = 384" "struct_size kCacheLine (node_data_members 8 8) = 256"
  by (simp_all add: layout_defs Let_def align_up_def struct_align_def struct_size_def node_consts)

section \<open>Properties\<close>

text \<open>C30: the structs are laid out as their static assertions say, whatever an entry is: every member is aligned, inside
  its struct and apart from the others, every struct is whole cache lines, the compared surrogates are the first line of a
  payload and the order word opens the second, and the descent hint lies in the line a hop loads. A list node takes two
  lines; a payload takes six over string views and four over the adapter's pointers.\<close>

theorem layout_sound:
  assumes "0 < eal" "eal \<le> kCacheLine"
  shows "node_asserts \<and> table_asserts esz eal \<and>
    (\<forall>ms \<in> {node_members, node_data_members esz eal, list_node_members}.
      (\<forall>(m, at) \<in> set (place 0 ms). member_align m dvd at \<and> at + member_size m \<le> struct_size kCacheLine ms) \<and>
      sorted_wrt (\<lambda>(m, at) (m', at'). at + member_size m \<le> at') (place 0 ms) \<and>
      struct_align kCacheLine ms = kCacheLine \<and> kCacheLine dvd struct_size kCacheLine ms) \<and>
    kDestructiveInterference dvd struct_size kCacheLine list_node_members \<and>
    struct_size kCacheLine list_node_members = 2 * kCacheLine \<and>
    struct_size kCacheLine (node_data_members 16 8) = 6 * kCacheLine \<and> struct_size kCacheLine (node_data_members 8 8) = 4 * kCacheLine"
proof -
  have node: "struct_align kCacheLine node_members = 64" "struct_size kCacheLine node_members = 64"
    by (simp_all add: layout_defs Let_def align_up_def struct_align_def struct_size_def node_consts)
  have ms: "struct_align kCacheLine ms = kCacheLine \<and> (\<forall>m \<in> set ms. 0 < member_align m)"
    if "ms \<in> {node_members, node_data_members esz eal, list_node_members}" for ms
    using that assms node(1) list_node_layout(2) node_data_layout(3) [OF assms, of esz] by (auto simp: kCacheLine_def layout_defs)
  have "kCacheLine dvd struct_size kCacheLine ms" if "ms \<in> {node_members, node_data_members esz eal, list_node_members}" for ms
    using struct_size_ok(1) [of kCacheLine ms] ms [OF that] by (simp add: kCacheLine_def)
  moreover have "node_asserts" "table_asserts esz eal"
    using node list_node_layout node_data_layout [OF assms, of esz] by (simp_all add: node_asserts_def table_asserts_def node_consts)
  moreover note list_node_layout(3) node_data_size
  ultimately show ?thesis using ms layout_places by (auto simp: kCacheLine_def kDestructiveInterference_def)
qed

theorem layout_sound_witness:
  "table_asserts 16 8 \<and> offset_of (node_data_members 16 8) ''keys'' = 88 \<and> struct_size kCacheLine (node_data_members 16 8) = 6 * kCacheLine"
proof -
  have "offset_of (node_data_members 16 8) ''keys'' = 88" by (simp add: offset_of_def layout_defs Let_def align_up_def node_consts)
  then show ?thesis using layout_sound [of 8 16] by (simp add: kCacheLine_def)
qed

end
