(* ===== verification/Standalone.thy ===== *)
theory Standalone
  imports Layout Memtable_Contract
begin

text \<open>
  The standalone \<^verbatim>\<open>MemTable\<close> of \<^verbatim>\<open>include/aparajita/memtable.hpp\<close>: the shared core over
  \<^verbatim>\<open>StringViewTraits\<close>, which owns its keys. The state is the table and the arena it was given; an insert
  copies the key into the arena first and inserts a view of the copy. \<^const>\<open>None\<close> is \<^verbatim>\<open>std::bad_alloc\<close>.

  The core's own allocations, a list node and two payloads for a split, go to the same arena. No value of
  the table depends on where they land, so they are charged in one go after the insert that makes them.
\<close>

record mem_table =
  mt_table :: "string_view table"
  mt_arena :: arena

text \<open>The sizes of \<^verbatim>\<open>BasicListNode\<close> and of \<^verbatim>\<open>BasicNodeData\<close> over string views, a pointer and a length each.\<close>

definition sizeof_list_node :: u64 where "sizeof_list_node = of_nat (struct_size kCacheLine list_node_members)"

definition sizeof_node_data :: u64 where "sizeof_node_data = of_nat (struct_size kCacheLine (node_data_members 16 8))"

lemma core_sizes: "sizeof_list_node = 128" "sizeof_node_data = 384"
  by (simp_all add: sizeof_list_node_def sizeof_node_data_def list_node_layout node_data_size)

definition core_requests :: "nat \<Rightarrow> nat \<Rightarrow> (u64 \<times> u64) list" where
  "core_requests l p = replicate l (sizeof_list_node, kAlign) @ replicate p (sizeof_node_data, kAlign)"

definition new_mem_table :: "(u64 \<Rightarrow> bool) \<Rightarrow> string_view traits \<Rightarrow> arena \<Rightarrow> mem_table option" where
  "new_mem_table grants T A =
     map_option (\<lambda>(ps, A). \<lparr>mt_table = new_table T, mt_arena = A\<rparr>) (allocate_all grants A (core_requests 1 1))"

definition insert_key ::
  "(u64 \<Rightarrow> bool) \<Rightarrow> string_view traits \<Rightarrow> (nat \<Rightarrow> u32) \<Rightarrow> (nat \<Rightarrow> nat \<Rightarrow> bool) \<Rightarrow> mem_table \<Rightarrow> bytes \<Rightarrow> mem_table option" where
  "insert_key grants T draws cas M key =
     Option.bind (allocate grants (mt_arena M) (if key = [] then 1 else of_nat (length key)) 1) (\<lambda>(copy, A).
     Option.bind (insert_entry T draws cas (mt_table M) \<lparr>sv_data = copy, sv_bytes = key\<rparr>) (\<lambda>t.
       map_option (\<lambda>(ps, A). \<lparr>mt_table = t, mt_arena = A\<rparr>)
         (allocate_all grants A
           (core_requests (length (lnodes t) - length (lnodes (mt_table M))) (length (payloads t) - length (payloads (mt_table M)))))))"

definition contains_key :: "string_view traits \<Rightarrow> mem_table \<Rightarrow> string_view \<Rightarrow> bool option" where
  "contains_key T M key = contains_target T (mt_table M) key"

fun insert_keys ::
  "(u64 \<Rightarrow> bool) \<Rightarrow> string_view traits \<Rightarrow> (nat \<Rightarrow> nat \<Rightarrow> u32) \<Rightarrow> (nat \<Rightarrow> nat \<Rightarrow> nat \<Rightarrow> bool) \<Rightarrow> nat \<Rightarrow> bytes list \<Rightarrow> mem_table \<Rightarrow> mem_table option" where
  "insert_keys grants T draws cas i [] M = Some M"
| "insert_keys grants T draws cas i (k # ks) M =
     Option.bind (insert_key grants T (draws i) (cas i) M k) (insert_keys grants T draws cas (Suc i) ks)"

section \<open>The keys are the table's own\<close>

text \<open>The bytes a stored view reads are handed-out arena bytes, and no two views share any.\<close>

definition key_region :: "string_view \<Rightarrow> pointer set" where
  "key_region v = region (sv_data v) (length (sv_bytes v))"

definition keys_owned :: "mem_table \<Rightarrow> bool" where
  "keys_owned M \<longleftrightarrow> (\<forall>v \<in> set (entries (mt_table M)). key_region v \<subseteq> in_use (mt_arena M)) \<and>
     sorted_wrt (\<lambda>v w. key_region v \<inter> key_region w = {}) (entries (mt_table M))"

definition mem_table_ok :: "string_view traits \<Rightarrow> mem_table \<Rightarrow> bool" where
  "mem_table_ok T M \<longleftrightarrow> table_ok T (mt_table M) \<and> arena_ok (mt_arena M) \<and> keys_owned M"

lemma core_requests_lawful: "r \<in> set (core_requests n m) \<Longrightarrow> lawful_request r"
  by (auto simp: core_requests_def lawful_request_def core_sizes kAlign_def intro!: exI [of _ 6])

lemma key_request:
  assumes "length key \<le> 2 ^ 62"
  shows "lawful_request (if key = [] then 1 else of_nat (length key), 1)" "length key \<le> unat (if key = [] then 1 else of_nat (length key) :: u64)"
  using assms by (auto simp: lawful_request_def unat_of_nat take_bit_nat_eq_self intro!: exI [of _ 0])

lemma new_mem_table_ok:
  assumes "\<forall>n. grants n" "arena_ok A"
  obtains M where "new_mem_table grants T A = Some M" "mem_table_ok T M" "entries (mt_table M) = []"
proof -
  have "\<forall>r \<in> set (core_requests 1 1). lawful_request r" using core_requests_lawful by blast
  from allocate_all_ok [OF assms(2) this assms(1)] show thesis
    using that by (auto simp: new_mem_table_def mem_table_ok_def keys_owned_def new_table_ok)
qed

lemma insert_key_ok:
  assumes T: "ordered_traits T" and M: "mem_table_ok T M" and grants: "\<forall>n. grants n" and len: "length key \<le> 2 ^ 62"
  obtains M' p where "insert_key grants T draws cas M key = Some M'" "mem_table_ok T M'"
    "mset (entries (mt_table M')) = add_mset \<lparr>sv_data = p, sv_bytes = key\<rparr> (mset (entries (mt_table M)))"
proof -
  note ok = M [unfolded mem_table_ok_def keys_owned_def]
  let ?n = "if key = [] then 1 else of_nat (length key) :: u64"
  obtain p A1 where 1: "allocate grants (mt_arena M) ?n 1 = Some (p, A1)" using allocate_total [OF grants] by blast
  have one: "arena_ok A1" "in_use (mt_arena M) \<subseteq> in_use A1" "region p (unat ?n) \<inter> in_use (mt_arena M) = {}" "region p (unat ?n) \<subseteq> in_use A1"
    using allocate_ok [OF _ key_request(1) [OF len] 1] ok by simp_all
  let ?v = "\<lparr>sv_data = p, sv_bytes = key\<rparr>"
  obtain t k where t: "insert_entry T draws cas (mt_table M) ?v = Some t" "table_ok T t" "entries t = ins_at k ?v (entries (mt_table M))"
    using ordered_traits.insert_entry_table [OF T, of "mt_table M" draws cas ?v] ok by metis
  have "\<forall>r \<in> set (core_requests n m). lawful_request r" for n m using core_requests_lawful by blast
  from allocate_all_ok [OF one(1) this grants]
  obtain ps A2 where 2: "allocate_all grants A1 (core_requests (length (lnodes t) - length (lnodes (mt_table M)))
      (length (payloads t) - length (payloads (mt_table M)))) = Some (ps, A2)" "arena_ok A2" "in_use A1 \<subseteq> in_use A2"
    by blast
  have new: "key_region ?v \<subseteq> region p (unat ?n)"
    using region_mono [OF key_request(2) [OF len], of p] by (simp add: key_region_def)
  have apart: "key_region v \<inter> key_region ?v = {}" if "v \<in> set (entries (mt_table M))" for v
    using ok that new one(3) by blast
  have "sorted_wrt (\<lambda>v w. key_region v \<inter> key_region w = {}) (entries t)"
    unfolding t(3) using ok apart by (intro sorted_wrt_ins_at) (auto dest: in_set_takeD in_set_dropD)
  moreover have "key_region v \<subseteq> in_use A2" if "v \<in> set (entries t)" for v
    using that ok new one(2,4) 2(3) unfolding t(3) set_ins_at by blast
  ultimately show thesis
    using that [of "\<lparr>mt_table = t, mt_arena = A2\<rparr>" p] 1 t 2 by (simp add: insert_key_def mem_table_ok_def keys_owned_def)
qed

lemma insert_keys_ok:
  assumes "ordered_traits T" "mem_table_ok T M" "\<forall>n. grants n" "\<forall>k \<in> set ks. length k \<le> 2 ^ 62"
  shows "\<exists>M'. insert_keys grants T draws cas i ks M = Some M' \<and> mem_table_ok T M' \<and>
    mset (map sv_bytes (entries (mt_table M'))) = mset ks + mset (map sv_bytes (entries (mt_table M)))"
  using assms(2,4)
proof (induction ks arbitrary: M i)
  case Nil
  then show ?case by simp
next
  case (Cons k ks)
  have len: "length k \<le> 2 ^ 62" using Cons.prems(2) by simp
  obtain M1 p where 1: "insert_key grants T (draws i) (cas i) M k = Some M1" "mem_table_ok T M1"
    "mset (entries (mt_table M1)) = add_mset \<lparr>sv_data = p, sv_bytes = k\<rparr> (mset (entries (mt_table M)))"
    using insert_key_ok [OF assms(1) Cons.prems(1) assms(3) len] by metis
  then show ?case using Cons.IH [OF 1(2), of "Suc i"] Cons.prems(2) by (auto simp: mset_map)
qed

section \<open>Lines\<close>

text \<open>The cache lines an object of \<open>n\<close> bytes touches: chunks are aligned to a line.\<close>

definition lines :: "pointer \<Rightarrow> nat \<Rightarrow> pointer set" where
  "lines p n = (\<lambda>(b, i). (b, i div kCacheLine)) ` region p n"

lemma whole_lines:
  assumes "kCacheLine dvd snd p" "kCacheLine dvd n" "(b, i div kCacheLine) = (b', j div kCacheLine)" "(b, i) \<in> region p n"
  shows "(b', j) \<in> region p n"
proof -
  obtain k l where k: "snd p = 64 * k" "n = 64 * l" using assms(1,2) by (auto simp: kCacheLine_def elim!: dvdE)
  have "i div 64 = j div 64" "64 * k \<le> i" "i < 64 * (k + l)" "b = fst p" "b' = b"
    using assms(3,4) k by (auto simp: region_def kCacheLine_def)
  moreover have "64 * k \<le> j" if "i div 64 = j div 64" "64 * k \<le> i"
    using div_le_mono [OF that(2), of 64] times_div_less_eq_dividend [of 64 j] that(1) by simp
  moreover have "j < 64 * m" if "i div 64 = j div 64" "i < 64 * m" for m
    using that by (metis div_less_iff_less_mult mult.commute zero_less_numeral)
  ultimately have "64 * k \<le> j" "j < 64 * (k + l)" "b' = fst p" by blast+
  then show ?thesis using k by (simp add: region_def)
qed

lemma regions_apart:
  assumes "sorted_wrt (\<lambda>R S. R \<inter> S = {}) Rs" "i < length Rs" "j < length Rs" "i \<noteq> j"
  shows "Rs ! i \<inter> Rs ! j = {}"
  using sorted_wrt_nth_less [OF assms(1), of i j] sorted_wrt_nth_less [OF assms(1), of j i] assms(2-4) by (cases "i < j") auto

text \<open>C23: whatever keys are inserted in whatever order, the table then scans as the sorted list of them and contains
  exactly them; the keys it holds are its own copies, each in arena bytes no other key uses.\<close>

theorem mem_table_correct:
  fixes isa mem
  defines "T \<equiv> string_view_traits isa mem"
  assumes "\<forall>n. grants n" "arena_ok A" "\<forall>k \<in> set ks. length k \<le> 2 ^ 62"
  shows "\<exists>M. Option.bind (new_mem_table grants T A) (insert_keys grants T draws cas 0 ks) = Some M \<and>
    map_option (map sv_bytes) (scan_table (mt_table M)) = Some (sort ks) \<and>
    (\<forall>key. contains_key T M key = Some (sv_bytes key \<in> set ks)) \<and>
    (\<forall>v \<in> set (entries (mt_table M)). key_region v \<subseteq> chunk_bytes (mt_arena M)) \<and>
    sorted_wrt (\<lambda>v w. key_region v \<inter> key_region w = {}) (entries (mt_table M))"
proof -
  have T: "ordered_traits T" unfolding T_def by (rule sv.ordered_traits_axioms)
  obtain M0 where 0: "new_mem_table grants T A = Some M0" "mem_table_ok T M0" "entries (mt_table M0) = []"
    by (rule new_mem_table_ok [OF assms(2,3)])
  obtain M where 1: "insert_keys grants T draws cas 0 ks M0 = Some M" "mem_table_ok T M" "mset (map sv_bytes (entries (mt_table M))) = mset ks"
    using insert_keys_ok [OF T 0(2) assms(2,4), of draws cas 0] 0(3) by auto
  note ok = 1(2) [unfolded mem_table_ok_def keys_owned_def]
  have "sorted (map sv_bytes (entries (mt_table M)))"
    using ordered_traits.table_sorted [OF T, of "mt_table M"] ok by (simp add: T_def compare_keys_le sorted_map)
  then have sort: "map sv_bytes (entries (mt_table M)) = sort ks" using 1(3) by (metis properties_for_sort)
  have set: "sv_bytes ` set (entries (mt_table M)) = set ks" using sort by (metis set_map set_sort)
  have image: "(\<exists>v \<in> V. sv_bytes v = b) \<longleftrightarrow> b \<in> sv_bytes ` V" for V b by blast
  have "contains_key T M key = Some (sv_bytes key \<in> sv_bytes ` set (entries (mt_table M)))" for key
    using ordered_memtable.member [OF ordered_traits.memtable [OF T], of "mt_table M" key] ok
    by (simp add: contains_key_def T_def compare_keys_order image)
  note this [unfolded set]
  then show ?thesis
    using 0(1) 1(1) ok sort scan_entries(1) [of T "mt_table M"] in_use_chunk_bytes [of "mt_arena M"] by (auto intro!: exI [of _ M])
qed

theorem mem_table_correct_witness:
  "\<exists>M. Option.bind (new_mem_table (\<lambda>_. True) (string_view_traits Avx2 (\<lambda>_ _. 0)) new_arena)
      (insert_keys (\<lambda>_. True) (string_view_traits Avx2 (\<lambda>_ _. 0)) (\<lambda>_ _. 1) (\<lambda>_ _ _. True) 0 [[3, 1], [], [3]]) = Some M \<and>
    map_option (map sv_bytes) (scan_table (mt_table M)) = Some [[], [3], [3, 1]]"
  using mem_table_correct [of "\<lambda>_. True" new_arena "[[3, 1], [], [3]]" Avx2 "\<lambda>_ _. 0" "\<lambda>_ _. 1" "\<lambda>_ _ _. True"] new_arena_ok(1)
  by auto

text \<open>C31: no list node and no payload ever shares a cache line with anything else the arena hands out, key copies included:
  writers of different nodes never touch the same line.\<close>

theorem nodes_own_their_lines:
  assumes "\<forall>r \<in> set rs. lawful_request r" "\<forall>n. grants n"
  shows "\<exists>ps A. allocate_all grants new_arena rs = Some (ps, A) \<and> length ps = length rs \<and>
    (\<forall>i < length rs. \<forall>j < length rs. i \<noteq> j \<and> rs ! i \<in> set (core_requests 1 1) \<longrightarrow>
      lines (ps ! i) (unat (fst (rs ! i))) \<inter> lines (ps ! j) (unat (fst (rs ! j))) = {})"
proof -
  obtain ps A where r: "allocate_all grants new_arena rs = Some (ps, A)" "length ps = length rs"
    "list_all2 (\<lambda>p r. unat (snd r) dvd snd p) ps rs" "sorted_wrt (\<lambda>R S. R \<inter> S = {}) (regions ps rs)"
    using allocate_all_ok [OF new_arena_ok(1) assms] by blast
  have "lines (ps ! i) (unat (fst (rs ! i))) \<inter> lines (ps ! j) (unat (fst (rs ! j))) = {}"
    if ij: "i < length rs" "j < length rs" "i \<noteq> j" and core: "rs ! i \<in> set (core_requests 1 1)" for i j
  proof -
    have "regions ps rs ! i \<inter> regions ps rs ! j = {}" using regions_apart [OF r(4)] ij r(2) by simp
    then have apart: "region (ps ! i) (unat (fst (rs ! i))) \<inter> region (ps ! j) (unat (fst (rs ! j))) = {}" using ij r(2) by simp
    have "unat (snd (rs ! i)) dvd snd (ps ! i)" using list_all2_nthD2 [OF r(3) ij(1)] by simp
    then have "kCacheLine dvd snd (ps ! i)" "kCacheLine dvd unat (fst (rs ! i))"
      using core by (auto simp: core_requests_def core_sizes kAlign_def kCacheLine_def)
    note whole = whole_lines [OF this]
    show ?thesis
    proof (rule ccontr)
      assume "\<not> ?thesis"
      then obtain b x b' y where "(b, x) \<in> region (ps ! i) (unat (fst (rs ! i)))" "(b', y) \<in> region (ps ! j) (unat (fst (rs ! j)))"
        "(b, x div kCacheLine) = (b', y div kCacheLine)" by (auto simp: lines_def)
      then show False using whole [of b x b' y] apart by blast
    qed
  qed
  then show ?thesis using r(1,2) by blast
qed

theorem nodes_own_their_lines_witness:
  "\<exists>ps A. allocate_all (\<lambda>_. True) new_arena [(5, 1), (sizeof_node_data, kAlign), (7, 1)] = Some (ps, A) \<and>
    lines (ps ! 1) 384 \<inter> lines (ps ! 2) 7 = {}"
proof -
  let ?rs = "[(5, 1), (sizeof_node_data, kAlign), (7, 1)]"
  have "\<forall>r \<in> set ?rs. lawful_request r"
    by (auto simp: lawful_request_def core_sizes kAlign_def intro: exI [of _ 0] exI [of _ 6])
  from nodes_own_their_lines [OF this, of "\<lambda>_. True"] obtain ps A where
    r: "allocate_all (\<lambda>_. True) new_arena ?rs = Some (ps, A)" and
    apart: "\<forall>i < 3. \<forall>j < 3. i \<noteq> j \<and> ?rs ! i \<in> set (core_requests 1 1) \<longrightarrow>
      lines (ps ! i) (unat (fst (?rs ! i))) \<inter> lines (ps ! j) (unat (fst (?rs ! j))) = {}"
    by (auto simp: numeral_3_eq_3)
  have "lines (ps ! 1) (unat (fst (?rs ! 1))) \<inter> lines (ps ! 2) (unat (fst (?rs ! 2))) = {}"
    using apart [rule_format, of 1 2] by (simp add: core_requests_def)
  then show ?thesis using r by (simp add: core_sizes)
qed

end
