(* ===== verification/Adapter.thy ===== *)
theory Adapter
  imports Arena Memtable_Contract Two_Nodes
begin

text \<open>
  The RocksDB adapter, \<^verbatim>\<open>plugin/aparajita/aparajita_memtable.cc\<close> and \<^verbatim>\<open>.h\<close>: \<^verbatim>\<open>AparajitaTraits\<close> gives the
  shared core RocksDB's entries, comparator and allocator, and \<^verbatim>\<open>AparajitaRep\<close> is the \<^verbatim>\<open>MemTableRep\<close> over it.

  RocksDB itself is the record \<open>host\<close>: what its functions answer on the entries the adapter is handed. An
  entry is the \<^verbatim>\<open>const char*\<close> to a length-prefixed internal key, a value of the type parameter. What the
  adapter relies on is \<open>host_contract\<close>: the comparator is a total preorder, every internal key carries its
  tag, and RocksDB's own comparator under the default user comparator orders by user key first.
\<close>

record 'e host =
  length_prefixed_slice :: "'e \<Rightarrow> bytes"
  bytes_beyond :: "'e \<Rightarrow> nat \<Rightarrow> u8"
  key_comparator :: "'e \<Rightarrow> 'e \<Rightarrow> int"
  null_pointer :: 'e
  encode_key :: "bytes \<Rightarrow> 'e"
  use_rtti :: bool
  known_comparator :: "string option option"
  bytewise_name :: string

text \<open>
  \<^const>\<open>known_comparator\<close> is what the \<^verbatim>\<open>dynamic_cast\<close> finds: no \<^verbatim>\<open>MemTable::KeyComparator\<close>, one without a user
  comparator, or one whose user comparator has that name.
\<close>

definition AparajitaHintOrdering :: "'e host \<Rightarrow> bool" where
  "AparajitaHintOrdering R =
     (if use_rtti R
      then (case known_comparator R of
              None \<Rightarrow> False
            | Some user \<Rightarrow> (case user of None \<Rightarrow> False | Some name \<Rightarrow> name = bytewise_name R))
      else False)"

definition kInternalKeyTagLen :: nat where "kInternalKeyTagLen = 8"

definition user_key :: "'e host \<Rightarrow> 'e \<Rightarrow> bytes" where
  "user_key R e = (let internal_key = length_prefixed_slice R e in take (length internal_key - kInternalKeyTagLen) internal_key)"

definition aparajita_traits :: "isa \<Rightarrow> 'e host \<Rightarrow> 'e traits" where
  "aparajita_traits isa R =
     \<lparr>order_bytes = user_key R,
      beyond = bytes_beyond R,
      compare = key_comparator R,
      null_entry = null_pointer R,
      hint_ordering = AparajitaHintOrdering R,
      host_isa = isa\<rparr>"

text \<open>\<^verbatim>\<open>AparajitaTraits::allocate\<close>: what \<^verbatim>\<open>AllocateAligned\<close> returned for the enlarged request, rounded up.\<close>

definition align_request :: "u64 \<Rightarrow> u64 \<Rightarrow> u64" where
  "align_request bytes align = bytes + align - 1"

definition align_address :: "u64 \<Rightarrow> u64 \<Rightarrow> u64" where
  "align_address addr align = (addr + align - 1) AND NOT (align - 1)"

section \<open>The representation\<close>

record 'e aparajita_rep =
  rep_traits :: "'e traits"
  rep_table :: "'e table"

definition new_rep :: "isa \<Rightarrow> 'e host \<Rightarrow> 'e aparajita_rep" where
  "new_rep isa R = (let T = aparajita_traits isa R in \<lparr>rep_traits = T, rep_table = new_table T\<rparr>)"

definition rep_insert :: "(nat \<Rightarrow> u32) \<Rightarrow> (nat \<Rightarrow> nat \<Rightarrow> bool) \<Rightarrow> 'e aparajita_rep \<Rightarrow> 'e \<Rightarrow> 'e aparajita_rep option" where
  "rep_insert draws cas r handle =
     map_option (\<lambda>t. r\<lparr>rep_table := t\<rparr>) (insert_entry (rep_traits r) draws cas (rep_table r) handle)"

definition rep_insert_concurrently ::
  "(nat \<Rightarrow> u32) \<Rightarrow> (nat \<Rightarrow> nat \<Rightarrow> bool) \<Rightarrow> 'e aparajita_rep \<Rightarrow> 'e \<Rightarrow> 'e aparajita_rep option" where
  "rep_insert_concurrently draws cas r handle =
     map_option (\<lambda>t. r\<lparr>rep_table := t\<rparr>) (insert_entry (rep_traits r) draws cas (rep_table r) handle)"

definition rep_contains :: "'e aparajita_rep \<Rightarrow> 'e \<Rightarrow> bool option" where
  "rep_contains r key = contains_target (rep_traits r) (rep_table r) key"

definition approximate_memory_usage :: "'e aparajita_rep \<Rightarrow> u64" where
  "approximate_memory_usage r = 0"

text \<open>\<^verbatim>\<open>Get\<close>: the callback takes its argument and an entry, and says whether it wants the next one.\<close>

partial_function (option) get_from :: "'e table \<Rightarrow> ('a \<Rightarrow> 'e \<Rightarrow> 'a \<times> bool) \<Rightarrow> iterator \<Rightarrow> 'a \<Rightarrow> 'a option" where
  "get_from t callback it arg =
     (if valid it
      then (case callback arg (it_key t it) of
              (arg, again) \<Rightarrow> if again then Option.bind (next_entry t it) (\<lambda>it. get_from t callback it arg) else Some arg)
      else Some arg)"

declare get_from.simps [code]

definition rep_get :: "'e aparajita_rep \<Rightarrow> 'e \<Rightarrow> ('a \<Rightarrow> 'e \<Rightarrow> 'a \<times> bool) \<Rightarrow> 'a \<Rightarrow> 'a option" where
  "rep_get r memtable_key callback arg =
     Option.bind (seek (rep_traits r) (rep_table r) memtable_key new_iterator)
       (\<lambda>it. get_from (rep_table r) callback it arg)"

text \<open>
  \<^verbatim>\<open>UniqueRandomSample\<close>: the generator is a stream of draws fixed by its seed. Dividing by \<open>seen + 1\<close> after
  \<open>2 ^ 64 - 1\<close> entries would divide by zero, the value \<^const>\<open>None\<close>.
\<close>

definition sample_step :: "(nat \<Rightarrow> u64) \<Rightarrow> u64 \<Rightarrow> u64 \<Rightarrow> 'e \<Rightarrow> nat \<times> 'e list \<Rightarrow> (nat \<times> 'e list) option" where
  "sample_step rng target seen e = (\<lambda>(drawn, reservoir).
     if length reservoir < unat target then Some (drawn, reservoir @ [e])
     else if seen + 1 = 0 then None
     else
       let j = rng drawn mod (seen + 1)
       in Some (Suc drawn, if j < target then reservoir[unat j := e] else reservoir))"

partial_function (option) sample_from ::
  "'e table \<Rightarrow> (nat \<Rightarrow> u64) \<Rightarrow> u64 \<Rightarrow> iterator \<Rightarrow> u64 \<Rightarrow> nat \<times> 'e list \<Rightarrow> (nat \<times> 'e list) option" where
  "sample_from t rng target it seen s =
     (if valid it
      then Option.bind (sample_step rng target seen (it_key t it) s) (\<lambda>s.
           Option.bind (next_entry t it) (\<lambda>it. sample_from t rng target it (seen + 1) s))
      else Some s)"

declare sample_from.simps [code]

text \<open>The reservoir's memory is taken to be there: a \<^verbatim>\<open>reserve\<close> that throws for a huge target is not modelled.\<close>

definition unique_random_sample :: "(u64 \<Rightarrow> nat \<Rightarrow> u64) \<Rightarrow> 'e aparajita_rep \<Rightarrow> u64 \<Rightarrow> u64 \<Rightarrow> 'e set option" where
  "unique_random_sample mt19937_64 r num_entries target_sample_size =
     (if target_sample_size = 0 \<or> num_entries = 0 then Some {}
      else
        Option.bind (begin_iterator (rep_table r)) (\<lambda>it.
          map_option (\<lambda>(drawn, reservoir). set reservoir)
            (sample_from (rep_table r) (mt19937_64 (num_entries * 1000003 + target_sample_size)) target_sample_size it 0 (0, []))))"

section \<open>The iterator\<close>

text \<open>
  \<^verbatim>\<open>AparajitaIterator\<close> wraps the structure's iterator. Its assertions are the value \<^const>\<open>None\<close>. \<^verbatim>\<open>Seek\<close> takes an
  internal key and, when it is not null, the same key already encoded.
\<close>

definition ri_valid :: "iterator \<Rightarrow> bool" where
  "ri_valid it = valid it"

definition ri_key :: "'e aparajita_rep \<Rightarrow> iterator \<Rightarrow> 'e option" where
  "ri_key r it = (if ri_valid it then Some (it_key (rep_table r) it) else None)"

definition ri_next :: "'e aparajita_rep \<Rightarrow> iterator \<Rightarrow> iterator option" where
  "ri_next r it = (if ri_valid it then next_entry (rep_table r) it else None)"

definition ri_prev :: "'e aparajita_rep \<Rightarrow> iterator \<Rightarrow> iterator option" where
  "ri_prev r it = (if ri_valid it then prev_entry (rep_traits r) (rep_table r) it else None)"

definition ri_seek :: "'e host \<Rightarrow> 'e aparajita_rep \<Rightarrow> bytes \<Rightarrow> 'e option \<Rightarrow> iterator \<Rightarrow> iterator option" where
  "ri_seek R r internal_key memtable_key it =
     seek (rep_traits r) (rep_table r) (case memtable_key of Some k \<Rightarrow> k | None \<Rightarrow> encode_key R internal_key) it"

definition ri_seek_for_prev :: "'e host \<Rightarrow> 'e aparajita_rep \<Rightarrow> bytes \<Rightarrow> 'e option \<Rightarrow> iterator \<Rightarrow> iterator option" where
  "ri_seek_for_prev R r internal_key memtable_key it =
     seek_for_prev (rep_traits r) (rep_table r) (case memtable_key of Some k \<Rightarrow> k | None \<Rightarrow> encode_key R internal_key) it"

definition ri_seek_to_first :: "'e aparajita_rep \<Rightarrow> iterator \<Rightarrow> iterator option" where
  "ri_seek_to_first r it = seek_to_first (rep_table r) it"

definition ri_seek_to_last :: "'e aparajita_rep \<Rightarrow> iterator \<Rightarrow> iterator option" where
  "ri_seek_to_last r it = seek_to_last (rep_traits r) (rep_table r) it"

section \<open>The contract with RocksDB\<close>

definition host_contract :: "'e host \<Rightarrow> bool" where
  "host_contract R \<longleftrightarrow>
     (\<forall>a b. key_comparator R a b < 0 \<longleftrightarrow> key_comparator R b a > 0) \<and>
     (\<forall>a b c. key_comparator R a b \<le> 0 \<longrightarrow> key_comparator R b c \<le> 0 \<longrightarrow> key_comparator R a c \<le> 0) \<and>
     (\<forall>e. kInternalKeyTagLen \<le> length (length_prefixed_slice R e)) \<and>
     (known_comparator R = Some (Some (bytewise_name R)) \<longrightarrow>
       (\<forall>a b. compare_keys (user_key R a) (user_key R b) < 0 \<longrightarrow> key_comparator R a b < 0))"

lemma hints_only_when_known: "AparajitaHintOrdering R \<Longrightarrow> known_comparator R = Some (Some (bytewise_name R))"
  by (simp add: AparajitaHintOrdering_def split: if_splits option.splits)

lemma aparajita_traits_simps [simp]:
  "order_bytes (aparajita_traits isa R) = user_key R" "compare (aparajita_traits isa R) = key_comparator R"
  "hint_ordering (aparajita_traits isa R) = AparajitaHintOrdering R"
  by (simp_all add: aparajita_traits_def)

text \<open>The core's contract holds under any lawful comparator, because hints are on only where it is known.\<close>

lemma adapter_ordered: "host_contract R \<Longrightarrow> ordered_traits (aparajita_traits isa R)"
proof (unfold_locales, goal_cases)
  case (1 a b)
  then show ?case by (simp add: host_contract_def)
next
  case (2 a b c)
  then show ?case unfolding aparajita_traits_simps host_contract_def by blast
next
  case (3 a b)
  note laws = 3(1) [unfolded host_contract_def]
  have known: "known_comparator R = Some (Some (bytewise_name R))" using 3(2) by (simp add: hints_only_when_known)
  have up: "key_comparator R a b < 0" if "compare_keys (user_key R a) (user_key R b) < 0" for a b using laws known that by blast
  have "user_key R a \<noteq> user_key R b" using 3(3) by auto
  then have "compare_keys (user_key R a) (user_key R b) < 0 \<or> compare_keys (user_key R b) (user_key R a) < 0"
    by (auto simp: compare_keys_less neq_iff)
  then show ?case using up [of a b] up [of b a] laws unfolding aparajita_traits_simps by (metis order_less_asym)
qed

section \<open>Loops over the table\<close>

text \<open>What \<^verbatim>\<open>Get\<close> promises: the callback sees the entries in order until it declines one.\<close>

fun feed :: "('a \<Rightarrow> 'e \<Rightarrow> 'a \<times> bool) \<Rightarrow> 'a \<Rightarrow> 'e list \<Rightarrow> 'a" where
  "feed callback arg [] = arg"
| "feed callback arg (e # es) = (case callback arg e of (arg, again) \<Rightarrow> if again then feed callback arg es else arg)"

lemma get_from_feed:
  assumes "chain_ok T t ns" "reaches t ns i (Some it)"
  shows "get_from t callback it arg = Some (feed callback arg (drop i (chain_entries t ns)))"
proof -
  have "\<forall>arg. get_from t callback it arg = Some (feed callback arg (drop i (chain_entries t ns)))"
    by (rule visit_induct [OF assms]) (subst get_from.simps, simp split: prod.splits)+
  then show ?thesis by simp
qed

text \<open>One step of the reservoir: it fills up to the target, then an entry replaces another or is dropped.\<close>

lemma sample_step_ok:
  assumes "unat seen + 1 < 2 ^ 64" "length reservoir \<le> unat target"
  obtains drawn' reservoir' where "sample_step rng target seen e (drawn, reservoir) = Some (drawn', reservoir')"
    "mset reservoir' \<subseteq># add_mset e (mset reservoir)" "length reservoir' = min (unat target) (Suc (length reservoir))"
proof (cases "length reservoir < unat target")
  case True
  then show thesis using that [of drawn "reservoir @ [e]"] by (simp add: sample_step_def)
next
  case False
  then have full: "length reservoir = unat target" using assms(2) by simp
  have "unat (seen + 1) = unat seen + 1" using assms(1) by (subst unat_add_lem [THEN iffD1]) simp_all
  then have nz: "seen + 1 \<noteq> 0" by auto
  let ?j = "rng drawn mod (seen + 1)"
  let ?r = "if ?j < target then reservoir[unat ?j := e] else reservoir"
  have "mset ?r \<subseteq># add_mset e (mset reservoir)"
    using full by (auto simp: mset_update word_less_nat_alt intro: subset_mset.order_trans [OF _ mset_subset_eq_add_right])
  then show thesis
    using that [of "Suc drawn" ?r] False nz full by (simp add: sample_step_def Let_def)
qed

lemma sample_from_ok:
  fixes t :: "'e table"
  assumes "chain_ok T t ns" "reaches t ns i (Some it)"
    and "unat seen + length (drop i (chain_entries t ns)) < 2 ^ 64" "length reservoir \<le> unat target"
  shows "\<exists>drawn' xs. sample_from t rng target it seen (drawn, reservoir) = Some (drawn', xs) \<and>
    mset xs \<subseteq># mset reservoir + mset (drop i (chain_entries t ns)) \<and>
    length xs = min (unat target) (length reservoir + length (drop i (chain_entries t ns)))"
proof -
  let ?P = "\<lambda>it es. \<forall>seen drawn reservoir. unat seen + length es < 2 ^ 64 \<longrightarrow> length reservoir \<le> unat target \<longrightarrow>
    (\<exists>drawn' xs. sample_from t rng target it seen (drawn, reservoir) = Some (drawn', xs) \<and>
      mset xs \<subseteq># mset reservoir + mset es \<and> length xs = min (unat target) (length reservoir + length es))"
  have "?P it (drop i (chain_entries t ns))"
  proof (rule visit_induct [OF assms(1,2)], goal_cases)
    case (1 it)
    then show ?case by (subst sample_from.simps) auto
  next
    case (2 it it' es)
    show ?case
    proof (intro allI impI)
      fix seen :: u64 and drawn :: nat and reservoir :: "'e list"
      assume s: "unat seen + length (it_key t it # es) < 2 ^ 64" "length reservoir \<le> unat target"
      have seen: "unat (seen + 1) = unat seen + 1" using s(1) by (subst unat_add_lem [THEN iffD1]) simp_all
      have lt: "unat seen + 1 < 2 ^ 64" using s(1) by simp
      obtain d1 r1 where 1: "sample_step rng target seen (it_key t it) (drawn, reservoir) = Some (d1, r1)"
        "mset r1 \<subseteq># add_mset (it_key t it) (mset reservoir)" "length r1 = min (unat target) (Suc (length reservoir))"
        by (rule sample_step_ok [OF lt s(2)])
      have "unat (seen + 1) + length es < 2 ^ 64" "length r1 \<le> unat target" using s(1) seen 1(3) by simp_all
      then obtain d2 xs where 2: "sample_from t rng target it' (seen + 1) (d1, r1) = Some (d2, xs)"
        "mset xs \<subseteq># mset r1 + mset es" "length xs = min (unat target) (length r1 + length es)"
        using 2(3) by blast
      have "mset xs \<subseteq># mset reservoir + mset (it_key t it # es)"
        using subset_mset.order_trans [OF 2(2) subset_mset.add_right_mono [OF 1(2), of "mset es"]] by simp
      then show "\<exists>drawn' xs. sample_from t rng target it seen (drawn, reservoir) = Some (drawn', xs) \<and>
          mset xs \<subseteq># mset reservoir + mset (it_key t it # es) \<and> length xs = min (unat target) (length reservoir + length (it_key t it # es))"
        using \<open>valid it\<close> \<open>next_entry t it = Some it'\<close> 1 2 by (subst sample_from.simps) auto
    qed
  qed
  then show ?thesis using assms(3,4) by blast
qed

section \<open>The representation is a memtable\<close>

text \<open>An insert through either entry point, and a scan through the iterator RocksDB is given.\<close>

definition rep_step :: "'e aparajita_rep \<Rightarrow> 'e \<Rightarrow> 'e aparajita_rep \<Rightarrow> bool" where
  "rep_step r e r' \<longleftrightarrow> (\<exists>draws cas. rep_insert draws cas r e = Some r' \<or> rep_insert_concurrently draws cas r e = Some r')"

partial_function (option) rep_scan_from :: "'e aparajita_rep \<Rightarrow> iterator \<Rightarrow> 'e list option" where
  "rep_scan_from r it =
     (if ri_valid it
      then Option.bind (ri_key r it) (\<lambda>k. Option.bind (ri_next r it) (\<lambda>it'.
           Option.bind (rep_scan_from r it') (\<lambda>ks. Some (k # ks))))
      else Some [])"

definition rep_scan :: "'e aparajita_rep \<Rightarrow> 'e list option" where
  "rep_scan r = Option.bind (ri_seek_to_first r new_iterator) (rep_scan_from r)"

definition rep_ok :: "isa \<Rightarrow> 'e host \<Rightarrow> 'e aparajita_rep \<Rightarrow> bool" where
  "rep_ok isa R r \<longleftrightarrow> rep_traits r = aparajita_traits isa R \<and> table_ok (aparajita_traits isa R) (rep_table r)"

lemma rep_step_iff:
  "rep_step r e r' \<longleftrightarrow> (\<exists>t. insert_step (rep_traits r) (rep_table r) e t \<and> r' = r\<lparr>rep_table := t\<rparr>)"
  by (auto simp: rep_step_def insert_step_def rep_insert_def rep_insert_concurrently_def)

lemma rep_scan_entries:
  assumes "table_ok T (rep_table r)"
  shows "rep_scan r = Some (entries (rep_table r))"
proof -
  have ok: "chain_ok T (rep_table r) (level0 (rep_table r))" using assms by (simp add: table_ok_level0)
  obtain it where it: "ri_seek_to_first r new_iterator = Some it" "reaches (rep_table r) (level0 (rep_table r)) 0 (Some it)"
    using seek_to_first_reaches [OF ok, of new_iterator] by (auto simp: ri_seek_to_first_def reaches_def)
  have "rep_scan_from r it = Some (drop 0 (chain_entries (rep_table r) (level0 (rep_table r))))"
    by (rule visit_induct [OF ok it(2)]) (subst rep_scan_from.simps, simp add: ri_valid_def ri_key_def ri_next_def)+
  then show ?thesis using it(1) by (simp add: rep_scan_def entries_chain [OF ok])
qed

lemma adapter_memtable:
  assumes R: "host_contract R"
  shows "ordered_memtable (rep_ok isa R) (\<lambda>r. entries (rep_table r)) (key_comparator R) (new_rep isa R) rep_step rep_contains rep_scan"
proof -
  let ?T = "aparajita_traits isa R"
  have core: "ordered_memtable (table_ok ?T) entries (key_comparator R) (new_table ?T) (insert_step ?T) (contains_target ?T) scan_table"
    using ordered_traits.memtable [OF adapter_ordered [OF R]] by simp
  show ?thesis
  proof (unfold_locales, goal_cases)
    case 1 show ?case using ordered_memtable.empty(1) [OF core] by (simp add: rep_ok_def new_rep_def Let_def)
  next
    case 2 show ?case using ordered_memtable.empty(2) [OF core] by (simp add: new_rep_def Let_def)
  next
    case (3 r e) then show ?case using ordered_memtable.insert_total [OF core] unfolding rep_ok_def rep_step_iff by metis
  next
    case (4 r e r') then show ?case using ordered_memtable.insert_lawful [OF core] by (auto simp: rep_ok_def rep_step_iff)
  next
    case (5 r e r') then show ?case using ordered_memtable.insert_contents [OF core] by (auto simp: rep_ok_def rep_step_iff)
  next
    case (6 r) then show ?case using ordered_memtable.contents_sorted [OF core] by (simp add: rep_ok_def)
  next
    case (7 r e) then show ?case using ordered_memtable.member [OF core] by (simp add: rep_ok_def rep_contains_def)
  next
    case (8 r) then show ?case by (auto simp: rep_ok_def intro: rep_scan_entries)
  qed
qed

text \<open>The memory an enlarged request returns holds the aligned object.\<close>

lemma align_address_ok:
  assumes "unat addr \<le> 2 ^ 62" "unat n \<le> 2 ^ 62" "k \<le> 6"
  shows "2 ^ k dvd unat (align_address addr (2 ^ k))" "unat addr \<le> unat (align_address addr (2 ^ k))"
    "unat (align_address addr (2 ^ k)) + unat n \<le> unat addr + unat (align_request n (2 ^ k))"
proof -
  have req: "lawful_request (addr, 2 ^ k)" using assms by (auto simp: lawful_request_def)
  have eq: "align_address addr (2 ^ k) = rounded addr (2 ^ k)" by (simp add: align_address_def rounded_def)
  note b = rounded_bounds [OF req]
  have pow: "unat (2 ^ k :: u64) = 2 ^ k" "(2::nat) ^ k \<le> 64" using assms(3) pow2_small by simp_all
  have "unat (n + 2 ^ k) = unat n + 2 ^ k" using assms pow by (subst unat_add_lem [THEN iffD1]) simp_all
  moreover have "(1::u64) \<le> n + 2 ^ k" unfolding word_le_nat_alt calculation unsigned_1 by (rule trans_le_add2) simp
  ultimately have "unat (align_request n (2 ^ k)) = unat n + 2 ^ k - 1" by (simp add: align_request_def unat_sub)
  then show "2 ^ k dvd unat (align_address addr (2 ^ k))" "unat addr \<le> unat (align_address addr (2 ^ k))"
    "unat (align_address addr (2 ^ k)) + unat n \<le> unat addr + unat (align_request n (2 ^ k))"
    using b pow unfolding eq by simp_all
qed

section \<open>A host\<close>

text \<open>
  RocksDB's default comparator on entries given as a user key and the packed sequence number and type,
  newest first within a user key.
\<close>

definition tag_bytes :: "u64 \<Rightarrow> bytes" where
  "tag_bytes tag = map (\<lambda>i. ucast (drop_bit (8 * i) tag)) [0..<8]"

definition sample_host :: "(bytes \<times> u64) host" where
  "sample_host =
     \<lparr>length_prefixed_slice = (\<lambda>(u, tag). u @ tag_bytes tag),
      bytes_beyond = (\<lambda>_ _. 0),
      key_comparator = (\<lambda>(u, tag) (u', tag').
        if compare_keys u u' \<noteq> 0 then compare_keys u u' else if tag' < tag then -1 else if tag < tag' then 1 else 0),
      null_pointer = ([], 0),
      encode_key = (\<lambda>ik. (take (length ik - 8) ik, 0)),
      use_rtti = True,
      known_comparator = Some (Some ''leveldb.BytewiseComparator''),
      bytewise_name = ''leveldb.BytewiseComparator''\<rparr>"

lemma sample_host_simps [simp]:
  "user_key sample_host (u, tag) = u"
  "key_comparator sample_host (u, tag) (u', tag') =
    (if compare_keys u u' \<noteq> 0 then compare_keys u u' else if tag' < tag then -1 else if tag < tag' then 1 else 0)"
  "known_comparator sample_host = Some (Some ''leveldb.BytewiseComparator'')" "bytewise_name sample_host = ''leveldb.BytewiseComparator''"
  by (simp_all add: sample_host_def user_key_def kInternalKeyTagLen_def tag_bytes_def)

lemma sample_host_order:
  "key_comparator sample_host a b < 0 \<longleftrightarrow> fst a < fst b \<or> fst a = fst b \<and> snd b < snd a"
  "key_comparator sample_host a b > 0 \<longleftrightarrow> fst b < fst a \<or> fst a = fst b \<and> snd a < snd b"
  by (cases a; cases b; auto simp: compare_keys_order)+

lemma sample_host_lawful: "host_contract sample_host" "bytewise_traits (aparajita_traits isa sample_host)"
proof -
  have le: "key_comparator sample_host a b \<le> 0 \<longleftrightarrow> fst a < fst b \<or> fst a = fst b \<and> snd b \<le> snd a" for a b
    using sample_host_order(2) [of a b] by (auto simp: not_less [symmetric])
  have sign: "key_comparator sample_host a b < 0 \<longleftrightarrow> key_comparator sample_host b a > 0" for a b
    by (auto simp: sample_host_order)
  have trans: "key_comparator sample_host a b \<le> 0 \<Longrightarrow> key_comparator sample_host b c \<le> 0 \<Longrightarrow> key_comparator sample_host a c \<le> 0" for a b c
    by (auto simp: le)
  have first: "compare_keys (user_key sample_host a) (user_key sample_host b) < 0 \<Longrightarrow> key_comparator sample_host a b < 0" for a b
    by (cases a; cases b) simp
  have "kInternalKeyTagLen \<le> length (length_prefixed_slice sample_host e)" for e
    by (cases e) (simp add: sample_host_def tag_bytes_def kInternalKeyTagLen_def)
  then show "host_contract sample_host" unfolding host_contract_def using sign trans first by blast
  show "bytewise_traits (aparajita_traits isa sample_host)"
    by unfold_locales (use sign trans first in simp_all)
qed

definition sample_rep :: "(bytes \<times> u64) aparajita_rep" where
  "sample_rep = (let T = aparajita_traits Scalar sample_host
     in \<lparr>rep_traits = T, rep_table = two_nodes T [([1], 9), ([1], 5)] [([2], 7), ([3], 1)]\<rparr>)"

lemma sample_rep_ok:
  shows "rep_ok Scalar sample_host sample_rep" and "entries (rep_table sample_rep) = [([1], 9), ([1], 5), ([2], 7), ([3], 1)]"
proof -
  let ?T = "aparajita_traits Scalar sample_host" and ?a = "[([1], 9), ([1], 5)] :: (bytes \<times> u64) list" and ?b = "[([2], 7), ([3], 1)] :: (bytes \<times> u64) list"
  note T = sample_host_lawful(2) [of Scalar]
  have sorted: "sorted_wrt (le ?T) (?a @ ?b)" by (simp add: compare_keys_order)
  have len: "1 < length ?a" "length ?a \<le> kNodeCapacity" "1 < length ?b" "length ?b \<le> kNodeCapacity" by (simp_all add: node_consts)
  have short: "bytewise_traits.short_keys ?T (?a @ ?b)" unfolding bytewise_traits.short_keys_def [OF T] by simp
  note two = bytewise_traits.two_nodes_lanes [OF T sorted len short]
  show "rep_ok Scalar sample_host sample_rep" using two(1) by (simp add: rep_ok_def sample_rep_def table_lanes_ok_def Let_def)
  show "entries (rep_table sample_rep) = [([1], 9), ([1], 5), ([2], 7), ([3], 1)]" using two(2) by (simp add: sample_rep_def Let_def)
qed

section \<open>Properties\<close>

text \<open>C28: under any comparator RocksDB's contract allows, with hints or without, every history of \<^verbatim>\<open>Insert\<close> and
  \<^verbatim>\<open>InsertConcurrently\<close> calls completes; afterwards \<^verbatim>\<open>Contains\<close> is membership up to the comparator, and the
  iterator yields every inserted entry once, in comparator order.\<close>

theorem adapter_refines:
  assumes "host_contract R"
  shows "(\<exists>r. steps rep_step (new_rep isa R) es r) \<and>
    (\<forall>r. steps rep_step (new_rep isa R) es r \<longrightarrow>
      (\<forall>key. rep_contains r key = Some (\<exists>e \<in> set es. key_comparator R e key = 0)) \<and>
      (\<exists>xs. rep_scan r = Some xs \<and> mset xs = mset es \<and> sorted_wrt (\<lambda>a b. key_comparator R a b \<le> 0) xs))"
proof -
  note m = adapter_memtable [OF assms, of isa]
  show ?thesis
    using ordered_memtable.history_total [OF m ordered_memtable.empty(1) [OF m], of es]
      ordered_memtable.history_member [OF m] ordered_memtable.history_scan [OF m] by blast
qed

theorem adapter_refines_witness:
  "\<exists>r. steps rep_step (new_rep Avx2 sample_host) [([2], 1), ([1], 5), ([1], 9)] r \<and>
    rep_contains r ([1], 5) = Some True \<and> rep_contains r ([1], 6) = Some False"
proof -
  obtain r where r: "steps rep_step (new_rep Avx2 sample_host) [([2], 1), ([1], 5), ([1], 9)] r"
    using adapter_refines [OF sample_host_lawful(1), of Avx2 "[([2], 1), ([1], 5), ([1], 9)]"] by blast
  then have "rep_contains r key = Some (\<exists>e \<in> set [([2], 1), ([1], 5), ([1], 9)]. key_comparator sample_host e key = 0)" for key
    using adapter_refines [OF sample_host_lawful(1), of Avx2 "[([2], 1), ([1], 5), ([1], 9)]"] by blast
  then show ?thesis using r by (auto simp: compare_keys_order)
qed

text \<open>C32: on a table without duplicates, as sequence numbers make RocksDB's keys, \<^verbatim>\<open>Get\<close> returns, and hands the
  callback exactly the entries from the first one not below the lookup key on, in order, until it declines.\<close>

theorem get_correct:
  assumes "host_contract R" "rep_ok isa R r" "strict_keys (aparajita_traits isa R) (entries (rep_table r))"
  shows "rep_get r key callback arg =
    Some (feed callback arg (dropWhile (\<lambda>e. key_comparator R e key < 0) (entries (rep_table r))))"
proof -
  let ?T = "aparajita_traits isa R"
  have T: "rep_traits r = ?T" and ok: "chain_ok ?T (rep_table r) (level0 (rep_table r))"
    using assms(2) by (simp_all add: rep_ok_def table_ok_level0)
  note e = entries_chain [OF ok, symmetric]
  obtain k where k: "reaches (rep_table r) (level0 (rep_table r)) k (seek ?T (rep_table r) key new_iterator)"
    "k = lower_bound_of (\<lambda>x. key_comparator R x key < 0) (entries (rep_table r))"
    using ordered_traits.seek_reaches [OF adapter_ordered [OF assms(1)] ok, of key new_iterator] assms(3)
    unfolding e aparajita_traits_simps by metis
  then obtain it where it: "seek ?T (rep_table r) key new_iterator = Some it" "reaches (rep_table r) (level0 (rep_table r)) k (Some it)"
    by (auto simp: reaches_def)
  have "get_from (rep_table r) callback it arg = Some (feed callback arg (drop k (entries (rep_table r))))"
    by (rule get_from_feed [OF ok it(2), unfolded e])
  then show ?thesis unfolding rep_get_def T it(1) k(2) drop_lower_bound by simp
qed

theorem get_correct_witness:
  "rep_get sample_rep ([1], 7) (\<lambda>seen e. (seen @ [e], fst e = [1])) [] = Some [([1], 5), ([2], 7)]"
proof -
  have "strict_keys (aparajita_traits Scalar sample_host) (entries (rep_table sample_rep))"
    by (simp add: strict_keys_def sample_rep_ok(2) compare_keys_order)
  from get_correct [OF sample_host_lawful(1) sample_rep_ok(1) this, of "([1], 7)" "\<lambda>seen e. (seen @ [e], fst e = [1])" "[]"]
  show ?thesis
    by (simp add: sample_rep_ok(2) compare_keys_order)
qed

text \<open>C33: \<^verbatim>\<open>UniqueRandomSample\<close> returns entries of the table, none of them twice, and as many as asked for or as
  there are, whatever the generator draws; asked for none it returns none.\<close>

theorem sample_correct:
  assumes "table_ok T (rep_table r)" "length (entries (rep_table r)) < 2 ^ 64" "num \<noteq> 0"
  shows "\<exists>xs. unique_random_sample rng r num target = Some (set xs) \<and> mset xs \<subseteq># mset (entries (rep_table r)) \<and>
    length xs = min (unat target) (length (entries (rep_table r)))"
proof (cases "target = 0")
  case True
  then show ?thesis by (auto simp: unique_random_sample_def intro: exI [of _ "[]"])
next
  case False
  have ok: "chain_ok T (rep_table r) (level0 (rep_table r))" using assms(1) by (simp add: table_ok_level0)
  obtain it where it: "begin_iterator (rep_table r) = Some it" "reaches (rep_table r) (level0 (rep_table r)) 0 (Some it)"
    using seek_to_first_reaches [OF ok, of new_iterator] by (auto simp: begin_iterator_def reaches_def)
  show ?thesis
    using sample_from_ok [OF ok it(2), of 0 "[]" target "rng (num * 1000003 + target)" 0] assms(2,3) False it(1)
    by (auto simp: unique_random_sample_def entries_chain [OF ok])
qed

theorem sample_correct_witness:
  "\<exists>xs. unique_random_sample (\<lambda>seed i. seed + of_nat i) sample_rep 4 2 = Some (set xs) \<and> length xs = 2 \<and>
    mset xs \<subseteq># {#([1], 9), ([1], 5), ([2], 7), ([3], 1)#}"
proof -
  have "table_ok (aparajita_traits Scalar sample_host) (rep_table sample_rep)" using sample_rep_ok(1) by (simp add: rep_ok_def)
  from sample_correct [OF this, of 4 "\<lambda>seed i. seed + of_nat i" 2] show ?thesis by (auto simp: sample_rep_ok(2))
qed

end
