(* ===== verification/Plugin.thy ===== *)
theory Plugin
  imports Adapter Layout
begin

text \<open>
  What \<^verbatim>\<open>plugin/aparajita\<close> puts around the representation: the memory it takes from RocksDB's allocator for the
  core, the place its iterators are built in, the factory, and its registration under its two names.
  RocksDB's allocator, its arena and its object library are parameters; what the plugin relies on is
  \<open>allocator_contract\<close> and \<open>library_contract\<close>.
\<close>

section \<open>Memory\<close>

text \<open>\<open>allocate_aligned n s\<close> is the address \<^verbatim>\<open>AllocateAligned(n)\<close> returns, with the allocator's next state.\<close>

definition traits_allocate :: "(u64 \<Rightarrow> 's \<Rightarrow> u64 \<times> 's) \<Rightarrow> u64 \<Rightarrow> u64 \<Rightarrow> 's \<Rightarrow> u64 \<times> 's" where
  "traits_allocate allocate_aligned bytes align s =
     (let (raw, s) = allocate_aligned (align_request bytes align) s in (align_address raw align, s))"

definition bytes_at :: "u64 \<Rightarrow> u64 \<Rightarrow> nat set" where
  "bytes_at addr n = {unat addr..<unat addr + unat n}"

text \<open>\<open>given s\<close> are the bytes handed out so far.\<close>

definition allocator_contract :: "(u64 \<Rightarrow> 's \<Rightarrow> u64 \<times> 's) \<Rightarrow> ('s \<Rightarrow> nat set) \<Rightarrow> bool" where
  "allocator_contract allocate_aligned given \<longleftrightarrow>
     (\<forall>n s. case allocate_aligned n s of (raw, s') \<Rightarrow>
        unat raw \<le> 2 ^ 62 \<and> bytes_at raw n \<inter> given s = {} \<and> given s' = given s \<union> bytes_at raw n)"

lemma traits_allocate_ok:
  assumes "allocator_contract aa given" "unat n \<le> 2 ^ 62" "k \<le> 6" "traits_allocate aa n (2 ^ k) s = (p, s')"
  shows "2 ^ k dvd unat p" "bytes_at p n \<inter> given s = {}" "bytes_at p n \<subseteq> given s'" "given s \<subseteq> given s'"
proof -
  obtain raw where raw: "aa (align_request n (2 ^ k)) s = (raw, s')" "p = align_address raw (2 ^ k)"
    using assms(4) by (auto simp: traits_allocate_def Let_def split: prod.splits)
  have c: "unat raw \<le> 2 ^ 62" "bytes_at raw (align_request n (2 ^ k)) \<inter> given s = {}" "given s' = given s \<union> bytes_at raw (align_request n (2 ^ k))"
    using assms(1) raw(1) unfolding allocator_contract_def by (auto split: prod.splits)
  note a = align_address_ok [OF c(1) assms(2,3)]
  have "bytes_at p n \<subseteq> bytes_at raw (align_request n (2 ^ k))" using a(2,3) unfolding bytes_at_def raw(2) by auto
  then show "2 ^ k dvd unat p" "bytes_at p n \<inter> given s = {}" "bytes_at p n \<subseteq> given s'" "given s \<subseteq> given s'"
    using a(1) c(2,3) raw(2) by auto
qed

text \<open>Where an iterator lives: RocksDB passes an arena for short-lived ones. A \<^verbatim>\<open>std::string\<close> is \<open>string_size\<close> bytes.\<close>

datatype iterator_home = On_heap | In_arena u64

definition aparajita_iterator_members :: "nat \<Rightarrow> member list" where
  "aparajita_iterator_members string_size =
     [scalar ''vtable'' 8, scalar ''table_'' 8, scalar ''node_'' 8, scalar ''data_'' 8, scalar ''order_'' 8, scalar ''count_'' 4,
      scalar ''pos_'' 4, \<lparr>member_name = ''tmp_'', member_size = string_size, member_align = 8\<rparr>]"

definition get_iterator :: "(u64 \<Rightarrow> 's \<Rightarrow> u64 \<times> 's) \<Rightarrow> nat \<Rightarrow> 's option \<Rightarrow> iterator_home \<times> iterator \<times> 's option" where
  "get_iterator allocate_aligned string_size arena =
     (case arena of
        None \<Rightarrow> (On_heap, new_iterator, None)
      | Some s \<Rightarrow>
          let (mem, s) = allocate_aligned (of_nat (struct_size 1 (aparajita_iterator_members string_size))) s
          in (In_arena mem, new_iterator, Some s))"

section \<open>The factory\<close>

record 'e mem_table_rep_factory =
  factory_name :: string
  factory_nick_name :: string
  create_mem_table_rep :: "'e host \<Rightarrow> 'e aparajita_rep"
  insert_concurrently_supported :: bool

definition kClassName :: string where "kClassName = ''AparajitaMemTableFactory''"

definition kNickName :: string where "kNickName = ''aparajita''"

definition create_aparajita_rep :: "isa \<Rightarrow> 'e host \<Rightarrow> 'e aparajita_rep" where
  "create_aparajita_rep isa R = new_rep isa R"

definition aparajita_factory :: "isa \<Rightarrow> 'e mem_table_rep_factory" where
  "aparajita_factory isa =
     \<lparr>factory_name = kClassName,
      factory_nick_name = kNickName,
      create_mem_table_rep = create_aparajita_rep isa,
      insert_concurrently_supported = True\<rparr>"

section \<open>Registration\<close>

text \<open>
  RocksDB's \<^verbatim>\<open>ObjectLibrary\<close>: patterns of names, each with a factory function of the name asked for. What is
  looked up by a name is \<open>find_factory\<close>; the plugin itself only adds.
\<close>

record ('l, 'p, 'f) object_library =
  pattern_entry :: "string \<Rightarrow> bool \<Rightarrow> 'p"
  another_name :: "'p \<Rightarrow> string \<Rightarrow> 'p"
  accepts :: "'p \<Rightarrow> string \<Rightarrow> bool"
  add_factory :: "'l \<Rightarrow> 'p \<Rightarrow> (string \<Rightarrow> 'f) \<Rightarrow> 'l"
  get_factory_count :: "'l \<Rightarrow> u64"
  find_factory :: "'l \<Rightarrow> string \<Rightarrow> (string \<Rightarrow> 'f) option"

text \<open>An optional pattern accepts its name alone; every further name is accepted as well; what was found stays found.\<close>

definition library_contract :: "('l, 'p, 'f) object_library \<Rightarrow> bool" where
  "library_contract L \<longleftrightarrow>
     (\<forall>name. accepts L (pattern_entry L name True) name) \<and>
     (\<forall>p name. accepts L (another_name L p name) name) \<and>
     (\<forall>p name u. accepts L p u \<longrightarrow> accepts L (another_name L p name) u) \<and>
     (\<forall>l p f u. find_factory L l u = None \<longrightarrow> accepts L p u \<longrightarrow> find_factory L (add_factory L l p f) u = Some f) \<and>
     (\<forall>l p f u g. find_factory L l u = Some g \<longrightarrow> find_factory L (add_factory L l p f) u = Some g) \<and>
     (\<forall>l p f. get_factory_count L (add_factory L l p f) = get_factory_count L l + 1)"

text \<open>The count comes back as an \<^verbatim>\<open>int\<close>.\<close>

definition register_AparajitaMemTable ::
  "isa \<Rightarrow> ('l, 'p, 'e mem_table_rep_factory) object_library \<Rightarrow> 'l \<Rightarrow> int \<times> 'l" where
  "register_AparajitaMemTable isa L library =
     (let pattern = another_name L (pattern_entry L kClassName True) kNickName;
          library = add_factory L library pattern (\<lambda>uri. aparajita_factory isa)
      in (sint (ucast (get_factory_count L library) :: 32 word), library))"

lemma registered_names:
  assumes "library_contract L" "find_factory L library name = None" "name = kClassName \<or> name = kNickName"
  shows "find_factory L (snd (register_AparajitaMemTable isa L library)) name = Some (\<lambda>uri. aparajita_factory isa)"
proof -
  have "accepts L (another_name L (pattern_entry L kClassName True) kNickName) name"
    using assms(1,3) unfolding library_contract_def by blast
  then show ?thesis using assms(1,2) unfolding library_contract_def register_AparajitaMemTable_def Let_def snd_conv by blast
qed

text \<open>A library that keeps its factories in a list, first come first served.\<close>

definition list_library :: "((string list \<times> (string \<Rightarrow> 'f)) list, string list, 'f) object_library" where
  "list_library =
     \<lparr>pattern_entry = (\<lambda>name optional. [name]), another_name = (\<lambda>p name. name # p), accepts = (\<lambda>p u. u \<in> set p),
      add_factory = (\<lambda>l p f. l @ [(p, f)]), get_factory_count = (\<lambda>l. of_nat (length l)),
      find_factory = (\<lambda>l u. map_option snd (find (\<lambda>(p, f). u \<in> set p) l))\<rparr>"

lemma find_snoc: "find P (xs @ [x]) = (case find P xs of None \<Rightarrow> if P x then Some x else None | Some y \<Rightarrow> Some y)"
  by (induction xs) auto

lemma list_library_lawful: "library_contract list_library"
  unfolding library_contract_def list_library_def by (simp add: find_snoc split: option.splits prod.splits)

lemma int_of_count:
  assumes "unat c < 2 ^ 31 - 1"
  shows "sint (ucast (c + 1 :: u64) :: 32 word) = int (unat c) + 1"
proof -
  have "unat (c + 1) = unat c + 1" using assms by (subst unat_add_lem [THEN iffD1]) simp_all
  then have u: "uint (c + 1) = int (unat c) + 1" by (metis of_nat_1 of_nat_add uint_nat)
  have "sint (ucast (c + 1) :: 32 word) = signed_take_bit 31 (uint (c + 1))"
    by (simp add: sint_uint unsigned_ucast_eq signed_take_bit_take_bit)
  also have "\<dots> = uint (c + 1)"
  proof -
    have "int (unat c) + 1 < 2 ^ 31" using assms by (simp add: uint_nat del: of_nat_unat)
    then show ?thesis unfolding u by (intro signed_take_bit_int_eq_self) linarith+
  qed
  finally show ?thesis using u by simp
qed

section \<open>Properties\<close>

text \<open>C29: once the plugin has registered with a library that did not know its names, either name finds a factory that
  advertises concurrent inserts and makes working representations: every history of inserts into a new one completes, and
  its iterator then yields what was inserted, in comparator order. What the library found before it still finds.\<close>

theorem plugin_registers:
  assumes "library_contract L" "find_factory L library kClassName = None" "find_factory L library kNickName = None" "host_contract R"
  shows "\<exists>n library'. register_AparajitaMemTable isa L library = (n, library') \<and>
    (\<forall>name \<in> {kClassName, kNickName}. \<exists>f. find_factory L library' name = Some f \<and>
      (\<forall>uri. insert_concurrently_supported (f uri) \<and> factory_name (f uri) = kClassName \<and>
        (\<exists>r. steps rep_step (create_mem_table_rep (f uri) R) es r) \<and>
        (\<forall>r. steps rep_step (create_mem_table_rep (f uri) R) es r \<longrightarrow>
          (\<exists>xs. rep_scan r = Some xs \<and> mset xs = mset es \<and> sorted_wrt (\<lambda>a b. key_comparator R a b \<le> 0) xs)))) \<and>
    (\<forall>u g. find_factory L library u = Some g \<longrightarrow> find_factory L library' u = Some g) \<and>
    (unat (get_factory_count L library) < 2 ^ 31 - 1 \<longrightarrow> n = int (unat (get_factory_count L library)) + 1)"
proof -
  obtain n library' where r: "register_AparajitaMemTable isa L library = (n, library')" by fastforce
  note m = adapter_memtable [OF assms(4), of isa]
  have rep: "\<exists>r. steps rep_step (create_mem_table_rep (aparajita_factory isa) R) es r"
    "\<And>r. steps rep_step (create_mem_table_rep (aparajita_factory isa) R) es r \<Longrightarrow>
      \<exists>xs. rep_scan r = Some xs \<and> mset xs = mset es \<and> sorted_wrt (\<lambda>a b. key_comparator R a b \<le> 0) xs"
    using ordered_memtable.history_total [OF m ordered_memtable.empty(1) [OF m], of es] ordered_memtable.history_scan [OF m]
    by (simp_all add: aparajita_factory_def create_aparajita_rep_def)
  have find: "find_factory L library' name = Some (\<lambda>uri. aparajita_factory isa)" if "name \<in> {kClassName, kNickName}" for name
    using registered_names [OF assms(1), of library name isa] that assms(2,3) r by auto
  have keep: "find_factory L library' u = Some g" if "find_factory L library u = Some g" for u g
    using that assms(1) r unfolding library_contract_def register_AparajitaMemTable_def Let_def by auto
  have count: "n = int (unat (get_factory_count L library)) + 1" if "unat (get_factory_count L library) < 2 ^ 31 - 1"
    using int_of_count [OF that] assms(1) r by (auto simp: register_AparajitaMemTable_def library_contract_def Let_def)
  show ?thesis
    using r find rep keep count by (auto simp: aparajita_factory_def)
qed

theorem plugin_registers_witness:
  "\<exists>lib f r. register_AparajitaMemTable Avx2 list_library [] = (1, lib) \<and> find_factory list_library lib ''aparajita'' = Some f \<and>
    insert_concurrently_supported (f ''aparajita'') \<and>
    steps rep_step (create_mem_table_rep (f ''aparajita'') sample_host) [([2], 1), ([1], 5)] r \<and> rep_scan r = Some [([1], 5), ([2], 1)]"
proof -
  let ?es = "[([2], 1), ([1], 5)] :: (bytes \<times> u64) list"
  have none: "find_factory list_library [] u = None" "get_factory_count list_library [] = 0" for u by (simp_all add: list_library_def)
  note p = plugin_registers [OF list_library_lawful none(1) none(1) sample_host_lawful(1), of Avx2 ?es]
  obtain n lib f where reg: "register_AparajitaMemTable Avx2 list_library [] = (n, lib)" "n = 1"
    and f: "find_factory list_library lib kNickName = Some f"
      "insert_concurrently_supported (f ''aparajita'')"
      "\<exists>r. steps rep_step (create_mem_table_rep (f ''aparajita'') sample_host) ?es r"
      "\<And>r. steps rep_step (create_mem_table_rep (f ''aparajita'') sample_host) ?es r \<Longrightarrow>
        \<exists>xs. rep_scan r = Some xs \<and> mset xs = mset ?es \<and> sorted_wrt (\<lambda>a b. key_comparator sample_host a b \<le> 0) xs"
    using p by (auto simp: none)
  obtain r xs where r: "steps rep_step (create_mem_table_rep (f ''aparajita'') sample_host) ?es r"
    and xs: "rep_scan r = Some xs" "mset xs = mset ?es" "sorted_wrt (\<lambda>a b. key_comparator sample_host a b \<le> 0) xs"
    using f(3,4) by blast
  have "length xs = 2" using mset_eq_length [OF xs(2)] by simp
  then obtain x y where xy: "xs = [x, y]" by (auto simp: numeral_2_eq_2 length_Suc_conv)
  then have "xs = [([1], 5), ([2], 1)]" using xs(2,3) by (auto simp: add_eq_conv_ex compare_keys_order)
  then show ?thesis using reg f r xs(1) by (auto simp: kNickName_def)
qed

end
