(* ===== verification/Threads.thy ===== *)
theory Threads
  imports Two_Nodes
begin

text \<open>
  Threads that insert, look up and iterate in one table, store by store. A thread is the place in
  \<^verbatim>\<open>insert_entry\<close>, \<^verbatim>\<open>contains_target\<close> or the iterator it has come to, with its local variables. Every load and
  every store of shared memory is a step of its own, and any thread may take the next one; what happens
  between two steps is what another thread sees.

  Three things are taken as one step with the access they belong to: reads of plain fields that no
  one writes any more (a payload's \<^verbatim>\<open>next\<close> and prefix, a node's height, the slots an order word names), loads of
  a node's \<^verbatim>\<open>data\<close> and order word by the thread that holds its lock, since only that thread stores them, and
  the stores into the sibling and the payloads of a split, which no other thread can reach until the
  store that publishes them. Memory is sequentially consistent.
\<close>

text \<open>
  What a descent is for. \<open>Finding c node lv a\<close>: \<^verbatim>\<open>pred_at_level\<close> inside \<^verbatim>\<open>link_tower\<close>, for the new sibling \<open>node\<close>
  of the locked node \<open>c\<close>, on level \<open>lv\<close>, attempt \<open>a\<close>; \<open>Checking\<close>: the test that follows it.
\<close>

datatype purpose = Inserting | Looking | Seeking | Finding nat nat nat nat | Checking nat nat nat nat

text \<open>The next store of an append.\<close>

datatype append_store = StoreKey | StoreLane | StoreHint | StoreOrder

text \<open>
  \<open>Hop\<close>: on a level of a descent, about to load the successor; \<open>Test\<close>: about to load its hint; \<open>Tied\<close>: its
  payload; \<open>Peek\<close>: the order word of that payload; \<open>AtNode\<close>: the descent is over.

  \<open>Holding\<close>: the lock is taken; \<open>Behind\<close>, \<open>Recheck\<close>: in \<^verbatim>\<open>belongs_here\<close>, about to load the next node's payload and
  its order word; \<open>Moved\<close>: the key belongs elsewhere; \<open>Writing\<close>: it belongs here; \<open>Appending\<close>: in \<^verbatim>\<open>append\<close>, with the
  payload, its word and the rank; \<open>Splitting\<close>, \<open>Publishing\<close>: about to store the split node's hint and its
  payload; \<open>Link\<close>, \<open>Swap\<close>: about to store the sibling's tower pointer and to exchange the predecessor's;
  \<open>Inserted\<close>: about to drop the lock.

  \<open>Loaded\<close>, \<open>Snapped\<close>: a lookup with a payload, then with its order word; \<open>Answered\<close>: it has returned.

  \<open>Adopt\<close>, \<open>Snap\<close>: an iterator about to load a node's payload and the payload's word; \<open>Aim\<close>: about to search it
  for the target of a seek; \<open>On\<close>: positioned; \<open>Done\<close>: past the end. The lists record the entries that
  were there when the scan began, and those it has shown.
\<close>

datatype 'e thread =
    Idle
  | Hop purpose 'e nat nat
  | Test purpose 'e nat nat nat
  | Tied purpose 'e nat nat nat
  | Peek purpose 'e nat nat nat nat
  | AtNode purpose 'e nat
  | Holding 'e nat
  | Behind 'e nat nat
  | Recheck 'e nat nat nat
  | Moved 'e nat
  | Writing 'e nat
  | Appending append_store 'e nat nat u64 nat
  | Splitting 'e nat nat "'e list"
  | Publishing 'e nat nat "'e list"
  | Link nat nat nat nat 'e nat "nat option"
  | Swap nat nat nat nat 'e nat "nat option"
  | Inserted nat
  | Loaded 'e nat
  | Snapped 'e nat u64
  | Answered 'e bool
  | Adopt "'e list" "'e list" nat
  | Snap "'e option" "'e list" "'e list" nat
  | Aim 'e nat u64
  | On "'e list" "'e list" nat u64 nat
  | Done "'e list" "'e list"

text \<open>The rest of \<^verbatim>\<open>contains_target\<close> once it has a payload and a snapshot of its order word.\<close>

definition lookup_in :: "'e traits \<Rightarrow> 'e node_data \<Rightarrow> u64 \<Rightarrow> 'e \<Rightarrow> bool" where
  "lookup_in T d w key =
     (let n = order_count w; p = sorted_position T d w n key (order_bytes T key)
      in p < n \<and> compare T (key_at d w p) key = 0)"

lemma contains_target_lookup_in:
  "contains_target T t key =
     map_option (\<lambda>cur. lookup_in T (get_data t cur) (order (get_data t cur)) key) (descend T t key (order_bytes T key))"
  by (cases "descend T t key (order_bytes T key)") (simp_all add: contains_target_def lookup_in_def Let_def)

text \<open>The lowest level of a descent, where it starts, and where it goes on when the successor is not to be entered.\<close>

fun bottom_level :: "purpose \<Rightarrow> nat" where
  "bottom_level (Finding c node lv a) = lv"
| "bottom_level (Checking c node lv a) = lv"
| "bottom_level pu = 0"

definition begin_descent :: "purpose \<Rightarrow> 'e \<Rightarrow> 'e table \<Rightarrow> 'e thread" where
  "begin_descent pu key t = Hop pu key (kMaxHeight - 1) (head_node t)"

definition lower_level :: "purpose \<Rightarrow> 'e \<Rightarrow> nat \<Rightarrow> nat \<Rightarrow> 'e thread" where
  "lower_level pu key lv cur = (if lv \<le> bottom_level pu then AtNode pu key cur else Hop pu key (lv - 1) cur)"

text \<open>The heads of the two loops of \<^verbatim>\<open>link_tower\<close>: over the levels, and over the eight attempts on one.\<close>

definition link_from :: "'e table \<Rightarrow> nat \<Rightarrow> nat \<Rightarrow> nat \<Rightarrow> 'e \<Rightarrow> 'e thread" where
  "link_from t c node lv key =
     (if lv < unat (height (lnodes t ! node)) then begin_descent (Finding c node lv 0) key t else Inserted c)"

definition try_again :: "'e table \<Rightarrow> nat \<Rightarrow> nat \<Rightarrow> nat \<Rightarrow> nat \<Rightarrow> 'e \<Rightarrow> 'e thread" where
  "try_again t c node lv a key =
     (if a + 1 < 8 then begin_descent (Finding c node lv (a + 1)) key t else link_from t c node (lv + 1) key)"

text \<open>Where a test of \<open>nx\<close> leads: a descent enters it or not; linking retries or stores.\<close>

definition tested :: "'e table \<Rightarrow> purpose \<Rightarrow> 'e \<Rightarrow> nat \<Rightarrow> nat \<Rightarrow> nat \<Rightarrow> bool \<Rightarrow> 'e thread" where
  "tested t pu key lv cur nx below =
     (case pu of
        Checking c node l a \<Rightarrow> if below then try_again t c node l a key else Link c node l a key cur (Some nx)
      | _ \<Rightarrow> if below then Hop pu key lv nx else lower_level pu key lv cur)"

text \<open>What an append stores, one store at a time.\<close>

fun append_step :: "'e traits \<Rightarrow> 'e table \<Rightarrow> append_store \<Rightarrow> 'e \<Rightarrow> nat \<Rightarrow> nat \<Rightarrow> u64 \<Rightarrow> nat \<Rightarrow> 'e thread \<times> 'e table \<times> 'e list" where
  "append_step T t StoreKey key c p w rank =
     (Appending StoreLane key c p w rank, upd_payload t p (\<lambda>d. d\<lparr>slots := (slots d)[order_count w := key]\<rparr>), [])"
| "append_step T t StoreLane key c p w rank =
     (Appending (if rank = 0 then StoreHint else StoreOrder) key c p w rank,
      upd_payload t p (\<lambda>d. d\<lparr>surrogates := (surrogates d)[order_count w := append_lane T d w rank (order_bytes T key)]\<rparr>), [])"
| "append_step T t StoreHint key c p w rank = (Appending StoreOrder key c p w rank, publish_hint T t c key, [])"
| "append_step T t StoreOrder key c p w rank =
     (Inserted c, upd_payload t p (\<lambda>d. d\<lparr>order := order_insert w rank (order_count w)\<rparr>), [key])"

text \<open>
  One step of a thread: its next place, the table, and the entries the step inserted; \<^const>\<open>None\<close> when it
  waits. \<open>draws\<close> and \<open>cas\<close> are the chance of the sequential model.
\<close>

fun thread_step ::
  "'e traits \<Rightarrow> (nat \<Rightarrow> u32) \<Rightarrow> (nat \<Rightarrow> nat \<Rightarrow> bool) \<Rightarrow> 'e table \<Rightarrow> 'e thread \<Rightarrow> ('e thread \<times> 'e table \<times> 'e list) option" where
  "thread_step T draws cas t Idle = None"
| "thread_step T draws cas t (Hop pu key lv cur) =
     Some (case (if lv = 0 then next_of t cur else tower_at t lv cur) of
             None \<Rightarrow> lower_level pu key lv cur | Some nx \<Rightarrow> Test pu key lv cur nx, t, [])"
| "thread_step T draws cas t (Test pu key lv cur nx) =
     Some (let hint = search_hint t (order_bytes T key); h = first_hint (lnodes t ! nx)
           in if hints t \<and> h \<noteq> hint then tested t pu key lv cur nx (h < hint) else Tied pu key lv cur nx, t, [])"
| "thread_step T draws cas t (Tied pu key lv cur nx) = Some (Peek pu key lv cur nx (the (data (lnodes t ! nx))), t, [])"
| "thread_step T draws cas t (Peek pu key lv cur nx q) =
     Some (let d = payloads t ! q; w = order d
           in tested t pu key lv cur nx (order_count w > 0 \<and> compare T (key_at d w 0) key \<le> 0), t, [])"
| "thread_step T draws cas t (AtNode pu key cur) =
     (case pu of
        Inserting \<Rightarrow> map_option (\<lambda>t. (Holding key cur, t, [])) (acquire t cur)
      | Looking \<Rightarrow> Some (Loaded key (the (data (lnodes t ! cur))), t, [])
      | Seeking \<Rightarrow> Some (Snap (Some key) [] [] (the (data (lnodes t ! cur))), t, [])
      | Finding c node lv a \<Rightarrow>
          Some (if cur = node then link_from t c node (lv + 1) key
                else case tower_at t lv cur of
                    None \<Rightarrow> Link c node lv a key cur None
                  | Some nx \<Rightarrow> Test (Checking c node lv a) key lv cur nx, t, [])
      | Checking c node lv a \<Rightarrow> None)"
| "thread_step T draws cas t (Holding key c) =
     Some (case next_link (get_data t c) of None \<Rightarrow> Writing key c | Some n \<Rightarrow> Behind key c n, t, [])"
| "thread_step T draws cas t (Behind key c n) = Some (Recheck key c n (the (data (lnodes t ! n))), t, [])"
| "thread_step T draws cas t (Recheck key c n q) =
     Some (let nd = payloads t ! q; w = order nd
           in if order_count w = 0 \<or> compare T (key_at nd w 0) key > 0 then Writing key c else Moved key c, t, [])"
| "thread_step T draws cas t (Moved key c) = Some (begin_descent Inserting key t, release t c, [])"
| "thread_step T draws cas t (Writing key c) =
     Some (let p = the (data (lnodes t ! c)); d = payloads t ! p; w = order d; n = order_count w; bytes = order_bytes T key
           in if n < kNodeCapacity then Appending StoreKey key c p w (sorted_position T d w n key bytes)
              else Splitting key c p (merge T d w n key bytes), t, [])"
| "thread_step T draws cas t (Appending s key c p w rank) = Some (append_step T t s key c p w rank)"
| "thread_step T draws cas t (Splitting key c p merged) = Some (Publishing key c p merged, publish_hint T t c (hd merged), [])"
| "thread_step T draws cas t (Publishing key c p merged) =
     (let t' = split_payloads T draws t c (next_link (payloads t ! p)) merged; sibling = length (lnodes t)
      in Some (link_from t' c sibling 1 (slots (payloads t' ! length (payloads t)) ! 0), t', [key]))"
| "thread_step T draws cas t (Link c node lv a key pred nx) =
     Some (Swap c node lv a key pred nx, set_tower t node lv nx, [])"
| "thread_step T draws cas t (Swap c node lv a key pred nx) =
     Some (if tower_at t lv pred = nx \<and> cas lv a
           then (let t' = set_tower t pred lv (Some node) in (link_from t' c node (lv + 1) key, t', []))
           else (try_again t c node lv a key, t, []))"
| "thread_step T draws cas t (Inserted c) = Some (Idle, release t c, [])"
| "thread_step T draws cas t (Loaded key q) = Some (Snapped key q (order (payloads t ! q)), t, [])"
| "thread_step T draws cas t (Snapped key q w) = Some (Answered key (lookup_in T (payloads t ! q) w key), t, [])"
| "thread_step T draws cas t (Answered key b) = None"
| "thread_step T draws cas t (Adopt bs ys c) = Some (Snap None bs ys (the (data (lnodes t ! c))), t, [])"
| "thread_step T draws cas t (Snap target bs ys q) =
     Some (let w = order (payloads t ! q) in case target of None \<Rightarrow> On bs ys q w 0 | Some key \<Rightarrow> Aim key q w, t, [])"
| "thread_step T draws cas t (Aim key q w) =
     Some (On [] [] q w (sorted_position T (payloads t ! q) w (order_count w) key (order_bytes T key)), t, [])"
| "thread_step T draws cas t (On bs ys q w pos) =
     Some (if pos < order_count w then On bs (ys @ [key_at (payloads t ! q) w pos]) q w (pos + 1)
           else case next_link (payloads t ! q) of None \<Rightarrow> Done bs ys | Some n \<Rightarrow> Adopt bs ys n, t, [])"
| "thread_step T draws cas t (Done bs ys) = None"

section \<open>Worlds\<close>

record 'e world =
  shared :: "'e table"
  threads :: "'e thread list"
  inserted :: "'e list"

definition at_rest :: "'e thread \<Rightarrow> bool" where
  "at_rest th = (case th of Idle \<Rightarrow> True | Answered key b \<Rightarrow> True | Done bs ys \<Rightarrow> True | _ \<Rightarrow> False)"

text \<open>What a thread can be asked to do; \<open>Scan\<close> is the loop of \<^verbatim>\<open>begin\<close>, \<^verbatim>\<open>valid\<close> and \<^verbatim>\<open>next\<close>, \<open>SeekTo\<close> the one from a seek on.\<close>

datatype 'e operation = Insert 'e | Contains 'e | SeekTo 'e | Scan

fun begin_operation :: "'e world \<Rightarrow> 'e operation \<Rightarrow> 'e thread" where
  "begin_operation w (Insert key) = begin_descent Inserting key (shared w)"
| "begin_operation w (Contains key) = begin_descent Looking key (shared w)"
| "begin_operation w (SeekTo key) = begin_descent Seeking key (shared w)"
| "begin_operation w Scan = Adopt (inserted w) [] (head_node (shared w))"

definition call :: "nat \<Rightarrow> 'e operation \<Rightarrow> 'e world \<Rightarrow> 'e world" where
  "call i f w = w\<lparr>threads := (threads w)[i := begin_operation w f]\<rparr>"

definition move :: "'e traits \<Rightarrow> (nat \<Rightarrow> u32) \<Rightarrow> (nat \<Rightarrow> nat \<Rightarrow> bool) \<Rightarrow> nat \<Rightarrow> 'e world \<Rightarrow> 'e world option" where
  "move T draws cas i w =
     map_option (\<lambda>(th, t, es). w\<lparr>shared := t, threads := (threads w)[i := th], inserted := inserted w @ es\<rparr>)
       (thread_step T draws cas (shared w) (threads w ! i))"

inductive world_step :: "'e traits \<Rightarrow> 'e world \<Rightarrow> 'e world \<Rightarrow> bool" for T where
  call: "i < length (threads w) \<Longrightarrow> at_rest (threads w ! i) \<Longrightarrow> world_step T w (call i f w)"
| move: "i < length (threads w) \<Longrightarrow> move T draws cas i w = Some w' \<Longrightarrow> world_step T w w'"

inductive_cases world_stepE: "world_step T w w'"

inductive runs :: "'e traits \<Rightarrow> 'e world \<Rightarrow> 'e world \<Rightarrow> bool" for T where
  start: "runs T w w"
| step: "runs T w w' \<Longrightarrow> world_step T w' w'' \<Longrightarrow> runs T w w''"

text \<open>\<open>n\<close> threads at rest over a table.\<close>

definition fresh_world :: "'e table \<Rightarrow> nat \<Rightarrow> 'e world" where
  "fresh_world t n = \<lparr>shared = t, threads = replicate n Idle, inserted = entries t\<rparr>"

section \<open>What a thread owns\<close>

fun purpose_node :: "purpose \<Rightarrow> nat set" where
  "purpose_node (Finding c node lv a) = {c}"
| "purpose_node (Checking c node lv a) = {c}"
| "purpose_node pu = {}"

text \<open>The node whose lock it holds, and the sibling it is linking into the tower.\<close>

fun holds :: "'e thread \<Rightarrow> nat set" where
  "holds (Hop pu key lv c) = purpose_node pu"
| "holds (Test pu key lv c nx) = purpose_node pu"
| "holds (Tied pu key lv c nx) = purpose_node pu"
| "holds (Peek pu key lv c nx q) = purpose_node pu"
| "holds (AtNode pu key c) = purpose_node pu"
| "holds (Holding key c) = {c}"
| "holds (Behind key c n) = {c}"
| "holds (Recheck key c n q) = {c}"
| "holds (Moved key c) = {c}"
| "holds (Writing key c) = {c}"
| "holds (Appending s key c p w rank) = {c}"
| "holds (Splitting key c p merged) = {c}"
| "holds (Publishing key c p merged) = {c}"
| "holds (Link c node lv a key pred nx) = {c}"
| "holds (Swap c node lv a key pred nx) = {c}"
| "holds (Inserted c) = {c}"
| "holds th = {}"

fun purpose_sibling :: "purpose \<Rightarrow> nat set" where
  "purpose_sibling (Finding c node lv a) = {node}"
| "purpose_sibling (Checking c node lv a) = {node}"
| "purpose_sibling pu = {}"

fun links :: "'e thread \<Rightarrow> nat set" where
  "links (Hop pu key lv c) = purpose_sibling pu"
| "links (Test pu key lv c nx) = purpose_sibling pu"
| "links (Tied pu key lv c nx) = purpose_sibling pu"
| "links (Peek pu key lv c nx q) = purpose_sibling pu"
| "links (AtNode pu key c) = purpose_sibling pu"
| "links (Link c node lv a key pred nx) = {node}"
| "links (Swap c node lv a key pred nx) = {node}"
| "links th = {}"

definition held :: "'e table \<Rightarrow> nat set" where
  "held t = {c. c < length (locks t) \<and> locks t ! c}"

end
