(* ===== verification/Settled.thy ===== *)
theory Settled
  imports Threads
begin

text \<open>
  The table in the middle of a write. Between the store of a lowered hint and the store of the word or
  payload that lowers the first key, a node's hint is ahead of its entries, and an append's key sits in
  a slot that no word names yet. \<open>settle\<close> reads a table without either: it sets every hint to the
  one of the node's first key. A settled table is lawful at every moment, and each store of a write
  either leaves the settled table's chain alone or takes it where the whole write does.
\<close>

section \<open>Settling the hints\<close>

definition settled_hint :: "'e traits \<Rightarrow> 'e table \<Rightarrow> nat option \<Rightarrow> u64" where
  "settled_hint T t p =
     (let es = node_entries (payloads t ! the p) in if es = [] then 0 else descent_hint (order_bytes T (hd es)))"

definition settle :: "'e traits \<Rightarrow> 'e table \<Rightarrow> 'e table" where
  "settle T t = t\<lparr>lnodes := map (\<lambda>x. x\<lparr>first_hint := settled_hint T t (data x)\<rparr>) (lnodes t)\<rparr>"

definition chain :: "'e traits \<Rightarrow> 'e table \<Rightarrow> nat list \<Rightarrow> bool" where
  "chain T t ns \<longleftrightarrow> chain_ok T (settle T t) ns"

lemma nth_beyond: "length xs \<le> n \<Longrightarrow> xs ! n = [] ! (n - length xs)"
  by (induction xs arbitrary: n) (auto simp: nth_Cons split: nat.splits)

lemma nth_map_field:
  assumes "\<And>x. g (f x) = g x"
  shows "g (map f xs ! n) = g (xs ! n)"
  using assms nth_beyond [of xs n] nth_beyond [of "map f xs" n] by (cases "n < length xs") simp_all

lemma settle_simps [simp]:
  "payloads (settle T t) = payloads t" "head_node (settle T t) = head_node t" "hints (settle T t) = hints t"
  "length (lnodes (settle T t)) = length (lnodes t)"
  "data (lnodes (settle T t) ! n) = data (lnodes t ! n)" "write_lock (lnodes (settle T t) ! n) = write_lock (lnodes t ! n)"
  "height (lnodes (settle T t) ! n) = height (lnodes t ! n)" "tower (lnodes (settle T t) ! n) = tower (lnodes t ! n)"
  by (simp_all add: settle_def nth_map_field)

lemma settle_reads [simp]:
  "get_data (settle T t) = get_data t" "next_of (settle T t) = next_of t" "tower_at (settle T t) = tower_at t"
  "chain_entries (settle T t) = chain_entries t" "locks (settle T t) = locks t" "held (settle T t) = held t"
proof -
  show "get_data (settle T t) = get_data t" "tower_at (settle T t) = tower_at t" by (simp_all add: fun_eq_iff get_data_def tower_at_def)
  then show "next_of (settle T t) = next_of t" "chain_entries (settle T t) = chain_entries t"
    by (simp_all add: fun_eq_iff next_of_def chain_entries_def)
  show "locks (settle T t) = locks t" by (simp add: settle_def locks_def)
  then show "held (settle T t) = held t" by (simp add: held_def)
qed

lemma settle_hint [simp]:
  assumes "n < length (lnodes t)"
  shows "first_hint (lnodes (settle T t) ! n) =
    (if entries_of t n = [] then 0 else descent_hint (order_bytes T (first_of t n)))"
  using assms by (simp add: settle_def settled_hint_def get_data_def Let_def)

lemma path_settle [simp]: "path (settle T t) n xs = path t n xs"
  by (rule path_cong) simp

lemma belongs_settle [simp]: "belongs_here T (settle T t) d key = belongs_here T t d key"
  by (simp add: belongs_here_def split: option.split)

text \<open>Two tables that differ in hints only settle alike.\<close>

lemma settle_eqI:
  assumes "payloads t' = payloads t" "head_node t' = head_node t" "hints t' = hints t" "length (lnodes t') = length (lnodes t)"
    "\<And>n. n < length (lnodes t) \<Longrightarrow> (lnodes t' ! n)\<lparr>first_hint := 0\<rparr> = (lnodes t ! n)\<lparr>first_hint := 0\<rparr>"
  shows "settle T t' = settle T t"
proof -
  have "(lnodes t' ! n)\<lparr>first_hint := settled_hint T t' (data (lnodes t' ! n))\<rparr> = (lnodes t ! n)\<lparr>first_hint := settled_hint T t (data (lnodes t ! n))\<rparr>"
    if "n < length (lnodes t)" for n
  proof -
    have "settled_hint T t' = settled_hint T t" using assms(1) by (simp add: fun_eq_iff settled_hint_def)
    moreover have "data (lnodes t' ! n) = data (lnodes t ! n)"
      using assms(5) [OF that] by (metis list_node.select_convs(1) list_node.surjective list_node.update_convs(2))
    ultimately show ?thesis using assms(5) [OF that] by (cases "lnodes t' ! n"; cases "lnodes t ! n") auto
  qed
  then have "lnodes (settle T t') = lnodes (settle T t)"
    using assms(4) by (intro nth_equalityI) (simp_all add: settle_def)
  then show ?thesis using assms(1-3) by (cases t'; cases t) (simp add: settle_def)
qed

lemma settle_publish_hint [simp]: "settle T (publish_hint T t c e) = settle T t"
proof (rule settle_eqI)
  fix n
  assume "n < length (lnodes t)"
  then show "(lnodes (publish_hint T t c e) ! n)\<lparr>first_hint := 0\<rparr> = (lnodes t ! n)\<lparr>first_hint := 0\<rparr>"
    by (cases "n = c") (simp_all add: publish_hint_def Let_def upd_node_def)
qed (simp_all add: heap_simps)

lemma settle_lock: "settle T (upd_node t n (\<lambda>x. x\<lparr>write_lock := b\<rparr>)) = upd_node (settle T t) n (\<lambda>x. x\<lparr>write_lock := b\<rparr>)"
proof (cases "n < length (lnodes t)")
  case True
  have "settled_hint T (upd_node t n (\<lambda>x. x\<lparr>write_lock := b\<rparr>)) = settled_hint T t"
    by (simp add: fun_eq_iff settled_hint_def heap_simps)
  then show ?thesis using True by (cases "lnodes t ! n") (auto simp: settle_def upd_node_def map_update)
next
  case False
  then show ?thesis by (simp add: settle_def upd_node_def list_update_beyond settled_hint_def)
qed

lemma settle_set_tower: "settle T (set_tower t n lv nx) = set_tower (settle T t) n lv nx"
proof (cases "n < length (lnodes t)")
  case True
  have "settled_hint T (set_tower t n lv nx) = settled_hint T t"
    by (simp add: fun_eq_iff settled_hint_def heap_simps)
  then show ?thesis using True by (cases "lnodes t ! n") (auto simp: settle_def set_tower_def upd_node_def map_update)
next
  case False
  then show ?thesis by (simp add: settle_def set_tower_def upd_node_def list_update_beyond settled_hint_def)
qed

lemma chainD:
  assumes "chain T t ns"
  shows "path t (Some (head_node t)) ns" "distinct ns" "distinct (map (\<lambda>n. data (lnodes t ! n)) ns)"
    "\<And>n. n \<in> set ns \<Longrightarrow> n < length (lnodes t)"
    "\<And>n. n \<in> set ns \<Longrightarrow> \<exists>p. data (lnodes t ! n) = Some p \<and> p < length (payloads t)"
    "\<And>n. n \<in> set ns \<Longrightarrow> node_ok (get_data t n)" "\<And>n. n \<in> set ns \<Longrightarrow> length (tower (lnodes t ! n)) = kMaxHeight"
    "\<And>n. n \<in> set (tl ns) \<Longrightarrow> entries_of t n \<noteq> []"
    "sorted_wrt (le T) (chain_entries t ns)" "towers_ok t ns" "hints t = hint_ordering T"
  using chain_okD [OF assms [unfolded chain_def]] by (auto simp: lnode_ok_def towers_ok_def level_ranked_def)

lemma chainI:
  assumes "path t (Some (head_node t)) ns" "distinct ns" "distinct (map (\<lambda>n. data (lnodes t ! n)) ns)"
    "\<And>n. n \<in> set ns \<Longrightarrow> n < length (lnodes t) \<and> (\<exists>p. data (lnodes t ! n) = Some p \<and> p < length (payloads t)) \<and>
      node_ok (get_data t n) \<and> length (tower (lnodes t ! n)) = kMaxHeight"
    "\<And>n. n \<in> set (tl ns) \<Longrightarrow> entries_of t n \<noteq> []" "sorted_wrt (le T) (chain_entries t ns)" "towers_ok t ns" "hints t = hint_ordering T"
  shows "chain T t ns"
  using assms unfolding chain_def chain_ok_def by (auto simp: lnode_ok_def towers_ok_def level_ranked_def)

lemma chain_ok_chain: "chain_ok T t ns \<Longrightarrow> chain T t ns"
  using chain_okD [of T t ns] by (intro chainI) (auto simp: lnode_ok_def)

lemma chain_Cons: "chain T t ns \<Longrightarrow> \<exists>ts. ns = head_node t # ts"
  using chain_head [of T "settle T t" ns] by (simp add: chain_def)

lemma chain_level0: "chain T t ns \<Longrightarrow> level0 t = ns"
  using chain_length [of T "settle T t" ns] by (auto simp: chain_def level0_def chain_ok_def intro: follow_path)

lemma chain_entries_level0: "chain T t ns \<Longrightarrow> entries t = chain_entries t ns"
  by (simp add: entries_def chain_level0)

text \<open>A chain whose hints are all the ones of the first keys is a lawful chain as it stands.\<close>

definition exact_hint :: "'e traits \<Rightarrow> 'e table \<Rightarrow> nat \<Rightarrow> bool" where
  "exact_hint T t n \<longleftrightarrow> (entries_of t n \<noteq> [] \<longrightarrow> first_hint (lnodes t ! n) = descent_hint (order_bytes T (first_of t n)))"

lemma chain_exact: "chain T t ns \<Longrightarrow> (\<And>n. n \<in> set ns \<Longrightarrow> exact_hint T t n) \<Longrightarrow> chain_ok T t ns"
  using chainD [of T t ns] by (auto simp: chain_ok_def lnode_ok_def exact_hint_def)

section \<open>Stores that leave the chain alone\<close>

text \<open>What a table shows of its chain, hints and towers aside.\<close>

definition shows_same :: "'e table \<Rightarrow> nat list \<Rightarrow> 'e table \<Rightarrow> bool" where
  "shows_same t ns t' \<longleftrightarrow> head_node t' = head_node t \<and> hints t' = hints t \<and> length (lnodes t') = length (lnodes t) \<and>
     length (payloads t') = length (payloads t) \<and> (\<forall>n. data (lnodes t' ! n) = data (lnodes t ! n)) \<and>
     (\<forall>n \<in> set ns. length (tower (lnodes t' ! n)) = length (tower (lnodes t ! n)) \<and>
       entries_of t' n = entries_of t n \<and> next_of t' n = next_of t n \<and> (node_ok (get_data t n) \<longrightarrow> node_ok (get_data t' n)))"

lemma shown_chain:
  assumes "chain T t ns" "shows_same t ns t'" "towers_ok t' ns"
  shows "chain T t' ns" "chain_entries t' ns = chain_entries t ns"
proof -
  note d = chainD [OF assms(1)]
  note s = assms(2) [unfolded shows_same_def]
  show e: "chain_entries t' ns = chain_entries t ns" using s by (simp add: chain_entries_def cong: map_cong)
  have "path t' (Some (head_node t')) ns" using d(1) s path_cong [of ns t' t] by simp
  moreover have "distinct (map (\<lambda>n. data (lnodes t' ! n)) ns)" using d(3) s by simp
  moreover have "entries_of t' n \<noteq> []" if "n \<in> set (tl ns)" for n using d(8) [OF that] s set_tl_subset [OF that] by simp
  ultimately show "chain T t' ns" using d s assms(3) by (intro chainI) (simp_all add: e)
qed

lemma towers_same:
  assumes "towers_ok t ns" "\<And>n. n \<in> set ns \<Longrightarrow> tower (lnodes t' ! n) = tower (lnodes t ! n)"
  shows "towers_ok t' ns"
proof -
  have "tower_at t' lv n = tower_at t lv n" if "n \<in> set ns" for lv n using assms(2) [OF that] by (simp add: tower_at_def)
  then show ?thesis using assms(1) unfolding towers_ok_def level_ranked_def by (metis (no_types, lifting))
qed

text \<open>Any store of a node's lock or hint.\<close>

lemma set_lock_shows:
  fixes t :: "'e table"
  assumes t': "t' = upd_node t n (\<lambda>x. x\<lparr>write_lock := b\<rparr>)"
  shows "payloads t' = payloads t" "\<And>x. data (lnodes t' ! x) = data (lnodes t ! x)" "\<And>x. first_hint (lnodes t' ! x) = first_hint (lnodes t ! x)"
    "\<And>x. tower (lnodes t' ! x) = tower (lnodes t ! x)" "\<And>x. height (lnodes t' ! x) = height (lnodes t ! x)" "get_data t' = get_data t" "shows_same t ns t'"
proof -
  show p: "payloads t' = payloads t" by (simp add: t' heap_simps)
  show l: "data (lnodes t' ! x) = data (lnodes t ! x)" "first_hint (lnodes t' ! x) = first_hint (lnodes t ! x)"
    "tower (lnodes t' ! x) = tower (lnodes t ! x)" "height (lnodes t' ! x) = height (lnodes t ! x)" for x
    by (cases "n < length (lnodes t)"; cases "x = n"; simp add: t' upd_node_def list_update_beyond)+
  then show g: "get_data t' = get_data t" by (simp add: fun_eq_iff get_data_def p)
  show "shows_same t ns t'" by (simp add: shows_same_def l g next_of_def p) (simp add: t' heap_simps)
qed

lemma publish_hint_shows:
  fixes t :: "'e table"
  assumes t': "t' = publish_hint T t c e"
  shows "payloads t' = payloads t" "\<And>x. data (lnodes t' ! x) = data (lnodes t ! x)" "\<And>x. x \<noteq> c \<Longrightarrow> first_hint (lnodes t' ! x) = first_hint (lnodes t ! x)"
    "\<And>x. tower (lnodes t' ! x) = tower (lnodes t ! x)" "\<And>x. height (lnodes t' ! x) = height (lnodes t ! x)" "get_data t' = get_data t" "shows_same t ns t'" "locks t' = locks t"
proof -
  show p: "payloads t' = payloads t" "locks t' = locks t" by (simp_all add: t' heap_simps)
  show l: "data (lnodes t' ! x) = data (lnodes t ! x)" "tower (lnodes t' ! x) = tower (lnodes t ! x)" "height (lnodes t' ! x) = height (lnodes t ! x)" for x
    by (cases "c < length (lnodes t)"; cases "x = c"; simp add: t' publish_hint_def Let_def upd_node_def list_update_beyond)+
  show "x \<noteq> c \<Longrightarrow> first_hint (lnodes t' ! x) = first_hint (lnodes t ! x)" for x by (simp add: t' heap_simps)
  show g: "get_data t' = get_data t" by (simp add: fun_eq_iff get_data_def l p)
  show "shows_same t ns t'" by (simp add: shows_same_def l g next_of_def p) (simp add: t' heap_simps)
qed

section \<open>Payloads that grow, and snapshots of them\<close>

text \<open>What every store into a reachable payload keeps: the link, the prefix and the slots the word covers.\<close>

definition payload_grows :: "'e node_data \<Rightarrow> 'e node_data \<Rightarrow> bool" where
  "payload_grows d d' \<longleftrightarrow> length (slots d') = length (slots d) \<and> length (surrogates d') = length (surrogates d) \<and>
     next_link d' = next_link d \<and> prefix_len d' = prefix_len d \<and> order_count (order d) \<le> order_count (order d') \<and>
     (\<forall>s < order_count (order d). slots d' ! s = slots d ! s \<and> surrogates d' ! s = surrogates d ! s)"

lemma payload_grows_refl [simp]: "payload_grows d d"
  by (simp add: payload_grows_def)

text \<open>The payload as a reader with the word \<open>w\<close> sees it.\<close>

definition view :: "'e node_data \<Rightarrow> u64 \<Rightarrow> 'e node_data" where
  "view d w = d\<lparr>order := w\<rparr>"

definition snap :: "'e node_data \<Rightarrow> u64 \<Rightarrow> bool" where
  "snap d w \<longleftrightarrow> node_ok (view d w) \<and> order_count w \<le> order_count (order d)"

lemma view_simps [simp]:
  "order (view d w) = w" "slots (view d w) = slots d" "surrogates (view d w) = surrogates d" "next_link (view d w) = next_link d"
  "prefix_len (view d w) = prefix_len d" "view d (order d) = d"
  by (simp_all add: view_def)

lemma key_at_view: "r < order_count w \<Longrightarrow> key_at d w r = node_entries (view d w) ! r"
  using key_at_entries [of r "view d w"] by (simp add: key_at_def)

lemma length_view_entries [simp]: "length (node_entries (view d w)) = order_count w"
  by simp

lemma snap_self: "node_ok d \<Longrightarrow> snap d (order d)"
  by (simp add: snap_def)

lemma snap_grows:
  assumes "snap d w" "payload_grows d d'"
  shows "snap d' w" "node_entries (view d' w) = node_entries (view d w)"
proof -
  have ok: "node_ok (view d w)" and le: "order_count w \<le> order_count (order d)" using assms(1) by (simp_all add: snap_def)
  have "slots d' ! s = slots d ! s" if "s \<in> set (ranks w)" for s
    using slots_below [OF ok, of s] that le assms(2) by (simp add: payload_grows_def)
  then show "node_entries (view d' w) = node_entries (view d w)" by (simp add: node_entries_ranks)
  show "snap d' w" using ok le assms(2) by (simp add: snap_def payload_grows_def node_ok_def)
qed

lemma grown_same_word:
  assumes "payload_grows d d'" "order d' = order d" "node_ok d"
  shows "node_ok d'" "node_entries d' = node_entries d" "next_link d' = next_link d"
proof -
  have "view d' (order d) = d'" using view_simps(6) [of d'] unfolding assms(2) .
  then show "node_ok d'" "node_entries d' = node_entries d" "next_link d' = next_link d"
    using snap_grows [OF snap_self [OF assms(3)] assms(1)] assms(1) by (simp_all add: snap_def payload_grows_def)
qed

text \<open>The stores of an append into the free slot.\<close>

lemma store_grows:
  "order_count (order d) \<le> n \<Longrightarrow> payload_grows d (d\<lparr>slots := (slots d)[n := key]\<rparr>)"
  "order_count (order d) \<le> n \<Longrightarrow> payload_grows d (d\<lparr>surrogates := (surrogates d)[n := lane]\<rparr>)"
  by (simp_all add: payload_grows_def)

lemma appended_grows: "appendable d rank \<Longrightarrow> payload_grows d (appended d rank key lane)"
  by (simp add: payload_grows_def appended_count) (simp add: appended_def write_slot_def)

lemma store_payload:
  assumes t': "t' = upd_payload t p f" and ok: "chain T t ns" and p: "p < length (payloads t)"
    and f: "payload_grows (payloads t ! p) (f (payloads t ! p))" "order (f (payloads t ! p)) = order (payloads t ! p)" "node_ok (payloads t ! p)"
  shows "chain T t' ns" "chain_entries t' ns = chain_entries t ns" "shows_same t ns t'" "lnodes t' = lnodes t" "locks t' = locks t"
proof -
  have P: "payloads t' ! q = (if q = p then f (payloads t ! p) else payloads t ! q)" for q
    using p by (simp add: t' heap_simps)
  have l: "lnodes t' = lnodes t" by (simp add: t' heap_simps)
  then show "lnodes t' = lnodes t" "locks t' = locks t" by (simp_all add: locks_def)
  have g: "get_data t' n = (if data (lnodes t ! n) = Some p then f (get_data t n) else get_data t n)" if "n \<in> set ns" for n
    using chainD(5) [OF ok that] by (auto simp: get_data_def l P)
  have same: "node_entries (get_data t' n) = node_entries (get_data t n) \<and> next_link (get_data t' n) = next_link (get_data t n) \<and> node_ok (get_data t' n)"
    if "n \<in> set ns" for n
    using grown_same_word [OF f] chainD(6) [OF ok that] g [OF that] by (auto simp: get_data_def)
  have "head_node t' = head_node t" "hints t' = hints t" "length (payloads t') = length (payloads t)" by (simp_all add: t' heap_simps)
  then show s: "shows_same t ns t'" using same l by (simp add: shows_same_def next_of_def)
  show "chain T t' ns" "chain_entries t' ns = chain_entries t ns"
    using shown_chain [OF ok s towers_same [OF chainD(10) [OF ok]]] by (simp_all add: l)
qed

section \<open>The stores that change the chain\<close>

context ordered_traits
begin

text \<open>The last store of an append, once the slot and the lane are written.\<close>

lemma commit_chain:
  assumes ok: "chain T t (us @ c # vs)" and p: "data (lnodes t ! c) = Some p" and w: "w = order (payloads t ! p)"
    and room: "order_count w < kNodeCapacity" and rank: "rank = node_position t key c"
    and slot: "slots (payloads t ! p) ! order_count w = key"
    and lane: "surrogates (payloads t ! p) ! order_count w = append_lane T (payloads t ! p) w rank (order_bytes T key)"
    and split: "splits_at T (chain_entries t (us @ c # vs)) key (length (chain_entries t us) + rank)"
    and t': "t' = upd_payload t p (\<lambda>d. d\<lparr>order := order_insert w rank (order_count w)\<rparr>)"
  shows "chain T t' (us @ c # vs)"
    and "chain_entries t' (us @ c # vs) = ins_at (length (chain_entries t us) + rank) key (chain_entries t (us @ c # vs))"
    and "appendable (payloads t ! p) rank" "payloads t' = (payloads t)[p := appended (payloads t ! p) rank key (append_lane T (payloads t ! p) w rank (order_bytes T key))]"
    and "lnodes t' = lnodes t" "locks t' = locks t"
proof -
  let ?s = "settle T t" and ?P = "payloads t ! p"
  let ?t = "append_entry T ?s c p w (order_count w) key (order_bytes T key)"
  let ?lane = "append_lane T ?P w rank (order_bytes T key)"
  have pos: "node_position ?s key c = rank" by (simp add: node_position_def rank)
  have in_c: "c \<in> set (us @ c # vs)" by simp
  have P: "get_data t c = ?P" by (simp add: get_data_def p)
  have c: "c < length (lnodes t)" "p < length (payloads t)" "node_ok ?P"
    using chainD(4-6) [OF ok in_c] p P by auto
  have rk: "rank = sorted_position T ?P w (order_count w) key (order_bytes T key)"
    using sorted_position_node [OF ok [unfolded chain_def] in_c, of key "order_bytes T key"] pos by (simp add: P w)
  have ap: "appendable ?P rank"
    using c(3) room node_position_le [of t key c] by (simp add: appendable_def w P rank)
  have W: "w = order (payloads ?s ! p)" and ap': "appendable (payloads ?s ! p) rank" and rk': "rank = sorted_position T (payloads ?s ! p) w (order_count w) key (order_bytes T key)"
    and c': "c < length (lnodes ?s)" "data (lnodes ?s ! c) = Some p" "p < length (payloads ?s)"
    using w ap rk c p by simp_all
  note reads = append_reads [OF c'(1) c'(2) c'(3) ap' W rk']
  have P': "?P\<lparr>order := order_insert w rank (order_count w)\<rparr> = appended ?P rank key ?lane"
  proof -
    have "write_slot ?P (order_count w) key ?lane = ?P"
      using list_update_id [of "slots ?P" "order_count w"] list_update_id [of "surrogates ?P" "order_count w"] slot lane
      by (simp add: write_slot_def)
    then show ?thesis by (simp add: appended_def w)
  qed
  show pl: "payloads t' = (payloads t)[p := appended ?P rank key ?lane]" by (simp add: t' upd_payload_def P')
  show l: "lnodes t' = lnodes t" "locks t' = locks t" by (simp_all add: t' heap_simps)
  have eq: "settle T t' = settle T ?t"
  proof -
    have "settle T t' = settle T (t'\<lparr>lnodes := lnodes ?t\<rparr>)"
    proof (rule settle_eqI [symmetric])
      fix n assume "n < length (lnodes t')"
      then show "(lnodes (t'\<lparr>lnodes := lnodes ?t\<rparr>) ! n)\<lparr>first_hint := 0\<rparr> = (lnodes t' ! n)\<lparr>first_hint := 0\<rparr>"
        using reads(2) [of n] by (simp add: l settle_def)
    qed (use reads(3) in \<open>simp_all add: l\<close>)
    moreover have "t'\<lparr>lnodes := lnodes ?t\<rparr> = ?t"
      using reads(1,4,5) pl by (simp add: t' upd_payload_def)
    ultimately show ?thesis by simp
  qed
  have sp: "splits_at T (chain_entries ?s (us @ c # vs)) key (length (chain_entries ?s us) + node_position ?s key c)"
    using split pos by simp
  note a = append_chain [OF ok [unfolded chain_def] c'(2) W room sp]
  have "chain T ?t (us @ c # vs)" by (rule chain_ok_chain [OF a(1)])
  then show "chain T t' (us @ c # vs)" unfolding chain_def eq .
  have "chain_entries t' = chain_entries ?t" using eq settle_reads(4) by metis
  then show "chain_entries t' (us @ c # vs) = ins_at (length (chain_entries t us) + rank) key (chain_entries t (us @ c # vs))"
    using a(2) pos by simp
  show "appendable ?P rank" by (rule ap)
qed

text \<open>The store that publishes a split.\<close>

lemma publish_chain:
  fixes draws :: "nat \<Rightarrow> u32"
  assumes ok: "chain T t (us @ c # vs)" and full: "length (entries_of t c) = kNodeCapacity"
    and merged: "merged = ins_at (node_position t key c) key (entries_of t c)"
    and split: "splits_at T (chain_entries t (us @ c # vs)) key (length (chain_entries t us) + node_position t key c)"
  defines "t' \<equiv> split_payloads T draws t c (next_of t c) merged" and "sib \<equiv> length (lnodes t)"
  shows "length merged = Suc kNodeCapacity" "chain T t' (us @ c # sib # vs)"
    and "chain_entries t' (us @ c # sib # vs) = ins_at (length (chain_entries t us) + node_position t key c) key (chain_entries t (us @ c # vs))"
    and "get_data t' c = fill T (fresh_payload T) (take kMid merged) (Some sib)" "get_data t' sib = fill T (fresh_payload T) (drop kMid merged) (next_of t c)"
    and "\<And>x. x \<in> set us \<union> set vs \<Longrightarrow> get_data t' x = get_data t x"
proof -
  let ?s = "settle T t"
  let ?t = "split_payloads T draws ?s c (next_of t c) merged"
  show len: "length merged = Suc kNodeCapacity" using full by (simp add: merged del: length_node_entries)
  have in_c: "c \<in> set (us @ c # vs)" by simp
  have c: "c < length (lnodes t)" "c < length (lnodes ?s)" using chainD(4) [OF ok in_c] by simp_all
  note r = split_payloads_reads [OF c(1) len, where T = T and draws = draws and nxt = "next_of t c", folded t'_def sib_def]
  note r' = split_payloads_reads [OF c(2) len, where T = T and draws = draws and nxt = "next_of t c", simplified, folded sib_def]
  have eq: "settle T t' = settle T ?t"
  proof (rule settle_eqI)
    fix n assume "n < length (lnodes ?t)"
    then consider "n = c" | "n = sib" "n \<noteq> c" | "n < sib" "n \<noteq> c" using r'(2) by linarith
    then show "(lnodes t' ! n)\<lparr>first_hint := 0\<rparr> = (lnodes ?t ! n)\<lparr>first_hint := 0\<rparr>"
      using r(3) [of n] r(4,5) r'(3) [of n] r'(4,5) c by cases (simp_all add: settle_def sib_def)
  qed (use r r' in simp_all)
  let ?all = "ins_at (length (chain_entries t us) + node_position t key c) key (chain_entries t (us @ c # vs))"
  have all: "chain_entries ?s us @ merged @ chain_entries ?s vs = ?all"
    unfolding merged settle_reads by (rule ins_at_chain [OF HOL.refl node_position_le, symmetric])
  have sorted: "sorted_wrt (le T) ?all" by (rule splits_at_ins_sorted [OF chainD(9) [OF ok] split])
  note s = split_payloads_chain [OF ok [unfolded chain_def] len _ all sorted, where draws = draws, simplified, OF full [simplified], folded sib_def]
  have "chain T ?t (us @ c # sib # vs)" by (rule chain_ok_chain [OF s(1)])
  then show "chain T t' (us @ c # sib # vs)" unfolding chain_def eq .
  have "chain_entries t' = chain_entries ?t" using eq settle_reads(4) by metis
  then show "chain_entries t' (us @ c # sib # vs) = ?all" using s(2) by simp
  show "get_data t' c = fill T (fresh_payload T) (take kMid merged) (Some sib)" "get_data t' sib = fill T (fresh_payload T) (drop kMid merged) (next_of t c)"
    using r(1,4,5) by (simp_all add: get_data_def nth_append)
  fix x assume x: "x \<in> set us \<union> set vs"
  then have "x \<in> set (us @ c # vs)" "x \<noteq> c" using chainD(2) [OF ok] by auto
  moreover have "x < sib" using chainD(4) [OF ok calculation(1)] by (simp add: sib_def)
  ultimately show "get_data t' x = get_data t x"
    using r(1) r(3) [of x] chainD(5) [OF ok, of x] by (auto simp: get_data_def nth_append)
qed

end

end
