(* ===== verification/Thread_Places.thy ===== *)
theory Thread_Places
  imports Settled
begin

text \<open>
  What a thread knows where it stands (\<open>placed\<close>), what a step of one thread leaves to the others
  (\<open>evolves\<close>), and that the first survives the second (\<open>placed_evolves\<close>): the interference freedom of
  \<^verbatim>\<open>Threads\<close>.

  \<open>lim\<close> is a ghost: the level a sibling is being linked on, and no tower pointer on that level or above
  leads to it yet.
\<close>

section \<open>Places\<close>

definition positioned :: "'e traits \<Rightarrow> 'e table \<Rightarrow> nat list \<Rightarrow> 'e \<Rightarrow> nat \<Rightarrow> bool" where
  "positioned T t ns key c \<longleftrightarrow> c \<in> set ns \<and> (c = head_node t \<or> entries_of t c \<noteq> [] \<and> le T (first_of t c) key)"

text \<open>A payload no node of the chain shows any more.\<close>

definition stale :: "'e table \<Rightarrow> nat list \<Rightarrow> nat \<Rightarrow> bool" where
  "stale t ns q \<longleftrightarrow> (\<forall>x \<in> set ns. data (lnodes t ! x) \<noteq> Some q)"

text \<open>\<open>q\<close> was loaded from node \<open>n\<close>: it still is its payload, or the node has been split since.\<close>

definition seen :: "'e traits \<Rightarrow> 'e table \<Rightarrow> nat list \<Rightarrow> nat \<Rightarrow> nat \<Rightarrow> bool" where
  "seen T t ns n q \<longleftrightarrow> q < length (payloads t) \<and>
     (data (lnodes t ! n) = Some q \<or>
      stale t ns q \<and> node_entries (payloads t ! q) \<noteq> [] \<and> entries_of t n \<noteq> [] \<and>
      le T (first_of t n) (hd (node_entries (payloads t ! q))) \<and>
      (n \<noteq> head_node t \<longrightarrow> le T (hd (node_entries (payloads t ! q))) (first_of t n)))"

definition linking :: "'e traits \<Rightarrow> 'e table \<Rightarrow> nat list \<Rightarrow> (nat \<Rightarrow> nat) \<Rightarrow> nat \<Rightarrow> nat \<Rightarrow> nat \<Rightarrow> bool" where
  "linking T t ns lim c node lv \<longleftrightarrow> c \<in> set ns \<and> node \<in> set ns \<and> node \<noteq> head_node t \<and> 0 < lv \<and> lv < kMaxHeight \<and> lim node = lv \<and>
     unat (height (lnodes t ! node)) \<le> kMaxHeight \<and> exact_hint T t c"

fun purpose_ok :: "'e traits \<Rightarrow> 'e table \<Rightarrow> nat list \<Rightarrow> (nat \<Rightarrow> nat) \<Rightarrow> purpose \<Rightarrow> bool" where
  "purpose_ok T t ns lim (Finding c node lv a) \<longleftrightarrow> linking T t ns lim c node lv"
| "purpose_ok T t ns lim (Checking c node lv a) \<longleftrightarrow> linking T t ns lim c node lv"
| "purpose_ok T t ns lim pu \<longleftrightarrow> True"

fun descends :: "purpose \<Rightarrow> bool" where
  "descends (Checking c node lv a) \<longleftrightarrow> False"
| "descends pu \<longleftrightarrow> True"

text \<open>Node \<open>c\<close> has been reached on level \<open>lv\<close> of the tower, or below.\<close>

definition reached :: "'e table \<Rightarrow> (nat \<Rightarrow> nat) \<Rightarrow> nat \<Rightarrow> nat \<Rightarrow> bool" where
  "reached t lim lv c \<longleftrightarrow> lv = 0 \<or> c = head_node t \<or> lv < lim c"

definition hopping :: "'e traits \<Rightarrow> 'e table \<Rightarrow> nat list \<Rightarrow> (nat \<Rightarrow> nat) \<Rightarrow> purpose \<Rightarrow> 'e \<Rightarrow> nat \<Rightarrow> nat \<Rightarrow> bool" where
  "hopping T t ns lim pu key lv c \<longleftrightarrow>
     purpose_ok T t ns lim pu \<and> positioned T t ns key c \<and> bottom_level pu \<le> lv \<and> lv < kMaxHeight \<and> reached t lim lv c"

text \<open>A successor about to be tested.\<close>

definition testing :: "'e traits \<Rightarrow> 'e table \<Rightarrow> nat list \<Rightarrow> (nat \<Rightarrow> nat) \<Rightarrow> purpose \<Rightarrow> 'e \<Rightarrow> nat \<Rightarrow> nat \<Rightarrow> nat \<Rightarrow> bool" where
  "testing T t ns lim pu key lv c nx \<longleftrightarrow> hopping T t ns lim pu key lv c \<and> nx \<in> set ns \<and> (lv = 0 \<or> lv < lim nx) \<and>
     (\<forall>d node l a. pu = Checking d node l a \<longrightarrow> lv = l \<and> c \<noteq> node)"

definition belonging :: "'e traits \<Rightarrow> 'e table \<Rightarrow> nat list \<Rightarrow> 'e \<Rightarrow> nat \<Rightarrow> bool" where
  "belonging T t ns key c \<longleftrightarrow> positioned T t ns key c \<and> belongs_here T t (get_data t c) key"

text \<open>How far an append has come.\<close>

definition append_done :: "'e traits \<Rightarrow> 'e table \<Rightarrow> append_store \<Rightarrow> 'e \<Rightarrow> nat \<Rightarrow> nat \<Rightarrow> u64 \<Rightarrow> nat \<Rightarrow> bool" where
  "append_done T t s key c p w rank \<longleftrightarrow>
     (let d = payloads t ! p; n = order_count w
      in (s \<noteq> StoreKey \<longrightarrow> slots d ! n = key) \<and>
         (s = StoreHint \<or> s = StoreOrder \<longrightarrow> surrogates d ! n = append_lane T d w rank (order_bytes T key)) \<and>
         (s = StoreHint \<longrightarrow> rank = 0) \<and>
         (if s = StoreOrder \<and> rank = 0 then first_hint (lnodes t ! c) = descent_hint (order_bytes T key)
          else exact_hint T t c))"

definition link_ok :: "nat list \<Rightarrow> (nat \<Rightarrow> nat) \<Rightarrow> nat \<Rightarrow> nat option \<Rightarrow> bool" where
  "link_ok ns lim lv nx \<longleftrightarrow> (\<forall>y. nx = Some y \<longrightarrow> y \<in> set ns \<and> lv < lim y)"

text \<open>
  Iterators. \<open>ahead\<close> is about to adopt a node: it has shown entries of the nodes before it and missed
  none of the ones it began with. \<open>walking\<close> has a payload and a word: the same holds of what the word
  names from its position on, and the payload's link leads to the rest of the chain.
\<close>

definition link_is :: "nat option \<Rightarrow> nat list \<Rightarrow> bool" where
  "link_is nx vs \<longleftrightarrow> nx = (case vs of [] \<Rightarrow> None | v # ws \<Rightarrow> Some v)"

definition ahead :: "'e traits \<Rightarrow> 'e table \<Rightarrow> nat list \<Rightarrow> 'e list \<Rightarrow> 'e list \<Rightarrow> nat \<Rightarrow> bool" where
  "ahead T t ns bs ys c \<longleftrightarrow>
     (\<exists>us vs. ns = us @ c # vs \<and> mset ys \<subseteq># mset (chain_entries t us) \<and>
        mset bs \<subseteq># mset ys + mset (chain_entries t (c # vs)) \<and> sorted_wrt (le T) ys)"

definition walking :: "'e traits \<Rightarrow> 'e table \<Rightarrow> nat list \<Rightarrow> 'e list \<Rightarrow> 'e list \<Rightarrow> nat \<Rightarrow> u64 \<Rightarrow> nat \<Rightarrow> bool" where
  "walking T t ns bs ys q w pos \<longleftrightarrow> q < length (payloads t) \<and> snap (payloads t ! q) w \<and>
     (\<exists>us vs. ns = us @ vs \<and> link_is (next_link (payloads t ! q)) vs \<and>
        (let rest = drop pos (node_entries (view (payloads t ! q) w))
         in mset (ys @ rest) \<subseteq># mset (chain_entries t us) \<and>
            mset bs \<subseteq># mset (ys @ rest) + mset (chain_entries t vs) \<and> sorted_wrt (le T) (ys @ rest)))"

definition adopting :: "'e traits \<Rightarrow> 'e table \<Rightarrow> nat list \<Rightarrow> 'e list \<Rightarrow> 'e list \<Rightarrow> nat \<Rightarrow> bool" where
  "adopting T t ns bs ys q \<longleftrightarrow> q < length (payloads t) \<and>
     ((\<exists>c \<in> set ns. data (lnodes t ! c) = Some q \<and> ahead T t ns bs ys c) \<or>
      stale t ns q \<and> walking T t ns bs ys q (order (payloads t ! q)) 0)"

text \<open>Where a key's place in a node is.\<close>

definition rank_in :: "'e traits \<Rightarrow> 'e table \<Rightarrow> 'e \<Rightarrow> nat \<Rightarrow> nat" where
  "rank_in T t key c = lower_bound_of (\<lambda>x. compare T x key < 0) (entries_of t c)"

fun placed :: "'e traits \<Rightarrow> 'e table \<Rightarrow> nat list \<Rightarrow> (nat \<Rightarrow> nat) \<Rightarrow> 'e list \<Rightarrow> 'e thread \<Rightarrow> bool" where
  "placed T t ns lim es Idle \<longleftrightarrow> True"
| "placed T t ns lim es (Hop pu key lv c) \<longleftrightarrow> descends pu \<and> hopping T t ns lim pu key lv c"
| "placed T t ns lim es (Test pu key lv c nx) \<longleftrightarrow> testing T t ns lim pu key lv c nx"
| "placed T t ns lim es (Tied pu key lv c nx) \<longleftrightarrow> testing T t ns lim pu key lv c nx"
| "placed T t ns lim es (Peek pu key lv c nx q) \<longleftrightarrow> testing T t ns lim pu key lv c nx \<and> seen T t ns nx q"
| "placed T t ns lim es (AtNode pu key c) \<longleftrightarrow> descends pu \<and> hopping T t ns lim pu key (bottom_level pu) c"
| "placed T t ns lim es (Holding key c) \<longleftrightarrow> positioned T t ns key c \<and> exact_hint T t c"
| "placed T t ns lim es (Behind key c n) \<longleftrightarrow> positioned T t ns key c \<and> exact_hint T t c \<and> next_of t c = Some n"
| "placed T t ns lim es (Recheck key c n q) \<longleftrightarrow>
     positioned T t ns key c \<and> exact_hint T t c \<and> next_of t c = Some n \<and> seen T t ns n q"
| "placed T t ns lim es (Moved key c) \<longleftrightarrow> c \<in> set ns \<and> exact_hint T t c"
| "placed T t ns lim es (Writing key c) \<longleftrightarrow> belonging T t ns key c \<and> exact_hint T t c"
| "placed T t ns lim es (Appending s key c p w rank) \<longleftrightarrow>
     belonging T t ns key c \<and> data (lnodes t ! c) = Some p \<and> w = order (payloads t ! p) \<and> order_count w < kNodeCapacity \<and>
     rank = rank_in T t key c \<and> append_done T t s key c p w rank"
| "placed T t ns lim es (Splitting key c p merged) \<longleftrightarrow>
     belonging T t ns key c \<and> data (lnodes t ! c) = Some p \<and> length (entries_of t c) = kNodeCapacity \<and>
     merged = ins_at (rank_in T t key c) key (entries_of t c) \<and> exact_hint T t c"
| "placed T t ns lim es (Publishing key c p merged) \<longleftrightarrow>
     belonging T t ns key c \<and> data (lnodes t ! c) = Some p \<and> length (entries_of t c) = kNodeCapacity \<and>
     merged = ins_at (rank_in T t key c) key (entries_of t c)"
| "placed T t ns lim es (Link c node lv a key pred nx) \<longleftrightarrow>
     linking T t ns lim c node lv \<and> pred \<in> set ns \<and> reached t lim lv pred \<and> pred \<noteq> node \<and> link_ok ns lim lv nx"
| "placed T t ns lim es (Swap c node lv a key pred nx) \<longleftrightarrow>
     linking T t ns lim c node lv \<and> pred \<in> set ns \<and> reached t lim lv pred \<and> pred \<noteq> node \<and> link_ok ns lim lv nx \<and> tower_at t lv node = nx"
| "placed T t ns lim es (Inserted c) \<longleftrightarrow> c \<in> set ns \<and> exact_hint T t c"
| "placed T t ns lim es (Loaded key q) \<longleftrightarrow> q < length (payloads t)"
| "placed T t ns lim es (Snapped key q w) \<longleftrightarrow>
     q < length (payloads t) \<and> snap (payloads t ! q) w \<and> set (node_entries (view (payloads t ! q) w)) \<subseteq> set es"
| "placed T t ns lim es (Answered key b) \<longleftrightarrow> (b \<longrightarrow> (\<exists>x \<in> set es. compare T x key = 0))"
| "placed T t ns lim es (Adopt bs ys c) \<longleftrightarrow> ahead T t ns bs ys c"
| "placed T t ns lim es (Snap target bs ys q) \<longleftrightarrow> adopting T t ns bs ys q \<and> (target \<noteq> None \<longrightarrow> bs = [] \<and> ys = [])"
| "placed T t ns lim es (Aim key q w) \<longleftrightarrow> walking T t ns [] [] q w 0"
| "placed T t ns lim es (On bs ys q w pos) \<longleftrightarrow> walking T t ns bs ys q w pos"
| "placed T t ns lim es (Done bs ys) \<longleftrightarrow> mset bs \<subseteq># mset ys \<and> mset ys \<subseteq># mset es \<and> sorted_wrt (le T) ys"

section \<open>What a step leaves alone\<close>

text \<open>Wherever the chain is cut, both parts keep their entries, and the second its first node.\<close>

definition spreads :: "'e table \<Rightarrow> nat list \<Rightarrow> 'e table \<Rightarrow> nat list \<Rightarrow> bool" where
  "spreads t ns t' ns' \<longleftrightarrow>
     (\<forall>us vs. ns = us @ vs \<longrightarrow>
        (\<exists>us' vs'. ns' = us' @ vs' \<and> (\<forall>nx. link_is nx vs \<longrightarrow> link_is nx vs') \<and>
           mset (chain_entries t us) \<subseteq># mset (chain_entries t' us') \<and> mset (chain_entries t vs) \<subseteq># mset (chain_entries t' vs')))"

text \<open>\<open>H\<close> are the nodes whose locks the moving thread holds.\<close>

definition evolves :: "'e traits \<Rightarrow> nat set \<Rightarrow> 'e table \<Rightarrow> nat list \<Rightarrow> 'e table \<Rightarrow> nat list \<Rightarrow> bool" where
  "evolves T H t ns t' ns' \<longleftrightarrow>
     head_node t' = head_node t \<and> set ns \<subseteq> set ns' \<and> length (payloads t) \<le> length (payloads t') \<and>
     (\<forall>x \<in> set ns. height (lnodes t' ! x) = height (lnodes t ! x)) \<and>
     (\<forall>x \<in> set ns - H. data (lnodes t' ! x) = data (lnodes t ! x) \<and> first_hint (lnodes t' ! x) = first_hint (lnodes t ! x) \<and>
        get_data t' x = get_data t x) \<and>
     (\<forall>x \<in> set ns. entries_of t x \<noteq> [] \<longrightarrow> entries_of t' x \<noteq> [] \<and> le T (first_of t' x) (first_of t x) \<and>
        (x \<noteq> head_node t \<longrightarrow> le T (first_of t x) (first_of t' x))) \<and>
     (\<forall>q < length (payloads t). payload_grows (payloads t ! q) (payloads t' ! q)) \<and>
     (\<forall>q < length (payloads t). stale t ns q \<longrightarrow> stale t' ns' q \<and> payloads t' ! q = payloads t ! q) \<and>
     (\<forall>x \<in> set ns. \<forall>q. data (lnodes t ! x) = Some q \<longrightarrow> data (lnodes t' ! x) = Some q \<or>
        stale t' ns' q \<and> payloads t' ! q = payloads t ! q \<and> entries_of t x \<noteq> []) \<and>
     spreads t ns t' ns'"

text \<open>
  No limit falls, those of other threads' siblings stay, and the tower pointers such a sibling has on
  levels it is not linked on yet are its own thread's.
\<close>

definition raises :: "nat set \<Rightarrow> 'e table \<Rightarrow> nat list \<Rightarrow> (nat \<Rightarrow> nat) \<Rightarrow> 'e table \<Rightarrow> (nat \<Rightarrow> nat) \<Rightarrow> bool" where
  "raises L t ns lim t' lim' \<longleftrightarrow>
     (\<forall>x \<in> set ns. lim x \<le> lim' x \<and>
        (x \<notin> L \<longrightarrow> lim' x = lim x \<and> (\<forall>lv. x \<noteq> head_node t \<and> 0 < lv \<and> lim x \<le> lv \<longrightarrow> tower_at t' lv x = tower_at t lv x)))"

lemma evolvesD:
  assumes "evolves T H t ns t' ns'"
  shows "head_node t' = head_node t" "\<And>x. x \<in> set ns \<Longrightarrow> x \<in> set ns'" "length (payloads t) \<le> length (payloads t')"
    "\<And>x. x \<in> set ns \<Longrightarrow> height (lnodes t' ! x) = height (lnodes t ! x)"
    "\<And>x. x \<in> set ns \<Longrightarrow> x \<notin> H \<Longrightarrow> data (lnodes t' ! x) = data (lnodes t ! x)"
    "\<And>x. x \<in> set ns \<Longrightarrow> x \<notin> H \<Longrightarrow> first_hint (lnodes t' ! x) = first_hint (lnodes t ! x)"
    "\<And>x. x \<in> set ns \<Longrightarrow> x \<notin> H \<Longrightarrow> get_data t' x = get_data t x"
    "\<And>x. x \<in> set ns \<Longrightarrow> entries_of t x \<noteq> [] \<Longrightarrow> entries_of t' x \<noteq> []"
    "\<And>x. x \<in> set ns \<Longrightarrow> entries_of t x \<noteq> [] \<Longrightarrow> le T (first_of t' x) (first_of t x)"
    "\<And>x. x \<in> set ns \<Longrightarrow> entries_of t x \<noteq> [] \<Longrightarrow> x \<noteq> head_node t \<Longrightarrow> le T (first_of t x) (first_of t' x)"
    "\<And>q. q < length (payloads t) \<Longrightarrow> payload_grows (payloads t ! q) (payloads t' ! q)"
    "\<And>q. q < length (payloads t) \<Longrightarrow> stale t ns q \<Longrightarrow> stale t' ns' q \<and> payloads t' ! q = payloads t ! q"
    "\<And>x q. x \<in> set ns \<Longrightarrow> data (lnodes t ! x) = Some q \<Longrightarrow> data (lnodes t' ! x) = Some q \<or>
        stale t' ns' q \<and> payloads t' ! q = payloads t ! q \<and> entries_of t x \<noteq> []"
    "spreads t ns t' ns'"
  using assms unfolding evolves_def by auto

lemma spreads_refl: "spreads t ns t ns"
  unfolding spreads_def by blast

lemma spreadsD:
  assumes "spreads t ns t' ns'" "ns = us @ vs"
  obtains us' vs' where "ns' = us' @ vs'" "\<And>nx. link_is nx vs \<Longrightarrow> link_is nx vs'"
    "mset (chain_entries t us) \<subseteq># mset (chain_entries t' us')" "mset (chain_entries t vs) \<subseteq># mset (chain_entries t' vs')"
  using assms unfolding spreads_def by blast

section \<open>Places survive the steps of others\<close>

lemma chain_path_split:
  assumes "chain T t (us @ c # vs)"
  shows "link_is (next_of t c) vs"
proof -
  have "path t (next_of t c) vs" by (rule path_append_Cons [OF chainD(1) [OF assms]])
  then show ?thesis by (cases vs) (simp_all add: link_is_def)
qed

lemma next_in_tail:
  assumes "chain T t ns" "c \<in> set ns" "next_of t c = Some n"
  shows "n \<in> set (tl ns)" "n \<noteq> head_node t" "n \<in> set ns"
proof -
  obtain us vs where ns: "ns = us @ c # vs" using assms(2) by (metis split_list)
  then have "link_is (Some n) vs" using chain_path_split [of T t us c vs] assms(1,3) by simp
  then obtain ws where "vs = n # ws" by (cases vs) (auto simp: link_is_def)
  then show n: "n \<in> set (tl ns)" using ns by (cases us) auto
  then show "n \<noteq> head_node t" "n \<in> set ns" using chain_Cons [OF assms(1)] chainD(2) [OF assms(1)] by auto
qed

context ordered_traits
begin

lemma rank_in_position: "rank_in T t key c = node_position t key c"
  by (simp add: rank_in_def node_position_def)

lemma positioned_evolves:
  assumes "evolves T H t ns t' ns'" "positioned T t ns key c"
  shows "positioned T t' ns' key c"
  using evolvesD(1,2,8,9) [OF assms(1)] assms(2) le_trans [of "first_of t' c" "first_of t c" key] by (auto simp: positioned_def)

lemma exact_evolves:
  assumes "evolves T H t ns t' ns'" "c \<in> set ns" "c \<notin> H" "exact_hint T t c"
  shows "exact_hint T t' c"
  using evolvesD(6,7) [OF assms(1-3)] assms(4) by (simp add: exact_hint_def)

lemma seen_evolves:
  assumes ev: "evolves T H t ns t' ns'" and n: "n \<in> set ns" and s: "seen T t ns n q"
  shows "seen T t' ns' n q"
proof -
  note e = evolvesD [OF ev]
  have q: "q < length (payloads t)" using s by (simp add: seen_def)
  consider "data (lnodes t' ! n) = Some q"
    | (split) "data (lnodes t ! n) = Some q" "stale t' ns' q" "payloads t' ! q = payloads t ! q" "entries_of t n \<noteq> []"
    | (old) "data (lnodes t ! n) \<noteq> Some q"
    using e(13) [OF n, of q] by blast
  then show ?thesis
  proof cases
    case 1
    then show ?thesis using q e(3) by (simp add: seen_def)
  next
    case split
    then have "get_data t n = payloads t' ! q" by (simp add: get_data_def)
    then show ?thesis using split(2-4) q e(1,3) e(8-10) [OF n split(4)] by (auto simp: seen_def)
  next
    case old
    then have o: "stale t ns q" "node_entries (payloads t ! q) \<noteq> []" "entries_of t n \<noteq> []"
      "le T (first_of t n) (hd (node_entries (payloads t ! q)))"
      "n \<noteq> head_node t \<Longrightarrow> le T (hd (node_entries (payloads t ! q))) (first_of t n)"
      using s by (auto simp: seen_def)
    have "le T (first_of t' n) (hd (node_entries (payloads t ! q)))" using e(9) [OF n o(3)] o(4) by (rule le_trans)
    moreover have "le T (hd (node_entries (payloads t ! q))) (first_of t' n)" if "n \<noteq> head_node t"
      using o(5) [OF that] e(10) [OF n o(3) that] by (rule le_trans)
    ultimately show ?thesis using e(8) [OF n o(3)] e(12) [OF q o(1)] o(2) q e(1,3) by (simp add: seen_def)
  qed
qed

lemma linking_evolves:
  assumes "evolves T H t ns t' ns'" "raises L t ns lim t' lim'" "c \<notin> H" "node \<notin> L" "linking T t ns lim c node lv"
  shows "linking T t' ns' lim' c node lv"
  using assms evolvesD(1,2,4) [OF assms(1)] exact_evolves [OF assms(1) _ assms(3)] by (auto simp: linking_def raises_def)

lemma purpose_ok_evolves:
  assumes "evolves T H t ns t' ns'" "raises L t ns lim t' lim'" "purpose_node pu \<inter> H = {}" "purpose_sibling pu \<inter> L = {}"
    "purpose_ok T t ns lim pu"
  shows "purpose_ok T t' ns' lim' pu"
  using assms linking_evolves [OF assms(1,2)] by (cases pu) auto

lemma reached_evolves:
  "evolves T H t ns t' ns' \<Longrightarrow> raises L t ns lim t' lim' \<Longrightarrow> c \<in> set ns \<Longrightarrow> reached t lim lv c \<Longrightarrow> reached t' lim' lv c"
  using evolvesD(1) [of T H t ns t' ns'] by (auto simp: reached_def raises_def dest: order_less_le_trans)

lemma link_ok_evolves:
  "evolves T H t ns t' ns' \<Longrightarrow> raises L t ns lim t' lim' \<Longrightarrow> link_ok ns lim lv nx \<Longrightarrow> link_ok ns' lim' lv nx"
  using evolvesD(2) [of T H t ns t' ns'] by (auto simp: link_ok_def raises_def dest: order_less_le_trans)

lemma hopping_evolves:
  assumes "evolves T H t ns t' ns'" "raises L t ns lim t' lim'" "purpose_node pu \<inter> H = {}" "purpose_sibling pu \<inter> L = {}"
    "hopping T t ns lim pu key lv c"
  shows "hopping T t' ns' lim' pu key lv c"
  using assms(5) purpose_ok_evolves [OF assms(1-4)] positioned_evolves [OF assms(1)] reached_evolves [OF assms(1,2)]
  by (auto simp: hopping_def positioned_def)

lemma testing_evolves:
  assumes "evolves T H t ns t' ns'" "raises L t ns lim t' lim'" "purpose_node pu \<inter> H = {}" "purpose_sibling pu \<inter> L = {}"
    "testing T t ns lim pu key lv c nx"
  shows "testing T t' ns' lim' pu key lv c nx"
  using assms(5) hopping_evolves [OF assms(1-4)] evolvesD(2) [OF assms(1)] assms(2)
  by (auto simp: testing_def raises_def dest: order_less_le_trans)

lemma belongs_iff:
  assumes "chain T t ns" "c \<in> set ns"
  shows "belongs_here T t (get_data t c) key \<longleftrightarrow> (\<forall>n. next_of t c = Some n \<longrightarrow> compare T (first_of t n) key > 0)"
proof -
  have "order_count (order (get_data t n)) > 0" "key_at (get_data t n) (order (get_data t n)) 0 = first_of t n"
    if "next_of t c = Some n" for n
    using chainD(8) [OF assms(1) next_in_tail(1) [OF assms that]] order_count_pos [of t n] first_key_at [of t n] by simp_all
  then show ?thesis by (auto simp: belongs_here_def next_of_def Let_def split: option.splits)
qed

lemma belonging_evolves:
  assumes ok: "chain T t ns" and ok': "chain T t' ns'" and ev: "evolves T H t ns t' ns'" and c: "c \<notin> H" and b: "belonging T t ns key c"
  shows "belonging T t' ns' key c"
proof -
  note e = evolvesD [OF ev]
  have p: "positioned T t ns key c" and in_c: "c \<in> set ns" "c \<in> set ns'" using b e(2) by (auto simp: belonging_def positioned_def)
  have above: "compare T (first_of t' n) key > 0" if n: "next_of t' c = Some n" for n
  proof -
    have n': "next_of t c = Some n" using n e(7) [OF in_c(1) c] by (simp add: next_of_def)
    note i = next_in_tail [OF ok in_c(1) n']
    have "compare T key (first_of t n) < 0"
      using b belongs_iff [OF ok in_c(1), of key] n' sign [of key "first_of t n"] by (auto simp: belonging_def)
    moreover have "le T (first_of t n) (first_of t' n)" by (rule e(10) [OF i(3) chainD(8) [OF ok i(1)] i(2)])
    ultimately have "compare T key (first_of t' n) < 0" by (rule less_le_trans)
    then show ?thesis by (simp add: sign)
  qed
  then show ?thesis using positioned_evolves [OF ev p] belongs_iff [OF ok' in_c(2), of key] by (auto simp: belonging_def)
qed

lemma ahead_evolves:
  assumes "evolves T H t ns t' ns'" "ahead T t ns bs ys c"
  shows "ahead T t' ns' bs ys c"
proof -
  obtain us vs where a: "ns = us @ c # vs" "mset ys \<subseteq># mset (chain_entries t us)"
    "mset bs \<subseteq># mset ys + mset (chain_entries t (c # vs))" "sorted_wrt (le T) ys"
    using assms(2) by (auto simp: ahead_def)
  obtain us' vs' where s: "ns' = us' @ vs'" "link_is (Some c) (c # vs) \<Longrightarrow> link_is (Some c) vs'"
    "mset (chain_entries t us) \<subseteq># mset (chain_entries t' us')" "mset (chain_entries t (c # vs)) \<subseteq># mset (chain_entries t' vs')"
    using spreadsD [OF evolvesD(14) [OF assms(1)] a(1)] by metis
  obtain ws where vs: "vs' = c # ws" using s(2) by (cases vs') (auto simp: link_is_def)
  have "mset bs \<subseteq># mset ys + mset (chain_entries t' (c # ws))"
    using a(3) subset_mset.add_left_mono [OF s(4)] unfolding vs by (rule subset_mset.order_trans)
  then show ?thesis using a(4) s(1) subset_mset.order_trans [OF a(2) s(3)] unfolding ahead_def vs by blast
qed

lemma walking_evolves:
  assumes "evolves T H t ns t' ns'" "walking T t ns bs ys q w pos"
  shows "walking T t' ns' bs ys q w pos"
proof -
  let ?d = "payloads t ! q" and ?d' = "payloads t' ! q" and ?rest = "drop pos (node_entries (view (payloads t ! q) w))"
  obtain us vs where a: "q < length (payloads t)" "snap ?d w" "ns = us @ vs" "link_is (next_link ?d) vs"
    "mset (ys @ ?rest) \<subseteq># mset (chain_entries t us)" "mset bs \<subseteq># mset (ys @ ?rest) + mset (chain_entries t vs)" "sorted_wrt (le T) (ys @ ?rest)"
    using assms(2) by (auto simp: walking_def Let_def)
  have g: "payload_grows ?d ?d'" by (rule evolvesD(11) [OF assms(1) a(1)])
  note n = snap_grows [OF a(2) g]
  have nl: "next_link ?d' = next_link ?d" using g by (simp add: payload_grows_def)
  obtain us' vs' where s: "ns' = us' @ vs'" "\<And>nx. link_is nx vs \<Longrightarrow> link_is nx vs'"
    "mset (chain_entries t us) \<subseteq># mset (chain_entries t' us')" "mset (chain_entries t vs) \<subseteq># mset (chain_entries t' vs')"
    using spreadsD [OF evolvesD(14) [OF assms(1)] a(3)] by metis
  have "mset bs \<subseteq># mset (ys @ ?rest) + mset (chain_entries t' vs')"
    using a(6) subset_mset.add_left_mono [OF s(4)] by (rule subset_mset.order_trans)
  then show ?thesis
    using a(1,7) s(1,2) a(4) subset_mset.order_trans [OF a(5) s(3)] n nl evolvesD(3) [OF assms(1)]
    unfolding walking_def Let_def by (intro conjI exI [of _ us'] exI [of _ vs']) simp_all
qed

text \<open>An iterator's payload as it was when the node showed it, once the word is read.\<close>

lemma ahead_walking:
  assumes ok: "chain T t ns" and q: "data (lnodes t ! c) = Some q" and a: "ahead T t ns bs ys c"
  shows "walking T t ns bs ys q (order (payloads t ! q)) 0"
proof -
  obtain us vs where v: "ns = us @ c # vs" "mset ys \<subseteq># mset (chain_entries t us)"
    "mset bs \<subseteq># mset ys + mset (chain_entries t (c # vs))" "sorted_wrt (le T) ys"
    using a by (auto simp: ahead_def)
  have c: "c \<in> set ns" using v(1) by simp
  have d: "get_data t c = payloads t ! q" by (simp add: get_data_def q)
  have so: "sorted_wrt (le T) (chain_entries t us @ entries_of t c @ chain_entries t vs)"
    using chainD(9) [OF ok] v(1) by simp
  have "set ys \<subseteq> set (chain_entries t us)" using v(2) by (metis set_mset_mono set_mset_mset)
  then have "sorted_wrt (le T) (ys @ entries_of t c)" using so v(4) by (auto simp: sorted_wrt_append)
  moreover have "link_is (next_link (payloads t ! q)) vs"
    using chain_path_split [of T t us c vs] ok v(1) by (simp add: next_of_def d)
  moreover have "q < length (payloads t)" "snap (payloads t ! q) (order (payloads t ! q))"
    using chainD(5) [OF ok c] chainD(6) [OF ok c] q snap_self by (auto simp: d)
  moreover have "mset (ys @ entries_of t c) \<subseteq># mset (chain_entries t (us @ [c]))"
    using v(2) by simp
  moreover have "mset bs \<subseteq># mset (ys @ entries_of t c) + mset (chain_entries t vs)" using v(3) by (simp add: add.assoc)
  ultimately show ?thesis
    using v(1) unfolding walking_def Let_def d [symmetric] by (intro conjI exI [of _ "us @ [c]"] exI [of _ vs]) (simp_all add: d)
qed

lemma adopting_evolves:
  assumes ok: "chain T t ns" and ev: "evolves T H t ns t' ns'" and a: "adopting T t ns bs ys q"
  shows "adopting T t' ns' bs ys q"
proof -
  note e = evolvesD [OF ev]
  have q: "q < length (payloads t)" "q < length (payloads t')" using a e(3) by (auto simp: adopting_def)
  from a consider (now) c where "c \<in> set ns" "data (lnodes t ! c) = Some q" "ahead T t ns bs ys c"
    | (old) "stale t ns q" "walking T t ns bs ys q (order (payloads t ! q)) 0"
    by (auto simp: adopting_def)
  then show ?thesis
  proof cases
    case now
    then consider "data (lnodes t' ! c) = Some q" | "stale t' ns' q" "payloads t' ! q = payloads t ! q" using e(13) by blast
    then show ?thesis
      using now ahead_evolves [OF ev now(3)] walking_evolves [OF ev ahead_walking [OF ok now(2,3)]] q e(2)
      by cases (auto simp: adopting_def)
  next
    case old
    then show ?thesis using walking_evolves [OF ev old(2)] e(12) [OF q(1) old(1)] q by (simp add: adopting_def)
  qed
qed

lemma append_done_evolves:
  assumes "evolves T H t ns t' ns'" "c \<in> set ns" "c \<notin> H" "data (lnodes t ! c) = Some p" "append_done T t s key c p w rank"
  shows "append_done T t' s key c p w rank"
proof -
  have "payloads t' ! p = payloads t ! p"
    using evolvesD(5,7) [OF assms(1-3)] assms(4) by (simp add: get_data_def)
  then show ?thesis
    using assms(5) evolvesD(6) [OF assms(1-3)] exact_evolves [OF assms(1-3)] by (auto simp: append_done_def Let_def)
qed

theorem placed_evolves:
  assumes ok: "chain T t ns" and ok': "chain T t' ns'" and ev: "evolves T H t ns t' ns'" and r: "raises L t ns lim t' lim'"
    and es: "mset es \<subseteq># mset es'" and H: "holds th \<inter> H = {}" and L: "links th \<inter> L = {}" and p: "placed T t ns lim es th"
  shows "placed T t' ns' lim' es' th"
proof -
  note rc = reached_evolves [OF ev r] and ts = testing_evolves [OF ev r] and pos = positioned_evolves [OF ev] and ex = exact_evolves [OF ev] and pu = purpose_ok_evolves [OF ev r]
    and hop = hopping_evolves [OF ev r] and sn = seen_evolves [OF ev]
    and bel = belonging_evolves [OF ok ok' ev] and lk = linking_evolves [OF ev r] and lo = link_ok_evolves [OF ev r]
  have sub: "set es \<subseteq> set es'" using es by (metis set_mset_mono set_mset_mset)
  have in_ns: "positioned T t ns key c \<Longrightarrow> c \<in> set ns" "belonging T t ns key c \<Longrightarrow> c \<in> set ns" for key c
    by (auto simp: positioned_def belonging_def)
  have mine: "get_data t' c = get_data t c \<and> data (lnodes t' ! c) = data (lnodes t ! c)" if "c \<in> set ns" "c \<notin> H" for c
    using evolvesD(5,7) [OF ev that] by simp
  show ?thesis
  proof (cases th)
    case (Recheck key c n q)
    then have "c \<in> set ns" "c \<notin> H" "next_of t c = Some n" using p H by (auto intro: in_ns)
    then show ?thesis using Recheck p pos ex mine sn [OF next_in_tail(3) [OF ok]] by (auto simp: next_of_def)
  next
    case (Behind key c n)
    then show ?thesis using p H pos ex mine by (auto simp: next_of_def dest: in_ns)
  next
    case (Appending s key c p w rank)
    then have c: "c \<in> set ns" "c \<notin> H" and "data (lnodes t ! c) = Some p" using \<open>placed T t ns lim es th\<close> H by (auto intro: in_ns)
    moreover from this have "payloads t' ! p = payloads t ! p" using mine [of c] by (auto simp: get_data_def)
    ultimately show ?thesis
      using Appending \<open>placed T t ns lim es th\<close> bel append_done_evolves [OF ev] mine [OF c] by (auto simp: rank_in_def)
  next
    case (Splitting key c p merged)
    then show ?thesis using \<open>placed T t ns lim es th\<close> H bel ex mine [of c] in_ns(2) [of key c] by (auto simp: rank_in_def)
  next
    case (Publishing key c p merged)
    then show ?thesis using \<open>placed T t ns lim es th\<close> H bel mine [of c] in_ns(2) [of key c] by (auto simp: rank_in_def)
  next
    case (Swap c node lv a key pred nx)
    then have "node \<in> set ns" "c \<notin> H" "node \<notin> L" "linking T t ns lim c node lv" using p H L by (auto simp: linking_def)
    moreover from this have "tower_at t' lv node = tower_at t lv node" using r by (auto simp: raises_def linking_def)
    ultimately show ?thesis using Swap p lk lo rc evolvesD(2) [OF ev] by auto
  next
    case (Peek pu key lv c nx q)
    then show ?thesis using p H L ts [of pu key lv c nx] sn [of nx q] by (auto simp: testing_def)
  next
    case (Loaded key q)
    then show ?thesis using p evolvesD(3) [OF ev] by auto
  next
    case (Snapped key q w)
    then have "q < length (payloads t)" "snap (payloads t ! q) w" using p by auto
    then show ?thesis using Snapped p snap_grows [OF _ evolvesD(11) [OF ev]] evolvesD(3) [OF ev] sub by auto
  next
    case (Answered key b)
    then show ?thesis using p sub by auto
  next
    case (Done bs ys)
    then show ?thesis using p subset_mset.order_trans [OF _ es] by auto
  qed (use p H L in \<open>auto intro: pos ex hop ts rc bel lk lo in_ns evolvesD(2) [OF ev]
      ahead_evolves [OF ev] adopting_evolves [OF ok ev] walking_evolves [OF ev]\<close>)
qed

end

end
