(* ===== verification/Thread_Steps.thy ===== *)
theory Thread_Steps
  imports Thread_Places
begin

text \<open>
  What holds of the shared table at every moment (\<open>shared_ok\<close>), and that every step of a placed thread
  keeps it, leaves the thread placed and is harmless to the others (\<open>thread_step_ok\<close>).
\<close>

section \<open>The shared table\<close>

definition payloads_sound :: "'e table \<Rightarrow> 'e list \<Rightarrow> bool" where
  "payloads_sound t es \<longleftrightarrow> (\<forall>d \<in> set (payloads t). node_ok d \<and> set (node_entries d) \<subseteq> set es)"

text \<open>A tower pointer leads to a node whose linking is past its level.\<close>

definition linked_below :: "'e table \<Rightarrow> nat list \<Rightarrow> (nat \<Rightarrow> nat) \<Rightarrow> bool" where
  "linked_below t ns lim \<longleftrightarrow>
     (\<forall>x \<in> set ns. \<forall>lv y. 0 < lv \<and> lv < kMaxHeight \<and> tower_at t lv x = Some y \<longrightarrow> lv < lim y)"

text \<open>Only the head's hint is ever ahead of its entries, where hints are used at all.\<close>

definition hints_sound :: "'e traits \<Rightarrow> 'e table \<Rightarrow> nat list \<Rightarrow> bool" where
  "hints_sound T t ns \<longleftrightarrow> (hint_ordering T \<longrightarrow> (\<forall>x \<in> set (tl ns). exact_hint T t x))"

definition shared_ok :: "'e traits \<Rightarrow> 'e table \<Rightarrow> nat list \<Rightarrow> (nat \<Rightarrow> nat) \<Rightarrow> 'e list \<Rightarrow> bool" where
  "shared_ok T t ns lim es \<longleftrightarrow> chain T t ns \<and> mset (chain_entries t ns) = mset es \<and> payloads_sound t es \<and>
     linked_below t ns lim \<and> hints_sound T t ns \<and> (\<forall>x \<in> set ns. x \<notin> held t \<longrightarrow> exact_hint T t x)"

lemma shared_okD:
  assumes "shared_ok T t ns lim es"
  shows "chain T t ns" "mset (chain_entries t ns) = mset es" "payloads_sound t es" "linked_below t ns lim" "hints_sound T t ns"
    "\<And>x. x \<in> set ns \<Longrightarrow> x \<notin> held t \<Longrightarrow> exact_hint T t x"
  using assms by (auto simp: shared_ok_def)

text \<open>What one step of a thread must leave behind.\<close>

definition stepped ::
  "'e traits \<Rightarrow> 'e table \<Rightarrow> nat list \<Rightarrow> (nat \<Rightarrow> nat) \<Rightarrow> 'e list \<Rightarrow> 'e thread \<Rightarrow> 'e thread \<times> 'e table \<times> 'e list \<Rightarrow> bool" where
  "stepped T t ns lim es th r \<longleftrightarrow>
     (case r of (th', t', new) \<Rightarrow>
        \<exists>ns' lim'. shared_ok T t' ns' lim' (es @ new) \<and> evolves T (holds th) t ns t' ns' \<and> raises (links th) t ns lim t' lim' \<and>
          placed T t' ns' lim' (es @ new) th' \<and>
          held t' = held t - holds th \<union> holds th' \<and> holds th' \<inter> (held t - holds th) = {} \<and> links th' \<inter> set ns \<subseteq> links th)"

lemma raises_refl [simp]: "raises L t ns lim t lim"
  by (simp add: raises_def)

lemma exact_same:
  "get_data t' x = get_data t x \<Longrightarrow> first_hint (lnodes t' ! x) = first_hint (lnodes t ! x) \<Longrightarrow> exact_hint T t' x \<longleftrightarrow> exact_hint T t x"
  by (simp add: exact_hint_def)

section \<open>Stores that leave the chain alone\<close>

lemma shared_shown:
  assumes "shared_ok T t ns lim es" "shows_same t ns t'" "towers_ok t' ns" "linked_below t' ns lim'" "payloads_sound t' es"
    "hints_sound T t' ns" "\<And>x. x \<in> set ns \<Longrightarrow> x \<notin> held t' \<Longrightarrow> exact_hint T t' x"
  shows "shared_ok T t' ns lim' es"
  using assms shown_chain [of T t ns t'] by (auto simp: shared_ok_def)

context ordered_traits
begin

text \<open>Stores into list nodes other than \<^verbatim>\<open>data\<close>.\<close>

lemma evolves_lnodes:
  assumes "payloads t' = payloads t" "head_node t' = head_node t" "\<And>n. data (lnodes t' ! n) = data (lnodes t ! n)"
    "\<And>n. height (lnodes t' ! n) = height (lnodes t ! n)" "\<And>n. n \<notin> H \<Longrightarrow> first_hint (lnodes t' ! n) = first_hint (lnodes t ! n)"
  shows "evolves T H t ns t' ns"
proof -
  have g: "get_data t' = get_data t" using assms(1,3) by (simp add: fun_eq_iff get_data_def)
  then have "chain_entries t' = chain_entries t" by (simp add: fun_eq_iff chain_entries_def)
  then have "spreads t ns t' ns" using spreads_refl [of t ns] by (simp add: spreads_def)
  then show ?thesis using assms g by (simp add: evolves_def stale_def)
qed

lemma evolves_refl: "evolves T H t ns t ns"
  by (rule evolves_lnodes) simp_all

lemma append_eq_middle:
  assumes "us2 @ vs2 = us @ c # vs"
  shows "(\<exists>ws. us2 = us @ c # ws \<and> vs = ws @ vs2) \<or> (\<exists>ws. us = us2 @ ws \<and> vs2 = ws @ c # vs)"
  using assms by (auto simp: append_eq_append_conv2 append_eq_Cons_conv)

lemma link_is_middle: "link_is nx (ws @ c # vs) \<longleftrightarrow> link_is nx (ws @ c # vs')"
  by (cases ws) (simp_all add: link_is_def)

lemma spreads_at:
  assumes ns: "ns = us @ c # vs" "ns' = us @ c # ms @ vs" and same: "\<And>x. x \<in> set us \<union> set vs \<Longrightarrow> entries_of t' x = entries_of t x"
    and more: "mset (entries_of t c) \<subseteq># mset (chain_entries t' (c # ms))"
  shows "spreads t ns t' ns'"
  unfolding spreads_def
proof (intro allI impI)
  fix us2 vs2
  assume "ns = us2 @ vs2"
  then have "us2 @ vs2 = us @ c # vs" using ns by simp
  from append_eq_middle [OF this]
  consider (left) ws where "us2 = us @ c # ws" "vs = ws @ vs2" | (right) ws where "us = us2 @ ws" "vs2 = ws @ c # vs"
    by (elim disjE exE conjE)
  then show "\<exists>us' vs'. ns' = us' @ vs' \<and> (\<forall>nx. link_is nx vs2 \<longrightarrow> link_is nx vs') \<and>
    mset (chain_entries t us2) \<subseteq># mset (chain_entries t' us') \<and> mset (chain_entries t vs2) \<subseteq># mset (chain_entries t' vs')"
  proof cases
    case left
    have e: "chain_entries t' us = chain_entries t us" "chain_entries t' ws = chain_entries t ws" "chain_entries t' vs2 = chain_entries t vs2"
      using same unfolding left(2) by (simp_all add: chain_entries_def cong: map_cong)
    have "mset (chain_entries t us2) \<subseteq># mset (chain_entries t' (us @ c # ms @ ws))"
      using subset_mset.add_right_mono [OF more, of "mset (chain_entries t ws)"] by (simp add: left e add.assoc)
    moreover have "ns' = (us @ c # ms @ ws) @ vs2" by (simp add: ns(2) left(2))
    ultimately show ?thesis using e(3) by (intro exI [of _ "us @ c # ms @ ws"] exI [of _ vs2] conjI) simp_all
  next
    case right
    have e: "chain_entries t' us2 = chain_entries t us2" "chain_entries t' ws = chain_entries t ws" "chain_entries t' vs = chain_entries t vs"
      using same unfolding right(1) by (simp_all add: chain_entries_def cong: map_cong)
    have "mset (chain_entries t vs2) \<subseteq># mset (chain_entries t' (ws @ c # ms @ vs))"
      using subset_mset.add_right_mono [OF more, of "mset (chain_entries t vs)"] by (simp add: right e add.assoc)
    moreover have "ns' = us2 @ ws @ c # ms @ vs" by (simp add: ns(2) right(1))
    moreover have "link_is nx vs2 \<longrightarrow> link_is nx (ws @ c # ms @ vs)" for nx unfolding right(2) using link_is_middle [of nx ws c vs "ms @ vs"] by simp
    ultimately show ?thesis using e(1) by (intro exI [of _ us2] exI [of _ "ws @ c # ms @ vs"] conjI) simp_all
  qed
qed

text \<open>Stores into the payload of a locked node.\<close>

lemma evolves_payload:
  assumes ok: "chain T t ns" and c: "c \<in> set ns" "c \<in> H" "data (lnodes t ! c) = Some p"
    and t': "lnodes t' = lnodes t" "head_node t' = head_node t" "payloads t' = (payloads t)[p := d']"
    and d': "payload_grows (payloads t ! p) d'" "mset (node_entries (payloads t ! p)) \<subseteq># mset (node_entries d')"
    and first: "entries_of t c \<noteq> [] \<Longrightarrow> le T (hd (node_entries d')) (first_of t c) \<and> (c \<noteq> head_node t \<longrightarrow> le T (first_of t c) (hd (node_entries d')))"
  shows "evolves T H t ns t' ns"
proof -
  have p: "p < length (payloads t)" using chainD(5) [OF ok c(1)] c(3) by auto
  have other: "data (lnodes t ! x) \<noteq> Some p" if "x \<in> set ns" "x \<noteq> c" for x
    using chainD(3) [OF ok] that c(1,3) by (auto simp: distinct_map dest: inj_onD [of "\<lambda>n. data (lnodes t ! n)" "set ns" x c])
  have gc: "get_data t' c = d'" "get_data t c = payloads t ! p" using c(3) p by (simp_all add: get_data_def t')
  have g: "get_data t' x = get_data t x" if "x \<in> set ns" "x \<noteq> c" for x
    using other [OF that] chainD(5) [OF ok that(1)] by (auto simp: get_data_def t')
  obtain us vs where ns: "ns = us @ c # vs" using c(1) by (metis split_list)
  have "x \<noteq> c" if "x \<in> set us \<union> set vs" for x using chainD(2) [OF ok] ns that by auto
  then have "spreads t ns t' ns"
    using d'(2) g ns by (intro spreads_at [where ms = "[]"]) (auto simp: gc)
  moreover have "entries_of t' x \<noteq> [] \<and> le T (first_of t' x) (first_of t x) \<and> (x \<noteq> head_node t \<longrightarrow> le T (first_of t x) (first_of t' x))"
    if "x \<in> set ns" "entries_of t x \<noteq> []" for x
  proof (cases "x = c")
    case True
    have "node_entries d' \<noteq> []" using d'(2) that(2) by (auto simp: True gc)
    then show ?thesis using first that(2) by (simp add: True gc)
  qed (use g [OF that(1)] that(2) in simp)
  moreover have "payload_grows (payloads t ! q) (payloads t' ! q)" if "q < length (payloads t)" for q
    using d'(1) that by (cases "q = p") (simp_all add: t')
  moreover have "payloads t' ! q = payloads t ! q" if "stale t ns q" for q
    using that c(1,3) by (cases "q = p") (auto simp: t' stale_def)
  ultimately show ?thesis using t' c(2) g by (auto simp: evolves_def stale_def)
qed

section \<open>Steps that store nothing\<close>

lemma steppedI:
  assumes "shared_ok T t ns lim' es" "raises (links th) t ns lim t lim'" "placed T t ns lim' es th'"
    "holds th' = holds th" "links th' \<subseteq> links th" "holds th \<subseteq> held t"
  shows "stepped T t ns lim es th (th', t, [])"
  using assms evolves_refl [of "holds th" t ns] unfolding stepped_def by (auto intro!: exI [of _ ns] exI [of _ lim'])

lemma linked_below_mono:
  "linked_below t ns lim \<Longrightarrow> chain T t ns \<Longrightarrow> (\<And>x. x \<in> set ns \<Longrightarrow> lim x \<le> lim' x) \<Longrightarrow> linked_below t ns lim'"
  using chainD(10) [of T t ns] unfolding linked_below_def towers_ok_def by (meson order_less_le_trans)

lemma shared_ok_limits:
  "shared_ok T t ns lim es \<Longrightarrow> (\<And>x. x \<in> set ns \<Longrightarrow> lim x \<le> lim' x) \<Longrightarrow> shared_ok T t ns lim' es"
  using linked_below_mono [of t ns lim lim'] by (auto simp: shared_ok_def)

lemma head_reached:
  assumes "chain T t ns"
  shows "positioned T t ns key (head_node t)" "reached t lim lv (head_node t)"
  using chain_Cons [OF assms] by (auto simp: positioned_def reached_def)

lemma begin_descent_placed:
  assumes "chain T t ns" "descends pu" "purpose_ok T t ns lim pu" "bottom_level pu < kMaxHeight"
  shows "placed T t ns lim es (begin_descent pu key t)" "holds (begin_descent pu key t) = purpose_node pu"
    "links (begin_descent pu key t) = purpose_sibling pu"
  using assms head_reached [OF assms(1)] by (auto simp: begin_descent_def hopping_def)

text \<open>The two loops of \<^verbatim>\<open>link_tower\<close>: the next level raises the sibling's limit.\<close>

lemma link_from_placed:
  assumes ok: "chain T t ns" and c: "c \<in> set ns" "exact_hint T t c" and node: "node \<in> set ns" "node \<noteq> head_node t"
    "unat (height (lnodes t ! node)) \<le> kMaxHeight" and lv: "0 < lv" "lim node = lv"
  shows "placed T t ns lim es (link_from t c node lv key)" "holds (link_from t c node lv key) = {c}"
    "links (link_from t c node lv key) \<subseteq> {node}"
proof -
  have "linking T t ns lim c node lv" if "lv < unat (height (lnodes t ! node))"
    using that assms by (simp add: linking_def)
  then show "placed T t ns lim es (link_from t c node lv key)" "holds (link_from t c node lv key) = {c}"
    "links (link_from t c node lv key) \<subseteq> {node}"
    using begin_descent_placed [OF ok, where pu = "Finding c node lv 0" and lim = lim] node(3) c by (auto simp: link_from_def)
qed

lemma next_level:
  assumes sh: "shared_ok T t ns lim es" and l: "linking T t ns lim c node lv"
  obtains lim' where "shared_ok T t ns lim' es" "raises {node} t ns lim t lim'" "placed T t ns lim' es (link_from t c node (lv + 1) key)"
    "holds (link_from t c node (lv + 1) key) = {c}" "links (link_from t c node (lv + 1) key) \<subseteq> {node}"
proof -
  let ?lim = "lim(node := lv + 1)"
  note ll = l [unfolded linking_def]
  have "shared_ok T t ns ?lim es" using ll by (intro shared_ok_limits [OF sh]) auto
  moreover have "raises {node} t ns lim t ?lim" using ll by (simp add: raises_def)
  moreover note link_from_placed [OF shared_okD(1) [OF sh], where c = c and node = node and lv = "lv + 1" and lim = ?lim]
  ultimately show thesis using that ll by auto
qed

lemma try_again_placed:
  assumes sh: "shared_ok T t ns lim es" and l: "linking T t ns lim c node lv"
  obtains lim' where "shared_ok T t ns lim' es" "raises {node} t ns lim t lim'" "placed T t ns lim' es (try_again t c node lv a key)"
    "holds (try_again t c node lv a key) = {c}" "links (try_again t c node lv a key) \<subseteq> {node}"
proof (cases "a + 1 < 8")
  case True
  have "placed T t ns lim es (try_again t c node lv a key)" "holds (try_again t c node lv a key) = {c}"
    "links (try_again t c node lv a key) \<subseteq> {node}"
    using begin_descent_placed [OF shared_okD(1) [OF sh], where pu = "Finding c node lv (a + 1)" and lim = lim] l True
    by (auto simp: try_again_def linking_def)
  then show thesis using that [of lim] sh by simp
next
  case False
  then have "try_again t c node lv a key = link_from t c node (lv + 1) key" by (simp add: try_again_def)
  then show thesis using next_level [OF sh l, of key] that by metis
qed

lemma lower_level_placed:
  assumes "descends pu" "hopping T t ns lim pu key lv c"
  shows "placed T t ns lim es (lower_level pu key lv c)" "holds (lower_level pu key lv c) = purpose_node pu"
    "links (lower_level pu key lv c) = purpose_sibling pu"
  using assms by (auto simp: lower_level_def hopping_def reached_def)

text \<open>The answer of a test, if a yes is right.\<close>

lemma tested_placed:
  assumes sh: "shared_ok T t ns lim es" and te: "testing T t ns lim pu key lv c nx" and yes: "below \<Longrightarrow> positioned T t ns key nx"
  obtains lim' where "shared_ok T t ns lim' es" "raises (purpose_sibling pu) t ns lim t lim'"
    "placed T t ns lim' es (tested t pu key lv c nx below)" "holds (tested t pu key lv c nx below) = purpose_node pu"
    "links (tested t pu key lv c nx below) \<subseteq> purpose_sibling pu"
proof (cases "descends pu")
  case True
  have hop: "hopping T t ns lim pu key lv c" using te by (simp add: testing_def)
  have "hopping T t ns lim pu key lv nx" if below using te yes [OF that] by (auto simp: testing_def hopping_def reached_def)
  moreover have "tested t pu key lv c nx below = (if below then Hop pu key lv nx else lower_level pu key lv c)"
    using True by (cases pu) (simp_all add: tested_def)
  ultimately show thesis using that [of lim] sh lower_level_placed [OF True hop] True by simp
next
  case False
  then obtain d node l a where pu: "pu = Checking d node l a" by (cases pu) auto
  have l: "linking T t ns lim d node l" and c: "c \<in> set ns" "c \<noteq> node" "reached t lim l c" "nx \<in> set ns" "l < lim nx"
    using te by (auto simp: pu testing_def hopping_def positioned_def linking_def)
  show thesis
  proof (cases below)
    case True
    then show ?thesis using try_again_placed [OF sh l, of a key] that by (auto simp: pu tested_def)
  next
    case False
    then show ?thesis using that [of lim] sh l c by (simp add: pu tested_def link_ok_def)
  qed
qed

text \<open>Hints and first keys decide alike, wherever a hint differs.\<close>

lemma hint_test_positioned:
  assumes sh: "shared_ok T t ns lim es" and nx: "nx \<in> set ns" and h: "hints t"
    and less: "first_hint (lnodes t ! nx) < search_hint t (order_bytes T key)"
  shows "positioned T t ns key nx"
proof (cases "nx = head_node t")
  case False
  note ok = shared_okD(1) [OF sh]
  have tl: "nx \<in> set (tl ns)" using nx False chain_Cons [OF ok] by auto
  have ho: "hint_ordering T" using h chainD(11) [OF ok] by simp
  have ne: "entries_of t nx \<noteq> []" by (rule chainD(8) [OF ok tl])
  have "first_hint (lnodes t ! nx) = descent_hint (order_bytes T (first_of t nx))"
    using shared_okD(5) [OF sh] ho tl ne by (simp add: hints_sound_def exact_hint_def)
  then have "compare T (first_of t nx) key < 0" using less h ho by (intro hint_less) (simp_all add: search_hint_def)
  then show ?thesis using nx ne by (simp add: positioned_def)
qed (use nx in \<open>simp add: positioned_def\<close>)

lemma peek_positioned:
  assumes ok: "chain T t ns" and nx: "nx \<in> set ns" and s: "seen T t ns nx q"
    and yes: "order_count (order (payloads t ! q)) > 0" "le T (key_at (payloads t ! q) (order (payloads t ! q)) 0) key"
  shows "positioned T t ns key nx"
proof -
  let ?d = "payloads t ! q"
  have ne: "node_entries ?d \<noteq> []" using yes(1) length_node_entries [of ?d] by (metis length_greater_0_conv)
  then have k: "le T (hd (node_entries ?d)) key" using yes by (simp add: key_at_entries hd_conv_nth)
  show ?thesis
  proof (cases "data (lnodes t ! nx) = Some q")
    case True
    then have "get_data t nx = ?d" by (simp add: get_data_def)
    then show ?thesis using nx ne k by (simp add: positioned_def)
  next
    case False
    then have "entries_of t nx \<noteq> []" "le T (first_of t nx) (hd (node_entries ?d))" using s by (auto simp: seen_def)
    then show ?thesis using nx le_trans [OF _ k] by (simp add: positioned_def)
  qed
qed

lemma recheck_belonging:
  assumes ok: "chain T t ns" and c: "positioned T t ns key c" "next_of t c = Some n" and s: "seen T t ns n q"
    and yes: "order_count (order (payloads t ! q)) = 0 \<or> compare T (key_at (payloads t ! q) (order (payloads t ! q)) 0) key > 0"
  shows "belonging T t ns key c"
proof -
  let ?d = "payloads t ! q"
  have c': "c \<in> set ns" using c(1) by (simp add: positioned_def)
  note n = next_in_tail [OF ok c' c(2)]
  have ne: "entries_of t n \<noteq> []" by (rule chainD(8) [OF ok n(1)])
  have d: "node_entries ?d \<noteq> [] \<and> le T (hd (node_entries ?d)) (first_of t n)"
    using s n(2) ne by (auto simp: seen_def get_data_def)
  then have "order_count (order ?d) > 0" using length_node_entries [of ?d] by (metis length_greater_0_conv)
  then have "compare T (hd (node_entries ?d)) key > 0" using yes d by (simp add: key_at_entries hd_conv_nth)
  then have "compare T key (first_of t n) < 0" using d less_le_trans sign by blast
  then have "compare T (first_of t n) key > 0" by (simp add: sign)
  then show ?thesis using c belongs_iff [OF ok c', of key] by (simp add: belonging_def)
qed

text \<open>Where the entry goes, once it is known to belong to the node.\<close>

lemma positioned_locate:
  assumes ok: "chain_ok T t ns" and c: "positioned T t ns key c" and b: "belongs_here T t (get_data t c) key"
  shows "locate T t ns key = c"
proof -
  let ?P = "\<lambda>n. le T (first_of t n) key"
  obtain us vs where ns: "ns = us @ c # vs" using c by (metis positioned_def split_list)
  have stop: "takeWhile ?P vs = []"
  proof (cases vs)
    case (Cons v vs')
    have "entries_of t v \<noteq> []" using chain_okD(5) [OF ok, of v] ns Cons by (cases us) auto
    moreover have "next_of t c = Some v" using path_append_Cons [of t _ us c vs] chain_okD(1) [OF ok] ns Cons by auto
    ultimately have "compare T (first_of t v) key > 0"
      using b order_count_pos [of t v] by (simp add: belongs_here_def next_of_def Let_def first_key_at)
    then show ?thesis using Cons by simp
  qed simp
  show ?thesis
  proof (cases us)
    case Nil
    then show ?thesis using stop ns by (simp add: locate_def)
  next
    case (Cons h ws)
    have "c \<noteq> head_node t" using chain_head [OF ok] chain_okD(2) [OF ok] ns Cons by auto
    then have P: "?P c" using c by (simp add: positioned_def)
    have "downward ?P (tl ns)" by (rule downward_first_below [OF ok]) (rule le_trans)
    moreover have "tl ns = ws @ c # vs" using ns Cons by simp
    ultimately have "\<forall>u \<in> set ws. ?P u" using P unfolding downward_def by blast
    then have "takeWhile ?P (tl ns) = ws @ [c]" using P stop ns Cons by (simp add: takeWhile_append2)
    then show ?thesis using ns Cons by (simp add: locate_def)
  qed
qed

lemma positioned_settle [simp]: "positioned T (settle T t) ns key c = positioned T t ns key c"
  by (simp add: positioned_def)

lemma belonging_split:
  assumes ok: "chain T t ns" and b: "belonging T t ns key c"
  obtains us vs where "ns = us @ c # vs" "splits_at T (chain_entries t ns) key (length (chain_entries t us) + rank_in T t key c)"
proof -
  have "locate T (settle T t) ns key = c"
    using b by (intro positioned_locate [OF ok [unfolded chain_def]]) (simp_all add: belonging_def)
  moreover have "node_position (settle T t) key c = rank_in T t key c" by (simp add: node_position_def rank_in_def)
  ultimately show thesis using locate_position [OF ok [unfolded chain_def], of key] that by (metis settle_reads(4))
qed

section \<open>Steps that store\<close>

lemma held_lock:
  assumes "n < length (lnodes t)"
  shows "held (upd_node t n (\<lambda>x. x\<lparr>write_lock := b\<rparr>)) = (if b then insert n (held t) else held t - {n})"
proof -
  have "locks (upd_node t n (\<lambda>x. x\<lparr>write_lock := b\<rparr>)) = (locks t)[n := b]" by (simp add: locks_def upd_node_def map_update)
  then show ?thesis using assms by (auto simp: held_def locks_def nth_list_update)
qed

lemma held_same: "locks t' = locks t \<Longrightarrow> held t' = held t"
  by (simp add: held_def)

text \<open>The lock.\<close>

lemma lock_step:
  assumes sh: "shared_ok T t ns lim es" and n: "n \<in> set ns" and t': "t' = upd_node t n (\<lambda>x. x\<lparr>write_lock := b\<rparr>)"
    and ex: "exact_hint T t n"
  shows "shared_ok T t' ns lim es" "evolves T H t ns t' ns" "raises L t ns lim t' lim" "exact_hint T t' n"
    "held t' = (if b then insert n (held t) else held t - {n})" "head_node t' = head_node t"
proof -
  note s = shared_okD [OF sh] and l = set_lock_shows [OF t']
  have tw: "tower_at t' = tower_at t" by (simp add: fun_eq_iff tower_at_def l)
  have e: "exact_hint T t' x = exact_hint T t x" for x by (simp add: exact_hint_def l)
  show h: "held t' = (if b then insert n (held t) else held t - {n})" unfolding t' by (rule held_lock) (rule chainD(4) [OF s(1) n])
  show hd: "head_node t' = head_node t" by (simp add: t' heap_simps)
  show "shared_ok T t' ns lim es"
    using s ex n by (intro shared_shown [OF sh l(7)]) (auto simp: linked_below_def payloads_sound_def hints_sound_def tw l(1) e h
        towers_same [OF chainD(10) [OF s(1)] l(4)] split: if_splits)
  show "evolves T H t ns t' ns" by (rule evolves_lnodes) (simp_all add: l hd)
  show "raises L t ns lim t' lim" by (simp add: raises_def tw)
  show "exact_hint T t' n" using ex by (simp add: e)
qed

text \<open>The hint of a locked node.\<close>

lemma hint_equal:
  assumes "hint_ordering T" "compare T a b = 0"
  shows "descent_hint (order_bytes T a) = descent_hint (order_bytes T b)"
  using hint_less [OF assms(1), of a b] hint_less [OF assms(1), of b a] assms(2) equal_sym [of a b] by (metis less_irrefl linorder_neqE)

lemma hint_step:
  assumes sh: "shared_ok T t ns lim es" and c: "positioned T t ns key c" "c \<in> held t" "c \<in> H" and t': "t' = publish_hint T t c e"
    and e: "entries_of t c \<noteq> [] \<Longrightarrow> e = first_of t c \<or> e = key \<and> le T key (first_of t c)"
  shows "shared_ok T t' ns lim es" "evolves T H t ns t' ns" "raises L t ns lim t' lim" "held t' = held t"
    "get_data t' = get_data t" "payloads t' = payloads t" "\<And>x. data (lnodes t' ! x) = data (lnodes t ! x)" "first_hint (lnodes t' ! c) = descent_hint (order_bytes T e)"
    "positioned T t' ns key c"
proof -
  note s = shared_okD [OF sh] and l = publish_hint_shows [OF t']
  have tw: "tower_at t' = tower_at t" by (simp add: fun_eq_iff tower_at_def l)
  have ex: "exact_hint T t' x = exact_hint T t x" if "x \<noteq> c" for x using that by (simp add: exact_hint_def l)
  have c': "c \<in> set ns" "c < length (lnodes t)" using c(1) chainD(4) [OF s(1)] by (auto simp: positioned_def)
  show hc: "first_hint (lnodes t' ! c) = descent_hint (order_bytes T e)" using c'(2) by (simp add: t' heap_simps)
  have hd: "head_node t' = head_node t" by (simp add: t' heap_simps)
  show h: "held t' = held t" by (rule held_same) (rule l(8))
  have "exact_hint T t' c" if ho: "hint_ordering T" and tl: "c \<in> set (tl ns)"
  proof -
    have "c \<noteq> head_node t" using tl chain_Cons [OF s(1)] chainD(2) [OF s(1)] by auto
    then have f: "entries_of t c \<noteq> []" "le T (first_of t c) key" using c(1) by (auto simp: positioned_def)
    then have "compare T e (first_of t c) = 0" using e antisym equal_sym refl by blast
    then show ?thesis using hint_equal [OF ho] by (simp add: exact_hint_def hc l(6))
  qed
  then have "hints_sound T t' ns" using s(5) ex unfolding hints_sound_def by metis
  moreover have "exact_hint T t' x" if "x \<in> set ns" "x \<notin> held t'" for x
    using s(6) [of x] ex [of x] c(2) that by (auto simp: h)
  ultimately show "shared_ok T t' ns lim es"
    using s(3,4) by (intro shared_shown [OF sh l(7)]) (auto simp: linked_below_def payloads_sound_def tw l(1)
        towers_same [OF chainD(10) [OF s(1)] l(4)])
  have "first_hint (lnodes t' ! n) = first_hint (lnodes t ! n)" if "n \<notin> H" for n using l(3) [of n] c(3) that by fastforce
  then show "evolves T H t ns t' ns" by (intro evolves_lnodes) (simp_all add: l hd)
  show "raises L t ns lim t' lim" by (simp add: raises_def tw)
  show "get_data t' = get_data t" "payloads t' = payloads t" "\<And>x. data (lnodes t' ! x) = data (lnodes t ! x)" by (rule l)+
  show "positioned T t' ns key c" using c(1) by (simp add: positioned_def l hd)
qed

text \<open>The free slot and its lane.\<close>

lemma slot_step:
  assumes sh: "shared_ok T t ns lim es" and c: "c \<in> set ns" "c \<in> H" "data (lnodes t ! c) = Some p" and t': "t' = upd_payload t p f"
    and f: "payload_grows (payloads t ! p) (f (payloads t ! p))" "order (f (payloads t ! p)) = order (payloads t ! p)"
  shows "shared_ok T t' ns lim es" "evolves T H t ns t' ns" "raises L t ns lim t' lim" "held t' = held t"
    "lnodes t' = lnodes t" "head_node t' = head_node t" "payloads t' ! p = f (payloads t ! p)" "\<And>x. x \<in> set ns \<Longrightarrow> entries_of t' x = entries_of t x \<and> next_of t' x = next_of t x"
proof -
  note s = shared_okD [OF sh]
  have p: "p < length (payloads t)" "node_ok (payloads t ! p)" using chainD(5,6) [OF s(1) c(1)] c(3) by (auto simp: get_data_def)
  note l = store_payload [OF t' s(1) p(1) f p(2)]
  note g = grown_same_word [OF f p(2)]
  show lt: "lnodes t' = lnodes t" "head_node t' = head_node t" "payloads t' ! p = f (payloads t ! p)"
    using p(1) by (simp_all add: t' heap_simps)
  have pl: "payloads t' = (payloads t)[p := f (payloads t ! p)]" by (simp add: t' upd_payload_def)
  show h: "held t' = held t" by (rule held_same) (rule l(5))
  show es: "entries_of t' x = entries_of t x \<and> next_of t' x = next_of t x" if "x \<in> set ns" for x
    using l(3) that by (simp add: shows_same_def)
  have ex: "exact_hint T t' x = exact_hint T t x" if "x \<in> set ns" for x using es [OF that] by (simp add: exact_hint_def lt)
  have tw: "tower_at t' = tower_at t" by (simp add: fun_eq_iff tower_at_def lt)
  have "payloads_sound t' es"
    using s(3) g p set_update_subset_insert [of "payloads t" p "f (payloads t ! p)"] unfolding payloads_sound_def pl by fastforce
  then show "shared_ok T t' ns lim es"
    using s(4-6) by (intro shared_shown [OF sh l(3) towers_same [OF chainD(10) [OF s(1)]]])
      (auto simp: linked_below_def hints_sound_def tw lt h ex set_tl_subset)
  show "evolves T H t ns t' ns"
    by (rule evolves_payload [OF s(1) c lt(1,2) pl f(1)]) (use g c(3) in \<open>simp_all add: get_data_def\<close>)
  show "raises L t ns lim t' lim" by (simp add: raises_def tw)
qed

end

end
