(* ===== verification/Thread_Writes.thy ===== *)
theory Thread_Writes
  imports Thread_Steps
begin

text \<open>
  The stores that change what the table holds or how its tower is linked: the order word that commits
  an append, the payload that publishes a split, and the two stores of linking; and with them
  \<open>thread_step_ok\<close>, the step lemma of the whole machine.
\<close>

text \<open>A store into a payload of the chain, seen from the other nodes.\<close>

lemma payload_apart:
  assumes ok: "chain T t ns" and c: "c \<in> set ns" "data (lnodes t ! c) = Some p" and x: "x \<in> set ns" "x \<noteq> c"
    and t': "lnodes t' = lnodes t" "payloads t' = (payloads t)[p := d']"
  shows "get_data t' x = get_data t x"
proof -
  have "data (lnodes t ! x) \<noteq> Some p"
    using chainD(3) [OF ok] x c by (auto simp: distinct_map dest: inj_onD [of "\<lambda>n. data (lnodes t ! n)" "set ns" x c])
  then show ?thesis using chainD(5) [OF ok x(1)] by (auto simp: get_data_def t')
qed

context ordered_traits
begin

section \<open>Committing an append\<close>

text \<open>The first entry of a node once a key is put at its rank.\<close>

lemma first_inserted:
  assumes p: "positioned T t ns key c" and ne: "entries_of t c \<noteq> []"
  defines "m \<equiv> ins_at (rank_in T t key c) key (entries_of t c)"
  shows "le T (hd m) (first_of t c)" "c \<noteq> head_node t \<Longrightarrow> le T (first_of t c) (hd m)"
    "hd m = first_of t c \<or> rank_in T t key c = 0 \<and> hd m = key"
proof -
  obtain e es where es: "entries_of t c = e # es" using ne by (cases "entries_of t c") auto
  have "le T key e" if "rank_in T t key c = 0"
    using that by (auto simp: rank_in_def es lower_bound_of_def not_less split: if_splits)
  moreover have "hd m = (if rank_in T t key c = 0 then key else e)"
    by (cases "rank_in T t key c") (simp_all add: m_def es ins_at_def)
  moreover have "le T e key" if "c \<noteq> head_node t" using p that by (simp add: positioned_def es)
  ultimately show "le T (hd m) (first_of t c)" "c \<noteq> head_node t \<Longrightarrow> le T (first_of t c) (hd m)"
    "hd m = first_of t c \<or> rank_in T t key c = 0 \<and> hd m = key"
    by (auto simp: es)
qed

lemma commit_step:
  assumes sh: "shared_ok T t ns lim es" and th: "placed T t ns lim es (Appending StoreOrder key c p w rank)" and c: "c \<in> held t"
  shows "stepped T t ns lim es (Appending StoreOrder key c p w rank) (append_step T t StoreOrder key c p w rank)"
proof -
  note s = shared_okD [OF sh]
  have b: "belonging T t ns key c" and p: "data (lnodes t ! c) = Some p" and w: "w = order (payloads t ! p)" and room: "order_count w < kNodeCapacity"
    and rank: "rank = rank_in T t key c" and dn: "append_done T t StoreOrder key c p w rank" using th by auto
  let ?P = "payloads t ! p" and ?lane = "append_lane T (payloads t ! p) w rank (order_bytes T key)"
  define t' where "t' = upd_payload t p (\<lambda>d. d\<lparr>order := order_insert w rank (order_count w)\<rparr>)"
  have pos: "positioned T t ns key c" and in_c: "c \<in> set ns" using b by (auto simp: belonging_def positioned_def)
  have P: "get_data t c = ?P" by (simp add: get_data_def p)
  obtain us vs where ns: "ns = us @ c # vs" and sp: "splits_at T (chain_entries t ns) key (length (chain_entries t us) + rank)"
    using belonging_split [OF s(1) b] rank by metis
  have slot: "slots ?P ! order_count w = key" "surrogates ?P ! order_count w = ?lane" using dn by (simp_all add: append_done_def Let_def)
  note cc = commit_chain [OF s(1) [unfolded ns] p w room rank [unfolded rank_in_position] slot sp [unfolded ns] t'_def, folded ns]
  let ?d = "appended ?P rank key ?lane"
  have e: "node_entries ?d = ins_at rank key (entries_of t c)" by (simp add: appended_entries [OF cc(3)] P)
  have pl: "p < length (payloads t)" using chainD(5) [OF s(1) in_c] p by auto
  have c': "get_data t' c = ?d" using pl by (simp add: get_data_def cc(4,5) p)
  have hd': "head_node t' = head_node t" by (simp add: t'_def heap_simps)
  have other: "get_data t' x = get_data t x" if "x \<in> set ns" "x \<noteq> c" for x
    by (rule payload_apart [OF s(1) in_c p that cc(5,4)])
  have tw: "tower_at t' = tower_at t" using cc(5) by (simp add: fun_eq_iff tower_at_def)
  have h: "held t' = held t" by (rule held_same) (rule cc(6))
  have first: "le T (hd (node_entries ?d)) (first_of t c) \<and> (c \<noteq> head_node t \<longrightarrow> le T (first_of t c) (hd (node_entries ?d)))"
    if "entries_of t c \<noteq> []" using first_inserted [OF pos that, folded rank] by (simp add: e)
  have ev: "evolves T H t ns t' ns" if "c \<in> H" for H
    by (rule evolves_payload [OF s(1) in_c that p cc(5) hd' cc(4) appended_grows [OF cc(3)] _ first]) (simp add: e P)
  have exc: "exact_hint T t' c"
  proof (cases "rank = 0")
    case True
    have "hd (node_entries ?d) = key" unfolding e by (simp add: True)
    moreover have "first_hint (lnodes t ! c) = descent_hint (order_bytes T key)" using dn by (simp add: True append_done_def Let_def)
    ultimately show ?thesis by (simp add: exact_hint_def cc(5) c')
  next
    case False
    then have ne: "entries_of t c \<noteq> []" using rank by (auto simp: rank_in_def lower_bound_of_def)
    then have "hd (node_entries ?d) = first_of t c" using first_inserted(3) [OF pos ne, folded rank] False by (simp add: e)
    then show ?thesis using dn False ne by (simp add: append_done_def exact_hint_def cc(5) c' Let_def)
  qed
  have ex: "exact_hint T t' x = exact_hint T t x" if "x \<in> set ns" "x \<noteq> c" for x using other [OF that] by (simp add: exact_hint_def cc(5))
  have inside: "set (entries_of t c) \<subseteq> set es" using s(2) [THEN mset_eq_setD] in_c by (auto simp: chain_entries_def)
  have "shared_ok T t' ns lim (es @ [key])"
    unfolding shared_ok_def
  proof (intro conjI ballI impI)
    show "chain T t' ns" by (rule cc(1))
    show "mset (chain_entries t' ns) = mset (es @ [key])" using s(2) by (simp add: cc(2))
    show "payloads_sound t' (es @ [key])"
      using s(3) inside appended_ok [OF cc(3)] e set_update_subset_insert [of "payloads t" p ?d] unfolding payloads_sound_def cc(4) by fastforce
    show "linked_below t' ns lim" using s(4) by (simp add: linked_below_def tw)
    show "hints_sound T t' ns" using s(5) ex exc set_tl_subset unfolding hints_sound_def by metis
    show "exact_hint T t' x" if "x \<in> set ns" "x \<notin> held t'" for x using that s(6) ex c h by (metis)
  qed
  moreover have "raises {} t ns lim t' lim" by (simp add: raises_def tw)
  ultimately show ?thesis
    using ev [of "{c}"] in_c exc h c unfolding stepped_def by (auto simp: t'_def [symmetric] intro!: exI [of _ ns] exI [of _ lim])
qed

section \<open>Publishing a split\<close>

lemma publish_step:
  fixes draws :: "nat \<Rightarrow> u32"
  assumes sh: "shared_ok T t ns lim es" and th: "placed T t ns lim es (Publishing key c p merged)" and c: "c \<in> held t"
  shows "stepped T t ns lim es (Publishing key c p merged) (the (thread_step T draws cas t (Publishing key c p merged)))"
proof -
  note s = shared_okD [OF sh]
  have b: "belonging T t ns key c" and p: "data (lnodes t ! c) = Some p" and full: "length (entries_of t c) = kNodeCapacity"
    and merged: "merged = ins_at (rank_in T t key c) key (entries_of t c)" using th by auto
  let ?sib = "length (lnodes t)" and ?q = "length (payloads t)"
  define t' where "t' = split_payloads T draws t c (next_of t c) merged"
  have pos: "positioned T t ns key c" and in_c: "c \<in> set ns" using b by (auto simp: belonging_def positioned_def)
  have P: "get_data t c = payloads t ! p" by (simp add: get_data_def p)
  obtain us vs where ns: "ns = us @ c # vs" and sp: "splits_at T (chain_entries t ns) key (length (chain_entries t us) + rank_in T t key c)"
    using belonging_split [OF s(1) b] by metis
  let ?ns = "us @ c # ?sib # vs" and ?lim = "lim(?sib := 1)"
  note pub = publish_chain [OF s(1) [unfolded ns] full merged [unfolded rank_in_position] sp [unfolded ns rank_in_position]]
  note pc = pub(1) pub(2-6) [where draws = draws, folded t'_def ns]
  have cl: "c < ?sib" using chainD(4) [OF s(1) in_c] .
  note r = split_payloads_reads [OF cl pc(1), where T = T and draws = draws and nxt = "next_of t c", folded t'_def]
  have old: "x < ?sib" if "x \<in> set ns" for x using chainD(4) [OF s(1) that] .
  have fresh: "?sib \<notin> set ns" using old by blast
  have ns': "set ?ns = insert ?sib (set ns)" using ns by auto
  have dt: "data (lnodes t ! x) \<noteq> Some p" if "x \<in> set ns" "x \<noteq> c" for x
    using chainD(3) [OF s(1)] that in_c p by (auto simp: distinct_map dest: inj_onD [of "\<lambda>n. data (lnodes t ! n)" "set ns" x c])
  have other: "get_data t' x = get_data t x" "lnodes t' ! x = lnodes t ! x" if "x \<in> set ns" "x \<noteq> c" for x
    using pc(6) [of x] r(3) [OF old] that ns by auto
  have short: "length (take kMid merged) \<le> kNodeCapacity" "length (drop kMid merged) \<le> kNodeCapacity"
    and half: "take kMid merged \<noteq> []" "drop kMid merged \<noteq> []" "hd (take kMid merged) = hd merged" "hd (drop kMid merged) = merged ! kMid"
    using pc(1) by (auto simp: kMid_def node_consts hd_drop_conv_nth)
  have e: "entries_of t' c = take kMid merged" "entries_of t' ?sib = drop kMid merged"
    using short by (simp_all add: pc(4,5) fill_entries)
  have ne: "entries_of t c \<noteq> []" using full by (auto simp: node_consts simp del: length_node_entries)
  note f = first_inserted [OF pos ne, folded merged]
  have hdn: "head_node t \<in> set ns" "head_node t' = head_node t" using chain_Cons [OF s(1)] r(6) by auto
  have tsib: "tower_at t' lv ?sib = None" if "lv < kMaxHeight" for lv using r(5) that by (simp add: tower_at_def new_list_node_def)
  have told: "tower_at t' lv x = tower_at t lv x" if "x \<in> set ns" for lv x
    using other(2) [OF that] r(4) by (cases "x = c") (simp_all add: tower_at_def)
  have hold: "height (lnodes t' ! x) = height (lnodes t ! x)" if "x \<in> set ns" for x
    using other(2) [OF that] r(4) by (cases "x = c") simp_all
  have pl: "q < length (payloads t) \<Longrightarrow> payloads t' ! q = payloads t ! q" for q by (simp add: r(1) nth_append)
  have stale': "stale t' ?ns q" if q: "q < length (payloads t)" "\<And>x. x \<in> set ns \<Longrightarrow> x \<noteq> c \<Longrightarrow> data (lnodes t ! x) \<noteq> Some q" for q
    unfolding stale_def
  proof
    fix x assume "x \<in> set ?ns"
    then consider "x = ?sib" | "x = c" | "x \<in> set ns" "x \<noteq> c" using ns' by auto
    then show "data (lnodes t' ! x) \<noteq> Some q" using r(4,5) other(2) q by cases auto
  qed
  have ev: "evolves T {c} t ns t' ?ns"
    unfolding evolves_def
  proof (intro conjI ballI impI allI)
    show "spreads t ns t' ?ns"
    proof (rule spreads_at [where ms = "[?sib]"])
      show "ns = us @ c # vs" "?ns = us @ c # [?sib] @ vs" using ns by simp_all
      show "entries_of t' x = entries_of t x" if "x \<in> set us \<union> set vs" for x using pc(6) [OF that] by simp
      have "mset (take kMid merged) + mset (drop kMid merged) = mset merged" by (metis append_take_drop_id mset_append)
      then show "mset (entries_of t c) \<subseteq># mset (chain_entries t' [c, ?sib])" using merged by (simp add: e)
    qed
    show "length (payloads t) \<le> length (payloads t')" by (simp add: r(1))
    show "payload_grows (payloads t ! q) (payloads t' ! q)" if "q < length (payloads t)" for q using pl [OF that] by simp
    show "stale t' ?ns q" "payloads t' ! q = payloads t ! q" if "q < length (payloads t)" "stale t ns q" for q
      using stale' [OF that(1)] that pl by (auto simp: stale_def)
    fix x assume x: "x \<in> set ns"
    show "height (lnodes t' ! x) = height (lnodes t ! x)" by (rule hold [OF x])
    show "data (lnodes t' ! x) = Some q \<or> stale t' ?ns q \<and> payloads t' ! q = payloads t ! q \<and> entries_of t x \<noteq> []"
      if q: "data (lnodes t ! x) = Some q" for q
    proof (cases "x = c")
      case True
      then have "q = p" "p < length (payloads t)" using q p chainD(5) [OF s(1) x] by auto
      then show ?thesis using stale' [OF _ dt] pl ne by (simp add: True)
    qed (use other(2) [OF x] q in simp)
    assume nx: "entries_of t x \<noteq> []"
    show "entries_of t' x \<noteq> []" using other(1) [OF x] half e nx by (cases "x = c") auto
    show "le T (first_of t' x) (first_of t x)" using other(1) [OF x] half e f(1) by (cases "x = c") auto
    show "le T (first_of t x) (first_of t' x)" if "x \<noteq> head_node t" using other(1) [OF x] half e f(2) that by (cases "x = c") auto
  qed (use other ns' hdn in auto)
  have ra: "raises {} t ns lim t' ?lim" using fresh told by (auto simp: raises_def)
  have h: "held t' = held t" unfolding held_def r(8) by (auto simp: locks_def nth_append)
  have exc: "exact_hint T t' c" "exact_hint T t' ?sib" using r(4,5) e half by (simp_all add: exact_hint_def)
  have ex: "exact_hint T t' x = exact_hint T t x" if "x \<in> set ns" "x \<noteq> c" for x using other [OF that] by (simp add: exact_hint_def)
  have inside: "set merged \<subseteq> set (es @ [key])"
    using s(2) [THEN mset_eq_setD] in_c by (auto simp: merged chain_entries_def)
  have shared': "shared_ok T t' ?ns ?lim (es @ [key])"
    unfolding shared_ok_def
  proof (intro conjI ballI impI)
    show "chain T t' ?ns" by (rule pc(2))
    show "mset (chain_entries t' ?ns) = mset (es @ [key])" using s(2) ns by (simp only: pc(3) mset_ins_at) simp
    show "payloads_sound t' (es @ [key])"
      using s(3) inside fill_ok [OF short(1)] fill_ok [OF short(2)] fill_entries [OF short(1)] fill_entries [OF short(2)]
      unfolding payloads_sound_def r(1) by (auto dest!: in_set_takeD in_set_dropD)
    have "lv < ?lim y" if "x \<in> set ns" "0 < lv" "lv < kMaxHeight" "tower_at t lv x = Some y" for x lv y
      using s(4) chainD(10) [OF s(1)] that fresh unfolding linked_below_def towers_ok_def by (metis fun_upd_other)
    then show "linked_below t' ?ns ?lim" using tsib told unfolding linked_below_def ns' by auto
    have "tl ?ns = (if us = [] then ?sib # tl ns else tl us @ c # ?sib # vs)" using ns by (cases us) auto
    then have "set (tl ?ns) = insert ?sib (set (tl ns))" using ns by (cases us) auto
    then show "hints_sound T t' ?ns" using s(5) ex exc set_tl_subset unfolding hints_sound_def by (metis insertE)
    show "exact_hint T t' x" if "x \<in> set ?ns" "x \<notin> held t'" for x using that s(6) ex exc c h ns' by (metis insertE)
  qed
  let ?first = "slots (payloads t' ! ?q) ! 0"
  have hs: "unat (height (lnodes t' ! ?sib)) \<le> kMaxHeight"
    using random_height_bounds(2) [of draws] by (simp add: r(5) random_height_byte)
  have in': "c \<in> set ?ns" "?sib \<in> set ?ns" by simp_all
  have sib_head: "?sib \<noteq> head_node t'" "(0::nat) < 1" "?lim ?sib = 1" using hdn fresh by auto
  note lf = link_from_placed [where lim = ?lim and node = ?sib and lv = 1, OF shared_okD(1) [OF shared'] in'(1) exc(1) in'(2) sib_head(1) hs sib_head(2,3)]
  have "links (link_from t' c ?sib 1 ?first) \<inter> set ns = {}" using lf(3) fresh by blast
  moreover have "the (thread_step T draws cas t (Publishing key c p merged)) = (link_from t' c ?sib 1 ?first, t', [key])"
    by (simp add: t'_def next_of_def P Let_def)
  moreover have "placed T t' ?ns ?lim (es @ [key]) (link_from t' c ?sib 1 ?first)" "holds (link_from t' c ?sib 1 ?first) = {c}" by (rule lf)+
  ultimately show ?thesis using shared' ev ra h c unfolding stepped_def by (auto intro!: exI [of _ ?ns] exI [of _ ?lim])
qed

section \<open>Linking\<close>

lemma level_ranked_source:
  assumes r: "level_ranked t ns lv" and un: "unlinked t ns lv node" and nx: "nx \<noteq> Some node"
    and bounds: "node < length (lnodes t)" "lv < length (tower (lnodes t ! node))"
  shows "level_ranked (set_tower t node lv nx) ns lv"
proof -
  obtain f where f: "\<forall>x \<in> set ns. \<forall>y. tower_at t lv x = Some y \<longrightarrow> f x < (f y :: nat)"
    using r by (auto simp: level_ranked_def)
  show ?thesis
    unfolding level_ranked_def
  proof (intro exI [of _ "\<lambda>x. if x = node then 0 else Suc (f x)"] ballI allI impI)
    fix x y
    assume x: "x \<in> set ns" and y: "tower_at (set_tower t node lv nx) lv x = Some y"
    have "y \<noteq> node" using un nx x y by (auto simp: unlinked_def tower_at_set_tower [OF bounds] split: if_splits)
    then show "(if x = node then 0 else Suc (f x)) < (if y = node then 0 else Suc (f y))"
      using f x y by (auto simp: tower_at_set_tower [OF bounds] split: if_splits)
  qed
qed

lemma set_tower_id: "tower_at t lv n = nx \<Longrightarrow> set_tower t n lv nx = t"
  by (cases t) (auto simp: set_tower_def upd_node_def tower_at_def list_update_id)

text \<open>A store into the tower of one level, of a pointer that keeps the level ranked.\<close>

lemma tower_step:
  assumes sh: "shared_ok T t ns lim es" and n: "n \<in> set ns" and lv: "0 < lv" "lv < kMaxHeight"
    and ranked: "level_ranked (set_tower t n lv nx) ns lv" and nx: "\<And>y. nx = Some y \<Longrightarrow> y \<in> set ns \<and> lv < lim' y"
    and lim': "\<And>x. x \<in> set ns \<Longrightarrow> lim x \<le> lim' x" and t': "t' = set_tower t n lv nx"
  shows "shared_ok T t' ns lim' es" "evolves T H t ns t' ns" "held t' = held t" "head_node t' = head_node t"
    "\<And>x. x \<in> set ns \<Longrightarrow> exact_hint T t' x = exact_hint T t x" "\<And>x. height (lnodes t' ! x) = height (lnodes t ! x)"
    "\<And>l x. tower_at t' l x = (if x = n \<and> l = lv then nx else tower_at t l x)"
proof -
  note s = shared_okD [OF sh]
  have b: "n < length (lnodes t)" "lv < length (tower (lnodes t ! n))" using chainD(4,7) [OF s(1) n] lv by simp_all
  note tw = tower_at_set_tower [OF b, of nx, folded t']
  show "tower_at t' l x = (if x = n \<and> l = lv then nx else tower_at t l x)" for l x by (rule tw)
  have hgt: "height (lnodes t' ! x) = height (lnodes t ! x)" for x by (simp add: t' lnodes_set_tower)
  then show "height (lnodes t' ! x) = height (lnodes t ! x)" for x .
  have g: "get_data t' = get_data t" "payloads t' = payloads t" "head_node t' = head_node t" "hints t' = hints t"
    by (simp_all add: fun_eq_iff t' heap_simps)
  have l: "data (lnodes t' ! x) = data (lnodes t ! x)" "first_hint (lnodes t' ! x) = first_hint (lnodes t ! x)" for x by (simp_all add: t' heap_simps)
  show ex: "exact_hint T t' x = exact_hint T t x" for x by (simp add: exact_hint_def g l)
  show h: "held t' = held t" by (rule held_same) (simp add: t' heap_simps)
  show "head_node t' = head_node t" by (rule g)
  show "evolves T H t ns t' ns" by (rule evolves_lnodes) (simp_all add: g l hgt)
  have other: "level_ranked t' ns k" if "k < kMaxHeight" "k \<noteq> lv" for k
    using chainD(10) [OF s(1)] that by (simp add: level_ranked_def towers_ok_def tw)
  have "towers_ok t' ns"
    unfolding towers_ok_def
  proof (intro allI impI conjI ballI)
    fix k x y
    assume "k < kMaxHeight"
    then show "level_ranked t' ns k" using ranked other by (cases "k = lv") (auto simp: t')
    assume "x \<in> set ns" "tower_at t' k x = Some y"
    then show "y \<in> set ns" using chainD(10) [OF s(1)] nx \<open>k < kMaxHeight\<close> by (auto simp: tw towers_ok_def split: if_splits)
  qed
  moreover have "k < lim' y" if "x \<in> set ns" "0 < k" "k < kMaxHeight" "tower_at t' k x = Some y" for k x y
  proof (cases "x = n \<and> k = lv")
    case False
    then have "tower_at t k x = Some y" using that(4) by (auto simp: tw)
    then have "k < lim y" "y \<in> set ns" using s(4) chainD(10) [OF s(1)] that by (auto simp: linked_below_def towers_ok_def)
    then show ?thesis using lim' by (blast intro: order_less_le_trans)
  qed (use that nx in \<open>auto simp: tw\<close>)
  moreover have "shows_same t ns t'" by (simp add: shows_same_def g l next_of_def) (simp add: t' heap_simps)
  ultimately show "shared_ok T t' ns lim' es"
    using s by (intro shared_shown [OF sh]) (auto simp: linked_below_def payloads_sound_def hints_sound_def g ex h)
qed

lemma unlinked_limit: "linked_below t ns lim \<Longrightarrow> 0 < lv \<Longrightarrow> lv < kMaxHeight \<Longrightarrow> lim node \<le> lv \<Longrightarrow> unlinked t ns lv node"
  by (force simp: linked_below_def unlinked_def)

lemma link_step:
  assumes sh: "shared_ok T t ns lim es" and th: "placed T t ns lim es (Link c node lv a key pred nx)" and c: "c \<in> held t"
  shows "stepped T t ns lim es (Link c node lv a key pred nx) (the (thread_step T draws cas t (Link c node lv a key pred nx)))"
proof -
  note s = shared_okD [OF sh]
  let ?t = "set_tower t node lv nx"
  have l: "linking T t ns lim c node lv" and p: "pred \<in> set ns" "reached t lim lv pred" "pred \<noteq> node" and nx: "link_ok ns lim lv nx" using th by simp_all
  note ll = l [unfolded linking_def]
  have nd: "node \<in> set ns" "0 < lv" "lv < kMaxHeight" "lim node = lv" using ll by blast+
  have b: "node < length (lnodes t)" "lv < length (tower (lnodes t ! node))" using chainD(4,7) [OF s(1)] ll by auto
  have "nx \<noteq> Some node" using nx ll by (auto simp: link_ok_def)
  moreover have "level_ranked t ns lv" "unlinked t ns lv node"
    using chainD(10) [OF s(1)] ll unlinked_limit [OF s(4)] by (auto simp: towers_ok_def)
  ultimately have rk: "level_ranked ?t ns lv" by (intro level_ranked_source b)
  have tgt: "\<And>y. nx = Some y \<Longrightarrow> y \<in> set ns \<and> lv < lim y" using nx by (simp add: link_ok_def)
  note st = tower_step [OF sh nd(1-3) rk tgt order.refl HOL.refl]
  have "linking T ?t ns lim c node lv" using ll st(4-6) by (simp add: linking_def)
  moreover have "reached ?t lim lv pred" using p(2) by (simp add: reached_def st(4))
  moreover have "raises {node} t ns lim ?t lim" by (simp add: raises_def st(7))
  ultimately show ?thesis
    using st(1,2,3) p nx c st(7) [of lv node] unfolding stepped_def
    by (auto intro!: exI [of _ ns] exI [of _ lim])
qed

lemma swap_step:
  assumes sh: "shared_ok T t ns lim es" and th: "placed T t ns lim es (Swap c node lv a key pred nx)" and c: "c \<in> held t"
  shows "stepped T t ns lim es (Swap c node lv a key pred nx) (the (thread_step T draws cas t (Swap c node lv a key pred nx)))"
proof (cases "tower_at t lv pred = nx \<and> cas lv a")
  case False
  have "linking T t ns lim c node lv" using th by simp
  from try_again_placed [OF sh this, of a key] obtain lim' where "shared_ok T t ns lim' es" "raises {node} t ns lim t lim'"
    "placed T t ns lim' es (try_again t c node lv a key)" "holds (try_again t c node lv a key) = {c}" "links (try_again t c node lv a key) \<subseteq> {node}" .
  then have "stepped T t ns lim es (Swap c node lv a key pred nx) (try_again t c node lv a key, t, [])" using c by (intro steppedI) simp_all
  then show ?thesis using False by auto
next
  case True
  note s = shared_okD [OF sh]
  let ?t = "set_tower t pred lv (Some node)" and ?lim = "lim(node := lv + 1)"
  have l: "linking T t ns lim c node lv" and p: "pred \<in> set ns" "reached t lim lv pred" "pred \<noteq> node" and nt: "tower_at t lv node = nx" using th by simp_all
  note ll = l [unfolded linking_def]
  have nd: "c \<in> set ns" "node \<in> set ns" "0 < lv" "lv < kMaxHeight" "lim node = lv" using ll by blast+
  have b: "node < length (lnodes t)" "lv < length (tower (lnodes t ! node))" "pred < length (lnodes t)" "lv < length (tower (lnodes t ! pred))"
    using chainD(4,7) [OF s(1)] ll p(1) by auto
  have "level_ranked t ns lv" "unlinked t ns lv node"
    using chainD(10) [OF s(1)] ll unlinked_limit [OF s(4)] by (auto simp: towers_ok_def)
  then have "level_ranked (set_tower (set_tower t node lv (tower_at t lv pred)) pred lv (Some node)) ns lv"
    by (intro level_ranked_between p b)
  moreover have "set_tower t node lv (tower_at t lv pred) = t" using nt True by (intro set_tower_id) simp
  ultimately have rk: "level_ranked ?t ns lv" by simp
  have tgt: "\<And>y. Some node = Some y \<Longrightarrow> y \<in> set ns \<and> lv < ?lim y" and mono: "\<And>x. x \<in> set ns \<Longrightarrow> lim x \<le> ?lim x" using nd by auto
  note st = tower_step [where lim' = ?lim, OF sh p(1) nd(3,4) rk tgt mono HOL.refl]
  have "raises {node} t ns lim ?t ?lim" using p nd(5) by (auto simp: raises_def st(7) reached_def)
  moreover have "placed T ?t ns ?lim es (link_from ?t c node (lv + 1) key)" "holds (link_from ?t c node (lv + 1) key) = {c}"
    "links (link_from ?t c node (lv + 1) key) \<subseteq> {node}"
    by (rule link_from_placed [OF shared_okD(1) [OF st(1)]]; use ll st(4-6) in simp)+
  moreover have "the (thread_step T draws cas t (Swap c node lv a key pred nx)) = (link_from ?t c node (lv + 1) key, ?t, [])"
    using True by (simp add: Let_def)
  ultimately show ?thesis
    using st(1,2,3) c unfolding stepped_def by (auto intro!: exI [of _ ns] exI [of _ ?lim])
qed

section \<open>Every step\<close>

text \<open>An append's two stores into the free slot, which no word names yet.\<close>

lemma free_store_placed:
  assumes sh: "shared_ok T t ns lim es" and th: "placed T t ns lim es (Appending s key c p w rank)" and t': "t' = upd_payload t p f"
    and f: "payload_grows (payloads t ! p) (f (payloads t ! p))" "order (f (payloads t ! p)) = order (payloads t ! p)"
    and dn: "append_done T t' s' key c p w rank"
    and c: "c \<in> held t"
  shows "stepped T t ns lim es (Appending s key c p w rank) (Appending s' key c p w rank, t', [])"
proof -
  have b: "belonging T t ns key c" "data (lnodes t ! c) = Some p" "w = order (payloads t ! p)" "order_count w < kNodeCapacity" "rank = rank_in T t key c"
    using th by auto
  have in_c: "c \<in> set ns" using b(1) by (auto simp: belonging_def positioned_def)
  note st = slot_step [OF sh in_c singletonI b(2) t' f]
  note ok = shared_okD(1) [OF sh] and ok' = shared_okD(1) [OF st(1)]
  have nx: "next_of t' c = next_of t c" "entries_of t' c = entries_of t c" using st(8) [OF in_c] by simp_all
  have "first_of t' n = first_of t n" if "next_of t c = Some n" for n using st(8) [OF next_in_tail(3) [OF ok in_c that]] by simp
  then have "belonging T t' ns key c"
    using b(1) nx by (auto simp: belonging_def belongs_iff [OF ok in_c] belongs_iff [OF ok' in_c] positioned_def st(6))
  moreover have "rank_in T t' key c = rank_in T t key c" by (simp add: rank_in_def nx(2))
  ultimately have "placed T t' ns lim es (Appending s' key c p w rank)"
    using b dn f(2) by (simp add: st(5,7))
  then show ?thesis using st(1-4) c unfolding stepped_def by (auto intro!: exI [of _ ns] exI [of _ lim])
qed

lemma append_step_ok:
  assumes sh: "shared_ok T t ns lim es" and th: "placed T t ns lim es (Appending s key c p w rank)" and c: "c \<in> held t"
  shows "stepped T t ns lim es (Appending s key c p w rank) (append_step T t s key c p w rank)"
proof -
  have b: "belonging T t ns key c" "data (lnodes t ! c) = Some p" "w = order (payloads t ! p)" "order_count w < kNodeCapacity" "rank = rank_in T t key c"
    and dn: "append_done T t s key c p w rank" using th by auto
  have in_c: "c \<in> set ns" and pos: "positioned T t ns key c" using b(1) by (auto simp: belonging_def positioned_def)
  have P: "get_data t c = payloads t ! p" by (simp add: get_data_def b(2))
  have pl: "p < length (payloads t)" "node_ok (payloads t ! p)"
    using chainD(5,6) [OF shared_okD(1) [OF sh] in_c] b(2) by (auto simp: P)
  have len: "length (slots (payloads t ! p)) = 16" "length (surrogates (payloads t ! p)) = 16" "order_count w < 16"
    using node_okD(1,2) [OF pl(2)] b(4) by (simp_all add: node_consts)
  show ?thesis
  proof (cases s)
    case StoreKey
    let ?f = "\<lambda>d. d\<lparr>slots := (slots d)[order_count w := key]\<rparr>"
    have "exact_hint T t c" using dn by (simp add: StoreKey append_done_def Let_def)
    moreover have "exact_hint T (upd_payload t p ?f) c = exact_hint T t c"
      using slot_step(5,8) [OF sh in_c singletonI b(2) HOL.refl, of ?f] store_grows(1) [of "payloads t ! p" "order_count w" key] b(3)
      by (simp add: exact_hint_def in_c)
    ultimately have "append_done T (upd_payload t p ?f) StoreLane key c p w rank"
      using pl len by (simp add: append_done_def Let_def heap_simps)
    then show ?thesis
      using free_store_placed [OF sh th HOL.refl _ _ _ c, of ?f StoreLane] store_grows(1) [of "payloads t ! p" "order_count w" key] b(3)
      by (simp add: StoreKey)
  next
    case StoreLane
    let ?lane = "append_lane T (payloads t ! p) w rank (order_bytes T key)"
    let ?f = "\<lambda>d. d\<lparr>surrogates := (surrogates d)[order_count w := append_lane T d w rank (order_bytes T key)]\<rparr>"
    let ?s = "if rank = 0 then StoreHint else StoreOrder"
    have "exact_hint T t c" and slot: "slots (payloads t ! p) ! order_count w = key" using dn by (simp_all add: StoreLane append_done_def Let_def)
    moreover have "exact_hint T (upd_payload t p ?f) c = exact_hint T t c"
      using slot_step(5,8) [OF sh in_c singletonI b(2) HOL.refl, of ?f] store_grows(2) [of "payloads t ! p" "order_count w" ?lane] b(3)
      by (simp add: exact_hint_def in_c)
    moreover have "append_lane T (?f (payloads t ! p)) w rank (order_bytes T key) = ?lane"
      by (simp add: append_lane_def shares_prefix_def key_at_def)
    ultimately have "append_done T (upd_payload t p ?f) ?s key c p w rank"
      using pl len by (simp add: append_done_def Let_def heap_simps)
    then show ?thesis
      using free_store_placed [OF sh th HOL.refl _ _ _ c, of ?f ?s] store_grows(2) [of "payloads t ! p" "order_count w" ?lane] b(3)
      by (simp add: StoreLane)
  next
    case StoreHint
    have r0: "rank = 0" using dn by (simp add: StoreHint append_done_def Let_def)
    have e: "key = first_of t c \<or> key = key \<and> le T key (first_of t c)" if "entries_of t c \<noteq> []"
      using first_inserted(1) [OF pos that] r0 b(5) by simp
    note st = hint_step [OF sh pos c singletonI HOL.refl e]
    let ?t = "publish_hint T t c key"
    have "belonging T ?t ns key c"
      using b(1) st(9) belongs_iff [OF shared_okD(1) [OF sh] in_c] belongs_iff [OF shared_okD(1) [OF st(1)] in_c] st(5)
      by (simp add: belonging_def next_of_def)
    then have "placed T ?t ns lim es (Appending StoreOrder key c p w rank)"
      using b dn st(5-8) r0 by (simp add: rank_in_def append_done_def StoreHint Let_def)
    then show ?thesis using st(1-4) c unfolding stepped_def StoreHint by (auto intro!: exI [of _ ns] exI [of _ lim])
  next
    case StoreOrder
    show ?thesis using commit_step [OF sh th [unfolded StoreOrder] c] unfolding StoreOrder .
  qed
qed

lemma splitting_step:
  assumes sh: "shared_ok T t ns lim es" and th: "placed T t ns lim es (Splitting key c p merged)" and c: "c \<in> held t"
  shows "stepped T t ns lim es (Splitting key c p merged) (Publishing key c p merged, publish_hint T t c (hd merged), [])"
proof -
  have b: "belonging T t ns key c" "data (lnodes t ! c) = Some p" "length (entries_of t c) = kNodeCapacity"
    "merged = ins_at (rank_in T t key c) key (entries_of t c)" using th by auto
  have in_c: "c \<in> set ns" and pos: "positioned T t ns key c" using b(1) by (auto simp: belonging_def positioned_def)
  have e: "hd merged = first_of t c \<or> hd merged = key \<and> le T key (first_of t c)" if "entries_of t c \<noteq> []"
    using first_inserted(1,3) [OF pos that] by (auto simp: b(4))
  note st = hint_step [OF sh pos c singletonI HOL.refl e]
  let ?t = "publish_hint T t c (hd merged)"
  have "belonging T ?t ns key c"
    using b(1) st(9) belongs_iff [OF shared_okD(1) [OF sh] in_c] belongs_iff [OF shared_okD(1) [OF st(1)] in_c] st(5)
    by (simp add: belonging_def next_of_def)
  then have "placed T ?t ns lim es (Publishing key c p merged)" using b st(5-7) by (simp add: rank_in_def)
  then show ?thesis using st(1-4) c unfolding stepped_def by (auto intro!: exI [of _ ns] exI [of _ lim])
qed

lemma writing_placed:
  assumes ok: "chain T t ns" and th: "placed T t ns lim es (Writing key c)"
    and step: "thread_step T draws cas t (Writing key c) = Some (th', t', new)"
  shows "t' = t" "new = []" "placed T t ns lim es th'" "holds th' = {c}" "links th' = {}"
proof -
  have b: "belonging T t ns key c" "exact_hint T t c" using th by auto
  have in_c: "c \<in> set ns" using b(1) by (auto simp: belonging_def positioned_def)
  obtain p where p: "data (lnodes t ! c) = Some p" using chainD(5) [OF ok in_c] by blast
  let ?P = "payloads t ! p"
  have P: "get_data t c = ?P" by (simp add: get_data_def p)
  have so: "sorted_wrt (le T) (node_entries ?P)"
    using chain_node_sorted [OF ok [unfolded chain_def] in_c] by (simp add: P)
  have rk: "sorted_position T ?P (order ?P) (order_count (order ?P)) key (order_bytes T key) = rank_in T t key c"
    using sorted_position_lower_bound [OF so] by (simp add: rank_in_def P)
  have m: "merge T ?P (order ?P) (order_count (order ?P)) key (order_bytes T key) = ins_at (rank_in T t key c) key (entries_of t c)"
    using merge_entries [OF so, of key "order_bytes T key"] by (simp add: rank_in_def P)
  have "length (entries_of t c) = kNodeCapacity" if "\<not> order_count (order ?P) < kNodeCapacity"
    using node_okD(7) [OF chainD(6) [OF ok in_c]] that by (simp add: P node_consts)
  then show "t' = t" "new = []" "placed T t ns lim es th'" "holds th' = {c}" "links th' = {}"
    using step b p rk m by (auto simp: Let_def append_done_def split: if_splits)
qed

text \<open>The successor a descent loads.\<close>

lemma successor_testing:
  assumes sh: "shared_ok T t ns lim es" and hop: "hopping T t ns lim pu key lv c"
    and nx: "(if lv = 0 then next_of t c else tower_at t lv c) = Some n"
    and chk: "\<And>d node l a. pu = Checking d node l a \<Longrightarrow> lv = l \<and> c \<noteq> node"
  shows "testing T t ns lim pu key lv c n"
proof -
  note s = shared_okD [OF sh]
  have c: "c \<in> set ns" "lv < kMaxHeight" using hop by (auto simp: hopping_def positioned_def)
  have "n \<in> set ns \<and> (lv = 0 \<or> lv < lim n)"
  proof (cases "lv = 0")
    case True
    then show ?thesis using nx next_in_tail(3) [OF s(1) c(1)] by simp
  next
    case False
    then show ?thesis using nx c s(4) chainD(10) [OF s(1)] by (auto simp: linked_below_def towers_ok_def)
  qed
  then show ?thesis using hop chk by (simp add: testing_def)
qed

text \<open>The steps of a walk that has a payload and a word.\<close>

lemma walking_shows:
  assumes w: "walking T t ns bs ys q w pos" and pos: "pos < order_count w"
  shows "walking T t ns bs (ys @ [key_at (payloads t ! q) w pos]) q w (pos + 1)"
proof -
  let ?es = "node_entries (view (payloads t ! q) w)"
  have "drop pos ?es = key_at (payloads t ! q) w pos # drop (pos + 1) ?es"
    using pos by (simp add: key_at_view Cons_nth_drop_Suc)
  then show ?thesis using w unfolding walking_def Let_def by simp
qed

lemma walking_leaves:
  assumes ok: "chain T t ns" "mset (chain_entries t ns) = mset es" and w: "walking T t ns bs ys q w pos" and pos: "\<not> pos < order_count w"
  shows "next_link (payloads t ! q) = None \<Longrightarrow> mset bs \<subseteq># mset ys \<and> mset ys \<subseteq># mset es \<and> sorted_wrt (le T) ys"
    and "next_link (payloads t ! q) = Some n \<Longrightarrow> ahead T t ns bs ys n"
proof -
  obtain us vs where v: "ns = us @ vs" "link_is (next_link (payloads t ! q)) vs" "mset ys \<subseteq># mset (chain_entries t us)"
    "mset bs \<subseteq># mset ys + mset (chain_entries t vs)" "sorted_wrt (le T) ys"
    using w pos unfolding walking_def Let_def by auto
  show "mset bs \<subseteq># mset ys \<and> mset ys \<subseteq># mset es \<and> sorted_wrt (le T) ys" if "next_link (payloads t ! q) = None"
    using v that ok(2) by (cases vs) (simp_all add: link_is_def)
  show "ahead T t ns bs ys n" if "next_link (payloads t ! q) = Some n"
    using v that by (cases vs) (auto simp: link_is_def ahead_def)
qed

lemma walking_drop:
  assumes "walking T t ns [] [] q w 0"
  shows "walking T t ns [] [] q w pos"
proof -
  let ?es = "node_entries (view (payloads t ! q) w)"
  obtain us vs where v: "ns = us @ vs" "link_is (next_link (payloads t ! q)) vs" "mset ?es \<subseteq># mset (chain_entries t us)"
    "sorted_wrt (le T) ?es" "q < length (payloads t)" "snap (payloads t ! q) w"
    using assms unfolding walking_def Let_def by auto
  have "mset (drop pos ?es) \<subseteq># mset ?es" by (metis append_take_drop_id mset_append mset_subset_eq_add_right)
  then have "mset (drop pos ?es) \<subseteq># mset (chain_entries t us)" using v(3) by (rule subset_mset.order_trans)
  then show ?thesis using v sorted_wrt_drop [OF v(4)] unfolding walking_def Let_def by auto
qed

lemma adopting_walking:
  "chain T t ns \<Longrightarrow> adopting T t ns bs ys q \<Longrightarrow> walking T t ns bs ys q (order (payloads t ! q)) 0"
  using ahead_walking unfolding adopting_def by blast

lemma node_adopting:
  assumes "chain T t ns" "c \<in> set ns" "ahead T t ns bs ys c"
  shows "adopting T t ns bs ys (the (data (lnodes t ! c)))"
  using chainD(5) [OF assms(1,2)] assms by (auto simp: adopting_def)

lemma ahead_start: "c \<in> set ns \<Longrightarrow> ahead T t ns [] [] c"
  by (auto simp: ahead_def dest: split_list)

text \<open>The steps that read, one by one.\<close>

lemma descent_step_ok:
  assumes sh: "shared_ok T t ns lim es" and th: "placed T t ns lim es th" and held: "holds th \<subseteq> held t"
    and kind: "th = Hop pu key lv c \<or> th = Test pu key lv c nx \<or> th = Tied pu key lv c nx \<or> th = Peek pu key lv c nx q"
    and step: "thread_step T draws cas t th = Some r"
  shows "stepped T t ns lim es th r"
proof -
  note s = shared_okD [OF sh]
  have answer: ?thesis if r: "r = (tested t pu key lv c nx below, t, [])" and te: "testing T t ns lim pu key lv c nx"
    and yes: "below \<Longrightarrow> positioned T t ns key nx" and h: "holds th = purpose_node pu" "links th = purpose_sibling pu" for below
    using tested_placed [OF sh te yes] h held unfolding r by (metis steppedI)
  have load: "seen T t ns nx (the (data (lnodes t ! nx)))" if "testing T t ns lim pu key lv c nx"
    using chainD(5) [OF s(1), of nx] that by (auto simp: testing_def seen_def)
  from kind show ?thesis
  proof (elim disjE)
    assume k: "th = Hop pu key lv c"
    then have hop: "descends pu" "hopping T t ns lim pu key lv c" using th by simp_all
    show ?thesis
    proof (cases "if lv = 0 then next_of t c else tower_at t lv c")
      case None
      then have "r = (lower_level pu key lv c, t, [])" using step k by simp
      then show ?thesis using lower_level_placed [OF hop] sh held k by (auto intro!: steppedI)
    next
      case (Some n)
      then have "r = (Test pu key lv c n, t, [])" using step k by simp
      moreover have "testing T t ns lim pu key lv c n" by (rule successor_testing [OF sh hop(2) Some]) (use hop(1) in auto)
      ultimately show ?thesis using sh held k by (auto intro!: steppedI)
    qed
  next
    assume k: "th = Test pu key lv c nx"
    then have te: "testing T t ns lim pu key lv c nx" using th by simp
    let ?hint = "search_hint t (order_bytes T key)" and ?h = "first_hint (lnodes t ! nx)"
    show ?thesis
    proof (cases "hints t \<and> ?h \<noteq> ?hint")
      case True
      then have r: "r = (tested t pu key lv c nx (?h < ?hint), t, [])" using step k by (simp add: Let_def)
      show ?thesis using k te True hint_test_positioned [OF sh] by (intro answer [OF r te]) (auto simp: testing_def)
    next
      case False
      then have "r = (Tied pu key lv c nx, t, [])" using step k by (auto simp: Let_def)
      then show ?thesis using sh held k te by (auto intro!: steppedI)
    qed
  next
    assume k: "th = Tied pu key lv c nx"
    then have "r = (Peek pu key lv c nx (the (data (lnodes t ! nx))), t, [])" using step by simp
    then show ?thesis using sh held k th load by (auto intro!: steppedI)
  next
    assume k: "th = Peek pu key lv c nx q"
    then have te: "testing T t ns lim pu key lv c nx" "seen T t ns nx q" and r: "r = (tested t pu key lv c nx
        (order_count (order (payloads t ! q)) > 0 \<and> le T (key_at (payloads t ! q) (order (payloads t ! q)) 0) key), t, [])"
      using th step by (simp_all add: Let_def)
    show ?thesis using k te peek_positioned [OF s(1) _ te(2)] by (intro answer [OF r te(1)]) (auto simp: testing_def)
  qed
qed

lemma lock_steps_ok:
  assumes sh: "shared_ok T t ns lim es" and th: "placed T t ns lim es th" and held: "holds th \<subseteq> held t"
    and kind: "th = AtNode Inserting key c \<or> th = Moved key c \<or> th = Inserted c"
    and step: "thread_step T draws cas t th = Some r"
  shows "stepped T t ns lim es th r"
proof -
  note s = shared_okD [OF sh]
  have c: "c \<in> set ns" using th kind by (auto simp: hopping_def positioned_def)
  show ?thesis
  proof (cases "th = AtNode Inserting key c")
    case True
    let ?t = "upd_node t c (\<lambda>x. x\<lparr>write_lock := True\<rparr>)"
    have free: "\<not> write_lock (lnodes t ! c)" and r: "r = (Holding key c, ?t, [])"
      using step True by (auto simp: acquire_def split: if_splits)
    have nh: "c \<notin> held t" using free by (auto simp: held_def locks_def)
    note st = lock_step [OF sh c HOL.refl s(6) [OF c nh]]
    have "positioned T ?t ns key c"
      using th True set_lock_shows(6) [OF HOL.refl, of t c True] st(6) by (simp add: hopping_def positioned_def)
    then show ?thesis using st(1-5) nh unfolding stepped_def r True by (auto intro!: exI [of _ ns] exI [of _ lim])
  next
    case False
    let ?t = "upd_node t c (\<lambda>x. x\<lparr>write_lock := False\<rparr>)" and ?th = "if th = Inserted c then Idle else begin_descent Inserting key t"
    have ex: "exact_hint T t c" and cin: "c \<in> held t" and h: "holds th = {c}" "links th = {}" using kind False th held by auto
    have r: "r = (?th, ?t, [])" using step kind False by (auto simp: release_def)
    note st = lock_step [OF sh c HOL.refl ex]
    note bd = begin_descent_placed [OF shared_okD(1) [OF st(1)], of Inserting]
    have "begin_descent Inserting key t = begin_descent Inserting key ?t" using st(6) by (simp add: begin_descent_def)
    then have "placed T ?t ns lim es ?th" "holds ?th = {}" "links ?th = {}" using bd by (simp_all add: kMaxHeight_def)
    then show ?thesis using st(1-5) cin unfolding stepped_def r h by (auto intro!: exI [of _ ns] exI [of _ lim])
  qed
qed

lemma finding_step_ok:
  assumes sh: "shared_ok T t ns lim es" and th: "placed T t ns lim es (AtNode (Finding c node lv a) key pred)" and held: "c \<in> held t"
    and step: "thread_step T draws cas t (AtNode (Finding c node lv a) key pred) = Some r"
  shows "stepped T t ns lim es (AtNode (Finding c node lv a) key pred) r"
proof -
  have hop: "hopping T t ns lim (Finding c node lv a) key lv pred" and l: "linking T t ns lim c node lv"
    and p: "pred \<in> set ns" "reached t lim lv pred" using th by (auto simp: hopping_def positioned_def)
  show ?thesis
  proof (cases "pred = node")
    case True
    then have r: "r = (link_from t c node (lv + 1) key, t, [])" using step by simp
    from next_level [OF sh l, of key] obtain lim' where "shared_ok T t ns lim' es" "raises {node} t ns lim t lim'"
      "placed T t ns lim' es (link_from t c node (lv + 1) key)" "holds (link_from t c node (lv + 1) key) = {c}"
      "links (link_from t c node (lv + 1) key) \<subseteq> {node}" .
    then show ?thesis using held unfolding r by (intro steppedI) simp_all
  next
    case False
    show ?thesis
    proof (cases "tower_at t lv pred")
      case None
      then have "r = (Link c node lv a key pred None, t, [])" using step False by simp
      then show ?thesis using sh l p False held by (auto intro!: steppedI simp: link_ok_def)
    next
      case (Some nx)
      then have r: "r = (Test (Checking c node lv a) key lv pred nx, t, [])" using step False by simp
      have "hopping T t ns lim (Checking c node lv a) key lv pred" using hop by (simp add: hopping_def)
      then have "testing T t ns lim (Checking c node lv a) key lv pred nx"
        using Some l False by (intro successor_testing [OF sh]) (auto simp: linking_def)
      then show ?thesis using sh held unfolding r by (auto intro!: steppedI)
    qed
  qed
qed

lemma recheck_steps_ok:
  assumes sh: "shared_ok T t ns lim es" and th: "placed T t ns lim es th" and held: "c \<in> held t"
    and kind: "th = Holding key c \<or> th = Behind key c n \<or> th = Recheck key c n q \<or> th = Writing key c"
    and step: "thread_step T draws cas t th = Some r"
  shows "stepped T t ns lim es th r"
proof -
  note s = shared_okD [OF sh]
  have quiet: ?thesis if "r = (th', t, [])" "placed T t ns lim es th'" "holds th' = {c}" "links th' = {}" for th'
    using that sh held kind by (auto intro!: steppedI)
  have c: "c \<in> set ns" using th kind by (auto simp: belonging_def positioned_def)
  from kind show ?thesis
  proof (elim disjE)
    assume k: "th = Holding key c"
    then have p: "positioned T t ns key c" "exact_hint T t c" using th by simp_all
    show ?thesis
    proof (cases "next_link (get_data t c)")
      case None
      then have "belonging T t ns key c" using p(1) belongs_iff [OF s(1) c] by (simp add: belonging_def next_of_def)
      then show ?thesis using step k p None by (intro quiet [of "Writing key c"]) simp_all
    next
      case (Some m)
      then show ?thesis using step k p by (intro quiet [of "Behind key c m"]) (simp_all add: next_of_def)
    qed
  next
    assume k: "th = Behind key c n"
    then have n: "next_of t c = Some n" using th by simp
    have "seen T t ns n (the (data (lnodes t ! n)))"
      using chainD(5) [OF s(1) next_in_tail(3) [OF s(1) c n]] by (auto simp: seen_def)
    then show ?thesis using step k th by (intro quiet [of "Recheck key c n (the (data (lnodes t ! n)))"]) simp_all
  next
    assume k: "th = Recheck key c n q"
    let ?yes = "order_count (order (payloads t ! q)) = 0 \<or> compare T (key_at (payloads t ! q) (order (payloads t ! q)) 0) key > 0"
    have p: "positioned T t ns key c" "next_of t c = Some n" "seen T t ns n q" "exact_hint T t c" using th k by simp_all
    show ?thesis
    proof (cases ?yes)
      case True
      then show ?thesis using step k p(4) recheck_belonging [OF s(1) p(1-3) True] by (intro quiet [of "Writing key c"]) (simp_all add: Let_def)
    next
      case False
      then show ?thesis using step k p(4) c by (intro quiet [of "Moved key c"]) (auto simp: Let_def)
    qed
  next
    assume k: "th = Writing key c"
    obtain th' t' new where r: "r = (th', t', new)" by (cases r)
    note wr = writing_placed [OF s(1) th [unfolded k] step [unfolded k r]]
    show ?thesis using wr r by (intro quiet [of th']) simp_all
  qed
qed

lemma reader_steps_ok:
  assumes sh: "shared_ok T t ns lim es" and th: "placed T t ns lim es th"
    and kind: "th = AtNode Looking key c \<or> th = AtNode Seeking key c \<or> th = Loaded key q \<or> th = Snapped key q w \<or> th = Adopt bs ys c \<or>
      th = Snap target bs ys q \<or> th = Aim key q w \<or> th = On bs ys q w pos"
    and step: "thread_step T draws cas t th = Some r"
  shows "stepped T t ns lim es th r"
proof -
  note s = shared_okD [OF sh]
  have quiet: ?thesis if "r = (th', t, [])" "placed T t ns lim es th'" "holds th' = {}" "links th' = {}" for th'
    using that sh kind by (auto intro!: steppedI)
  have sound: "node_ok (payloads t ! q)" "set (node_entries (payloads t ! q)) \<subseteq> set es" if "q < length (payloads t)" for q
    using s(3) that by (simp_all add: payloads_sound_def)
  from kind show ?thesis
  proof (elim disjE)
    assume k: "th = AtNode Looking key c"
    then show ?thesis using step th chainD(5) [OF s(1), of c]
      by (intro quiet [of "Loaded key (the (data (lnodes t ! c)))"]) (auto simp: hopping_def positioned_def)
  next
    assume k: "th = AtNode Seeking key c"
    then have "c \<in> set ns" using th by (auto simp: hopping_def positioned_def)
    then show ?thesis using step k node_adopting [OF s(1) _ ahead_start, of c]
      by (intro quiet [of "Snap (Some key) [] [] (the (data (lnodes t ! c)))"]) simp_all
  next
    assume k: "th = Loaded key q"
    then show ?thesis using step th sound snap_self by (intro quiet [of "Snapped key q (order (payloads t ! q))"]) auto
  next
    assume k: "th = Snapped key q w"
    let ?es = "node_entries (view (payloads t ! q) w)"
    have "\<exists>x \<in> set es. compare T x key = 0" if "lookup_in T (payloads t ! q) w key"
    proof -
      let ?r = "sorted_position T (payloads t ! q) w (order_count w) key (order_bytes T key)"
      have "?r < length ?es" "compare T (?es ! ?r) key = 0" using that by (auto simp: lookup_in_def Let_def key_at_view)
      then show ?thesis using th k nth_mem by (metis placed.simps(19) subsetD)
    qed
    then show ?thesis using step k by (intro quiet [of "Answered key (lookup_in T (payloads t ! q) w key)"]) simp_all
  next
    assume k: "th = Adopt bs ys c"
    then have "ahead T t ns bs ys c" "c \<in> set ns" using th by (auto simp: ahead_def)
    then show ?thesis using step k node_adopting [OF s(1)] by (intro quiet [of "Snap None bs ys (the (data (lnodes t ! c)))"]) simp_all
  next
    assume k: "th = Snap target bs ys q"
    then have "walking T t ns bs ys q (order (payloads t ! q)) 0" "target \<noteq> None \<Longrightarrow> bs = [] \<and> ys = []"
      using th adopting_walking [OF s(1)] by simp_all
    then show ?thesis using step k
      by (cases target; intro quiet [of "case target of None \<Rightarrow> On bs ys q (order (payloads t ! q)) 0 | Some key \<Rightarrow> Aim key q (order (payloads t ! q))"])
        (auto simp: Let_def)
  next
    assume k: "th = Aim key q w"
    then show ?thesis using step th walking_drop by (intro quiet [OF _ _ _ _]) auto
  next
    assume k: "th = On bs ys q w pos"
    then have wk: "walking T t ns bs ys q w pos" using th by simp
    show ?thesis
    proof (cases "pos < order_count w")
      case True
      then show ?thesis using step k walking_shows [OF wk True]
        by (intro quiet [of "On bs (ys @ [key_at (payloads t ! q) w pos]) q w (pos + 1)"]) simp_all
    next
      case False
      then show ?thesis using step k walking_leaves [OF s(1,2) wk False]
        by (cases "next_link (payloads t ! q)"; intro quiet [of "case next_link (payloads t ! q) of None \<Rightarrow> Done bs ys | Some n \<Rightarrow> Adopt bs ys n"]) simp_all
    qed
  qed
qed

theorem thread_step_ok:
  assumes sh: "shared_ok T t ns lim es" and th: "placed T t ns lim es th" and held: "holds th \<subseteq> held t"
    and step: "thread_step T draws cas t th = Some r"
  shows "stepped T t ns lim es th r"
proof (cases th)
  case (Hop pu key lv c)
  then show ?thesis by (intro descent_step_ok [OF sh th held _ step]) simp
next
  case (Test pu key lv c nx)
  then show ?thesis by (intro descent_step_ok [OF sh th held _ step]) simp
next
  case (Tied pu key lv c nx)
  then show ?thesis by (intro descent_step_ok [OF sh th held _ step]) simp
next
  case (Peek pu key lv c nx q)
  then show ?thesis by (intro descent_step_ok [OF sh th held _ step]) simp
next
  case (AtNode pu key c)
  show ?thesis
  proof (cases pu)
    case Inserting
    then show ?thesis using AtNode by (intro lock_steps_ok [OF sh th held _ step]) simp
  next
    case (Finding d node lv a)
    then show ?thesis using finding_step_ok [OF sh] th held step by (simp only: AtNode holds.simps purpose_node.simps insert_subset)
  next
    case (Checking d node lv a)
    then show ?thesis using step AtNode by simp
  qed (use AtNode in \<open>intro reader_steps_ok [OF sh th _ step]; simp\<close>)+
next
  case (Publishing key c p merged)
  then have "thread_step T draws cas t th = Some (the (thread_step T draws cas t th))" by (simp add: Let_def)
  then show ?thesis using publish_step [OF sh, of key c p merged draws cas] th held step Publishing by simp
next
  case (Link c node lv a key pred nx)
  then show ?thesis using link_step [OF sh, of c node lv a key pred nx draws cas] th held step by simp
next
  case (Swap c node lv a key pred nx)
  then show ?thesis using swap_step [OF sh, of c node lv a key pred nx draws cas] th held step by simp
next
  case (Appending s key c p w rank)
  show ?thesis using append_step_ok [OF sh th [unfolded Appending]] held step by (simp add: Appending)
next
  case (Splitting key c p merged)
  then show ?thesis using splitting_step [OF sh, of key c p merged] th held step by simp
next
  case (Moved key c)
  then show ?thesis by (intro lock_steps_ok [OF sh th held _ step]) simp
next
  case (Inserted c)
  then show ?thesis by (intro lock_steps_ok [OF sh th held _ step]) simp
next
  case (Holding key c)
  then show ?thesis using held by (intro recheck_steps_ok [OF sh th _ _ step]) simp_all
next
  case (Behind key c n)
  then show ?thesis using held by (intro recheck_steps_ok [OF sh th _ _ step]) simp_all
next
  case (Recheck key c n q)
  then show ?thesis using held by (intro recheck_steps_ok [OF sh th _ _ step]) simp_all
next
  case (Writing key c)
  then show ?thesis using held by (intro recheck_steps_ok [OF sh th _ _ step]) simp_all
next
  case (Loaded key q)
  then show ?thesis by (intro reader_steps_ok [OF sh th _ step]) simp
next
  case (Snapped key q w)
  then show ?thesis by (intro reader_steps_ok [OF sh th _ step]) simp
next
  case (Adopt bs ys c)
  then show ?thesis by (intro reader_steps_ok [OF sh th _ step]) simp
next
  case (Snap target bs ys q)
  then show ?thesis by (intro reader_steps_ok [OF sh th _ step]) simp
next
  case (Aim key q w)
  then show ?thesis by (intro reader_steps_ok [OF sh th _ step]) simp
next
  case (On bs ys q w pos)
  then show ?thesis by (intro reader_steps_ok [OF sh th _ step]) simp
qed (use step in simp_all)

end

end
