(* ===== verification/Thread_Alone.thy ===== *)
theory Thread_Alone
  imports Thread_Writes
begin

text \<open>
  One thread running alone, store by store. It computes what the sequential operations of \<^verbatim>\<open>Insert\<close> and
  \<^verbatim>\<open>Lookup\<close> compute, so the two models of \<^verbatim>\<open>insert_entry\<close> and \<^verbatim>\<open>contains_target\<close> are one; and
  from any moment of any run it gets to the end of its operation unless another thread holds the lock
  it wants.
\<close>

text \<open>\<open>k\<close> steps of a thread, fewer when it cannot move; the list collects what it inserts.\<close>

fun alone ::
  "'e traits \<Rightarrow> (nat \<Rightarrow> u32) \<Rightarrow> (nat \<Rightarrow> nat \<Rightarrow> bool) \<Rightarrow> nat \<Rightarrow> 'e thread \<times> 'e table \<times> 'e list \<Rightarrow> 'e thread \<times> 'e table \<times> 'e list" where
  "alone T draws cas 0 s = s"
| "alone T draws cas (Suc k) (th, t, es) =
     (case thread_step T draws cas t th of
        None \<Rightarrow> (th, t, es)
      | Some (th', t', new) \<Rightarrow> alone T draws cas k (th', t', es @ new))"

definition gets_to ::
  "'e traits \<Rightarrow> (nat \<Rightarrow> u32) \<Rightarrow> (nat \<Rightarrow> nat \<Rightarrow> bool) \<Rightarrow> 'e thread \<times> 'e table \<times> 'e list \<Rightarrow> 'e thread \<times> 'e table \<times> 'e list \<Rightarrow> bool" where
  "gets_to T draws cas s s' \<longleftrightarrow> (\<exists>k. alone T draws cas k s = s')"

lemma alone_stuck: "thread_step T draws cas t th = None \<Longrightarrow> alone T draws cas k (th, t, es) = (th, t, es)"
  by (cases k) simp_all

lemma alone_add: "alone T draws cas (j + k) s = alone T draws cas k (alone T draws cas j s)"
proof (induction T draws cas j s rule: alone.induct)
  case (2 T draws cas j th t es)
  then show ?case by (cases "thread_step T draws cas t th") (auto simp: alone_stuck)
qed simp

lemma gets_to_refl: "gets_to T draws cas s s"
  unfolding gets_to_def by (intro exI [of _ 0]) simp

lemma gets_to_trans: "gets_to T draws cas s s' \<Longrightarrow> gets_to T draws cas s' s'' \<Longrightarrow> gets_to T draws cas s s''"
  unfolding gets_to_def by (metis alone_add)

lemma gets_to_step:
  assumes "thread_step T draws cas t th = Some (th', t', new)" "gets_to T draws cas (th', t', es @ new) s"
  shows "gets_to T draws cas (th, t, es) s"
proof -
  have "alone T draws cas 1 (th, t, es) = (th', t', es @ new)" using assms(1) by simp
  then show ?thesis using assms(2) gets_to_trans unfolding gets_to_def by metis
qed

text \<open>A step that inserts nothing.\<close>

lemma gets_to_quiet:
  "thread_step T draws cas t th = Some (th', t', []) \<Longrightarrow> gets_to T draws cas (th', t', es) s \<Longrightarrow> gets_to T draws cas (th, t, es) s"
  using gets_to_step [of T draws cas t th th' t' "[]" es s] by simp

lemma gets_to_one: "thread_step T draws cas t th = Some (th', t', []) \<Longrightarrow> gets_to T draws cas (th, t, es) (th', t', es)"
  by (rule gets_to_quiet [OF _ gets_to_refl])

section \<open>Descents\<close>

text \<open>The successor a descent follows on a level.\<close>

definition successor :: "'e table \<Rightarrow> nat \<Rightarrow> nat \<Rightarrow> nat option" where
  "successor t lv = (if lv = 0 then next_of t else tower_at t lv)"

lemma hop_step:
  "thread_step T draws cas t (Hop pu key lv cur) =
     Some (case successor t lv cur of None \<Rightarrow> lower_level pu key lv cur | Some nx \<Rightarrow> Test pu key lv cur nx, t, [])"
  by (simp add: successor_def)

abbreviation enters :: "'e traits \<Rightarrow> 'e table \<Rightarrow> 'e \<Rightarrow> nat \<Rightarrow> bool" where
  "enters T t key \<equiv> starts_at_or_below T t key (search_hint t (order_bytes T key))"

lemma tied_run:
  "gets_to T draws cas (Peek pu key lv cur nx q, t, es)
     (tested t pu key lv cur nx (order_count (order (payloads t ! q)) > 0 \<and> compare T (key_at (payloads t ! q) (order (payloads t ! q)) 0) key \<le> 0), t, es)"
  by (rule gets_to_one) (simp add: Let_def)

lemma test_run:
  "gets_to T draws cas (Test pu key lv cur nx, t, es) (tested t pu key lv cur nx (enters T t key nx), t, es)"
proof (cases "hints t \<and> first_hint (lnodes t ! nx) \<noteq> search_hint t (order_bytes T key)")
  case True
  then show ?thesis by (intro gets_to_one) (simp add: starts_at_or_below_def Let_def)
next
  case False
  let ?q = "the (data (lnodes t ! nx))"
  have "thread_step T draws cas t (Test pu key lv cur nx) = Some (Tied pu key lv cur nx, t, [])"
    using False by (auto simp: Let_def)
  moreover have "gets_to T draws cas (Tied pu key lv cur nx, t, es) (Peek pu key lv cur nx ?q, t, es)" by (rule gets_to_one) simp
  moreover have "enters T t key nx = (order_count (order (payloads t ! ?q)) > 0 \<and> compare T (key_at (payloads t ! ?q) (order (payloads t ! ?q)) 0) key \<le> 0)"
    using False by (auto simp: starts_at_or_below_def get_data_def Let_def)
  ultimately show ?thesis
    using gets_to_trans [OF _ tied_run [of T draws cas pu key lv cur nx ?q t es]] by (auto intro: gets_to_quiet)
qed

lemma tested_descends:
  "descends pu \<Longrightarrow> tested t pu key lv cur nx b = (if b then Hop pu key lv nx else lower_level pu key lv cur)"
  by (cases pu) (simp_all add: tested_def)

text \<open>The inner loop of a walk.\<close>

lemma advance_run:
  assumes pu: "descends pu" and adv: "advance (successor t lv) (enters T t key) cur = Some c"
  shows "gets_to T draws cas (Hop pu key lv cur, t, es) (lower_level pu key lv c, t, es)"
proof -
  let ?P = "\<lambda>nx ok cur c. nx = successor t lv \<longrightarrow> ok = enters T t key \<longrightarrow>
    gets_to T draws cas (Hop pu key lv cur, t, es) (lower_level pu key lv c, t, es)"
  have "?P (successor t lv) (enters T t key) cur c"
  proof (rule advance.raw_induct [of ?P, OF _ adv], intro impI)
    fix adv nx ok cur c
    assume IH: "\<And>nx ok cur c. adv nx ok cur = Some c \<Longrightarrow> ?P nx ok cur c"
      and step: "(case nx cur of None \<Rightarrow> Some cur | Some n \<Rightarrow> if ok n then adv nx ok n else Some cur) = Some c"
      and eqs: "nx = successor t lv" "ok = enters T t key"
    show "gets_to T draws cas (Hop pu key lv cur, t, es) (lower_level pu key lv c, t, es)"
    proof (cases "successor t lv cur")
      case None
      then have "thread_step T draws cas t (Hop pu key lv cur) = Some (lower_level pu key lv c, t, [])"
        using step eqs by (simp add: hop_step del: thread_step.simps)
      then show ?thesis by (rule gets_to_one)
    next
      case (Some n)
      then have "thread_step T draws cas t (Hop pu key lv cur) = Some (Test pu key lv cur n, t, [])"
        by (simp add: hop_step del: thread_step.simps)
      moreover have "gets_to T draws cas (Test pu key lv cur n, t, es) (lower_level pu key lv c, t, es)"
      proof (cases "enters T t key n")
        case True
        then show ?thesis
          using test_run [of T draws cas pu key lv cur n t es] IH [of nx ok n c] step Some eqs pu
          by (auto simp: tested_descends intro: gets_to_trans)
      next
        case False
        then show ?thesis using test_run [of T draws cas pu key lv cur n t es] step Some eqs pu by (simp add: tested_descends)
      qed
      ultimately show ?thesis by (rule gets_to_quiet)
    qed
  qed
  then show ?thesis by simp
qed

text \<open>The levels of a walk, one after the other, down to \<open>m\<close>.\<close>

lemma walk_run:
  assumes pu: "descends pu"
  shows "tower_walk t (enters T t key) (rev [m..<Suc lv]) cur = Some c \<Longrightarrow> bottom_level pu < m \<Longrightarrow> m \<le> Suc lv \<Longrightarrow>
    gets_to T draws cas (Hop pu key lv cur, t, es) (Hop pu key (m - 1) c, t, es)"
proof (induction lv arbitrary: cur)
  case 0
  then show ?case by (simp add: gets_to_refl)
next
  case (Suc lv)
  show ?case
  proof (cases "m = Suc (Suc lv)")
    case True
    then show ?thesis using Suc.prems by (simp add: gets_to_refl)
  next
    case False
    then have m: "m \<le> Suc lv" using Suc.prems by simp
    obtain d where d: "advance (tower_at t (Suc lv)) (enters T t key) cur = Some d"
      "tower_walk t (enters T t key) (rev [m..<Suc lv]) d = Some c"
      using Suc.prems(1) m by (auto simp: bind_eq_Some_conv)
    have "successor t (Suc lv) = tower_at t (Suc lv)" by (simp add: fun_eq_iff successor_def)
    then have "gets_to T draws cas (Hop pu key (Suc lv) cur, t, es) (lower_level pu key (Suc lv) d, t, es)"
      using d(1) by (intro advance_run [OF pu]) simp
    moreover have "lower_level pu key (Suc lv) d = Hop pu key lv d" using Suc.prems(2) m by (simp add: lower_level_def)
    ultimately show ?thesis using Suc.IH [OF d(2) Suc.prems(2) m] by (metis gets_to_trans)
  qed
qed

lemma descend_run:
  assumes pu: "descends pu" "bottom_level pu = 0" and d: "descend T t key (order_bytes T key) = Some c"
  shows "gets_to T draws cas (begin_descent pu key t, t, es) (AtNode pu key c, t, es)"
proof -
  obtain b where b: "tower_walk t (enters T t key) (levels_down_to 1) (head_node t) = Some b"
    "advance (successor t 0) (enters T t key) b = Some c"
    using d by (auto simp: descend_def Let_def bind_eq_Some_conv successor_def [abs_def])
  have "gets_to T draws cas (Hop pu key (kMaxHeight - 1) (head_node t), t, es) (Hop pu key 0 b, t, es)"
    using walk_run [OF pu(1), of t T key 1 "kMaxHeight - 1" "head_node t" b] b(1) pu(2) by (simp add: levels_down_to_def kMaxHeight_def)
  moreover have "gets_to T draws cas (Hop pu key 0 b, t, es) (AtNode pu key c, t, es)"
    using advance_run [OF pu(1) b(2), of draws cas es] by (simp add: lower_level_def)
  ultimately show ?thesis unfolding begin_descent_def by (rule gets_to_trans)
qed

lemma tower_walk_append: "tower_walk t ok (xs @ ys) cur = Option.bind (tower_walk t ok xs cur) (tower_walk t ok ys)"
  by (induction xs arbitrary: cur) (simp_all split: bind_split)

lemma pred_run:
  assumes lv: "1 \<le> lv" "lv < kMaxHeight" and p: "pred_at_level T t lv key (search_hint t (order_bytes T key)) = Some p"
  shows "gets_to T draws cas (begin_descent (Finding c node lv a) key t, t, es) (AtNode (Finding c node lv a) key p, t, es)"
proof -
  let ?pu = "Finding c node lv a"
  have "levels_down_to lv = rev [Suc lv..<kMaxHeight] @ [lv]" using lv by (simp add: levels_down_to_def upt_conv_Cons)
  then obtain b where b: "tower_walk t (enters T t key) (rev [Suc lv..<kMaxHeight]) (head_node t) = Some b"
    "advance (tower_at t lv) (enters T t key) b = Some p"
    using p by (auto simp: pred_at_level_def tower_walk_append bind_eq_Some_conv)
  have "gets_to T draws cas (Hop ?pu key (kMaxHeight - 1) (head_node t), t, es) (Hop ?pu key lv b, t, es)"
    using walk_run [of ?pu t T key "Suc lv" "kMaxHeight - 1" "head_node t" b] b(1) lv by simp
  moreover have "successor t lv = tower_at t lv" using lv by (simp add: fun_eq_iff successor_def)
  then have "gets_to T draws cas (Hop ?pu key lv b, t, es) (AtNode ?pu key p, t, es)"
    using advance_run [of ?pu t lv T key b p draws cas es] b(2) by (simp add: lower_level_def)
  ultimately show ?thesis unfolding begin_descent_def by (rule gets_to_trans)
qed

section \<open>Linking\<close>

lemma set_tower_hint: "search_hint (set_tower t n lv nx) bytes = search_hint t bytes"
  by (simp add: search_hint_def set_tower_def heap_simps)

lemma set_tower_other: "n \<noteq> m \<Longrightarrow> tower_at (set_tower t n lv nx) lv' m = tower_at t lv' m"
  by (simp add: tower_at_def set_tower_def heap_simps)

lemma link_level_run:
  assumes lv: "1 \<le> lv" "lv < kMaxHeight"
  shows "link_level T cas lv node key (search_hint t (order_bytes T key)) [a..<8] t = Some t' \<Longrightarrow> a < 8 \<Longrightarrow>
    gets_to T draws cas (begin_descent (Finding c node lv a) key t, t, es) (link_from t' c node (lv + 1) key, t', es)"
proof (induction "8 - a" arbitrary: a t rule: less_induct)
  case less
  let ?hint = "search_hint t (order_bytes T key)" and ?pu = "Finding c node lv a"
  have retry: "gets_to T draws cas (try_again t1 c node lv a key, t1, es) (link_from t' c node (lv + 1) key, t', es)"
    if "link_level T cas lv node key ?hint [Suc a..<8] t1 = Some t'" "search_hint t1 (order_bytes T key) = ?hint" for t1
    using that less.hyps [of "Suc a" t1] less.prems(2) by (cases "Suc a < 8") (simp_all add: try_again_def gets_to_refl)
  have "[a..<8] = a # [Suc a..<8]" using less.prems(2) by (rule upt_conv_Cons)
  note first = less.prems(1) [unfolded this link_level.simps Let_def bind_eq_Some_conv]
  obtain p where p: "pred_at_level T t lv key ?hint = Some p"
    and rest: "(if p = node then Some t
       else if (case tower_at t lv p of None \<Rightarrow> False | Some x \<Rightarrow> enters T t key x) then link_level T cas lv node key ?hint [Suc a..<8] t
       else if cas lv a then Some (set_tower (set_tower t node lv (tower_at t lv p)) p lv (Some node))
       else link_level T cas lv node key ?hint [Suc a..<8] (set_tower t node lv (tower_at t lv p))) = Some t'"
    using first by blast
  define ahead where "ahead \<longleftrightarrow> (case tower_at t lv p of None \<Rightarrow> False | Some x \<Rightarrow> enters T t key x)"
  note rest = rest [folded ahead_def]
  have "gets_to T draws cas (AtNode ?pu key p, t, es) (link_from t' c node (lv + 1) key, t', es)"
  proof (cases "p = node")
    case True
    then show ?thesis using rest by (intro gets_to_one) simp
  next
    case other: False
    let ?nx = "tower_at t lv p"
    let ?t1 = "set_tower t node lv ?nx" and ?link = "Link c node lv a key p ?nx"
    have link: "gets_to T draws cas (?link, t, es) (link_from t' c node (lv + 1) key, t', es)"
      if "\<not> ahead"
    proof (rule gets_to_quiet)
      show "thread_step T draws cas t ?link = Some (Swap c node lv a key p ?nx, ?t1, [])" by simp
      have s: "tower_at ?t1 lv p = ?nx" using other by (intro set_tower_other) simp
      show "gets_to T draws cas (Swap c node lv a key p ?nx, ?t1, es) (link_from t' c node (lv + 1) key, t', es)"
      proof (cases "cas lv a")
        case True
        then have "t' = set_tower ?t1 p lv (Some node)" using rest that other by simp
        then have "thread_step T draws cas ?t1 (Swap c node lv a key p ?nx) = Some (link_from t' c node (lv + 1) key, t', [])"
          unfolding thread_step.simps Let_def s using True by (simp only: simp_thms if_True)
        then show ?thesis by (rule gets_to_one)
      next
        case False
        then have "thread_step T draws cas ?t1 (Swap c node lv a key p ?nx) = Some (try_again ?t1 c node lv a key, ?t1, [])" by simp
        moreover have "link_level T cas lv node key ?hint [Suc a..<8] ?t1 = Some t'" using rest that other False by simp
        then have "gets_to T draws cas (try_again ?t1 c node lv a key, ?t1, es) (link_from t' c node (lv + 1) key, t', es)"
          by (rule retry) (rule set_tower_hint)
        ultimately show ?thesis by (rule gets_to_quiet)
      qed
    qed
    show ?thesis
    proof (cases ?nx)
      case None
      then have "thread_step T draws cas t (AtNode ?pu key p) = Some (?link, t, [])" using other by simp
      then show ?thesis by (rule gets_to_quiet [OF _ link]) (simp add: ahead_def None)
    next
      case (Some x)
      then have "thread_step T draws cas t (AtNode ?pu key p) = Some (Test (Checking c node lv a) key lv p x, t, [])" using other by simp
      moreover have "tested t (Checking c node lv a) key lv p x (enters T t key x) = (if enters T t key x then try_again t c node lv a key else ?link)"
        using Some by (simp add: tested_def)
      then have "gets_to T draws cas (Test (Checking c node lv a) key lv p x, t, es) (if enters T t key x then try_again t c node lv a key else ?link, t, es)"
        using test_run [of T draws cas "Checking c node lv a" key lv p x t es] by simp
      moreover have "gets_to T draws cas (if enters T t key x then try_again t c node lv a key else ?link, t, es) (link_from t' c node (lv + 1) key, t', es)"
        using retry [of t] link rest other Some ahead_def by (cases "enters T t key x") simp_all
      ultimately show ?thesis by (rule gets_to_quiet [OF _ gets_to_trans])
    qed
  qed
  then show ?case using pred_run [OF lv p] by (blast intro: gets_to_trans)
qed

lemma link_level_height:
  "link_level T cas lv node key hint as t = Some t' \<Longrightarrow>
    height (lnodes t' ! n) = height (lnodes t ! n) \<and> search_hint t' bytes = search_hint t bytes"
proof (induction as arbitrary: t)
  case (Cons a as)
  have h: "height (lnodes (set_tower t m lv nx) ! n) = height (lnodes t ! n)" for t :: "'a table" and m nx
    by (cases "m < length (lnodes t)"; cases "n = m") (simp_all add: set_tower_def upd_node_def list_update_beyond)
  show ?case
    using Cons.prems Cons.IH by (auto simp: bind_eq_Some_conv Let_def h set_tower_hint split: if_splits)
qed simp

lemma link_levels_run:
  assumes h: "h \<le> kMaxHeight"
  shows "link_levels T cas node key (search_hint t (order_bytes T key)) [lv..<h] t = Some t' \<Longrightarrow> 1 \<le> lv \<Longrightarrow>
    h = unat (height (lnodes t ! node)) \<Longrightarrow> gets_to T draws cas (link_from t c node lv key, t, es) (Inserted c, t', es)"
proof (induction "h - lv" arbitrary: lv t)
  case 0
  then show ?case by (simp add: link_from_def gets_to_refl)
next
  case (Suc k lv t)
  then have lv: "lv < h" "[lv..<h] = lv # [Suc lv..<h]" by (simp_all add: upt_conv_Cons)
  let ?hint = "search_hint t (order_bytes T key)"
  obtain t1 where t1: "link_level T cas lv node key ?hint [0..<8] t = Some t1"
    "link_levels T cas node key ?hint [Suc lv..<h] t1 = Some t'"
    using Suc.prems(1) by (auto simp: lv(2) bind_eq_Some_conv simp del: upt.simps)
  have "gets_to T draws cas (link_from t c node lv key, t, es) (link_from t1 c node (Suc lv) key, t1, es)"
    using link_level_run [OF Suc.prems(2) _ t1(1)] lv h Suc.prems(3) by (simp add: link_from_def)
  moreover have "gets_to T draws cas (link_from t1 c node (Suc lv) key, t1, es) (Inserted c, t', es)"
    using Suc.hyps(1) [of "Suc lv" t1] Suc.hyps(2) Suc.prems t1(2) link_level_height [OF t1(1)] by simp
  ultimately show ?case by (rule gets_to_trans)
qed

section \<open>The write under the lock\<close>

context ordered_traits
begin

text \<open>The second half of an append looks at the payload with the new key in its slot, which no rank names yet.\<close>

lemma append_lane_slot:
  assumes "node_ok d"
  shows "append_lane T (d\<lparr>slots := (slots d)[order_count (order d) := key]\<rparr>) (order d) r bytes = append_lane T d (order d) r bytes"
proof -
  let ?d' = "d\<lparr>slots := (slots d)[order_count (order d) := key]\<rparr>"
  have "node_entries ?d' = node_entries d" by (rule grown_same_word(2) [OF store_grows(1) _ assms]) simp_all
  then have "key_at ?d' (order d) 0 = key_at d (order d) 0" if "order_count (order d) > 0"
    using that key_at_entries [of 0 ?d'] key_at_entries [of 0 d] by simp
  then show ?thesis by (auto simp: append_lane_def shares_prefix_def Let_def)
qed

lemma append_run:
  assumes d: "node_ok (payloads t ! p)" "w = order (payloads t ! p)" "p < length (payloads t)"
    and rank: "rank = sorted_position T (payloads t ! p) w (order_count w) key (order_bytes T key)"
  shows "gets_to T draws cas (Appending StoreKey key c p w rank, t, es) (Inserted c, append_entry T t c p w (order_count w) key (order_bytes T key), es @ [key])"
proof -
  let ?n = "order_count w" and ?bytes = "order_bytes T key"
  let ?t1 = "upd_payload t p (\<lambda>d. d\<lparr>slots := (slots d)[?n := key]\<rparr>)"
  let ?t2 = "upd_payload t p (\<lambda>d. write_slot d ?n key (append_lane T d w rank ?bytes))"
  let ?t3 = "if rank = 0 then publish_hint T ?t2 c key else ?t2"
  let ?t4 = "upd_payload ?t3 p (\<lambda>d. d\<lparr>order := order_insert w rank ?n\<rparr>)"
  have 2: "upd_payload ?t1 p (\<lambda>d. d\<lparr>surrogates := (surrogates d)[?n := append_lane T d w rank ?bytes]\<rparr>) = ?t2"
    using append_lane_slot [OF d(1), of key rank ?bytes] d(2,3) by (simp add: upd_payload_def write_slot_def)
  have 4: "append_entry T t c p w ?n key ?bytes = ?t4" by (simp add: append_entry_def Let_def rank)
  have last: "gets_to T draws cas (Appending StoreOrder key c p w rank, ?t3, es) (Inserted c, ?t4, es @ [key])"
    by (rule gets_to_step [OF _ gets_to_refl]) simp
  have "gets_to T draws cas (Appending (if rank = 0 then StoreHint else StoreOrder) key c p w rank, ?t2, es) (Inserted c, ?t4, es @ [key])"
  proof (cases "rank = 0")
    case True
    then have "thread_step T draws cas ?t2 (Appending StoreHint key c p w rank) = Some (Appending StoreOrder key c p w rank, ?t3, [])" by simp
    from gets_to_quiet [OF this last] show ?thesis using True by simp
  qed (use last in simp)
  moreover have "thread_step T draws cas ?t1 (Appending StoreLane key c p w rank) =
      Some (Appending (if rank = 0 then StoreHint else StoreOrder) key c p w rank, ?t2, [])"
    by (simp only: thread_step.simps append_step.simps 2)
  ultimately have "gets_to T draws cas (Appending StoreLane key c p w rank, ?t1, es) (Inserted c, ?t4, es @ [key])"
    by (rule gets_to_quiet [rotated])
  then show ?thesis unfolding 4 by (rule gets_to_quiet [rotated]) simp
qed

text \<open>A split stores the hint of the lower half before its payload; publishing stores the same hint.\<close>

lemma split_hint_twice:
  assumes c: "c < length (lnodes t)" and len: "length merged = Suc kNodeCapacity"
  shows "split_payloads T draws (publish_hint T t c (hd merged)) c nxt merged = split_payloads T draws t c nxt merged"
proof (rule table.equality)
  let ?h = "publish_hint T t c (hd merged)"
  have h: "c < length (lnodes ?h)" "payloads ?h = payloads t" "length (lnodes ?h) = length (lnodes t)" "head_node ?h = head_node t" "hints ?h = hints t"
    using c by (simp_all add: heap_simps)
  note r = split_payloads_reads [OF c len, where T = T and draws = draws and nxt = nxt]
    and r' = split_payloads_reads [OF h(1) len, where T = T and draws = draws and nxt = nxt, unfolded h(2-5)]
  show "payloads (split_payloads T draws ?h c nxt merged) = payloads (split_payloads T draws t c nxt merged)" by (simp only: r(1) r'(1))
  show "head_node (split_payloads T draws ?h c nxt merged) = head_node (split_payloads T draws t c nxt merged)" by (simp only: r(6) r'(6))
  show "hints (split_payloads T draws ?h c nxt merged) = hints (split_payloads T draws t c nxt merged)" by (simp only: r(7) r'(7))
  show "lnodes (split_payloads T draws ?h c nxt merged) = lnodes (split_payloads T draws t c nxt merged)"
  proof (rule nth_equalityI)
    show l: "length (lnodes (split_payloads T draws ?h c nxt merged)) = length (lnodes (split_payloads T draws t c nxt merged))"
      by (simp only: r(2) r'(2))
    fix x
    assume "x < length (lnodes (split_payloads T draws ?h c nxt merged))"
    then consider "x = c" | "x = length (lnodes t)" | "x < length (lnodes t)" "x \<noteq> c" unfolding l r(2) by linarith
    then show "lnodes (split_payloads T draws ?h c nxt merged) ! x = lnodes (split_payloads T draws t c nxt merged) ! x"
    proof cases
      case 1
      have "(lnodes ?h ! c)\<lparr>first_hint := v\<rparr> = (lnodes t ! c)\<lparr>first_hint := v\<rparr>" for v
        using c by (simp add: publish_hint_def Let_def upd_node_def)
      then show ?thesis unfolding 1 r(4) r'(4) by simp
    next
      case 2
      then show ?thesis by (simp only: r(5) r'(5))
    next
      case 3
      then show ?thesis using r(3) [of x] r'(3) [of x] by (simp add: heap_simps)
    qed
  qed
qed simp

lemma write_run:
  assumes ok: "chain_ok T t ns" and c: "c \<in> set ns" and op: "insert_locked T draws cas t c key = Some t'"
  shows "gets_to T draws cas (Writing key c, t, es) (Inserted c, t', es @ [key])"
proof -
  obtain p where p: "data (lnodes t ! c) = Some p" "p < length (payloads t)" "node_ok (payloads t ! p)" "c < length (lnodes t)"
    using chain_okD(4) [OF ok c] by (auto simp: lnode_ok_def get_data_def)
  let ?d = "payloads t ! p"
  let ?w = "order ?d" and ?bytes = "order_bytes T key"
  let ?n = "order_count ?w"
  show ?thesis
  proof (cases "?n < kNodeCapacity")
    case True
    then have "t' = append_entry T t c p ?w ?n key ?bytes" using op by (simp add: insert_locked_def Let_def p(1))
    moreover have "thread_step T draws cas t (Writing key c) = Some (Appending StoreKey key c p ?w (sorted_position T ?d ?w ?n key ?bytes), t, [])"
      using True by (simp add: Let_def p(1))
    ultimately show ?thesis using append_run [OF p(3) HOL.refl p(2) HOL.refl] gets_to_quiet by metis
  next
    case False
    let ?m = "merge T ?d ?w ?n key ?bytes"
    let ?t2 = "split_payloads T draws t c (next_link ?d) ?m" and ?h = "publish_hint T t c (hd ?m)" and ?sib = "length (lnodes t)"
    have len: "length ?m = Suc kNodeCapacity"
      using merge_entries [of ?d key ?bytes] chain_node_sorted [OF ok c] node_okD(7) [OF p(3)] False
      by (simp add: get_data_def p(1) node_consts)
    have h: "payloads ?h = payloads t" "length (lnodes ?h) = ?sib" by (simp_all add: heap_simps)
    let ?first = "slots (payloads ?t2 ! length (payloads t)) ! 0"
    have link: "link_tower T cas ?t2 ?sib ?first = Some t'"
      using op False by (simp add: insert_locked_def Let_def p(1) split_and_insert_payloads)
    have "unat (height (lnodes ?t2 ! ?sib)) \<le> kMaxHeight"
      using split_payloads_reads(5) [OF p(4) len, where T = T and draws = draws and nxt = "next_link ?d"] random_height_bounds(2) [of draws]
      by (simp add: random_height_byte)
    then have run: "gets_to T draws cas (link_from ?t2 c ?sib 1 ?first, ?t2, es @ [key]) (Inserted c, t', es @ [key])"
      using link unfolding link_tower_def by (rule link_levels_run) simp_all
    have "gets_to T draws cas (Publishing key c p ?m, ?h, es) (Inserted c, t', es @ [key])"
    proof (rule gets_to_step [OF _ run])
      show "thread_step T draws cas ?h (Publishing key c p ?m) = Some (link_from ?t2 c ?sib 1 ?first, ?t2, [key])"
        by (simp add: Let_def h split_hint_twice [OF p(4) len])
    qed
    then have "gets_to T draws cas (Splitting key c p ?m, t, es) (Inserted c, t', es @ [key])"
      by (rule gets_to_quiet [rotated]) simp
    then show ?thesis by (rule gets_to_quiet [rotated]) (use False in \<open>simp add: Let_def p(1)\<close>)
  qed
qed

text \<open>An insert into a lawful table, from the descent to the release of the lock.\<close>

lemma insert_run:
  assumes ok: "table_ok T t" and op: "insert_entry T draws cas t e = Some t'"
  shows "gets_to T draws cas (begin_descent Inserting e t, t, es) (Idle, t', es @ [e])"
proof -
  have ch: "chain_ok T t (level0 t)" and q: "quiescent t" using ok by (simp_all add: table_ok_level0)
  define c where "c = locate T t (level0 t) e"
  define t1 where "t1 = upd_node t c (\<lambda>x. x\<lparr>write_lock := True\<rparr>)"
  note l1 = set_lock_chain [OF ch t1_def]
  obtain us vs where ns: "level0 t = us @ c # vs" and "splits_at T (chain_entries t (level0 t)) e (length (chain_entries t us) + node_position t e c)"
    "c < length (lnodes t)" and acq: "acquire t c = Some t1" and bel: "belongs_here T t1 (get_data t1 c) e"
    unfolding c_def t1_def by (rule locked_place [OF ch q, of e])
  have cin: "c \<in> set (level0 t)" using ns by simp
  have d: "descend T t e (order_bytes T e) = Some c" using descend_locate [OF ch, of e] by (simp add: c_def)
  obtain t2 where t2: "insert_locked T draws cas t1 c e = Some t2" "t' = release t2 c"
    using op bel acq d by (subst (asm) insert_entry.simps) (auto simp: Let_def)
  have "gets_to T draws cas (Writing e c, t1, es) (Inserted c, t2, es @ [e])" by (rule write_run [OF l1(1) cin t2(1)])
  moreover have "gets_to T draws cas (Inserted c, t2, es @ [e]) (Idle, t', es @ [e])" using t2(2) by (intro gets_to_one) simp
  ultimately have "gets_to T draws cas (Writing e c, t1, es) (Idle, t', es @ [e])" by (rule gets_to_trans)
  moreover have "gets_to T draws cas (Holding e c, t1, es) (Writing e c, t1, es)"
  proof (cases "next_link (get_data t1 c)")
    case None
    then show ?thesis by (intro gets_to_one) simp
  next
    case (Some n)
    let ?q = "the (data (lnodes t1 ! n))"
    have "thread_step T draws cas t1 (Recheck e c n ?q) = Some (Writing e c, t1, [])"
      using bel Some by (simp add: belongs_here_def get_data_def Let_def)
    from gets_to_one [OF this] have "gets_to T draws cas (Behind e c n, t1, es) (Writing e c, t1, es)"
      by (rule gets_to_quiet [rotated]) simp
    then show ?thesis by (rule gets_to_quiet [rotated]) (simp add: Some)
  qed
  ultimately have "gets_to T draws cas (Holding e c, t1, es) (Idle, t', es @ [e])" by (rule gets_to_trans [rotated])
  then have "gets_to T draws cas (AtNode Inserting e c, t, es) (Idle, t', es @ [e])"
    by (rule gets_to_quiet [rotated]) (simp add: acq)
  with descend_run [OF _ _ d] show ?thesis by (rule gets_to_trans) simp_all
qed

text \<open>A lookup, and the reads of any two tables that look alike.\<close>

lemma contains_run:
  assumes "contains_target T t key = Some b"
  shows "gets_to T draws cas (begin_descent Looking key t, t, es) (Answered key b, t, es)"
proof -
  obtain c where c: "descend T t key (order_bytes T key) = Some c" "b = lookup_in T (get_data t c) (order (get_data t c)) key"
    using assms by (auto simp: contains_target_lookup_in)
  let ?q = "the (data (lnodes t ! c))"
  have "gets_to T draws cas (Snapped key ?q (order (payloads t ! ?q)), t, es) (Answered key b, t, es)"
    using c(2) by (intro gets_to_one) (simp add: get_data_def)
  then have "gets_to T draws cas (Loaded key ?q, t, es) (Answered key b, t, es)" by (rule gets_to_quiet [rotated]) simp
  then have "gets_to T draws cas (AtNode Looking key c, t, es) (Answered key b, t, es)" by (rule gets_to_quiet [rotated]) simp
  with descend_run [OF _ _ c(1)] show ?thesis by (rule gets_to_trans) simp_all
qed

end

end
