(* ===== verification/Interleaving.thy ===== *)
theory Interleaving
  imports Thread_Writes
begin

text \<open>
  Worlds of threads over one table: the invariant every interleaving of their steps keeps
  (\<open>world_ok\<close>), and what follows from it for inserts, lookups and scans that run at the same time. Two
  concrete runs at the end show where the code promises more than it keeps: a split between a
  reader's descent and its load of the payload hides the upper half of the node from it.
\<close>

section \<open>What every interleaving keeps\<close>

definition locks_agree :: "'e world \<Rightarrow> bool" where
  "locks_agree w \<longleftrightarrow> held (shared w) = (\<Union>i < length (threads w). holds (threads w ! i)) \<and>
     (\<forall>i < length (threads w). \<forall>j < length (threads w). i \<noteq> j \<longrightarrow> holds (threads w ! i) \<inter> holds (threads w ! j) = {})"

definition links_apart :: "'e world \<Rightarrow> bool" where
  "links_apart w \<longleftrightarrow>
     (\<forall>i < length (threads w). \<forall>j < length (threads w). i \<noteq> j \<longrightarrow> links (threads w ! i) \<inter> links (threads w ! j) = {})"

definition world_ok :: "'e traits \<Rightarrow> 'e world \<Rightarrow> bool" where
  "world_ok T w \<longleftrightarrow>
     (\<exists>ns lim. shared_ok T (shared w) ns lim (inserted w) \<and> (\<forall>th \<in> set (threads w). placed T (shared w) ns lim (inserted w) th)) \<and>
     locks_agree w \<and> links_apart w"

lemma locks_agree_step:
  assumes w: "locks_agree w" "i < length (threads w)" and th: "th = threads w ! i"
    and held: "held t' = held (shared w) - holds th \<union> holds th'" and new: "holds th' \<inter> (held (shared w) - holds th) = {}"
  shows "locks_agree (w\<lparr>shared := t', threads := (threads w)[i := th'], inserted := es\<rparr>)"
proof -
  let ?ths = "threads w" and ?ths' = "(threads w)[i := th']" and ?n = "length (threads w)"
  have apart: "holds (?ths ! j) \<inter> holds th = {}" if "j < ?n" "j \<noteq> i" for j
    using w that unfolding locks_agree_def th by blast
  have owned: "holds (?ths ! j) \<subseteq> held (shared w)" if "j < ?n" for j
    using w(1) that unfolding locks_agree_def by blast
  have "(x \<in> held t') = (x \<in> (\<Union>j < ?n. holds (?ths' ! j)))" for x
  proof
    assume x: "x \<in> held t'"
    show "x \<in> (\<Union>j < ?n. holds (?ths' ! j))"
    proof (cases "x \<in> holds th'")
      case True
      then show ?thesis using w(2) by (intro UN_I [of i]) auto
    next
      case False
      then have "x \<in> held (shared w)" "x \<notin> holds th" using x held by auto
      then obtain j where "j < ?n" "x \<in> holds (?ths ! j)" "j \<noteq> i" using w(1) th unfolding locks_agree_def by auto
      then show ?thesis by (intro UN_I [of j]) auto
    qed
  next
    assume "x \<in> (\<Union>j < ?n. holds (?ths' ! j))"
    then obtain j where j: "j < ?n" "x \<in> holds (?ths' ! j)" by blast
    then show "x \<in> held t'" using owned [of j] apart [of j] unfolding held by (cases "j = i") auto
  qed
  then have "held t' = (\<Union>j < ?n. holds (?ths' ! j))" by blast
  moreover have "holds (?ths' ! j) \<inter> holds (?ths' ! k) = {}" if "j < ?n" "k < ?n" "j \<noteq> k" for j k
  proof -
    have mine: "holds (?ths ! m) \<inter> holds th' = {}" if "m < ?n" "m \<noteq> i" for m
      using owned [OF that(1)] apart [OF that] new by blast
    have "holds (?ths ! j) \<inter> holds (?ths ! k) = {}" using w(1) that unfolding locks_agree_def by blast
    then show ?thesis using mine [of j] mine [of k] that by (cases "j = i"; cases "k = i") auto
  qed
  ultimately show ?thesis by (simp add: locks_agree_def)
qed

lemma at_rest_free: "at_rest th \<Longrightarrow> holds th = {}"
  by (cases th) (simp_all add: at_rest_def)

lemma placed_links: "placed T t ns lim es th \<Longrightarrow> links th \<subseteq> set ns"
proof -
  have "purpose_ok T t ns lim pu \<Longrightarrow> purpose_sibling pu \<subseteq> set ns" for pu by (cases pu) (auto simp: linking_def)
  then show "placed T t ns lim es th \<Longrightarrow> links th \<subseteq> set ns"
    by (cases th) (auto simp: hopping_def testing_def linking_def)
qed

lemma links_apart_step:
  assumes w: "links_apart w" "i < length (threads w)" and new: "links th' \<inter> set ns \<subseteq> links (threads w ! i)"
    and inside: "\<And>th. th \<in> set (threads w) \<Longrightarrow> links th \<subseteq> set ns"
  shows "links_apart (w\<lparr>shared := t', threads := (threads w)[i := th'], inserted := es\<rparr>)"
proof -
  have "links th' \<inter> links (threads w ! j) = {}" if j: "j < length (threads w)" "j \<noteq> i" for j
  proof -
    have "links (threads w ! j) \<subseteq> set ns" using inside j(1) by simp
    moreover have "links (threads w ! i) \<inter> links (threads w ! j) = {}" using w j unfolding links_apart_def by metis
    ultimately show ?thesis using new by blast
  qed
  then show ?thesis using w unfolding links_apart_def by (auto simp: nth_list_update Int_commute)
qed

context ordered_traits
begin

lemma begin_operation_placed:
  assumes "shared_ok T (shared w) ns lim (inserted w)"
  shows "placed T (shared w) ns lim (inserted w) (begin_operation w f)" "holds (begin_operation w f) = {}" "links (begin_operation w f) = {}"
proof -
  note ok = shared_okD(1,2) [OF assms]
  obtain ts where "ns = head_node (shared w) # ts" using chain_Cons [OF ok(1)] by blast
  then have "ahead T (shared w) ns (inserted w) [] (head_node (shared w))"
    using ok(2) unfolding ahead_def by (intro exI [of _ "[]"] exI [of _ ts]) simp
  then show "placed T (shared w) ns lim (inserted w) (begin_operation w f)" "holds (begin_operation w f) = {}" "links (begin_operation w f) = {}"
    using begin_descent_placed [OF ok(1)] by (cases f; simp add: kMaxHeight_def)+
qed

lemma world_step_ok:
  assumes w: "world_ok T w" and step: "world_step T w w'"
  shows "world_ok T w'"
proof -
  obtain ns lim where sh: "shared_ok T (shared w) ns lim (inserted w)"
    and pl: "\<And>th. th \<in> set (threads w) \<Longrightarrow> placed T (shared w) ns lim (inserted w) th"
    and locks: "locks_agree w" and lks: "links_apart w"
    using w by (auto simp: world_ok_def)
  note member = set_update_subset_insert [THEN subsetD] and inside = pl [THEN placed_links]
  from step consider (1) i f where "w' = call i f w" "i < length (threads w)" "at_rest (threads w ! i)"
    | (2) draws cas i where "i < length (threads w)" "move T draws cas i w = Some w'"
    by (rule world_stepE) metis+
  then show ?thesis
  proof cases
    case 1
    let ?th = "begin_operation w f"
    have w': "w' = w\<lparr>shared := shared w, threads := (threads w)[i := ?th], inserted := inserted w\<rparr>"
      using 1 by (simp add: call_def)
    have "holds (threads w ! i) = {}" by (rule at_rest_free [OF 1(3)])
    then have "locks_agree w'"
      unfolding w' using begin_operation_placed(2) [OF sh] by (intro locks_agree_step [OF locks 1(2) HOL.refl]) auto
    moreover have "links_apart w'"
      unfolding w' using begin_operation_placed(3) [OF sh] by (intro links_apart_step [OF lks 1(2) _ inside]) auto
    moreover have "placed T (shared w) ns lim (inserted w) th" if "th \<in> set (threads w')" for th
      using that pl begin_operation_placed(1) [OF sh] unfolding w' by (auto dest!: member)
    ultimately show ?thesis using sh unfolding world_ok_def by (auto simp: w')
  next
    case 2
    let ?th = "threads w ! i"
    obtain th' t' new where s: "thread_step T draws cas (shared w) ?th = Some (th', t', new)"
      and w': "w' = w\<lparr>shared := t', threads := (threads w)[i := th'], inserted := inserted w @ new\<rparr>"
      using 2 by (auto simp: move_def)
    have th: "?th \<in> set (threads w)" using 2 by simp
    have "holds ?th \<subseteq> held (shared w)" using locks 2 unfolding locks_agree_def by blast
    from thread_step_ok [OF sh pl [OF th] this s] obtain ns' lim' where
      r: "shared_ok T t' ns' lim' (inserted w @ new)" "evolves T (holds ?th) (shared w) ns t' ns'" "raises (links ?th) (shared w) ns lim t' lim'"
        "placed T t' ns' lim' (inserted w @ new) th'" "held t' = held (shared w) - holds ?th \<union> holds th'"
        "holds th' \<inter> (held (shared w) - holds ?th) = {}" "links th' \<inter> set ns \<subseteq> links ?th"
      unfolding stepped_def by auto
    have "locks_agree w'" unfolding w' by (rule locks_agree_step [OF locks 2(1) HOL.refl r(5,6)])
    moreover have "links_apart w'" unfolding w' by (rule links_apart_step [OF lks 2(1) r(7) inside])
    moreover have "placed T t' ns' lim' (inserted w @ new) (threads w' ! j)" if j: "j < length (threads w)" for j
    proof (cases "j = i")
      case False
      then have "holds (threads w ! j) \<inter> holds ?th = {}" "links (threads w ! j) \<inter> links ?th = {}"
        using locks lks j 2(1) unfolding locks_agree_def links_apart_def by metis+
      from placed_evolves [OF shared_okD(1) [OF sh] shared_okD(1) [OF r(1)] r(2,3) _ this pl] show ?thesis
        using j False by (simp add: w')
    qed (use r(4) j in \<open>simp add: w'\<close>)
    then have "\<forall>th \<in> set (threads w'). placed T t' ns' lim' (inserted w @ new) th" by (auto simp: in_set_conv_nth w')
    ultimately show ?thesis using r(1) unfolding world_ok_def by (auto simp: w')
  qed
qed

lemma runs_ok: "runs T w w' \<Longrightarrow> world_ok T w \<Longrightarrow> world_ok T w'"
  by (induction rule: runs.induct) (auto intro: world_step_ok)

lemma fresh_world_ok:
  assumes "table_ok T t" "payloads_sound t (entries t)"
  shows "world_ok T (fresh_world t n)"
proof -
  have ok: "chain_ok T t (level0 t)" "quiescent t" using assms(1) by (simp_all add: table_ok_level0)
  have "held t = {}" using ok(2) nth_mem by (fastforce simp: quiescent_locks held_def)
  then have "locks_agree (fresh_world t n)" "links_apart (fresh_world t n)"
    by (simp_all add: locks_agree_def links_apart_def fresh_world_def)
  moreover have "exact_hint T t x" if "x \<in> set (level0 t)" for x
    using chain_okD(4) [OF ok(1) that] by (simp add: lnode_ok_def exact_hint_def)
  then have "shared_ok T t (level0 t) (\<lambda>_. kMaxHeight) (entries t)"
    using assms(2) chain_ok_chain [OF ok(1)] unfolding shared_ok_def
    by (auto simp: entries_chain [OF ok(1)] linked_below_def hints_sound_def dest: set_tl_subset)
  ultimately show ?thesis unfolding world_ok_def by (auto simp: fresh_world_def)
qed

text \<open>Between operations the table is lawful in the sense of the sequential theories.\<close>

lemma unheld_table_ok:
  assumes sh: "shared_ok T t ns lim es" and h: "held t = {}"
  shows "table_ok T t"
proof -
  have "chain_ok T t ns" "quiescent t"
    using h shared_okD(6) [OF sh] chain_exact [OF shared_okD(1) [OF sh]] by (auto simp: quiescent_locks held_def in_set_conv_nth)
  then show ?thesis by (auto simp: table_ok_def)
qed

lemma idle_table_ok:
  assumes w: "world_ok T w" and idle: "\<And>th. th \<in> set (threads w) \<Longrightarrow> holds th = {}"
  shows "table_ok T (shared w)"
proof -
  have "held (shared w) = {}" using w idle unfolding world_ok_def locks_agree_def by simp
  then show ?thesis using w unheld_table_ok by (auto simp: world_ok_def)
qed

text \<open>A lookup that loads its payload and its word from a node that is still the right one answers membership.\<close>

lemma lookup_unsplit:
  assumes ok: "chain T t ns" and c: "positioned T t ns key c" and b: "belongs_here T t (get_data t c) key"
  shows "lookup_in T (get_data t c) (order (get_data t c)) key \<longleftrightarrow> (\<exists>x \<in> set (entries t). compare T x key = 0)"
proof -
  note ok' = ok [unfolded chain_def]
  have "entries (settle T t) = entries t" using entries_chain [OF ok'] chain_entries_level0 [OF ok] by simp
  then show ?thesis
    using contains_target_iff [OF ok', of key] descend_locate [OF ok', of key] positioned_locate [OF ok', of key c] c b
    by (simp add: contains_target_lookup_in)
qed

text \<open>Whatever has happened since, a lookup answers for the entries of the payload it has alone.\<close>

lemma lookup_in_payload:
  assumes "sorted_wrt (le T) (node_entries d)"
  shows "lookup_in T d (order d) key \<longleftrightarrow> (\<exists>x \<in> set (node_entries d). compare T x key = 0)"
  using lower_bound_hit [OF assms, of key] sorted_position_lower_bound [OF assms, of key] by (auto simp: lookup_in_def Let_def key_at_entries)

text \<open>Only a thread that wants a lock does not move, so who holds one moves.\<close>

lemma busy_moves:
  assumes w: "world_ok T w" and i: "i < length (threads w)" "\<not> at_rest (threads w ! i)"
    and free: "\<And>key c. threads w ! i = AtNode Inserting key c \<Longrightarrow> \<not> write_lock (lnodes (shared w) ! c)"
  shows "\<exists>w'. move T draws cas i w = Some w'"
proof -
  obtain ns lim where "\<forall>th \<in> set (threads w). placed T (shared w) ns lim (inserted w) th" using w by (auto simp: world_ok_def)
  then have pl: "placed T (shared w) ns lim (inserted w) (threads w ! i)" using i(1) by simp
  show ?thesis
  proof (cases "threads w ! i")
    case (AtNode pu key c)
    then show ?thesis using free pl by (cases pu) (auto simp: move_def acquire_def)
  qed (use i(2) in \<open>simp_all add: move_def at_rest_def Let_def\<close>)
qed

lemma moves_or_waits:
  assumes w: "world_ok T w" and i: "i < length (threads w)" "\<not> at_rest (threads w ! i)"
  shows "(\<exists>w'. move T draws cas i w = Some w') \<or>
    (\<exists>key c j w'. threads w ! i = AtNode Inserting key c \<and> j < length (threads w) \<and> j \<noteq> i \<and> c \<in> holds (threads w ! j) \<and>
      move T draws cas j w = Some w')"
proof (cases "\<exists>key c. threads w ! i = AtNode Inserting key c \<and> write_lock (lnodes (shared w) ! c)")
  case True
  then obtain key c where c: "threads w ! i = AtNode Inserting key c" "write_lock (lnodes (shared w) ! c)" by blast
  obtain ns lim where sh: "shared_ok T (shared w) ns lim (inserted w)" and pl: "placed T (shared w) ns lim (inserted w) (threads w ! i)"
    using w i(1) by (auto simp: world_ok_def)
  have "c \<in> set ns" using pl c(1) by (simp add: hopping_def positioned_def)
  then have "c \<in> held (shared w)" using chainD(4) [OF shared_okD(1) [OF sh]] c(2) by (simp add: held_def locks_def)
  then obtain j where j: "j < length (threads w)" "c \<in> holds (threads w ! j)"
    using w unfolding world_ok_def locks_agree_def by auto
  have "j \<noteq> i" using j(2) c(1) by auto
  moreover have "\<exists>w'. move T draws cas j w = Some w'"
  proof (rule busy_moves [OF w j(1)])
    show "\<not> at_rest (threads w ! j)" using j(2) by (auto simp: at_rest_def split: thread.splits)
  qed (use j(2) in auto)
  ultimately show ?thesis using c(1) j by metis
next
  case False
  then show ?thesis using busy_moves [OF w i] by blast
qed

end

section \<open>Running one thread\<close>

text \<open>The world of a table, threads and what they have inserted; one thread of it moves.\<close>

abbreviation world :: "'e table \<Rightarrow> 'e thread list \<Rightarrow> 'e list \<Rightarrow> 'e world" where
  "world t ths es \<equiv> \<lparr>shared = t, threads = ths, inserted = es\<rparr>"

lemma runs_trans: "runs T w' w'' \<Longrightarrow> runs T w w' \<Longrightarrow> runs T w w''"
  by (induction rule: runs.induct) (auto intro: runs.step)

lemma runs_call: "i < length (threads w) \<Longrightarrow> at_rest (threads w ! i) \<Longrightarrow> runs T w (call i f w)"
  by (intro runs.step [OF runs.start] world_step.call)

lemma runs_move:
  assumes "i < length ths" "thread_step T draws cas t th = Some (th', t', new)"
  shows "runs T (world t (ths[i := th]) es) (world t' (ths[i := th']) (es @ new))"
  using assms by (intro runs.step [OF runs.start] world_step.move [where i = i and draws = draws and cas = cas]) (auto simp: move_def)

text \<open>A step that inserts nothing, and what runs after it.\<close>

lemma runs_quiet:
  assumes "i < length ths" "thread_step T draws cas t th = Some (th', t', [])" "runs T (world t' (ths[i := th']) es) w"
  shows "runs T (world t (ths[i := th]) es) w"
  using runs_trans [OF assms(3) runs_move [OF assms(1,2), of es, simplified]] .

text \<open>A descent with no tower to use, that stays on its node on level 0.\<close>

lemma bare_descent:
  assumes i: "i < length ths" and nx: "next_of t c = Some nx" and pu: "descends pu" "bottom_level pu = 0"
    and stop: "hints t" "search_hint t (order_bytes T key) < first_hint (lnodes t ! nx)"
  shows "(\<And>l. l \<le> lv \<Longrightarrow> 0 < l \<Longrightarrow> tower_at t l c = None) \<Longrightarrow>
    runs T (world t (ths[i := Hop pu key lv c]) es) (world t (ths[i := AtNode pu key c]) es)"
proof (induction lv)
  case 0
  have "tested t pu key 0 c nx False = AtNode pu key c"
    using pu by (cases pu) (simp_all add: tested_def lower_level_def)
  moreover have "first_hint (lnodes t ! nx) \<noteq> search_hint t (order_bytes T key)" "\<not> first_hint (lnodes t ! nx) < search_hint t (order_bytes T key)"
    using stop(2) by auto
  ultimately have "thread_step T draws cas t (Test pu key 0 c nx) = Some (AtNode pu key c, t, [])" for draws cas
    using stop(1) by (simp add: Let_def)
  from runs_quiet [OF i this runs.start]
  have "runs T (world t (ths[i := Test pu key 0 c nx]) es) (world t (ths[i := AtNode pu key c]) es)" .
  moreover have "thread_step T draws cas t (Hop pu key 0 c) = Some (Test pu key 0 c nx, t, [])" for draws cas using nx by simp
  ultimately show ?case using runs_quiet [OF i] by metis
next
  case (Suc lv)
  then have "runs T (world t (ths[i := Hop pu key lv c]) es) (world t (ths[i := AtNode pu key c]) es)" by simp
  moreover have "thread_step T draws cas t (Hop pu key (Suc lv) c) = Some (Hop pu key lv c, t, [])" for draws cas
    using Suc.prems [of "Suc lv"] pu by (simp add: lower_level_def)
  ultimately show ?case using runs_quiet [OF i] by metis
qed

text \<open>An insert that splits its node, from the lock to the publication; no tower is drawn.\<close>

definition after_split :: "'e traits \<Rightarrow> 'e table \<Rightarrow> nat \<Rightarrow> nat \<Rightarrow> 'e \<Rightarrow> 'e table" where
  "after_split T t c p key =
     (let d = payloads t ! p; m = merge T d (order d) (order_count (order d)) key (order_bytes T key);
          t = upd_node t c (\<lambda>x. x\<lparr>write_lock := True\<rparr>);
          t = publish_hint T t c (hd m)
      in split_payloads T (\<lambda>_. 1) t c (next_link d) m)"

lemma split_run:
  assumes i: "i < length ths" and c: "\<not> write_lock (lnodes t ! c)" "c < length (lnodes t)" "data (lnodes t ! c) = Some p"
    and n: "next_link (payloads t ! p) = Some n" "n \<noteq> c" "data (lnodes t ! n) = Some q" and above: "compare T (key_at (payloads t ! q) (order (payloads t ! q)) 0) key > 0"
    and full: "\<not> order_count (order (payloads t ! p)) < kNodeCapacity"
    and h: "unat (height (lnodes (after_split T t c p key) ! length (lnodes t))) = 1"
  shows "runs T (world t (ths[i := AtNode Inserting key c]) es) (world (after_split T t c p key) (ths[i := Inserted c]) (es @ [key]))"
proof -
  let ?t1 = "upd_node t c (\<lambda>x. x\<lparr>write_lock := True\<rparr>)" and ?d = "payloads t ! p"
  let ?m = "merge T ?d (order ?d) (order_count (order ?d)) key (order_bytes T key)"
  let ?t2 = "publish_hint T ?t1 c (hd ?m)"
  have d: "data (lnodes ?t1 ! c) = Some p" "data (lnodes ?t1 ! n) = Some q" "payloads ?t1 = payloads t" "get_data ?t1 c = ?d"
    using c n by (simp_all add: heap_simps get_data_def)
  have p2: "payloads ?t2 = payloads t" "length (lnodes ?t2) = length (lnodes t)" by (simp_all add: heap_simps)
  let ?step = "thread_step T (\<lambda>_. 1) (\<lambda>_ _. True)"
  have "?step ?t2 (Publishing key c p ?m) = Some (Inserted c, after_split T t c p key, [key])"
    using h by (simp add: after_split_def Let_def p2 link_from_def)
  note 7 = runs_move [OF i this]
  have "?step ?t1 (Splitting key c p ?m) = Some (Publishing key c p ?m, ?t2, [])" by simp
  note 6 = runs_quiet [OF i this 7]
  have "?step ?t1 (Writing key c) = Some (Splitting key c p ?m, ?t1, [])" using d full by (simp add: Let_def)
  note 5 = runs_quiet [OF i this 6]
  have "?step ?t1 (Recheck key c n q) = Some (Writing key c, ?t1, [])" using d above by (simp add: Let_def)
  note 4 = runs_quiet [OF i this 5]
  have "?step ?t1 (Behind key c n) = Some (Recheck key c n q, ?t1, [])" using d by simp
  note 3 = runs_quiet [OF i this 4]
  have "?step ?t1 (Holding key c) = Some (Behind key c n, ?t1, [])" using d n by simp
  note 2 = runs_quiet [OF i this 3]
  have "?step t (AtNode Inserting key c) = Some (Holding key c, ?t1, [])" using c by (simp add: acquire_def)
  from runs_quiet [OF i this 2] show ?thesis .
qed

section \<open>A full node\<close>

definition full_keys :: "string_view list" where
  "full_keys = map (\<lambda>i. sample_key [i]) [1, 2, 3, 4, 5, 6, 7, 8, 9, 10, 11, 12, 13, 14, 15]"

definition full_table :: "string_view table" where
  "full_table = two_nodes sample_traits full_keys [sample_key [20], sample_key [21]]"

lemma full_table_ok:
  shows "chain_ok sample_traits full_table [0, 1]" "quiescent full_table" "entries full_table = full_keys @ [sample_key [20], sample_key [21]]"
    "entries_of full_table 0 = full_keys" "entries_of full_table 1 = [sample_key [20], sample_key [21]]"
    "next_of full_table 0 = Some 1" "lv < kMaxHeight \<Longrightarrow> tower_at full_table lv 0 = None" "head_node full_table = 0" "payloads_sound full_table (entries full_table)"
proof -
  let ?b = "[sample_key [20], sample_key [21]]"
  have sorted: "sorted_wrt (le sample_traits) (full_keys @ ?b)"
    by (simp add: full_keys_def sample_traits_def sample_key_def compare_keys_order)
  have len: "1 < length full_keys" "length full_keys \<le> kNodeCapacity" "1 < length ?b" "length ?b \<le> kNodeCapacity"
    by (simp_all add: full_keys_def node_consts)
  have short: "bytewise_traits.short_keys sample_traits (full_keys @ ?b)"
    unfolding bytewise_traits.short_keys_def [OF sample_traits_lawful(1)] by (simp add: full_keys_def sample_key_def sample_traits_def)
  note two = bytewise_traits.two_nodes_chain [OF sample_traits_lawful(1) sorted len short, folded full_table_def]
  show "chain_ok sample_traits full_table [0, 1]" "quiescent full_table" by (rule two)+
  show e: "entries full_table = full_keys @ ?b" using two(2) entries_chain [OF two(1)] by simp
  show "entries_of full_table 0 = full_keys" "entries_of full_table 1 = ?b" "next_of full_table 0 = Some 1"
    "head_node full_table = 0" "lv < kMaxHeight \<Longrightarrow> tower_at full_table lv 0 = None"
    using fill_entries [OF len(2)] fill_entries [OF len(4)]
    by (simp_all add: full_table_def two_nodes_def get_data_def next_of_def tower_at_def new_list_node_def)
  show "payloads_sound full_table (entries full_table)"
    using fill_entries [OF len(2)] fill_entries [OF len(4)] fill_ok [OF len(2)] fill_ok [OF len(4)]
    unfolding e by (auto simp: payloads_sound_def full_table_def two_nodes_def)
qed


text \<open>The table after another thread has inserted \<open>new_key\<close> and split the node.\<close>

definition new_key :: string_view where
  "new_key = sample_key [4, 1]"

definition split_table :: "string_view table" where
  "split_table = after_split sample_traits full_table 0 0 new_key"

definition low_half :: "string_view list" where
  "low_half = [sample_key [1], sample_key [2], sample_key [3], sample_key [4], new_key, sample_key [5], sample_key [6], sample_key [7]]"

definition high_half :: "string_view list" where
  "high_half = map (\<lambda>i. sample_key [i]) [8, 9, 10, 11, 12, 13, 14, 15]"

lemma full_table_reads:
  "lnodes full_table ! 0 = new_list_node\<lparr>height := of_nat kMaxHeight, data := Some 0, first_hint := descent_hint (order_bytes sample_traits (hd full_keys))\<rparr>"
  "lnodes full_table ! 1 = new_list_node\<lparr>data := Some 1, first_hint := descent_hint (order_bytes sample_traits (sample_key [20]))\<rparr>"
  "length (lnodes full_table) = 2" "hints full_table"
  "payloads full_table = [fill sample_traits (fresh_payload sample_traits) full_keys (Some 1),
     fill sample_traits (fresh_payload sample_traits) [sample_key [20], sample_key [21]] None]"
  by (simp_all add: full_table_def two_nodes_def sample_traits_def)

lemma split_table_reads:
  shows "get_data split_table 0 = fill sample_traits (fresh_payload sample_traits) low_half (Some 2)"
    "get_data split_table 2 = fill sample_traits (fresh_payload sample_traits) high_half (Some 1)"
    "data (lnodes split_table ! 0) = Some 3" "data (lnodes split_table ! 2) = Some 2" "unat (height (lnodes split_table ! 2)) = 1"
proof -
  let ?T = sample_traits and ?d = "payloads full_table ! 0"
  let ?m = "merge ?T ?d (order ?d) (order_count (order ?d)) new_key (order_bytes ?T new_key)"
  have e: "node_entries ?d = full_keys" "next_link ?d = Some 1"
    by (simp_all add: full_table_reads fill_entries full_keys_def node_consts)
  have "sorted_wrt (le ?T) full_keys"
    by (simp add: full_keys_def sample_traits_def sample_key_def compare_keys_order)
  then have "?m = ins_at (lower_bound_of (\<lambda>x. compare ?T x new_key < 0) full_keys) new_key full_keys"
    using ordered_traits.merge_entries [OF sample_traits_lawful(2), of ?d] by (simp add: e)
  moreover have "lower_bound_of (\<lambda>x. compare ?T x new_key < 0) full_keys = 4"
    by (simp add: full_keys_def new_key_def sample_traits_def sample_key_def compare_keys_order lower_bound_of_def)
  ultimately have m: "?m = low_half @ high_half" by (simp add: ins_at_def full_keys_def low_half_def high_half_def)
  let ?t1 = "publish_hint ?T (upd_node full_table 0 (\<lambda>x. x\<lparr>write_lock := True\<rparr>)) 0 (hd ?m)"
  have t: "split_table = split_payloads ?T (\<lambda>_. 1) ?t1 0 (Some 1) (low_half @ high_half)"
    by (simp add: split_table_def after_split_def Let_def e m)
  have len: "length (low_half @ high_half) = Suc kNodeCapacity" "take kMid (low_half @ high_half) = low_half" "drop kMid (low_half @ high_half) = high_half"
    by (simp_all add: low_half_def high_half_def kMid_def node_consts)
  have one: "0 < length (lnodes ?t1)" "length (lnodes ?t1) = 2" "payloads ?t1 = payloads full_table" by (simp_all add: heap_simps full_table_reads)
  note r = split_payloads_reads [OF one(1) len(1), where T = ?T and draws = "\<lambda>_. 1" and nxt = "Some 1", folded t, unfolded len one]
  have two: "length (payloads full_table) = 2" by (simp add: full_table_reads)
  show "data (lnodes split_table ! 0) = Some 3" "data (lnodes split_table ! 2) = Some 2" using r(4,5) two by simp_all
  then show "get_data split_table 0 = fill ?T (fresh_payload ?T) low_half (Some 2)" "get_data split_table 2 = fill ?T (fresh_payload ?T) high_half (Some 1)"
    using r(1) two by (simp_all add: get_data_def nth_append)
  have "random_height (\<lambda>_. 1) = 1" by (simp add: random_height_def random_height_from.simps random_height_bits_def)
  then show "unat (height (lnodes split_table ! 2)) = 1" using r(5) random_height_byte [of "\<lambda>_. 1"] by simp
qed

lemma halves_sorted: "sorted_wrt (le sample_traits) low_half" "sorted_wrt (le sample_traits) high_half"
  "length low_half = 8" "length high_half = 8"
  by (simp_all add: low_half_def high_half_def new_key_def sample_traits_def sample_key_def compare_keys_order)

text \<open>A reader's descent for a key of the upper half, and then the split.\<close>

lemma split_under_reader:
  assumes pu: "descends pu" "bottom_level pu = 0"
    and op: "begin_operation (fresh_world full_table 2) f = begin_descent pu (sample_key [14]) full_table"
  shows "runs sample_traits (call 0 f (fresh_world full_table 2))
    (world split_table [AtNode pu (sample_key [14]) 0, Inserted 0] (entries full_table @ [new_key]))"
proof -
  let ?T = sample_traits and ?k = "sample_key [14]" and ?es = "entries full_table"
  have "descent_hint [14] < descent_hint [20]" "descent_hint [4, 1] < descent_hint [20]" by code_simp+
  then have hint: "search_hint full_table (order_bytes ?T key) < first_hint (lnodes full_table ! 1)" if "key = ?k \<or> key = new_key" for key
    using that unfolding full_table_reads search_hint_def by (auto simp: full_table_reads(4) sample_traits_def sample_key_def new_key_def)
  have descent: "runs ?T (world full_table (ths[i := begin_descent pu key full_table]) es) (world full_table (ths[i := AtNode pu key 0]) es)"
    if "i < length ths" "key = ?k \<or> key = new_key" "descends pu" "bottom_level pu = 0" for ths i pu key es
    unfolding begin_descent_def full_table_ok(8)
    by (rule bare_descent [OF that(1) full_table_ok(6) that(3,4) full_table_reads(4) hint [OF that(2)]])
      (auto intro: full_table_ok(7) simp: kMaxHeight_def)
  have w0: "call 0 f (fresh_world full_table 2) = world full_table [begin_descent pu ?k full_table, Idle] ?es"
    unfolding call_def op by (simp add: fresh_world_def numeral_2_eq_2)
  have 1: "runs ?T (world full_table [begin_descent pu ?k full_table, Idle] ?es) (world full_table [AtNode pu ?k 0, Idle] ?es)"
    using descent [of 0 "[Idle, Idle]" ?k pu] pu by simp
  have 2: "runs ?T (world full_table [AtNode pu ?k 0, Idle] ?es) (world full_table [AtNode pu ?k 0, begin_descent Inserting new_key full_table] ?es)"
    using runs_call [of 1 "world full_table [AtNode pu ?k 0, Idle] ?es" ?T "Insert new_key"] by (simp add: call_def at_rest_def)
  have 3: "runs ?T (world full_table [AtNode pu ?k 0, begin_descent Inserting new_key full_table] ?es) (world full_table [AtNode pu ?k 0, AtNode Inserting new_key 0] ?es)"
    using descent [of 1 "[AtNode pu ?k 0, Idle]" new_key Inserting] by simp
  have above: "compare ?T (key_at (payloads full_table ! 1) (order (payloads full_table ! 1)) 0) new_key > 0"
  proof -
    have "node_entries (payloads full_table ! 1) = [sample_key [20], sample_key [21]]" by (simp add: full_table_reads fill_entries node_consts)
    moreover from this have "order_count (order (payloads full_table ! 1)) = 2" using length_node_entries [of "payloads full_table ! 1"] by simp
    ultimately show ?thesis by (simp add: key_at_entries new_key_def sample_traits_def sample_key_def compare_keys_order)
  qed
  have full: "\<not> order_count (order (payloads full_table ! 0)) < kNodeCapacity"
    using length_node_entries [of "payloads full_table ! 0"] by (simp add: full_table_reads fill_entries full_keys_def node_consts)
  have reads: "\<not> write_lock (lnodes full_table ! 0)" "0 < length (lnodes full_table)" "data (lnodes full_table ! 0) = Some 0"
    "next_link (payloads full_table ! 0) = Some 1" "(1::nat) \<noteq> 0" "data (lnodes full_table ! 1) = Some 1"
    unfolding full_table_reads by (simp_all add: new_list_node_def)
  have tall: "unat (height (lnodes (after_split ?T full_table 0 0 new_key) ! length (lnodes full_table))) = 1"
    using split_table_reads(5) by (simp add: full_table_reads(3) split_table_def)
  have 4: "runs ?T (world full_table ([AtNode pu ?k 0, Idle][1 := AtNode Inserting new_key 0]) ?es)
      (world split_table ([AtNode pu ?k 0, Idle][1 := Inserted 0]) (?es @ [new_key]))"
    unfolding split_table_def by (rule split_run [OF _ reads above full tall]) simp
  show ?thesis unfolding w0 using 1 2 3 4 by (auto intro: runs_trans)
qed

lemma reachable_ok:
  assumes "ordered_traits T" "runs T (fresh_world (new_table T) n) w"
  shows "world_ok T w"
proof -
  have "payloads_sound (new_table T) (entries (new_table T))" by (simp add: payloads_sound_def new_table_eq)
  then show ?thesis
    using ordered_traits.runs_ok [OF assms] ordered_traits.fresh_world_ok [OF assms(1) new_table_ok(1)] by blast
qed

section \<open>Properties\<close>

text \<open>C6: whatever threads insert, look up and scan from the empty table on, and however their single loads and stores
  interleave, the chain always holds exactly the entries committed so far, in comparator order; no two threads are inside
  the same node's lock; when no operation is under way the table is lawful; a lookup that answers yes answers rightly; and
  a lookup whose node has not been split below its key since it arrived there is exact.\<close>

theorem interleavings_safe:
  assumes "ordered_traits T" "runs T (fresh_world (new_table T) n) w"
  shows "mset (entries (shared w)) = mset (inserted w) \<and> sorted_wrt (le T) (entries (shared w)) \<and>
    (\<forall>i < length (threads w). \<forall>j < length (threads w). i \<noteq> j \<longrightarrow> holds (threads w ! i) \<inter> holds (threads w ! j) = {}) \<and>
    ((\<forall>th \<in> set (threads w). at_rest th) \<longrightarrow> table_ok T (shared w)) \<and>
    (\<forall>key. Answered key True \<in> set (threads w) \<longrightarrow> (\<exists>x \<in> set (inserted w). compare T x key = 0)) \<and>
    (\<forall>key c. AtNode Looking key c \<in> set (threads w) \<longrightarrow> belongs_here T (shared w) (get_data (shared w) c) key \<longrightarrow>
      lookup_in T (get_data (shared w) c) (order (get_data (shared w) c)) key = (\<exists>x \<in> set (inserted w). compare T x key = 0))"
proof -
  have w: "world_ok T w" by (rule reachable_ok [OF assms])
  then obtain ns lim where sh: "shared_ok T (shared w) ns lim (inserted w)"
    and pl: "\<forall>th \<in> set (threads w). placed T (shared w) ns lim (inserted w) th" and locks: "locks_agree w"
    by (auto simp: world_ok_def)
  note s = shared_okD(1,2) [OF sh]
  have e: "mset (entries (shared w)) = mset (inserted w)" using s(2) by (simp add: chain_entries_level0 [OF s(1)])
  moreover have "sorted_wrt (le T) (entries (shared w))" using chainD(9) [OF s(1)] by (simp add: chain_entries_level0 [OF s(1)])
  moreover have "table_ok T (shared w)" if "\<forall>th \<in> set (threads w). at_rest th"
    using that by (intro ordered_traits.idle_table_ok [OF assms(1) w]) (simp add: at_rest_free)
  moreover have "lookup_in T (get_data (shared w) c) (order (get_data (shared w) c)) key = (\<exists>x \<in> set (inserted w). compare T x key = 0)"
    if "AtNode Looking key c \<in> set (threads w)" "belongs_here T (shared w) (get_data (shared w) c) key" for key c
  proof -
    have "positioned T (shared w) ns key c" using pl that(1) by (auto simp: hopping_def)
    from ordered_traits.lookup_unsplit [OF assms(1) s(1) this that(2)] show ?thesis by (simp add: mset_eq_setD [OF e])
  qed
  moreover have "\<exists>x \<in> set (inserted w). compare T x key = 0" if "Answered key True \<in> set (threads w)" for key
    using pl that by auto
  ultimately show ?thesis using locks unfolding locks_agree_def by blast
qed

theorem interleavings_safe_witness:
  "mset (entries (shared (call 0 (Insert (sample_key [7])) (fresh_world (new_table sample_traits) 2)))) =
    mset (inserted (call 0 (Insert (sample_key [7])) (fresh_world (new_table sample_traits) 2)))"
proof -
  have "runs sample_traits (fresh_world (new_table sample_traits) 2) (call 0 (Insert (sample_key [7])) (fresh_world (new_table sample_traits) 2))"
    by (rule runs_call) (simp_all add: fresh_world_def at_rest_def)
  from interleavings_safe [OF sample_traits_lawful(2) this] show ?thesis by blast
qed

text \<open>The locks never deadlock: in every reachable state a thread in the middle of an operation can move, or waits
  for a lock whose holder can, whatever heights are drawn and whichever exchanges fail.\<close>

theorem no_deadlock:
  assumes "ordered_traits T" "runs T (fresh_world (new_table T) n) w" "i < length (threads w)" "\<not> at_rest (threads w ! i)"
  shows "(\<exists>w'. move T draws cas i w = Some w') \<or>
    (\<exists>key c j w'. threads w ! i = AtNode Inserting key c \<and> j < length (threads w) \<and> j \<noteq> i \<and> c \<in> holds (threads w ! j) \<and>
      move T draws cas j w = Some w')"
proof -
  have "world_ok T w" by (rule reachable_ok [OF assms(1,2)])
  from ordered_traits.moves_or_waits [OF assms(1) this assms(3,4)] show ?thesis .
qed

theorem no_deadlock_witness:
  "\<exists>w'. move sample_traits (\<lambda>_. 1) (\<lambda>_ _. True) 0 (call 0 (Insert (sample_key [7])) (fresh_world (new_table sample_traits) 1)) = Some w'"
proof -
  let ?w = "call 0 (Insert (sample_key [7])) (fresh_world (new_table sample_traits) 1)"
  have r: "runs sample_traits (fresh_world (new_table sample_traits) 1) ?w"
    by (rule runs_call) (simp_all add: fresh_world_def at_rest_def)
  have i: "0 < length (threads ?w)" "\<not> at_rest (threads ?w ! 0)"
    by (simp_all add: call_def fresh_world_def at_rest_def begin_descent_def)
  have "threads ?w ! 0 \<noteq> AtNode Inserting key c" for key c by (simp add: call_def fresh_world_def begin_descent_def)
  then show ?thesis using no_deadlock [OF sample_traits_lawful(2) r i, of "\<lambda>_. 1" "\<lambda>_ _. True"] by blast
qed

text \<open>C10: a lookup is not exact under a concurrent split. Over a lawful table that holds the key when the lookup is
  called, another thread's insert can split the node between the lookup's descent and its load of the payload; the
  key has moved to the new sibling, the lookup searches only the lower half, and answers no.\<close>

theorem lookup_misses_split:
  "table_ok sample_traits full_table \<and> sample_key [14] \<in> set (entries full_table) \<and>
   (\<exists>w. runs sample_traits (call 0 (Contains (sample_key [14])) (fresh_world full_table 2)) w \<and>
     threads w ! 0 = Answered (sample_key [14]) False \<and> sample_key [14] \<in> set (inserted w))"
proof (intro conjI)
  show "table_ok sample_traits full_table" using full_table_ok(1,2) by (auto simp: table_ok_def)
  show key: "sample_key [14] \<in> set (entries full_table)" by (simp add: full_table_ok(3) full_keys_def)
  let ?T = sample_traits and ?k = "sample_key [14]" and ?es = "entries full_table @ [new_key]"
  let ?w = "\<lambda>th. world split_table ([th, Inserted 0][0 := th]) ?es" and ?d = "get_data split_table 0"
  have d: "payloads split_table ! 3 = ?d" by (simp add: get_data_def split_table_reads(3))
  have "sorted_wrt (le ?T) (node_entries ?d)" "node_entries ?d = low_half"
    using halves_sorted by (simp_all add: split_table_reads(1) fill_entries node_consts)
  from ordered_traits.lookup_in_payload [OF sample_traits_lawful(2) this(1), of ?k] this(2)
  have no: "\<not> lookup_in ?T ?d (order ?d) ?k"
    by (simp add: low_half_def new_key_def sample_traits_def sample_key_def compare_keys_order)
  have 1: "runs ?T (call 0 (Contains ?k) (fresh_world full_table 2)) (?w (AtNode Looking ?k 0))"
    using split_under_reader [of Looking "Contains ?k"] by (simp add: fresh_world_def)
  have m: "runs ?T (?w th) (?w th')" if "thread_step ?T (\<lambda>_. 1) (\<lambda>_ _. True) split_table th = Some (th', split_table, [])" for th th'
    using runs_move [of 0 "[th, Inserted 0]" ?T _ _ split_table th th' split_table "[]" ?es, OF _ that] by simp
  have 2: "runs ?T (?w (AtNode Looking ?k 0)) (?w (Loaded ?k 3))" by (rule m) (simp add: split_table_reads(3))
  have 3: "runs ?T (?w (Loaded ?k 3)) (?w (Snapped ?k 3 (order ?d)))" by (rule m) (simp add: d)
  have 4: "runs ?T (?w (Snapped ?k 3 (order ?d))) (?w (Answered ?k False))" by (rule m) (simp add: d no)
  have "runs ?T (call 0 (Contains ?k) (fresh_world full_table 2)) (?w (Answered ?k False))"
    using 1 2 3 4 by (blast intro: runs_trans)
  then show "\<exists>w. runs ?T (call 0 (Contains ?k) (fresh_world full_table 2)) w \<and> threads w ! 0 = Answered ?k False \<and> ?k \<in> set (inserted w)"
    using key by (intro exI [of _ "?w (Answered ?k False)"]) simp
qed

text \<open>C12: a seek under the same split stops below its target: the iterator adopts the lower half, finds no entry at or
  above the target there, and goes on to the first entry of the new sibling without comparing it.\<close>

theorem seek_lands_below:
  "table_ok sample_traits full_table \<and> sample_key [14] \<in> set (entries full_table) \<and>
   (\<exists>w q ow. runs sample_traits (call 0 (SeekTo (sample_key [14])) (fresh_world full_table 2)) w \<and>
     threads w ! 0 = On [] [sample_key [8]] q ow 1 \<and> compare sample_traits (sample_key [8]) (sample_key [14]) < 0)"
proof (intro conjI)
  show "table_ok sample_traits full_table" using full_table_ok(1,2) by (auto simp: table_ok_def)
  show "sample_key [14] \<in> set (entries full_table)" by (simp add: full_table_ok(3) full_keys_def)
  let ?T = sample_traits and ?k = "sample_key [14]" and ?es = "entries full_table @ [new_key]"
  let ?w = "\<lambda>th. world split_table ([th, Inserted 0][0 := th]) ?es" and ?d = "get_data split_table 0" and ?r = "get_data split_table 2"
  have d: "payloads split_table ! 3 = ?d" "payloads split_table ! 2 = ?r" by (simp_all add: get_data_def split_table_reads(3,4))
  have e: "node_entries ?d = low_half" "node_entries ?r = high_half" "next_link ?d = Some 2"
    using halves_sorted by (simp_all add: split_table_reads(1,2) fill_entries node_consts)
  have n: "order_count (order ?d) = 8" "order_count (order ?r) = 8"
    using length_node_entries [of ?d] length_node_entries [of ?r] halves_sorted by (simp_all add: e)
  have "lower_bound_of (\<lambda>x. compare ?T x ?k < 0) low_half = 8"
    by (simp add: lower_bound_of_def low_half_def new_key_def sample_traits_def sample_key_def compare_keys_order)
  then have pos: "sorted_position ?T ?d (order ?d) 8 ?k (order_bytes ?T ?k) = 8"
    using ordered_traits.sorted_position_lower_bound [OF sample_traits_lawful(2), of ?d ?k] halves_sorted(1) by (simp add: e n)
  have k: "key_at ?r (order ?r) 0 = sample_key [8]" by (simp add: key_at_entries n e high_half_def)
  have 1: "runs ?T (call 0 (SeekTo ?k) (fresh_world full_table 2)) (?w (AtNode Seeking ?k 0))"
    using split_under_reader [of Seeking "SeekTo ?k"] by (simp add: fresh_world_def)
  have m: "runs ?T (?w th) (?w th')" if "thread_step ?T (\<lambda>_. 1) (\<lambda>_ _. True) split_table th = Some (th', split_table, [])" for th th'
    using runs_move [of 0 "[th, Inserted 0]" ?T _ _ split_table th th' split_table "[]" ?es, OF _ that] by simp
  have 2: "runs ?T (?w (AtNode Seeking ?k 0)) (?w (Snap (Some ?k) [] [] 3))" by (rule m) (simp add: split_table_reads(3))
  have 3: "runs ?T (?w (Snap (Some ?k) [] [] 3)) (?w (Aim ?k 3 (order ?d)))" by (rule m) (simp add: d)
  have 4: "runs ?T (?w (Aim ?k 3 (order ?d))) (?w (On [] [] 3 (order ?d) 8))" by (rule m) (simp add: d n pos)
  have 5: "runs ?T (?w (On [] [] 3 (order ?d) 8)) (?w (Adopt [] [] 2))" by (rule m) (simp add: d n e)
  have 6: "runs ?T (?w (Adopt [] [] 2)) (?w (Snap None [] [] 2))" by (rule m) (simp add: split_table_reads(4))
  have 7: "runs ?T (?w (Snap None [] [] 2)) (?w (On [] [] 2 (order ?r) 0))" by (rule m) (simp add: d)
  have 8: "runs ?T (?w (On [] [] 2 (order ?r) 0)) (?w (On [] [sample_key [8]] 2 (order ?r) 1))" by (rule m) (simp add: d n k)
  have "runs ?T (call 0 (SeekTo ?k) (fresh_world full_table 2)) (?w (On [] [sample_key [8]] 2 (order ?r) 1))"
    using 1 2 3 4 5 6 7 8 by (blast intro: runs_trans)
  moreover have "compare ?T (sample_key [8]) ?k < 0" by (simp add: sample_traits_def sample_key_def compare_keys_order)
  ultimately show "\<exists>w q ow. runs ?T (call 0 (SeekTo ?k) (fresh_world full_table 2)) w \<and>
      threads w ! 0 = On [] [sample_key [8]] q ow 1 \<and> compare ?T (sample_key [8]) ?k < 0"
    by (intro exI [of _ "?w (On [] [sample_key [8]] 2 (order ?r) 1)"] exI [of _ 2] exI [of _ "order ?r"]) simp
qed

end
