(* ===== verification/Thread_Progress.thy ===== *)
theory Thread_Progress
  imports Thread_Alone Interleaving
begin

text \<open>
  Every operation can be brought to its end. A thread that runs alone from any place it can be at gets
  through its descent, its linking (a level allows eight attempts) or its scan (the chain is finite),
  and stops only at rest or at a lock that another thread holds. Letting the lock holders run first
  therefore ends all operations of a world.
\<close>

section \<open>A thread alone keeps the invariant\<close>

definition sound :: "'e traits \<Rightarrow> 'e thread \<times> 'e table \<times> 'e list \<Rightarrow> bool" where
  "sound T s \<longleftrightarrow>
     (case s of (th, t, es) \<Rightarrow> \<exists>ns lim. shared_ok T t ns lim es \<and> placed T t ns lim es th \<and> holds th \<subseteq> held t)"

text \<open>The locks of the other threads.\<close>

definition others :: "'e thread \<times> 'e table \<times> 'e list \<Rightarrow> nat set" where
  "others s = (case s of (th, t, es) \<Rightarrow> held t - holds th)"

text \<open>The places on the way of a descent.\<close>

fun descending :: "purpose \<Rightarrow> 'e \<Rightarrow> 'e thread \<Rightarrow> bool" where
  "descending pu key (Hop pu' key' lv c) \<longleftrightarrow> pu' = pu \<and> key' = key"
| "descending pu key (Test pu' key' lv c nx) \<longleftrightarrow> pu' = pu \<and> key' = key"
| "descending pu key (Tied pu' key' lv c nx) \<longleftrightarrow> pu' = pu \<and> key' = key"
| "descending pu key (Peek pu' key' lv c nx q) \<longleftrightarrow> pu' = pu \<and> key' = key"
| "descending pu key (AtNode pu' key' c) \<longleftrightarrow> pu' = pu \<and> key' = key"
| "descending pu key th \<longleftrightarrow> False"

text \<open>What is left of the two loops of \<^verbatim>\<open>link_tower\<close>, from attempt \<open>a\<close> on level \<open>lv\<close>.\<close>

definition left :: "nat \<Rightarrow> nat \<Rightarrow> nat" where
  "left lv a = (kMaxHeight - lv) * 9 + (8 - a)"

text \<open>The thread gets to the end of its linking, in node \<open>c\<close>.\<close>

definition ends :: "'e traits \<Rightarrow> nat \<Rightarrow> 'e thread \<Rightarrow> 'e table \<Rightarrow> 'e list \<Rightarrow> (nat \<Rightarrow> u32) \<Rightarrow> (nat \<Rightarrow> nat \<Rightarrow> bool) \<Rightarrow> bool" where
  "ends T c th t es draws cas \<longleftrightarrow> (\<exists>t'. gets_to T draws cas (th, t, es) (Inserted c, t', es))"

text \<open>The thread drops its lock: its insert is done, or starts again from the top.\<close>

definition frees :: "'e traits \<Rightarrow> (nat \<Rightarrow> u32) \<Rightarrow> (nat \<Rightarrow> nat \<Rightarrow> bool) \<Rightarrow> 'e thread \<times> 'e table \<times> 'e list \<Rightarrow> bool" where
  "frees T draws cas s \<longleftrightarrow> (\<exists>th t es. gets_to T draws cas s (th, t, es) \<and> (th = Idle \<or> (\<exists>key. th = begin_descent Inserting key t)))"

context ordered_traits
begin

lemma sound_step:
  assumes "sound T (th, t, es)" "thread_step T draws cas t th = Some (th', t', new)"
  shows "sound T (th', t', es @ new)" "others (th', t', es @ new) = others (th, t, es)"
proof -
  obtain ns lim where sh: "shared_ok T t ns lim es" and pl: "placed T t ns lim es th" and h: "holds th \<subseteq> held t"
    using assms(1) by (auto simp: sound_def)
  from thread_step_ok [OF sh pl h assms(2)] show "sound T (th', t', es @ new)" "others (th', t', es @ new) = others (th, t, es)"
    unfolding stepped_def sound_def others_def by auto
qed

lemma sound_alone:
  "sound T s \<Longrightarrow> sound T (alone T draws cas k s) \<and> others (alone T draws cas k s) = others s"
proof (induction T\<equiv>T draws cas k s rule: alone.induct)
  case (2 draws cas k th t es)
  show ?case
  proof (cases "thread_step T draws cas t th")
    case (Some r)
    obtain th' t' new where r: "r = (th', t', new)" by (cases r)
    note st = sound_step [OF "2.prems" Some [unfolded r]]
    from "2.hyps" [OF Some r [symmetric] HOL.refl st(1)] show ?thesis using Some st(2) by (simp add: r)
  qed (use "2.prems" in simp)
qed simp

lemma sound_gets_to: "gets_to T draws cas s s' \<Longrightarrow> sound T s \<Longrightarrow> sound T s' \<and> others s' = others s"
  unfolding gets_to_def using sound_alone by metis

section \<open>Descents and tests\<close>

lemma hop_ends:
  assumes "sound T (Hop pu key lv c, t, es)"
  shows "\<exists>c'. gets_to T draws cas (Hop pu key lv c, t, es) (AtNode pu key c', t, es)"
proof -
  obtain ns lim where sh: "shared_ok T t ns lim es" and pu: "descends pu" and h: "hopping T t ns lim pu key lv c"
    using assms by (auto simp: sound_def)
  note ok = shared_okD(1) [OF sh] and lv = h [unfolded hopping_def]
  let ?b = "bottom_level pu"
  have "set (rev [Suc ?b..<Suc lv]) \<subseteq> {..<kMaxHeight}" "c \<in> set ns" using lv by (auto simp: positioned_def)
  from tower_walk_ends [OF chainD(10) [OF ok] this, of "enters T t key"]
  obtain d where d: "tower_walk t (enters T t key) (rev [Suc ?b..<Suc lv]) c = Some d" "d \<in> set ns" by blast
  have "\<exists>c'. advance (successor t ?b) (enters T t key) d = Some c'"
  proof (cases "?b = 0")
    case True
    obtain us vs where ns: "ns = us @ d # vs" using d(2) by (metis split_list)
    have "path t (next_of t d) vs" using chainD(1) [OF ok] unfolding ns by (rule path_append_Cons)
    from advance_path [OF this, of "enters T t key"] show ?thesis using True by (simp add: successor_def [abs_def])
  next
    case False
    have "set [?b] \<subseteq> {..<kMaxHeight}" using lv by simp
    from tower_walk_ends [OF chainD(10) [OF ok] this d(2), of "enters T t key"]
    have "\<exists>c'. advance (tower_at t ?b) (enters T t key) d = Some c'" by (auto simp: bind_eq_Some_conv)
    then show ?thesis using False by (auto simp: successor_def [abs_def])
  qed
  then obtain c' where c': "advance (successor t ?b) (enters T t key) d = Some c'" by blast
  have "gets_to T draws cas (Hop pu key lv c, t, es) (Hop pu key ?b d, t, es)"
    using walk_run [OF pu d(1)] lv by simp
  moreover have "gets_to T draws cas (Hop pu key ?b d, t, es) (AtNode pu key c', t, es)"
    using advance_run [OF pu c', of draws cas es] by (simp add: lower_level_def)
  ultimately show ?thesis using gets_to_trans by metis
qed

lemma answer_run:
  assumes "th = Test pu key lv c nx \<or> th = Tied pu key lv c nx \<or> th = Peek pu key lv c nx q"
  shows "\<exists>b. gets_to T draws cas (th, t, es) (tested t pu key lv c nx b, t, es)"
proof -
  consider "th = Test pu key lv c nx" | (tied) "th = Tied pu key lv c nx" | "th = Peek pu key lv c nx q" using assms by blast
  then show ?thesis
  proof cases
    case tied
    have "gets_to T draws cas (th, t, es) (Peek pu key lv c nx (the (data (lnodes t ! nx))), t, es)"
      unfolding tied by (rule gets_to_one) simp
    from gets_to_trans [OF this tied_run] show ?thesis by blast
  qed (blast intro: test_run tied_run)+
qed

lemma tested_ends:
  assumes pu: "descends pu" and s: "sound T (th, t, es)" and b: "gets_to T draws cas (th, t, es) (tested t pu key lv c nx b, t, es)"
  shows "\<exists>c'. gets_to T draws cas (th, t, es) (AtNode pu key c', t, es)"
proof (cases "b \<or> bottom_level pu < lv")
  case True
  then obtain lv' c' where eq: "tested t pu key lv c nx b = Hop pu key lv' c'"
    using pu by (cases b) (auto simp: tested_descends lower_level_def)
  then have "sound T (Hop pu key lv' c', t, es)" using sound_gets_to [OF b s] by simp
  from hop_ends [OF this, of draws cas] show ?thesis using b gets_to_trans unfolding eq by blast
next
  case False
  then have "tested t pu key lv c nx b = AtNode pu key c" using pu by (simp add: tested_descends lower_level_def)
  then show ?thesis using b by auto
qed

lemma descent_ends:
  assumes th: "descending pu key th" and pu: "descends pu" and s: "sound T (th, t, es)"
  shows "\<exists>c. gets_to T draws cas (th, t, es) (AtNode pu key c, t, es)"
proof -
  have test: ?thesis if "th = Test pu key lv c nx \<or> th = Tied pu key lv c nx \<or> th = Peek pu key lv c nx q" for lv c nx q
    using answer_run [OF that, of draws cas t es] tested_ends [OF pu s] by blast
  show ?thesis
  proof (cases th)
    case (Hop pu' key' lv c)
    then show ?thesis using th hop_ends s by simp
  next
    case (AtNode pu' key' c)
    then show ?thesis using th by (intro exI [of _ c]) (simp add: gets_to_refl)
  next
    case (Test pu' key' lv c nx)
    then show ?thesis using th by (intro test [of lv c nx 0]) simp
  next
    case (Tied pu' key' lv c nx)
    then show ?thesis using th by (intro test [of lv c nx 0]) simp
  next
    case (Peek pu' key' lv c nx q)
    then show ?thesis using th by (intro test [of lv c nx q]) simp
  qed (use th in simp_all)
qed

section \<open>Linking\<close>

lemma ends_after: "gets_to T draws cas (th, t, es) (th', t', es) \<Longrightarrow> ends T c th' t' es draws cas \<Longrightarrow> ends T c th t es draws cas"
  unfolding ends_def using gets_to_trans by blast

lemma ends_here: "ends T c (Inserted c) t es draws cas"
  unfolding ends_def by (intro exI [of _ t] gets_to_refl)

text \<open>The places in between, if the next level and the next attempt end.\<close>

lemma link_ends:
  assumes onward: "\<And>t. sound T (link_from t c node (lv + 1) key, t, es) \<Longrightarrow> ends T c (link_from t c node (lv + 1) key) t es draws cas"
    and again: "\<And>t. sound T (try_again t c node lv a key, t, es) \<Longrightarrow> ends T c (try_again t c node lv a key) t es draws cas"
  shows "sound T (Swap c node lv a key p nx, t, es) \<Longrightarrow> ends T c (Swap c node lv a key p nx) t es draws cas"
    and "sound T (Link c node lv a key p nx, t, es) \<Longrightarrow> ends T c (Link c node lv a key p nx) t es draws cas"
    and "th = Test (Checking c node lv a) key l p y \<or> th = Tied (Checking c node lv a) key l p y \<or> th = Peek (Checking c node lv a) key l p y q \<Longrightarrow>
      sound T (th, t, es) \<Longrightarrow> ends T c th t es draws cas"
    and "sound T (AtNode (Finding c node lv a) key p, t, es) \<Longrightarrow> ends T c (AtNode (Finding c node lv a) key p) t es draws cas"
proof -
  have go: "ends T c th t es draws cas"
    if "sound T (th, t, es)" "gets_to T draws cas (th, t, es) (th', t', es)" "sound T (th', t', es) \<Longrightarrow> ends T c th' t' es draws cas" for th t th' t'
    using that sound_gets_to ends_after by blast
  show swap: "ends T c (Swap c node lv a key p nx) t es draws cas" if s: "sound T (Swap c node lv a key p nx, t, es)" for p nx t
  proof (cases "tower_at t lv p = nx \<and> cas lv a")
    case True
    then show ?thesis by (intro go [OF s gets_to_one onward]) (simp add: Let_def)
  next
    case False
    then have "thread_step T draws cas t (Swap c node lv a key p nx) = Some (try_again t c node lv a key, t, [])" by auto
    from go [OF s gets_to_one [OF this] again] show ?thesis .
  qed
  show link: "ends T c (Link c node lv a key p nx) t es draws cas" if s: "sound T (Link c node lv a key p nx, t, es)" for p nx t
    by (rule go [OF s gets_to_one swap]) simp
  show check: "ends T c th t es draws cas"
    if th: "th = Test (Checking c node lv a) key l p y \<or> th = Tied (Checking c node lv a) key l p y \<or> th = Peek (Checking c node lv a) key l p y q"
      and s: "sound T (th, t, es)" for th l p y q t
  proof -
    obtain b where b: "gets_to T draws cas (th, t, es) (tested t (Checking c node lv a) key l p y b, t, es)"
      using answer_run [OF th] by blast
    then show ?thesis using go [OF s b] again link by (cases b) (simp_all add: tested_def)
  qed
  show "ends T c (AtNode (Finding c node lv a) key p) t es draws cas" if s: "sound T (AtNode (Finding c node lv a) key p, t, es)" for p t
  proof (cases "p = node")
    case True
    then show ?thesis by (intro go [OF s gets_to_one onward]) simp
  next
    case False
    show ?thesis
    proof (cases "tower_at t lv p")
      case None
      then show ?thesis using False by (intro go [OF s gets_to_one link]) simp
    next
      case (Some y)
      then have "thread_step T draws cas t (AtNode (Finding c node lv a) key p) = Some (Test (Checking c node lv a) key lv p y, t, [])"
        using False by simp
      from go [OF s gets_to_one [OF this]] check show ?thesis by blast
    qed
  qed
qed

lemma finding_ends:
  assumes s: "sound T (begin_descent (Finding c node lv a) key t, t, es)"
  shows "ends T c (begin_descent (Finding c node lv a) key t) t es draws cas"
  using s
proof (induction "left lv a" arbitrary: lv a t rule: less_induct)
  case less
  have lv: "lv < kMaxHeight" using less.prems by (auto simp: sound_def begin_descent_def hopping_def linking_def)
  have onward: "ends T c (link_from t c node (lv + 1) key) t es draws cas" if "sound T (link_from t c node (lv + 1) key, t, es)" for t
  proof (cases "lv + 1 < unat (height (lnodes t ! node))")
    case True
    moreover have "left (lv + 1) 0 < left lv a" using lv by (simp add: left_def)
    ultimately show ?thesis using less.hyps [of "lv + 1" 0 t] that by (simp add: link_from_def)
  next
    case False
    then show ?thesis using ends_here by (simp add: link_from_def)
  qed
  have again: "ends T c (try_again t c node lv a key) t es draws cas" if "sound T (try_again t c node lv a key, t, es)" for t
  proof (cases "a + 1 < 8")
    case True
    then have "left lv (a + 1) < left lv a" by (simp add: left_def)
    then show ?thesis using less.hyps [of lv "a + 1" t] that True by (simp add: try_again_def)
  next
    case False
    then show ?thesis using onward [of t] that by (simp add: try_again_def)
  qed
  obtain p where p: "gets_to T draws cas (begin_descent (Finding c node lv a) key t, t, es) (AtNode (Finding c node lv a) key p, t, es)"
    using descent_ends [OF _ _ less.prems, of "Finding c node lv a" key] by (auto simp: begin_descent_def)
  then have "sound T (AtNode (Finding c node lv a) key p, t, es)" using sound_gets_to less.prems by blast
  from link_ends(4) [OF onward again this] show ?case using p ends_after by blast
qed

lemma link_from_ends:
  assumes "sound T (link_from t c node lv key, t, es)"
  shows "ends T c (link_from t c node lv key) t es draws cas"
  using assms finding_ends ends_here by (simp add: link_from_def split: if_splits)

lemma try_again_ends:
  assumes "sound T (try_again t c node lv a key, t, es)"
  shows "ends T c (try_again t c node lv a key) t es draws cas"
  using assms finding_ends link_from_ends unfolding try_again_def by (cases "a + 1 < 8") simp_all

lemma linking_ends:
  shows "sound T (Swap c node lv a key p nx, t, es) \<Longrightarrow> ends T c (Swap c node lv a key p nx) t es draws cas"
    and "sound T (Link c node lv a key p nx, t, es) \<Longrightarrow> ends T c (Link c node lv a key p nx) t es draws cas"
    and "th = Test (Checking c node lv a) key l p y \<or> th = Tied (Checking c node lv a) key l p y \<or> th = Peek (Checking c node lv a) key l p y q \<Longrightarrow>
      sound T (th, t, es) \<Longrightarrow> ends T c th t es draws cas"
    and "sound T (AtNode (Finding c node lv a) key p, t, es) \<Longrightarrow> ends T c (AtNode (Finding c node lv a) key p) t es draws cas"
  by (rule link_ends [OF link_from_ends try_again_ends]; assumption)+

section \<open>Lock holders\<close>

lemma frees_after: "gets_to T draws cas s s' \<Longrightarrow> frees T draws cas s' \<Longrightarrow> frees T draws cas s"
  unfolding frees_def using gets_to_trans by blast

lemma frees_step:
  assumes "thread_step T draws cas t th = Some (th', t', new)" "frees T draws cas (th', t', es @ new)"
  shows "frees T draws cas (th, t, es)"
  using frees_after [OF gets_to_step [OF assms(1) gets_to_refl] assms(2)] .

lemma inserted_frees: "frees T draws cas (Inserted c, t, es)"
proof -
  have "gets_to T draws cas (Inserted c, t, es) (Idle, release t c, es)" by (rule gets_to_one) simp
  then show ?thesis unfolding frees_def by blast
qed

lemma ends_frees: "ends T c th t es draws cas \<Longrightarrow> frees T draws cas (th, t, es)"
  unfolding ends_def using frees_after inserted_frees by blast

lemma appending_frees: "frees T draws cas (Appending s key c p w rank, t, es)"
proof -
  have o: "frees T draws cas (Appending StoreOrder key c p w rank, t, es)" for t
    by (rule frees_step [OF _ inserted_frees]) simp
  have h: "frees T draws cas (Appending StoreHint key c p w rank, t, es)" for t
    by (rule frees_step [where new = "[]" and th' = "Appending StoreOrder key c p w rank"]) (simp_all add: o)
  have l: "frees T draws cas (Appending StoreLane key c p w rank, t, es)" for t
    by (rule frees_step [where new = "[]" and th' = "Appending (if rank = 0 then StoreHint else StoreOrder) key c p w rank"])
      (simp, use o h in \<open>cases "rank = 0"; simp\<close>)
  have "frees T draws cas (Appending StoreKey key c p w rank, t, es)"
    by (rule frees_step [where new = "[]" and th' = "Appending StoreLane key c p w rank"]) (simp_all add: l)
  then show ?thesis using o h l by (cases s) simp_all
qed

lemma splitting_frees:
  shows "sound T (Publishing key c p m, t, es) \<Longrightarrow> frees T draws cas (Publishing key c p m, t, es)"
    and "sound T (Splitting key c p m, t, es) \<Longrightarrow> frees T draws cas (Splitting key c p m, t, es)"
proof -
  show pub: "frees T draws cas (Publishing key c p m, t, es)" if s: "sound T (Publishing key c p m, t, es)" for t
  proof -
    let ?t' = "split_payloads T draws t c (next_link (payloads t ! p)) m"
    let ?first = "slots (payloads ?t' ! length (payloads t)) ! 0"
    have st: "thread_step T draws cas t (Publishing key c p m) = Some (link_from ?t' c (length (lnodes t)) 1 ?first, ?t', [key])" by (simp add: Let_def)
    from link_from_ends [OF sound_step(1) [OF s st]] have "frees T draws cas (link_from ?t' c (length (lnodes t)) 1 ?first, ?t', es @ [key])"
      by (rule ends_frees)
    then show ?thesis by (rule frees_step [OF st])
  qed
  show "frees T draws cas (Splitting key c p m, t, es)" if s: "sound T (Splitting key c p m, t, es)"
  proof -
    have st: "thread_step T draws cas t (Splitting key c p m) = Some (Publishing key c p m, publish_hint T t c (hd m), [])" by simp
    show ?thesis using frees_step [OF st] pub [OF sound_step(1) [OF s st, simplified]] by simp
  qed
qed

lemma writing_frees:
  assumes s: "sound T (Writing key c, t, es)"
  shows "frees T draws cas (Writing key c, t, es)"
proof -
  obtain th' where st: "thread_step T draws cas t (Writing key c) = Some (th', t, [])"
    and th': "(\<exists>p w r. th' = Appending StoreKey key c p w r) \<or> (\<exists>p m. th' = Splitting key c p m)" by (auto simp: Let_def)
  have "sound T (th', t, es)" using sound_step(1) [OF s st] by simp
  then have "frees T draws cas (th', t, es)" using th' appending_frees splitting_frees(2) by blast
  then show ?thesis using frees_step [OF st] by simp
qed

lemma rechecking_frees:
  shows "sound T (Recheck key c n q, t, es) \<Longrightarrow> frees T draws cas (Recheck key c n q, t, es)"
    and "sound T (Behind key c n, t, es) \<Longrightarrow> frees T draws cas (Behind key c n, t, es)"
    and "sound T (Holding key c, t, es) \<Longrightarrow> frees T draws cas (Holding key c, t, es)"
    and "frees T draws cas (Moved key c, t, es)"
proof -
  show moved: "frees T draws cas (Moved key c, t, es)"
  proof -
    have "begin_descent Inserting key t = begin_descent Inserting key (release t c)" by (simp add: begin_descent_def release_def heap_simps)
    then have "gets_to T draws cas (Moved key c, t, es) (begin_descent Inserting key (release t c), release t c, es)" by (intro gets_to_one) simp
    then show ?thesis unfolding frees_def by blast
  qed
  have quiet: "frees T draws cas (th, t, es)"
    if "sound T (th, t, es)" "thread_step T draws cas t th = Some (th', t, [])" "sound T (th', t, es) \<Longrightarrow> frees T draws cas (th', t, es)" for th th'
    using frees_step [OF that(2), of es] sound_step(1) [OF that(1,2)] that(3) by simp
  show re: "frees T draws cas (Recheck key c n q, t, es)" if s: "sound T (Recheck key c n q, t, es)" for n q
  proof -
    obtain th' where "thread_step T draws cas t (Recheck key c n q) = Some (th', t, [])" "th' = Writing key c \<or> th' = Moved key c"
      by (auto simp: Let_def)
    then show ?thesis using quiet [OF s] writing_frees moved by blast
  qed
  show be: "frees T draws cas (Behind key c n, t, es)" if s: "sound T (Behind key c n, t, es)" for n
    by (rule quiet [OF s _ re]) simp
  show "frees T draws cas (Holding key c, t, es)" if s: "sound T (Holding key c, t, es)"
  proof (cases "next_link (get_data t c)")
    case None
    then show ?thesis by (intro quiet [OF s _ writing_frees]) simp
  next
    case (Some n)
    then show ?thesis by (intro quiet [OF s _ be]) simp
  qed
qed

lemma holder_frees:
  assumes s: "sound T (th, t, es)" and h: "holds th \<noteq> {}"
  shows "frees T draws cas (th, t, es)"
proof -
  have pl: "descends pu" if "th = Hop pu key lv c \<or> th = AtNode pu key c" for pu key lv c
    using s that by (auto simp: sound_def)
  have finding: ?thesis if f: "descending (Finding c node lv a) key th" for c node lv a key
  proof -
    obtain p where p: "gets_to T draws cas (th, t, es) (AtNode (Finding c node lv a) key p, t, es)"
      using descent_ends [OF f _ s, of draws cas] by auto
    then have "sound T (AtNode (Finding c node lv a) key p, t, es)" using sound_gets_to s by blast
    from ends_frees [OF linking_ends(4) [OF this]] show ?thesis by (rule frees_after [OF p])
  qed
  have test: ?thesis if t: "th = Test pu key lv c nx \<or> th = Tied pu key lv c nx \<or> th = Peek pu key lv c nx q" for pu key lv c nx q
  proof (cases pu)
    case (Finding d node l a)
    then have "descending (Finding d node l a) key th" using t by auto
    then show ?thesis by (rule finding)
  next
    case (Checking d node l a)
    then show ?thesis using linking_ends(3) [of th d node l a key lv c nx q t es draws cas] t s ends_frees by simp
  qed (use t h in auto)
  show ?thesis
  proof (cases th)
    case (Hop pu key lv c)
    then show ?thesis using h pl finding by (cases pu) auto
  next
    case (AtNode pu key c)
    then show ?thesis using h pl finding by (cases pu) auto
  next
    case (Test pu key lv c nx)
    then show ?thesis by (intro test [of pu key lv c nx 0]) simp
  next
    case (Tied pu key lv c nx)
    then show ?thesis by (intro test [of pu key lv c nx 0]) simp
  next
    case (Peek pu key lv c nx q)
    then show ?thesis by (intro test [of pu key lv c nx q]) simp
  next
    case (Link c node lv a key p nx)
    then show ?thesis using linking_ends(2) s ends_frees by blast
  next
    case (Swap c node lv a key p nx)
    then show ?thesis using linking_ends(1) s ends_frees by blast
  qed (use h s rechecking_frees writing_frees splitting_frees appending_frees inserted_frees in auto)
qed

section \<open>Readers\<close>

lemma on_run:
  "\<exists>ys'. gets_to T draws cas (On bs ys q w pos, t, es)
    (case next_link (payloads t ! q) of None \<Rightarrow> Done bs ys' | Some n \<Rightarrow> Adopt bs ys' n, t, es)"
proof (induction "order_count w - pos" arbitrary: ys pos)
  case 0
  then have "\<not> pos < order_count w" by simp
  then show ?case by (intro exI [of _ ys] gets_to_one) (simp split: option.splits)
next
  case (Suc k)
  let ?ys = "ys @ [key_at (payloads t ! q) w pos]"
  have "gets_to T draws cas (On bs ys q w pos, t, es) (On bs ?ys q w (pos + 1), t, es)"
    using Suc.hyps(2) by (intro gets_to_one) (cases "pos < order_count w"; simp)
  then show ?case using Suc.hyps(1) [of "pos + 1" ?ys] Suc.hyps(2) gets_to_trans by fastforce
qed

lemma adopt_ends: "path t (Some c) (c # vs) \<Longrightarrow> \<exists>ys'. gets_to T draws cas (Adopt bs ys c, t, es) (Done bs ys', t, es)"
proof (induction vs arbitrary: c ys)
  let ?q = "\<lambda>c. the (data (lnodes t ! c))"
  have on: "gets_to T draws cas (Adopt bs ys c, t, es) (On bs ys (?q c) (order (payloads t ! ?q c)) 0, t, es)" for ys c
    by (rule gets_to_quiet [where th' = "Snap None bs ys (?q c)" and t' = t, OF _ gets_to_one]) (simp_all add: Let_def)
  {
    case Nil
    then have "next_link (payloads t ! ?q c) = None" by (simp add: next_of_def get_data_def)
    then show ?case using gets_to_trans [OF on] on_run [of draws cas bs ys "?q c" _ 0 t es] by fastforce
  next
    case (Cons v vs)
    then have v: "next_link (payloads t ! ?q c) = Some v" and p: "path t (Some v) (v # vs)" by (simp_all add: next_of_def get_data_def)
    obtain ys' where "gets_to T draws cas (Adopt bs ys c, t, es) (Adopt bs ys' v, t, es)"
      using gets_to_trans [OF on] on_run [of draws cas bs ys "?q c" _ 0 t es] v by fastforce
    then show ?case using Cons.IH [OF p, of ys'] gets_to_trans by blast
  }
qed

lemma on_ends:
  assumes "sound T (On bs ys q w pos, t, es)"
  shows "\<exists>ys'. gets_to T draws cas (On bs ys q w pos, t, es) (Done bs ys', t, es)"
proof -
  obtain ns lim us vs where sh: "shared_ok T t ns lim es" and ns: "ns = us @ vs" and vs: "link_is (next_link (payloads t ! q)) vs"
    using assms by (auto simp: sound_def walking_def Let_def)
  obtain ys' where r: "gets_to T draws cas (On bs ys q w pos, t, es)
      (case next_link (payloads t ! q) of None \<Rightarrow> Done bs ys' | Some n \<Rightarrow> Adopt bs ys' n, t, es)"
    using on_run by blast
  show ?thesis
  proof (cases vs)
    case Nil
    then show ?thesis using r vs by (auto simp: link_is_def)
  next
    case (Cons n ws)
    have "path t (Some (head_node t)) (us @ n # ws)" using chainD(1) [OF shared_okD(1) [OF sh]] by (simp add: ns Cons)
    then have "path t (Some n) (n # ws)" using path_append_Cons by fastforce
    from adopt_ends [OF this, of draws cas bs ys' es] show ?thesis using r vs Cons gets_to_trans by (force simp: link_is_def)
  qed
qed

lemma reader_ends:
  assumes s: "sound T (th, t, es)"
    and th: "th = Adopt bs ys c \<or> th = Snap g bs ys q \<or> th = Aim key q w \<or> th = On bs ys q w pos"
  shows "\<exists>bs ys. gets_to T draws cas (th, t, es) (Done bs ys, t, es)"
proof -
  have aim: "\<exists>bs' ys' q' w' pos'. gets_to T draws cas (Aim key q w, t, es) (On bs' ys' q' w' pos', t, es)" for key :: 'e and q w
    by (intro exI gets_to_one) simp
  have snap: "\<exists>bs' ys' q' w' pos'. gets_to T draws cas (Snap g bs ys q, t, es) (On bs' ys' q' w' pos', t, es)" for g and bs ys :: "'e list" and q
  proof (cases g)
    case None
    then show ?thesis by (intro exI gets_to_one) (simp add: Let_def)
  next
    case (Some key)
    then have "gets_to T draws cas (Snap g bs ys q, t, es) (Aim key q (order (payloads t ! q)), t, es)" by (intro gets_to_one) (simp add: Let_def)
    then show ?thesis using aim [of key q "order (payloads t ! q)"] gets_to_trans by blast
  qed
  have "gets_to T draws cas (Adopt bs ys c, t, es) (Snap None bs ys (the (data (lnodes t ! c))), t, es)" by (rule gets_to_one) simp
  then have "\<exists>bs' ys' q' w' pos'. gets_to T draws cas (Adopt bs ys c, t, es) (On bs' ys' q' w' pos', t, es)"
    using snap [of None bs ys "the (data (lnodes t ! c))"] gets_to_trans by blast
  then obtain bs' ys' q' w' pos' where on: "gets_to T draws cas (th, t, es) (On bs' ys' q' w' pos', t, es)"
    using th snap [of g bs ys q] aim [of key q w] gets_to_refl by (elim disjE) blast+
  then have "sound T (On bs' ys' q' w' pos', t, es)" using sound_gets_to s by blast
  from on_ends [OF this] show ?thesis using on gets_to_trans by blast
qed

section \<open>A thread that meets no lock\<close>

lemma inserting_ends:
  assumes s: "sound T (begin_descent Inserting key t, t, es)" and h: "held t = {}"
  shows "\<exists>t' es'. gets_to T draws cas (begin_descent Inserting key t, t, es) (Idle, t', es')"
proof -
  have ok: "table_ok T t" using s h unheld_table_ok by (auto simp: sound_def)
  then obtain t' where "insert_entry T draws cas t key = Some t'" using insert_entry_table by metis
  from insert_run [OF ok this] show ?thesis by blast
qed

lemma frees_ends:
  assumes f: "frees T draws cas s" and s: "sound T s" "others s = {}"
  shows "\<exists>t' es'. gets_to T draws cas s (Idle, t', es')"
proof -
  obtain th t es where g: "gets_to T draws cas s (th, t, es)" and th: "th = Idle \<or> (\<exists>key. th = begin_descent Inserting key t)"
    using f by (auto simp: frees_def)
  have "sound T (th, t, es)" "others (th, t, es) = {}" using sound_gets_to [OF g s(1)] s(2) by simp_all
  moreover from this have "held t = {}" if "th \<noteq> Idle" using th that by (auto simp: others_def begin_descent_def)
  ultimately show ?thesis using g th inserting_ends gets_to_trans by metis
qed

lemma alone_ends:
  assumes s: "sound T (th, t, es)" and o: "others (th, t, es) = {}"
  shows "\<exists>th' t' es'. gets_to T draws cas (th, t, es) (th', t', es') \<and> at_rest th'"
proof -
  have rest: ?thesis if "gets_to T draws cas (th, t, es) (th', t', es')" "at_rest th'" for th' t' es'
    using that by blast
  have holding: ?thesis if g: "gets_to T draws cas (th, t, es) (th', t', es')" and h: "holds th' \<noteq> {}" for th' t' es'
  proof -
    have s': "sound T (th', t', es')" "others (th', t', es') = {}" using sound_gets_to [OF g s] o by simp_all
    from frees_ends [OF holder_frees [OF s'(1) h] s', of draws cas] obtain t2 es2
      where "gets_to T draws cas (th', t', es') (Idle, t2, es2)" by blast
    then show ?thesis using rest [OF gets_to_trans [OF g]] by (simp add: at_rest_def)
  qed
  have descent: ?thesis if d: "descending pu key th" "holds th = {}" for pu key
  proof -
    have "pu = Inserting \<or> pu = Looking \<or> pu = Seeking" using d by (cases th; cases pu) auto
    then obtain c where g: "gets_to T draws cas (th, t, es) (AtNode pu key c, t, es)"
      using descent_ends [OF d(1) _ s, of draws cas] by auto
    have s': "sound T (AtNode pu key c, t, es)" "others (AtNode pu key c, t, es) = {}" using sound_gets_to [OF g s] o by simp_all
    consider "pu = Inserting" | "pu = Looking" | "pu = Seeking" using \<open>pu = Inserting \<or> pu = Looking \<or> pu = Seeking\<close> by blast
    then show ?thesis
    proof cases
      case 1
      have "held t = {}" using s'(2) 1 by (simp add: others_def)
      moreover have "c < length (lnodes t)" using s'(1) 1 chainD(4) shared_okD(1) by (fastforce simp: sound_def hopping_def positioned_def)
      ultimately have "\<not> write_lock (lnodes t ! c)" by (auto simp: held_def locks_def)
      then have "thread_step T draws cas t (AtNode pu key c) = Some (Holding key c, upd_node t c (\<lambda>x. x\<lparr>write_lock := True\<rparr>), [])"
        using 1 by (simp add: acquire_def)
      from holding [OF gets_to_trans [OF g gets_to_one [OF this]]] show ?thesis by simp
    next
      case 2
      let ?q = "the (data (lnodes t ! c))"
      have "gets_to T draws cas (AtNode pu key c, t, es) (Loaded key ?q, t, es)" using 2 by (intro gets_to_one) simp
      moreover have "gets_to T draws cas (Loaded key ?q, t, es) (Snapped key ?q (order (payloads t ! ?q)), t, es)" by (rule gets_to_one) simp
      moreover have "gets_to T draws cas (Snapped key ?q w, t, es) (Answered key (lookup_in T (payloads t ! ?q) w key), t, es)" for w
        by (rule gets_to_one) simp
      ultimately have "\<exists>b. gets_to T draws cas (th, t, es) (Answered key b, t, es)" using g gets_to_trans by meson
      then show ?thesis using rest by (auto simp: at_rest_def)
    next
      case 3
      let ?q = "the (data (lnodes t ! c))"
      have "gets_to T draws cas (AtNode pu key c, t, es) (Snap (Some key) [] [] ?q, t, es)" using 3 by (intro gets_to_one) simp
      then have r: "gets_to T draws cas (th, t, es) (Snap (Some key) [] [] ?q, t, es)" by (rule gets_to_trans [OF g])
      then have "sound T (Snap (Some key) [] [] ?q, t, es)" using sound_gets_to s by blast
      from reader_ends [OF this] show ?thesis using rest [OF gets_to_trans [OF r]] by (fastforce simp: at_rest_def)
    qed
  qed
  have reader: ?thesis if "th = Adopt bs ys c \<or> th = Snap g bs ys q \<or> th = Aim key q w \<or> th = On bs ys q w pos" for bs ys c g q key w pos
    using reader_ends [OF s that, of draws cas] rest by (auto simp: at_rest_def)
  have snapped: "gets_to T draws cas (Snapped key q w, t, es) (Answered key (lookup_in T (payloads t ! q) w key), t, es)" for key q w
    by (rule gets_to_one) simp
  have answered: "at_rest (Answered key b)" for key :: 'e and b by (simp add: at_rest_def)
  show ?thesis
  proof (cases "holds th = {} \<and> \<not> at_rest th")
    case True
    show ?thesis
    proof (cases th)
      case (Loaded key q)
      then have "gets_to T draws cas (th, t, es) (Snapped key q (order (payloads t ! q)), t, es)" by (intro gets_to_one) simp
      from rest [OF gets_to_trans [OF this snapped] answered] show ?thesis .
    next
      case (Snapped key q w)
      from rest [OF snapped [of key q w, folded this] answered] show ?thesis .
    next
      case (Hop pu key lv c)
      then show ?thesis using True by (intro descent [of pu key]) simp_all
    next
      case (Test pu key lv c nx)
      then show ?thesis using True by (intro descent [of pu key]) simp_all
    next
      case (Tied pu key lv c nx)
      then show ?thesis using True by (intro descent [of pu key]) simp_all
    next
      case (Peek pu key lv c nx q)
      then show ?thesis using True by (intro descent [of pu key]) simp_all
    next
      case (AtNode pu key c)
      then show ?thesis using True by (intro descent [of pu key]) simp_all
    qed (use True reader in \<open>auto simp: at_rest_def\<close>)
  next
    case False
    then show ?thesis using holding [OF gets_to_refl] rest [OF gets_to_refl] by blast
  qed
qed

end

section \<open>Letting one thread of a world run\<close>

text \<open>A schedule names the threads in the order they take their steps; a thread that waits loses its turn.\<close>

fun schedule :: "'e traits \<Rightarrow> (nat \<Rightarrow> u32) \<Rightarrow> (nat \<Rightarrow> nat \<Rightarrow> bool) \<Rightarrow> nat list \<Rightarrow> 'e world \<Rightarrow> 'e world" where
  "schedule T draws cas [] w = w"
| "schedule T draws cas (i # is) w = schedule T draws cas is (case move T draws cas i w of None \<Rightarrow> w | Some w' \<Rightarrow> w')"

lemma schedule_append: "schedule T draws cas (is @ js) w = schedule T draws cas js (schedule T draws cas is w)"
  by (induction "is" arbitrary: w) simp_all

lemma schedule_length: "length (threads (schedule T draws cas is w)) = length (threads w)"
  by (induction "is" arbitrary: w) (auto simp: move_def split: option.splits)

lemma schedule_runs: "set is \<subseteq> {..<length (threads w)} \<Longrightarrow> runs T w (schedule T draws cas is w)"
proof (induction "is" arbitrary: w)
  case Nil
  show ?case by (simp add: runs.start)
next
  case (Cons i js)
  show ?case
  proof (cases "move T draws cas i w")
    case None
    then show ?thesis using Cons by simp
  next
    case (Some w')
    then have "length (threads w') = length (threads w)" by (auto simp: move_def)
    moreover have "runs T w w'" using Some Cons.prems by (intro runs.step [OF runs.start] world_step.move) auto
    ultimately show ?thesis using runs_trans [OF Cons.IH [of w']] Cons.prems Some by simp
  qed
qed

lemma schedule_alone:
  assumes "i < length (threads w)"
  shows "gets_to T draws cas (threads w ! i, shared w, inserted w) (th, t, es) \<Longrightarrow>
    \<exists>k. schedule T draws cas (replicate k i) w = w\<lparr>shared := t, threads := (threads w)[i := th], inserted := es\<rparr>"
proof -
  have "schedule T draws cas (replicate k i) w = w\<lparr>shared := t, threads := (threads w)[i := th], inserted := es\<rparr>"
    if "alone T draws cas k (threads w ! i, shared w, inserted w) = (th, t, es)" "i < length (threads w)" for k w th t es
    using that
  proof (induction k arbitrary: w)
    case 0
    then show ?case by auto
  next
    case (Suc k)
    show ?case
    proof (cases "thread_step T draws cas (shared w) (threads w ! i)")
      case None
      then have "alone T draws cas k (threads w ! i, shared w, inserted w) = (th, t, es)" using Suc.prems(1) by (simp add: alone_stuck)
      then show ?thesis using Suc.IH [of w] Suc.prems(2) None by (simp add: move_def)
    next
      case (Some r)
      obtain th' t' new where r: "r = (th', t', new)" by (cases r)
      let ?w = "w\<lparr>shared := t', threads := (threads w)[i := th'], inserted := inserted w @ new\<rparr>"
      have "schedule T draws cas (replicate k i) ?w = ?w\<lparr>shared := t, threads := (threads ?w)[i := th], inserted := es\<rparr>"
        using Suc.prems Some r by (intro Suc.IH) simp_all
      then show ?thesis using Some r by (simp add: move_def)
    qed
  qed
  then show "gets_to T draws cas (threads w ! i, shared w, inserted w) (th, t, es) \<Longrightarrow> ?thesis"
    using assms unfolding gets_to_def by blast
qed

context ordered_traits
begin

lemma world_sound:
  assumes "world_ok T w" "i < length (threads w)"
  shows "sound T (threads w ! i, shared w, inserted w)"
proof -
  have "holds (threads w ! i) \<subseteq> held (shared w)" using assms unfolding world_ok_def locks_agree_def by blast
  moreover have "threads w ! i \<in> set (threads w)" using assms(2) by simp
  ultimately show ?thesis using assms(1) unfolding world_ok_def sound_def by fast
qed

lemma world_others:
  assumes "world_ok T w" "i < length (threads w)" "\<And>th. th \<in> set (threads w) \<Longrightarrow> holds th = {}"
  shows "others (threads w ! i, shared w, inserted w) = {}"
  using assms unfolding world_ok_def locks_agree_def others_def by auto

lemma frees_free: "frees T draws cas s \<Longrightarrow> \<exists>th t es. gets_to T draws cas s (th, t, es) \<and> \<not> holds th \<noteq> {} \<and> True"
  unfolding frees_def begin_descent_def by fastforce

text \<open>Threads that can each leave \<open>P\<close> alone leave it one after the other.\<close>

lemma each_runs:
  assumes step: "\<And>w i. world_ok T w \<Longrightarrow> Q (threads w) \<Longrightarrow> i < length (threads w) \<Longrightarrow> P (threads w ! i) \<Longrightarrow>
    \<exists>th t es. gets_to T draws cas (threads w ! i, shared w, inserted w) (th, t, es) \<and> \<not> P th \<and> Q ((threads w)[i := th])"
  shows "world_ok T w \<Longrightarrow> Q (threads w) \<Longrightarrow>
    \<exists>is. set is \<subseteq> {..<length (threads w)} \<and> (\<forall>th \<in> set (threads (schedule T draws cas is w)). \<not> P th) \<and> Q (threads (schedule T draws cas is w))"
proof (induction "card {i. i < length (threads w) \<and> P (threads w ! i)}" arbitrary: w rule: less_induct)
  case less
  let ?B = "\<lambda>w. {i. i < length (threads w) \<and> P (threads w ! i)}"
  show ?case
  proof (cases "?B w = {}")
    case True
    then show ?thesis using less.prems by (intro exI [of _ "[]"]) (auto simp: in_set_conv_nth)
  next
    case False
    then obtain i where i: "i < length (threads w)" "P (threads w ! i)" by blast
    obtain th t es where g: "gets_to T draws cas (threads w ! i, shared w, inserted w) (th, t, es)" "\<not> P th" "Q ((threads w)[i := th])"
      using step [OF less.prems i] by blast
    let ?w = "w\<lparr>shared := t, threads := (threads w)[i := th], inserted := es\<rparr>"
    obtain k where k: "schedule T draws cas (replicate k i) w = ?w" using schedule_alone [OF i(1) g(1)] by blast
    have ok: "world_ok T ?w"
      using runs_ok [OF schedule_runs [of "replicate k i" w T draws cas]] less.prems(1) i(1) set_replicate_conv_if [of k i] unfolding k by auto
    have "?B ?w = ?B w - {i}" using g(2) i(1) by (auto simp: nth_list_update split: if_splits)
    moreover have "card (?B w - {i}) < card (?B w)" using i by (intro card_Diff1_less) auto
    ultimately have "card (?B ?w) < card (?B w)" by (simp only:)
    from less.hyps [OF this ok] g(3) obtain js where js: "set js \<subseteq> {..<length (threads w)}"
      "\<forall>th \<in> set (threads (schedule T draws cas js ?w)). \<not> P th" "Q (threads (schedule T draws cas js ?w))" by auto
    have "schedule T draws cas (replicate k i @ js) w = schedule T draws cas js ?w" by (simp add: schedule_append k)
    then show ?thesis using js i(1) by (intro exI [of _ "replicate k i @ js"]) auto
  qed
qed

text \<open>First the lock holders, then everyone.\<close>

lemma all_end:
  assumes w: "world_ok T w"
  shows "\<exists>is. set is \<subseteq> {..<length (threads w)} \<and> (\<forall>th \<in> set (threads (schedule T draws cas is w)). at_rest th)"
proof -
  have "\<exists>th t es. gets_to T draws cas (threads w ! i, shared w, inserted w) (th, t, es) \<and> \<not> holds th \<noteq> {} \<and> True"
    if "world_ok T w" "True" "i < length (threads w)" "holds (threads w ! i) \<noteq> {}" for w i
    using holder_frees [OF world_sound [OF that(1,3)] that(4), of draws cas] frees_free by blast
  from each_runs [of "\<lambda>_. True" "\<lambda>th. holds th \<noteq> {}", OF this w] obtain js where js: "set js \<subseteq> {..<length (threads w)}"
    "\<forall>th \<in> set (threads (schedule T draws cas js w)). holds th = {}" by auto
  let ?w = "schedule T draws cas js w" and ?Q = "\<lambda>ths. \<forall>th \<in> set ths. holds th = {}"
  have ok: "world_ok T ?w" by (rule runs_ok [OF schedule_runs [OF js(1)] w])
  have "\<exists>th t es. gets_to T draws cas (threads w ! i, shared w, inserted w) (th, t, es) \<and> \<not> \<not> at_rest th \<and> ?Q ((threads w)[i := th])"
    if "world_ok T w" "?Q (threads w)" "i < length (threads w)" "\<not> at_rest (threads w ! i)" for w i
  proof -
    have "others (threads w ! i, shared w, inserted w) = {}" using world_others [OF that(1,3)] that(2) by blast
    from alone_ends [OF world_sound [OF that(1,3)] this, of draws cas] obtain th t es
      where g: "gets_to T draws cas (threads w ! i, shared w, inserted w) (th, t, es)" "at_rest th" by blast
    have "?Q ((threads w)[i := th])" using that(2) at_rest_free [OF g(2)] by (auto dest!: set_update_subset_insert [THEN subsetD])
    then show ?thesis using g by blast
  qed
  from each_runs [of ?Q "\<lambda>th. \<not> at_rest th", OF this ok js(2)] obtain ks where ks: "set ks \<subseteq> {..<length (threads w)}"
    "\<forall>th \<in> set (threads (schedule T draws cas ks ?w)). at_rest th" by (auto simp: schedule_length)
  then show ?thesis using js(1) by (intro exI [of _ "js @ ks"]) (simp add: schedule_append)
qed

end

section \<open>Properties\<close>

text \<open>C13: the two models of the code are one: a thread that runs alone in the machine of single loads and stores, over a
  lawful table, ends its insert in exactly the table the sequential \<^verbatim>\<open>insert_entry\<close> computes, having committed the entry
  once, and its lookup with the answer the sequential \<^verbatim>\<open>contains_target\<close> gives, for the same draws and exchanges.\<close>

theorem alone_computes:
  assumes "ordered_traits T" "table_ok T t"
  shows "(\<exists>t' k. insert_entry T draws cas t e = Some t' \<and> alone T draws cas k (begin_descent Inserting e t, t, []) = (Idle, t', [e])) \<and>
    (\<exists>b k. contains_target T t e = Some b \<and> alone T draws cas k (begin_descent Looking e t, t, []) = (Answered e b, t, []))"
proof -
  obtain t' where t': "insert_entry T draws cas t e = Some t'"
    using ordered_traits.insert_entry_table [OF assms, of draws cas e] by metis
  have "\<exists>k. alone T draws cas k (begin_descent Inserting e t, t, []) = (Idle, t', [e])"
    using ordered_traits.insert_run [OF assms t', of "[]"] by (simp add: gets_to_def)
  moreover obtain b where b: "contains_target T t e = Some b"
    using ordered_traits.contains_target_iff [OF assms(1)] assms(2) by (auto simp: table_ok_def)
  moreover have "\<exists>k. alone T draws cas k (begin_descent Looking e t, t, []) = (Answered e b, t, [])"
    using ordered_traits.contains_run [OF assms(1) b] by (simp add: gets_to_def)
  ultimately show ?thesis using t' by blast
qed

theorem alone_computes_witness:
  "\<exists>t' k. insert_entry sample_traits (\<lambda>_. 4) (\<lambda>lv a. a = 7) sample_table (sample_key [0x62, 8, 1]) = Some t' \<and>
    alone sample_traits (\<lambda>_. 4) (\<lambda>lv a. a = 7) k (begin_descent Inserting (sample_key [0x62, 8, 1]) sample_table, sample_table, []) =
      (Idle, t', [sample_key [0x62, 8, 1]])"
  using alone_computes [OF sample_traits_lawful(2) sample_table_ok] by blast

text \<open>C14: no operation is ever stuck for good: from every state that inserting, looking up and scanning threads can
  reach, some order of further steps, with no new calls, ends every operation under way, whatever heights are then drawn
  and whichever exchanges fail.\<close>

theorem operations_end:
  assumes "ordered_traits T" "runs T (fresh_world (new_table T) n) w"
  shows "\<exists>is. set is \<subseteq> {..<length (threads w)} \<and> (\<forall>th \<in> set (threads (schedule T draws cas is w)). at_rest th) \<and>
    table_ok T (shared (schedule T draws cas is w))"
proof -
  have w: "world_ok T w" by (rule reachable_ok [OF assms])
  obtain js where js: "set js \<subseteq> {..<length (threads w)}" "\<forall>th \<in> set (threads (schedule T draws cas js w)). at_rest th"
    using ordered_traits.all_end [OF assms(1) w] by blast
  have "world_ok T (schedule T draws cas js w)"
    by (rule ordered_traits.runs_ok [OF assms(1) schedule_runs [OF js(1)] w])
  then have "table_ok T (shared (schedule T draws cas js w))"
    using js(2) at_rest_free by (intro ordered_traits.idle_table_ok [OF assms(1)]) auto
  then show ?thesis using js by blast
qed

theorem operations_end_witness:
  "\<exists>is. set is \<subseteq> {..<2} \<and>
    (\<forall>th \<in> set (threads (schedule sample_traits (\<lambda>_. 4) (\<lambda>lv a. a = 7) is
      (call 1 (Contains (sample_key [7])) (call 0 (Insert (sample_key [7])) (fresh_world (new_table sample_traits) 2))))). at_rest th)"
proof -
  let ?w = "fresh_world (new_table sample_traits) 2"
  have "runs sample_traits ?w (call 0 (Insert (sample_key [7])) ?w)"
    by (rule runs_call) (simp_all add: fresh_world_def at_rest_def)
  moreover have "runs sample_traits (call 0 (Insert (sample_key [7])) ?w) (call 1 (Contains (sample_key [7])) (call 0 (Insert (sample_key [7])) ?w))"
    by (rule runs_call) (simp_all add: call_def fresh_world_def at_rest_def)
  ultimately have "runs sample_traits ?w (call 1 (Contains (sample_key [7])) (call 0 (Insert (sample_key [7])) ?w))" by (rule runs_trans [rotated])
  from operations_end [OF sample_traits_lawful(2) this, of "\<lambda>_. 4" "\<lambda>lv a. a = 7"] show ?thesis
    by (auto simp: call_def fresh_world_def)
qed

text \<open>C11: a full scan that runs while other threads insert, append and split shows, in comparator order, every entry
  that had been inserted when it began and nothing that was not inserted, each as often as it is there; and at every
  moment on the way what it has shown so far is sorted and inserted.\<close>

theorem concurrent_scan:
  assumes "ordered_traits T" "runs T (fresh_world (new_table T) n) w"
  shows "(\<forall>bs ys. Done bs ys \<in> set (threads w) \<longrightarrow>
      mset bs \<subseteq># mset ys \<and> mset ys \<subseteq># mset (inserted w) \<and> sorted_wrt (le T) ys) \<and>
    (\<forall>bs ys q ow pos. On bs ys q ow pos \<in> set (threads w) \<longrightarrow> mset ys \<subseteq># mset (inserted w) \<and> sorted_wrt (le T) ys)"
proof -
  have w: "world_ok T w" by (rule reachable_ok [OF assms])
  then obtain ns lim where sh: "shared_ok T (shared w) ns lim (inserted w)"
    and pl: "\<forall>th \<in> set (threads w). placed T (shared w) ns lim (inserted w) th"
    by (auto simp: world_ok_def)
  have "mset ys \<subseteq># mset (inserted w) \<and> sorted_wrt (le T) ys" if on: "On bs ys q ow pos \<in> set (threads w)" for bs ys q ow pos
  proof -
    have "walking T (shared w) ns bs ys q ow pos" using pl on by auto
    then obtain us vs rest where "ns = us @ vs" "mset (ys @ rest) \<subseteq># mset (chain_entries (shared w) us)" "sorted_wrt (le T) (ys @ rest)"
      unfolding walking_def Let_def by blast
    moreover from this have "mset ys \<subseteq># mset (chain_entries (shared w) ns)"
      by (auto intro: subset_mset.order_trans [OF mset_subset_eq_add_left] subset_mset.order_trans [OF _ mset_subset_eq_add_left])
    ultimately show ?thesis using shared_okD(2) [OF sh] by (simp add: sorted_wrt_append)
  qed
  then show ?thesis using pl by auto
qed

theorem concurrent_scan_witness:
  "\<exists>w. runs sample_traits (fresh_world (new_table sample_traits) 1) w \<and> Done [sample_key [7]] [sample_key [7]] \<in> set (threads w)"
proof -
  let ?T = sample_traits and ?k = "sample_key [7]" and ?t = "new_table sample_traits" and ?d = "\<lambda>_::nat. 1::u32" and ?c = "\<lambda>_ _. True"
  note T = sample_traits_lawful(2)
  have go: "runs ?T w (w\<lparr>shared := t, threads := (threads w)[0 := th], inserted := es\<rparr>)"
    if "gets_to ?T ?d ?c (threads w ! 0, shared w, inserted w) (th, t, es)" "0 < length (threads w)" for w th t es
    using schedule_alone [OF that(2,1)] schedule_runs [of "replicate _ 0" w ?T ?d ?c] that(2) set_replicate_conv_if by (metis empty_subsetI insert_subset lessThan_iff)
  obtain t where t: "insert_entry ?T ?d ?c ?t ?k = Some t" "table_ok ?T t"
    using ordered_traits.insert_entry_table [OF T new_table_ok(1), of ?d ?c ?k] by metis
  have 1: "runs ?T (fresh_world ?t 1) (world ?t [begin_descent Inserting ?k ?t] [])"
    using runs_call [of 0 "fresh_world ?t 1" ?T "Insert ?k"] by (simp add: call_def fresh_world_def at_rest_def new_table_ok(2))
  have 2: "runs ?T (world ?t [begin_descent Inserting ?k ?t] []) (world t [Idle] [?k])"
    using go [of "world ?t [begin_descent Inserting ?k ?t] []"] ordered_traits.insert_run [OF T new_table_ok(1) t(1), of "[]"] by simp
  have 3: "runs ?T (world t [Idle] [?k]) (world t [Adopt [?k] [] (head_node t)] [?k])"
    using runs_call [of 0 "world t [Idle] [?k]" ?T Scan] by (simp add: call_def at_rest_def)
  obtain vs where "path t (Some (head_node t)) (head_node t # vs)"
    using chain_head chain_okD(1) t(2) unfolding table_ok_def by metis
  from ordered_traits.adopt_ends [OF T this, of ?d ?c "[?k]" "[]" "[?k]"]
  obtain ys where ys: "gets_to ?T ?d ?c (Adopt [?k] [] (head_node t), t, [?k]) (Done [?k] ys, t, [?k])" by blast
  have 4: "runs ?T (world t [Adopt [?k] [] (head_node t)] [?k]) (world t [Done [?k] ys] [?k])"
    using go [of "world t [Adopt [?k] [] (head_node t)] [?k]"] ys by simp
  have r: "runs ?T (fresh_world ?t 1) (world t [Done [?k] ys] [?k])" by (rule runs_trans [OF 4 runs_trans [OF 3 runs_trans [OF 2 1]]])
  have "Done [?k] ys \<in> set (threads (world t [Done [?k] ys] [?k]))" by simp
  then have "mset [?k] \<subseteq># mset ys" "mset ys \<subseteq># mset [?k]"
    using conjunct1 [OF concurrent_scan [OF T r]] by (metis world.select_convs(3))+
  then have "mset ys = mset [?k]" by (rule subset_mset.antisym [THEN sym])
  then have "ys = [?k]" by simp
  then show ?thesis using r by auto
qed

end
