(* ===== verification/Workload.thy ===== *)
theory Workload
  imports Search
begin

text \<open>
  \<^verbatim>\<open>include/aparajita/workload.hpp\<close>: the generators of nodes and needles the kernel benchmarks and the
  kernel tests run on.

  The random engine's state is a type parameter, and the distributions over it are the record \<open>rng\<close>: a key
  below the sentinel, an index up to a bound, the coin compared with the hit ratio, and \<^verbatim>\<open>std::shuffle\<close>. Its
  \<open>rng_contract\<close> is their specification. A loop that draws until it has what it wants ends only if the
  engine obliges, which \<open>fair\<close> says: every key turns up sooner or later.
\<close>

record 's rng =
  draw_key :: "'s \<Rightarrow> u32 \<times> 's"
  draw_index :: "nat \<Rightarrow> 's \<Rightarrow> nat \<times> 's"
  draw_hit :: "'s \<Rightarrow> bool \<times> 's"
  shuffle :: "nat list \<Rightarrow> 's \<Rightarrow> nat list \<times> 's"

definition rng_contract :: "'s rng \<Rightarrow> bool" where
  "rng_contract G \<longleftrightarrow> (\<forall>s. fst (draw_key G s) < kEmptyKey) \<and> (\<forall>n s. fst (draw_index G n s) \<le> n) \<and>
     (\<forall>xs s. mset (fst (shuffle G xs s)) = mset xs)"

section \<open>Nodes\<close>

partial_function (option) draw_keys :: "'s rng \<Rightarrow> u32 list \<Rightarrow> 's \<Rightarrow> (u32 list \<times> 's) option" where
  "draw_keys G ks s =
     (if length ks < kNodeKeys
      then (case draw_key G s of (k, s) \<Rightarrow> draw_keys G (if k \<notin> set ks then ks @ [k] else ks) s)
      else Some (ks, s))"

declare draw_keys.simps [code]

definition make_node :: "'s rng \<Rightarrow> 's \<Rightarrow> (node \<times> 's) option" where
  "make_node G s = map_option (\<lambda>(ks, s). (\<lparr>keys = sort ks\<rparr>, s)) (draw_keys G [] s)"

text \<open>The loops that fill a vector of \<open>n\<close> elements one draw after the other.\<close>

fun generate :: "('s \<Rightarrow> ('a \<times> 's) option) \<Rightarrow> nat \<Rightarrow> 's \<Rightarrow> ('a list \<times> 's) option" where
  "generate f 0 s = Some ([], s)"
| "generate f (Suc n) s =
     Option.bind (f s) (\<lambda>(x, s). map_option (\<lambda>(xs, s). (x # xs, s)) (generate f n s))"

definition make_nodes :: "'s rng \<Rightarrow> nat \<Rightarrow> 's \<Rightarrow> (node list \<times> 's) option" where
  "make_nodes G = generate (make_node G)"

record append_node =
  an_node :: node
  an_order :: u64

definition place_rank :: "node \<Rightarrow> nat list \<Rightarrow> nat \<Rightarrow> u32 list \<times> u64 \<Rightarrow> u32 list \<times> u64" where
  "place_rank sorted_node slot_of_rank rank = (\<lambda>(line, order).
     let slot = slot_of_rank ! rank
     in (line[slot := keys sorted_node ! rank], order OR push_bit (4 * rank) (of_nat (slot + 1))))"

definition make_append_node :: "'s rng \<Rightarrow> 's \<Rightarrow> (append_node \<times> 's) option" where
  "make_append_node G s =
     map_option (\<lambda>(sorted_node, s).
         let (slot_of_rank, s) = shuffle G [0..<kNodeCapacity] s;
             (line, order) = fold (place_rank sorted_node slot_of_rank) [0..<kNodeCapacity] (replicate kNodeKeys kEmptyKey, 0)
         in (\<lparr>an_node = \<lparr>keys = line\<rparr>, an_order = order\<rparr>, s))
       (make_node G s)"

definition make_append_nodes :: "'s rng \<Rightarrow> nat \<Rightarrow> 's \<Rightarrow> (append_node list \<times> 's) option" where
  "make_append_nodes G = generate (make_append_node G)"

section \<open>Needles\<close>

partial_function (option) draw_absent :: "'s rng \<Rightarrow> (u32 \<Rightarrow> bool) \<Rightarrow> 's \<Rightarrow> (u32 \<times> 's) option" where
  "draw_absent G present s = (case draw_key G s of (k, s) \<Rightarrow> if present k then draw_absent G present s else Some (k, s))"

declare draw_absent.simps [code]

definition present_in :: "node list \<Rightarrow> u32 \<Rightarrow> bool" where
  "present_in nodes k \<longleftrightarrow> list_ex (\<lambda>n. k \<in> set (keys n)) nodes"

definition make_probe :: "'s rng \<Rightarrow> node list \<Rightarrow> 's \<Rightarrow> (u32 \<times> 's) option" where
  "make_probe G nodes s =
     (case draw_hit G s of (hit, s) \<Rightarrow>
        if hit
        then (let (i, s) = draw_index G (length nodes - 1) s; (slot, s) = draw_index G (kNodeKeys - 1) s
              in Some (keys (nodes ! i) ! slot, s))
        else draw_absent G (present_in nodes) s)"

text \<open>As many needles as asked for: a \<^verbatim>\<open>reserve\<close> that throws for a huge count is not modelled.\<close>

definition make_probes :: "'s rng \<Rightarrow> node list \<Rightarrow> nat \<Rightarrow> 's \<Rightarrow> (u32 list \<times> 's) option" where
  "make_probes G nodes = generate (make_probe G nodes)"

definition present_anywhere :: "append_node list \<Rightarrow> u32 \<Rightarrow> bool" where
  "present_anywhere nodes k \<longleftrightarrow>
     list_ex (\<lambda>a. list_ex (\<lambda>rank. keys (an_node a) ! order_slot (an_order a) rank = k) [0..<kNodeCapacity]) nodes"

definition make_perm_probe :: "'s rng \<Rightarrow> append_node list \<Rightarrow> 's \<Rightarrow> (u32 \<times> 's) option" where
  "make_perm_probe G nodes s =
     (case draw_hit G s of (hit, s) \<Rightarrow>
        if hit
        then (let (i, s) = draw_index G (length nodes - 1) s; a = nodes ! i; (rank, s) = draw_index G (kNodeCapacity - 1) s
              in Some (keys (an_node a) ! order_slot (an_order a) rank, s))
        else draw_absent G (present_anywhere nodes) s)"

definition make_perm_probes :: "'s rng \<Rightarrow> append_node list \<Rightarrow> nat \<Rightarrow> 's \<Rightarrow> (u32 list \<times> 's) option" where
  "make_perm_probes G nodes = generate (make_perm_probe G nodes)"

section \<open>The loops end\<close>

definition nth_key :: "'s rng \<Rightarrow> 's \<Rightarrow> nat \<Rightarrow> u32" where
  "nth_key G s n = fst (draw_key G (((\<lambda>s. snd (draw_key G s)) ^^ n) s))"

definition fair :: "'s rng \<Rightarrow> bool" where
  "fair G \<longleftrightarrow> (\<forall>s. \<forall>k < kEmptyKey. \<exists>n. nth_key G s n = k)"

lemma nth_key_Suc: "nth_key G s (Suc n) = nth_key G (snd (draw_key G s)) n"
  by (simp add: nth_key_def funpow_Suc_right del: funpow.simps)

lemma draw_absent_ends:
  "\<not> present (nth_key G s n) \<Longrightarrow> \<exists>k s'. draw_absent G present s = Some (k, s') \<and> \<not> present k"
proof (induction n arbitrary: s)
  case 0
  then show ?case by (subst draw_absent.simps) (auto simp: nth_key_def split: prod.splits)
next
  case (Suc n)
  then have "\<exists>k s'. draw_absent G present (snd (draw_key G s)) = Some (k, s') \<and> \<not> present k" by (simp add: nth_key_Suc)
  then show ?case by (subst draw_absent.simps) (auto split: prod.splits)
qed

text \<open>Some key below the sentinel is missing from a short list, and turns up.\<close>

lemma missing_key:
  assumes "length ks < 2 ^ 32 - 1"
  obtains k :: u32 where "k < kEmptyKey" "k \<notin> set ks"
proof -
  have "card (of_nat ` {..<2 ^ 32 - 1} :: u32 set) = 2 ^ 32 - 1"
    by (subst card_image) (auto intro!: inj_onI simp: of_nat_inverse word_of_nat_eq_iff take_bit_nat_eq_self)
  moreover have "card (set ks) < 2 ^ 32 - 1" using card_length [of ks] assms by linarith
  ultimately have "\<not> of_nat ` {..<2 ^ 32 - 1} \<subseteq> set ks" using card_mono [OF finite_set] by (metis not_less)
  then obtain n where "n < 2 ^ 32 - 1" "(of_nat n :: u32) \<notin> set ks" by auto
  then show thesis using that [of "of_nat n"] by (simp add: kEmptyKey_def word_less_nat_alt unat_of_nat take_bit_nat_eq_self)
qed

lemma draw_keys_new:
  "length ks < kNodeKeys \<Longrightarrow> fst (draw_key G s) \<notin> set ks \<Longrightarrow>
   draw_keys G ks s = draw_keys G (ks @ [fst (draw_key G s)]) (snd (draw_key G s))"
  by (subst draw_keys.simps) (auto split: prod.splits)

lemma draw_keys_next:
  "length ks < kNodeKeys \<Longrightarrow> nth_key G s n \<notin> set ks \<Longrightarrow>
   \<exists>k s' s''. k \<notin> set ks \<and> k = fst (draw_key G s'') \<and> draw_keys G ks s = draw_keys G (ks @ [k]) s'"
proof (induction n arbitrary: s)
  case 0
  then show ?case using draw_keys_new [of ks G s] by (auto simp: nth_key_def)
next
  case (Suc n)
  show ?case
  proof (cases "fst (draw_key G s) \<in> set ks")
    case True
    then have "draw_keys G ks s = draw_keys G ks (snd (draw_key G s))"
      using Suc.prems(1) by (subst draw_keys.simps) (auto split: prod.splits)
    then show ?thesis using Suc.IH [of "snd (draw_key G s)"] Suc.prems by (simp add: nth_key_Suc)
  next
    case False
    then show ?thesis using draw_keys_new [of ks G s] Suc.prems(1) by blast
  qed
qed

lemma draw_keys_ends:
  assumes G: "rng_contract G" "fair G"
  shows "length ks \<le> kNodeKeys \<Longrightarrow> distinct ks \<Longrightarrow> \<forall>k \<in> set ks. k < kEmptyKey \<Longrightarrow>
    \<exists>ks' s'. draw_keys G ks s = Some (ks', s') \<and> length ks' = kNodeKeys \<and> distinct ks' \<and> (\<forall>k \<in> set ks'. k < kEmptyKey)"
proof (induction "kNodeKeys - length ks" arbitrary: ks s)
  case 0
  then show ?case by (subst draw_keys.simps) simp
next
  case (Suc m)
  have less: "length ks < kNodeKeys" using Suc.hyps(2) by linarith
  then have "length ks < 2 ^ 32 - 1" by (simp add: node_consts)
  then obtain k0 where "k0 < kEmptyKey" "k0 \<notin> set ks" by (rule missing_key)
  then obtain n where "nth_key G s n \<notin> set ks" using G(2) unfolding fair_def by metis
  from draw_keys_next [OF less this] obtain k s' s'' where k: "k \<notin> set ks" "k = fst (draw_key G s'')"
    "draw_keys G ks s = draw_keys G (ks @ [k]) s'" by blast
  have "k < kEmptyKey" using G(1) k(2) by (simp add: rng_contract_def)
  then show ?case using Suc.hyps(1) [of "ks @ [k]" s'] Suc.hyps(2) Suc.prems k(1,3) less by auto
qed

lemma make_node_ok:
  assumes "rng_contract G" "fair G"
  obtains n s' where "make_node G s = Some (n, s')" "node_wf n" "sorted_wrt (<) (keys n)" "\<forall>k \<in> set (keys n). k < kEmptyKey"
proof -
  obtain ks s' where r: "draw_keys G [] s = Some (ks, s')" "length ks = kNodeKeys" "distinct ks" "\<forall>k \<in> set ks. k < kEmptyKey"
    using draw_keys_ends [OF assms, of "[]" s] by auto
  have "sorted_wrt (<) (sort ks)" using r(3) by (simp add: strict_sorted_iff)
  then show thesis using that [of "\<lparr>keys = sort ks\<rparr>" s'] r by (simp add: make_node_def node_wf_def)
qed

section \<open>The append-only node\<close>

lemma place_ranks:
  assumes n: "node_wf n" and ss: "mset ss = mset [0..<kNodeCapacity]" and m: "m \<le> kNodeCapacity"
  shows "\<exists>line. fold (place_rank n ss) [0..<m] (replicate kNodeKeys kEmptyKey, 0) = (line, encode (take m ss)) \<and>
    length line = kNodeKeys \<and> (\<forall>i < m. line ! (ss ! i) = keys n ! i) \<and> line ! kPadSlot = kEmptyKey"
  using m
proof (induction m)
  case 0
  then show ?case by (simp add: node_consts)
next
  case (Suc m)
  have len: "length ss = kNodeCapacity" using ss by (metis length_upt mset_eq_length diff_zero)
  have dist: "distinct ss" using ss by (metis distinct_upt mset_eq_imp_distinct_iff)
  have slot: "ss ! i < kNodeCapacity" if "i < kNodeCapacity" for i
    using that len ss by (metis atLeastLessThan_iff atLeastLessThan_upt mset_eq_setD nth_mem)
  obtain line where l: "fold (place_rank n ss) [0..<m] (replicate kNodeKeys kEmptyKey, 0) = (line, encode (take m ss))"
    "length line = kNodeKeys" "\<forall>i < m. line ! (ss ! i) = keys n ! i" "line ! kPadSlot = kEmptyKey"
    using Suc by auto
  have enc: "encode (take (Suc m) ss) = encode (take m ss) OR push_bit (4 * m) (of_nat (ss ! m + 1))"
    using Suc.prems len by (simp add: take_Suc_conv_app_nth encode_append_one)
  have apart: "ss ! m \<noteq> ss ! i" if "i < m" for i using that Suc.prems len dist by (simp add: nth_eq_iff_index_eq)
  have m: "ss ! m < kNodeCapacity" using slot Suc.prems by simp
  have "fold (place_rank n ss) [0..<Suc m] (replicate kNodeKeys kEmptyKey, 0) = place_rank n ss m (line, encode (take m ss))"
    using l(1) by simp
  also have "\<dots> = (line[ss ! m := keys n ! m], encode (take (Suc m) ss))" by (simp add: place_rank_def enc Let_def)
  finally show ?case
    using l(2-4) apart m by (intro exI [of _ "line[ss ! m := keys n ! m]"]) (auto simp: less_Suc_eq node_consts)
qed

lemma make_append_node_ok:
  assumes G: "rng_contract G" "fair G"
  obtains a s' ss where "make_append_node G s = Some (a, s')" "slot_perm ss" "length ss = kNodeCapacity" "an_order a = encode ss"
    "node_wf (an_node a)" "sorted_wrt (<) (rank_lanes (an_node a) ss)" "keys (an_node a) ! kPadSlot = kEmptyKey"
proof -
  obtain n s1 where n: "make_node G s = Some (n, s1)" "node_wf n" "sorted_wrt (<) (keys n)"
    by (rule make_node_ok [OF G])
  obtain ss s2 where shuffled: "shuffle G [0..<kNodeCapacity] s1 = (ss, s2)" by fastforce
  have ss: "mset ss = mset [0..<kNodeCapacity]" using G(1) shuffled unfolding rng_contract_def by (metis fst_conv)
  have len: "length ss = kNodeCapacity" using ss by (metis length_upt mset_eq_length diff_zero)
  obtain line where line: "fold (place_rank n ss) [0..<kNodeCapacity] (replicate kNodeKeys kEmptyKey, 0) = (line, encode ss)"
    "length line = kNodeKeys" "\<forall>i < kNodeCapacity. line ! (ss ! i) = keys n ! i" "line ! kPadSlot = kEmptyKey"
    using place_ranks [OF n(2) ss order_refl] len by auto
  have "rank_lanes \<lparr>keys = line\<rparr> ss = take kNodeCapacity (keys n)"
    using line(3) len n(2) by (intro nth_equalityI) (simp_all add: rank_lanes_def node_wf_def node_consts)
  then show thesis
    using that [of "\<lparr>an_node = \<lparr>keys = line\<rparr>, an_order = encode ss\<rparr>" s2 ss] n(1,3) shuffled line ss len
    by (simp add: make_append_node_def slot_perm_def node_wf_def sorted_wrt_take)
qed

section \<open>The mix of hits and misses\<close>

text \<open>The engine states the iterations of a filling loop start in.\<close>

fun starts :: "('s \<Rightarrow> ('a \<times> 's) option) \<Rightarrow> nat \<Rightarrow> 's \<Rightarrow> 's list" where
  "starts f 0 s = []"
| "starts f (Suc n) s = s # (case f s of None \<Rightarrow> [] | Some (x, s') \<Rightarrow> starts f n s')"

lemma generate_ok:
  assumes "\<And>s. \<exists>x s'. f s = Some (x, s') \<and> P s x"
  shows "\<exists>xs s'. generate f n s = Some (xs, s') \<and> list_all2 P (starts f n s) xs \<and> length xs = n"
proof (induction n arbitrary: s)
  case 0
  then show ?case by simp
next
  case (Suc n)
  obtain x s1 where "f s = Some (x, s1)" "P s x" using assms by blast
  then show ?case using Suc [of s1] by auto
qed

lemma absent_ends:
  assumes "fair G" "{k. present k} \<subseteq> set ks" "length ks < 2 ^ 32 - 1"
  obtains k s' where "draw_absent G present s = Some (k, s')" "\<not> present k"
proof -
  obtain k0 where "k0 < kEmptyKey" "k0 \<notin> set ks" using missing_key [OF assms(3)] by blast
  then obtain n where "\<not> present (nth_key G s n)" using assms(1,2) unfolding fair_def by (metis mem_Collect_eq subsetD)
  then show thesis using draw_absent_ends [of present G s n] that by blast
qed

lemma make_probe_mix:
  assumes G: "rng_contract G" "fair G" and nodes: "nodes \<noteq> []" "\<forall>n \<in> set nodes. node_wf n" "kNodeKeys * length nodes < 2 ^ 32 - 1"
  shows "\<exists>k s'. make_probe G nodes s = Some (k, s') \<and> (present_in nodes k \<longleftrightarrow> fst (draw_hit G s))"
proof (cases "fst (draw_hit G s)")
  case True
  obtain i s1 where i: "draw_index G (length nodes - 1) (snd (draw_hit G s)) = (i, s1)" by fastforce
  obtain j s2 where j: "draw_index G (kNodeKeys - 1) s1 = (j, s2)" by fastforce
  have "i \<le> length nodes - 1" "j \<le> kNodeKeys - 1" using G(1) i j unfolding rng_contract_def by (metis fst_conv)+
  then have "i < length nodes" "j < kNodeKeys" using nodes(1) by (cases nodes; simp add: node_consts)+
  then have "present_in nodes (keys (nodes ! i) ! j)"
    using nodes(2) by (auto simp: present_in_def list_ex_iff node_wf_def intro!: bexI [of _ "nodes ! i"])
  then show ?thesis using True i j by (auto simp: make_probe_def split: prod.splits)
next
  case False
  have "length (concat (map keys nodes)) = kNodeKeys * length nodes"
    using nodes(2) by (induction nodes) (simp_all add: node_wf_def)
  moreover have "{k. present_in nodes k} \<subseteq> set (concat (map keys nodes))" by (auto simp: present_in_def list_ex_iff)
  ultimately obtain k s' where "draw_absent G (present_in nodes) (snd (draw_hit G s)) = Some (k, s')" "\<not> present_in nodes k"
    using absent_ends [OF G(2)] nodes(3) by metis
  then show ?thesis using False by (auto simp: make_probe_def split: prod.splits)
qed

lemma make_perm_probe_mix:
  assumes G: "rng_contract G" "fair G" and nodes: "nodes \<noteq> []" "kNodeKeys * length nodes < 2 ^ 32 - 1"
  shows "\<exists>k s'. make_perm_probe G nodes s = Some (k, s') \<and> (present_anywhere nodes k \<longleftrightarrow> fst (draw_hit G s))"
proof (cases "fst (draw_hit G s)")
  case True
  obtain i s1 where i: "draw_index G (length nodes - 1) (snd (draw_hit G s)) = (i, s1)" by fastforce
  obtain j s2 where j: "draw_index G (kNodeCapacity - 1) s1 = (j, s2)" by fastforce
  have "i \<le> length nodes - 1" "j \<le> kNodeCapacity - 1" using G(1) i j unfolding rng_contract_def by (metis fst_conv)+
  then have "i < length nodes" "j < kNodeCapacity" using nodes(1) by (cases nodes; simp add: node_consts)+
  then have "present_anywhere nodes (keys (an_node (nodes ! i)) ! order_slot (an_order (nodes ! i)) j)"
    unfolding present_anywhere_def list_ex_iff by (intro bexI [of _ "nodes ! i"] bexI [of _ j]) simp_all
  then show ?thesis using True i j by (auto simp: make_perm_probe_def Let_def split: prod.splits)
next
  case False
  let ?lanes = "concat (map (\<lambda>a. map (\<lambda>rank. keys (an_node a) ! order_slot (an_order a) rank) [0..<kNodeCapacity]) nodes)"
  have "length ?lanes = kNodeCapacity * length nodes" by (induction nodes) (simp_all add: node_consts)
  then have short: "length ?lanes < 2 ^ 32 - 1" using nodes(2) by (simp add: node_consts)
  have sub: "{k. present_anywhere nodes k} \<subseteq> set ?lanes" by (auto simp: present_anywhere_def list_ex_iff)
  obtain k s' where "draw_absent G (present_anywhere nodes) (snd (draw_hit G s)) = Some (k, s')" "\<not> present_anywhere nodes k"
    by (rule absent_ends [OF G(2) sub short])
  then show ?thesis using False by (auto simp: make_perm_probe_def split: prod.splits)
qed

section \<open>An engine\<close>

definition counting_rng :: "nat rng" where
  "counting_rng =
     \<lparr>draw_key = (\<lambda>s. (of_nat (s mod (2 ^ 32 - 1)), Suc s)),
      draw_index = (\<lambda>n s. (s mod Suc n, Suc s)),
      draw_hit = (\<lambda>s. (even s, Suc s)),
      shuffle = (\<lambda>xs s. (rev xs, s))\<rparr>"

lemma counting_rng_lawful: "rng_contract counting_rng" "fair counting_rng"
proof -
  let ?M = "2 ^ 32 - 1 :: nat"
  have small: "unat (of_nat (m mod ?M) :: u32) = m mod ?M" for m
    using mod_less_divisor [of ?M m] by (simp add: unat_of_nat take_bit_nat_eq_self)
  have less: "m mod ?M < ?M" for m by simp
  have key: "(of_nat (m mod ?M) :: u32) < kEmptyKey" for m
    using small [of m] less [of m] by (simp add: word_less_nat_alt kEmptyKey_def)
  have index: "m mod Suc n \<le> n" for m n by (metis less_Suc_eq_le mod_less_divisor zero_less_Suc)
  show "rng_contract counting_rng" unfolding rng_contract_def using key index by (auto simp: counting_rng_def)
  have it: "((\<lambda>s. snd (draw_key counting_rng s)) ^^ n) s = s + n" for n s by (induction n) (simp_all add: counting_rng_def)
  have nth: "nth_key counting_rng s n = of_nat ((s + n) mod ?M)" for s n unfolding nth_key_def it by (simp add: counting_rng_def)
  show "fair counting_rng" unfolding fair_def
  proof (intro allI impI)
    fix s and k :: u32 assume "k < kEmptyKey"
    then have k: "unat k < ?M" by (simp add: word_less_nat_alt kEmptyKey_def)
    have "(s + (unat k + (?M - s mod ?M))) mod ?M = (s mod ?M + (unat k + (?M - s mod ?M))) mod ?M" by (metis mod_add_left_eq)
    also have "\<dots> = (unat k + ?M) mod ?M" using less [of s] by (intro arg_cong [where f = "\<lambda>x. x mod ?M"]) linarith
    also have "\<dots> = unat k" using k by (metis mod_add_self2 mod_less)
    finally have "nth_key counting_rng s (unat k + (?M - s mod ?M)) = of_nat (unat k)" unfolding nth by (rule arg_cong)
    then show "\<exists>n. nth_key counting_rng s n = k" by (intro exI) simp
  qed
qed

section \<open>Properties\<close>

text \<open>C40: with an engine that never avoids a key for ever, \<^verbatim>\<open>make_append_node\<close> ends, and what it makes is the shape the
  memtable holds: distinct live lanes in sorted rank order under a lawful order word and the sentinel in the
  padding slot, so the dispatched kernel returns the lower bound on it.\<close>

theorem append_node_ready:
  assumes "rng_contract G" "fair G"
  shows "\<exists>a s' ss. make_append_node G s = Some (a, s') \<and> slot_perm ss \<and> length ss = kNodeCapacity \<and> an_order a = encode ss \<and>
    node_wf (an_node a) \<and> sorted_wrt (<) (rank_lanes (an_node a) ss) \<and> keys (an_node a) ! kPadSlot = kEmptyKey \<and>
    (\<forall>k. lower_bound_perm_dispatch isa (an_node a) k (an_order a) = lower_bound_of (\<lambda>x. x < k) (rank_lanes (an_node a) ss))"
proof -
  obtain a s' ss where a: "make_append_node G s = Some (a, s')" "slot_perm ss" "length ss = kNodeCapacity" "an_order a = encode ss"
    "node_wf (an_node a)" "sorted_wrt (<) (rank_lanes (an_node a) ss)" "keys (an_node a) ! kPadSlot = kEmptyKey"
    by (rule make_append_node_ok [OF assms])
  have "sorted (rank_lanes (an_node a) ss)" using a(6) by (simp add: strict_sorted_iff)
  then show ?thesis using a perm_dispatched.rank [OF a(5,2)] by auto
qed

theorem append_node_ready_witness:
  "\<exists>a s' ss. make_append_node counting_rng 7 = Some (a, s') \<and> slot_perm ss \<and> length ss = 15 \<and>
    lower_bound_perm_dispatch Avx2 (an_node a) kEmptyKey (an_order a) = lower_bound_of (\<lambda>x. x < kEmptyKey) (rank_lanes (an_node a) ss)"
  using append_node_ready [OF counting_rng_lawful, of 7 Avx2] by (auto simp: node_consts)

text \<open>The needle generators end and keep the mix they were asked for: the \<open>i\<close>-th needle is a live key of some
  node exactly when the \<open>i\<close>-th coin came up as a hit.\<close>

theorem probes_mix:
  assumes "rng_contract G" "fair G" "nodes \<noteq> []" "\<forall>n \<in> set nodes. node_wf n" "kNodeKeys * length nodes < 2 ^ 32 - 1"
    "anodes \<noteq> []" "kNodeKeys * length anodes < 2 ^ 32 - 1"
  shows "(\<exists>ks s'. make_probes G nodes n s = Some (ks, s') \<and> length ks = n \<and>
      list_all2 (\<lambda>s k. present_in nodes k \<longleftrightarrow> fst (draw_hit G s)) (starts (make_probe G nodes) n s) ks) \<and>
    (\<exists>ks s'. make_perm_probes G anodes n s = Some (ks, s') \<and> length ks = n \<and>
      list_all2 (\<lambda>s k. present_anywhere anodes k \<longleftrightarrow> fst (draw_hit G s)) (starts (make_perm_probe G anodes) n s) ks)"
  using generate_ok [where f = "make_probe G nodes" and P = "\<lambda>s k. present_in nodes k \<longleftrightarrow> fst (draw_hit G s)" and n = n and s = s,
      OF make_probe_mix [OF assms(1-5)]]
    generate_ok [where f = "make_perm_probe G anodes" and P = "\<lambda>s k. present_anywhere anodes k \<longleftrightarrow> fst (draw_hit G s)" and n = n and s = s,
      OF make_perm_probe_mix [OF assms(1,2,6,7)]]
  unfolding make_probes_def make_perm_probes_def by blast

theorem probes_mix_witness:
  "\<exists>ks s'. make_probes counting_rng [\<lparr>keys = replicate 16 3\<rparr>] 2 0 = Some (ks, s') \<and> length ks = 2 \<and>
    list_all2 (\<lambda>s k. present_in [\<lparr>keys = replicate 16 3\<rparr>] k \<longleftrightarrow> even s) (starts (make_probe counting_rng [\<lparr>keys = replicate 16 3\<rparr>]) 2 0) ks"
proof -
  have c: "fst (draw_hit counting_rng s) \<longleftrightarrow> even s" for s by (simp add: counting_rng_def)
  show ?thesis
    using probes_mix [OF counting_rng_lawful, of "[\<lparr>keys = replicate 16 3\<rparr>]" "[\<lparr>an_node = \<lparr>keys = []\<rparr>, an_order = 0\<rparr>]" 2 0]
    unfolding c by (auto simp: node_wf_def node_consts)
qed

end
