(* ===== verification/Kernel_Bench.thy ===== *)
theory Kernel_Bench
  imports Workload
begin

text \<open>
  \<^verbatim>\<open>bench/counter_report.cpp\<close> over \<^verbatim>\<open>bench/counters.hpp\<close>: the tables of
  kernels, the gate that compares every runnable kernel with its scalar reference before anything is timed, and the
  counter windows around the measured loops.

  The operating system's performance events are the record \<open>perf\<close>, and executing a kernel call is a parameter that
  advances the same machine state. \<open>perf_contract\<close> is what \<^verbatim>\<open>perf_event_open(2)\<close> documents: an event opens disabled
  at zero, counts while it is enabled, and is read without being disturbed. How many events a call causes depends on
  the state it finds the machine in: its caches, its branch predictor, its frequency.

  A kernel is a function and the instruction set it is compiled for. A host that lacks the instruction set stops the
  program when it gets to the call.
\<close>

section \<open>Hardware counters\<close>

datatype hw_event = CPU_CYCLES | REF_CPU_CYCLES | INSTRUCTIONS | BRANCH_INSTRUCTIONS | BRANCH_MISSES

record 'o perf =
  perf_event_open :: "hw_event \<Rightarrow> 'o \<Rightarrow> (int \<times> int) \<times> 'o"
  ioctl_reset :: "int \<Rightarrow> 'o \<Rightarrow> 'o"
  ioctl_enable :: "int \<Rightarrow> 'o \<Rightarrow> 'o"
  ioctl_disable :: "int \<Rightarrow> 'o \<Rightarrow> 'o"
  read_value :: "int \<Rightarrow> 'o \<Rightarrow> u64 option \<times> 'o"
  close_event :: "int \<Rightarrow> 'o \<Rightarrow> 'o"

record counter =
  fd :: int
  last_errno :: int
  counter_name :: string

text \<open>\<open>perf_event_open\<close> returns the descriptor and \<^verbatim>\<open>errno\<close>.\<close>

definition new_counter :: "'o perf \<Rightarrow> hw_event \<Rightarrow> string \<Rightarrow> 'o \<Rightarrow> counter \<times> 'o" where
  "new_counter P config name mach =
     (case perf_event_open P config mach of ((d, errno), mach) \<Rightarrow>
        (\<lparr>fd = d, last_errno = (if d < 0 then errno else 0), counter_name = name\<rparr>, mach))"

definition available :: "counter \<Rightarrow> bool" where
  "available c \<longleftrightarrow> fd c \<ge> 0"

definition start :: "'o perf \<Rightarrow> counter \<Rightarrow> 'o \<Rightarrow> 'o" where
  "start P c mach = (if fd c < 0 then mach else ioctl_enable P (fd c) (ioctl_reset P (fd c) mach))"

text \<open>A read of fewer than eight bytes is \<open>None\<close>.\<close>

definition stop :: "'o perf \<Rightarrow> counter \<Rightarrow> 'o \<Rightarrow> u64 \<times> 'o" where
  "stop P c mach =
     (if fd c < 0 then (0, mach)
      else case read_value P (fd c) (ioctl_disable P (fd c) mach) of
             (Some v, mach) \<Rightarrow> (v, mach)
           | (None, mach) \<Rightarrow> (0, mach))"

definition close_counter :: "'o perf \<Rightarrow> counter \<Rightarrow> 'o \<Rightarrow> 'o" where
  "close_counter P c mach = (if fd c \<ge> 0 then close_event P (fd c) mach else mach)"

record counter_set =
  cycles_c :: counter
  ref_cycles_c :: counter
  instructions_c :: counter
  branches_c :: counter
  branch_misses_c :: counter

definition new_counter_set :: "'o perf \<Rightarrow> 'o \<Rightarrow> counter_set \<times> 'o" where
  "new_counter_set P mach =
     (let (c, mach) = new_counter P CPU_CYCLES ''cycles'' mach;
          (rc, mach) = new_counter P REF_CPU_CYCLES ''ref-cycles'' mach;
          (i, mach) = new_counter P INSTRUCTIONS ''instructions'' mach;
          (b, mach) = new_counter P BRANCH_INSTRUCTIONS ''branches'' mach;
          (bm, mach) = new_counter P BRANCH_MISSES ''branch-misses'' mach
      in (\<lparr>cycles_c = c, ref_cycles_c = rc, instructions_c = i, branches_c = b, branch_misses_c = bm\<rparr>, mach))"

definition all_available :: "counter_set \<Rightarrow> bool" where
  "all_available cs \<longleftrightarrow> available (cycles_c cs) \<and> available (ref_cycles_c cs) \<and> available (instructions_c cs) \<and>
     available (branches_c cs) \<and> available (branch_misses_c cs)"

text \<open>The set's destructor: the members in the reverse of their order.\<close>

definition close_set :: "'o perf \<Rightarrow> counter_set \<Rightarrow> 'o \<Rightarrow> 'o" where
  "close_set P cs mach =
     close_counter P (cycles_c cs) (close_counter P (ref_cycles_c cs) (close_counter P (instructions_c cs)
       (close_counter P (branches_c cs) (close_counter P (branch_misses_c cs) mach))))"

record reading =
  r_cycles :: u64
  r_ref_cycles :: u64
  r_instructions :: u64
  r_branches :: u64
  r_branch_misses :: u64

section \<open>The measured loops\<close>

definition start_all :: "'o perf \<Rightarrow> counter_set \<Rightarrow> 'o \<Rightarrow> 'o" where
  "start_all P cs mach =
     start P (branch_misses_c cs) (start P (branches_c cs) (start P (instructions_c cs)
       (start P (ref_cycles_c cs) (start P (cycles_c cs) mach))))"

definition stop_all :: "'o perf \<Rightarrow> counter_set \<Rightarrow> 'o \<Rightarrow> reading \<times> 'o" where
  "stop_all P cs mach =
     (let (bm, mach) = stop P (branch_misses_c cs) mach;
          (b, mach) = stop P (branches_c cs) mach;
          (i, mach) = stop P (instructions_c cs) mach;
          (rc, mach) = stop P (ref_cycles_c cs) mach;
          (c, mach) = stop P (cycles_c cs) mach
      in (\<lparr>r_cycles = c, r_ref_cycles = rc, r_instructions = i, r_branches = b, r_branch_misses = bm\<rparr>, mach))"

text \<open>One loop over the needles: the results summed up in \<^verbatim>\<open>acc\<close>, the calls executed on the machine. The source's
  \<^verbatim>\<open>int\<close> is unbounded here: two passes of at most sixteen a call stay below \<open>2 ^ 31\<close> up to \<open>2 ^ 26 - 1\<close> needles.\<close>

definition probe_loop :: "(u32 \<Rightarrow> nat) \<Rightarrow> (u32 \<Rightarrow> 'o \<Rightarrow> 'o) \<Rightarrow> u32 list \<Rightarrow> nat \<times> 'o \<Rightarrow> nat \<times> 'o" where
  "probe_loop call exec probes = fold (\<lambda>p (acc, mach). (acc + call p, exec p mach)) probes"

text \<open>The body the three measuring functions share, and its result: the reading and what goes to \<^verbatim>\<open>g_sink\<close>.\<close>

definition measure_calls ::
  "'o perf \<Rightarrow> (u32 \<Rightarrow> 'o \<Rightarrow> 'o) \<Rightarrow> (u32 \<Rightarrow> nat) \<Rightarrow> u32 list \<Rightarrow> counter_set \<Rightarrow> 'o \<Rightarrow> (reading \<times> nat) \<times> 'o" where
  "measure_calls P exec call probes cs mach =
     (let (acc, mach) = probe_loop call exec probes (0, mach);
          mach = start_all P cs mach;
          (acc, mach) = probe_loop call exec probes (acc, mach);
          (r, mach) = stop_all P cs mach
      in ((r, acc), mach))"

definition measure_eq ::
  "'o perf \<Rightarrow> (u32 \<Rightarrow> 'o \<Rightarrow> 'o) \<Rightarrow> (node \<Rightarrow> u32 \<Rightarrow> nat) \<Rightarrow> node \<Rightarrow> u32 list \<Rightarrow> counter_set \<Rightarrow> 'o \<Rightarrow> (reading \<times> nat) \<times> 'o" where
  "measure_eq P exec fn n = measure_calls P exec (fn n)"

definition measure_lb ::
  "'o perf \<Rightarrow> (u32 \<Rightarrow> 'o \<Rightarrow> 'o) \<Rightarrow> (node \<Rightarrow> u32 \<Rightarrow> nat) \<Rightarrow> node \<Rightarrow> u32 list \<Rightarrow> counter_set \<Rightarrow> 'o \<Rightarrow> (reading \<times> nat) \<times> 'o" where
  "measure_lb P exec fn n = measure_calls P exec (fn n)"

definition measure_perm ::
  "'o perf \<Rightarrow> (u32 \<Rightarrow> 'o \<Rightarrow> 'o) \<Rightarrow> (node \<Rightarrow> u32 \<Rightarrow> u64 \<Rightarrow> nat) \<Rightarrow> append_node \<Rightarrow> u32 list \<Rightarrow> counter_set \<Rightarrow> 'o \<Rightarrow> (reading \<times> nat) \<times> 'o" where
  "measure_perm P exec fn a = measure_calls P exec (\<lambda>p. fn (an_node a) p (an_order a))"

section \<open>The kernels\<close>

text \<open>A function and the instruction set its \<^verbatim>\<open>target\<close> attribute compiles it for.\<close>

record 'f compiled =
  body_of :: 'f
  built_for :: isa

definition portable :: "'f \<Rightarrow> 'f compiled" where
  "portable f = \<lparr>body_of = f, built_for = Scalar\<rparr>"

definition avx2_search :: "(node \<Rightarrow> u32 \<Rightarrow> nat) compiled" where
  "avx2_search = \<lparr>body_of = search_avx2, built_for = Avx2\<rparr>"

definition avx512_search :: "(node \<Rightarrow> u32 \<Rightarrow> nat) compiled" where
  "avx512_search = \<lparr>body_of = search_avx512, built_for = Avx512\<rparr>"

definition avx2_lower_bound :: "(node \<Rightarrow> u32 \<Rightarrow> nat) compiled" where
  "avx2_lower_bound = \<lparr>body_of = lower_bound_avx2, built_for = Avx2\<rparr>"

definition avx512_lower_bound :: "(node \<Rightarrow> u32 \<Rightarrow> nat) compiled" where
  "avx512_lower_bound = \<lparr>body_of = lower_bound_avx512, built_for = Avx512\<rparr>"

definition avx2_lower_bound_perm :: "(node \<Rightarrow> u32 \<Rightarrow> u64 \<Rightarrow> nat) compiled" where
  "avx2_lower_bound_perm = \<lparr>body_of = lower_bound_perm_avx2, built_for = Avx2\<rparr>"

definition avx512_lower_bound_perm :: "(node \<Rightarrow> u32 \<Rightarrow> u64 \<Rightarrow> nat) compiled" where
  "avx512_lower_bound_perm = \<lparr>body_of = lower_bound_perm_avx512, built_for = Avx512\<rparr>"

lemmas compiled_defs = portable_def avx2_search_def avx512_search_def avx2_lower_bound_def avx512_lower_bound_def
  avx2_lower_bound_perm_def avx512_lower_bound_perm_def

text \<open>The entries of the three tables: \<open>k_needs\<close> is what the entry says, \<open>built_for (k_fn k)\<close> what the function takes.\<close>

record 'f kernel =
  k_name :: string
  k_fn :: "'f compiled"
  k_needs :: isa

definition runnable :: "isa \<Rightarrow> isa \<Rightarrow> bool" where
  "runnable needs host =
     (if needs = Avx2 then host = Avx2 \<or> host = Avx512 else if needs = Avx512 then host = Avx512 else True)"

definition skip_reason :: "isa \<Rightarrow> string" where
  "skip_reason needs =
     (if needs = Avx512 then ''skipped: host lacks avx512f (compiled, not executed)'' else ''skipped: host lacks avx2'')"

text \<open>Every instruction set includes the ones before it: the order of \<open>isa\<close> by capability.\<close>

fun isa_level :: "isa \<Rightarrow> nat" where
  "isa_level Scalar = 0"
| "isa_level Avx2 = 1"
| "isa_level Avx512 = 2"

lemma isa_level_inject: "isa_level a = isa_level b \<longleftrightarrow> a = b"
  by (cases a; cases b) simp_all

instantiation isa :: linorder
begin

definition less_eq_isa :: "isa \<Rightarrow> isa \<Rightarrow> bool" where
  "less_eq_isa a b \<longleftrightarrow> isa_level a \<le> isa_level b"

definition less_isa :: "isa \<Rightarrow> isa \<Rightarrow> bool" where
  "less_isa a b \<longleftrightarrow> isa_level a < isa_level b"

instance
  by standard (auto simp: less_eq_isa_def less_isa_def isa_level_inject)

end

lemma runnable_iff_le: "runnable needs host \<longleftrightarrow> needs \<le> host"
  by (cases needs; cases host) (simp_all add: runnable_def less_eq_isa_def)

definition kernels :: "bool \<Rightarrow> (node \<Rightarrow> u32 \<Rightarrow> nat) kernel list" where
  "kernels x86 =
     [\<lparr>k_name = ''scalar_linear'', k_fn = portable search_scalar_linear, k_needs = Scalar\<rparr>,
      \<lparr>k_name = ''scalar_autovec'', k_fn = portable search_scalar_autovec, k_needs = Scalar\<rparr>,
      \<lparr>k_name = ''scalar_branchless'', k_fn = portable search_scalar_branchless, k_needs = Scalar\<rparr>,
      \<lparr>k_name = ''scalar_binary'', k_fn = portable search_scalar_binary, k_needs = Scalar\<rparr>] @
     (if x86 then [\<lparr>k_name = ''avx2'', k_fn = avx2_search, k_needs = Avx2\<rparr>,
                   \<lparr>k_name = ''avx512'', k_fn = avx512_search, k_needs = Avx512\<rparr>] else [])"

definition lb_kernels :: "bool \<Rightarrow> (node \<Rightarrow> u32 \<Rightarrow> nat) kernel list" where
  "lb_kernels x86 =
     [\<lparr>k_name = ''lb_scalar'', k_fn = portable lower_bound_scalar, k_needs = Scalar\<rparr>,
      \<lparr>k_name = ''lb_scalar_brless'', k_fn = portable lower_bound_scalar_branchless, k_needs = Scalar\<rparr>] @
     (if x86 then [\<lparr>k_name = ''lb_avx2'', k_fn = avx2_lower_bound, k_needs = Avx2\<rparr>,
                   \<lparr>k_name = ''lb_avx512'', k_fn = avx512_lower_bound, k_needs = Avx512\<rparr>] else [])"

definition perm_kernels :: "bool \<Rightarrow> (node \<Rightarrow> u32 \<Rightarrow> u64 \<Rightarrow> nat) kernel list" where
  "perm_kernels x86 =
     [\<lparr>k_name = ''perm_scalar'', k_fn = portable lower_bound_perm_scalar, k_needs = Scalar\<rparr>] @
     (if x86 then [\<lparr>k_name = ''perm_avx2'', k_fn = avx2_lower_bound_perm, k_needs = Avx2\<rparr>,
                   \<lparr>k_name = ''perm_avx512'', k_fn = avx512_lower_bound_perm, k_needs = Avx512\<rparr>] else [])"

section \<open>The report\<close>

text \<open>
  The first runnable kernel and needle on which a family departs from its reference. A comparison calls the kernel and
  the reference, whose table entry is \<open>rname\<close>; C++ leaves the order of the two calls open, and one is taken. \<^const>\<open>None\<close> is
  a call the host cannot execute.
\<close>

fun gate_kernel :: "(u32 \<Rightarrow> 'o \<Rightarrow> 'o) \<Rightarrow> (u32 \<Rightarrow> nat) \<Rightarrow> (u32 \<Rightarrow> nat) \<Rightarrow> u32 list \<Rightarrow> 'o \<Rightarrow> u32 option \<times> 'o" where
  "gate_kernel exec call reference [] mach = (None, mach)"
| "gate_kernel exec call reference (p # ps) mach =
     (let mach = exec p mach
      in if call p \<noteq> reference p then (Some p, mach) else gate_kernel exec call reference ps mach)"

fun gate ::
  "isa \<Rightarrow> (string \<Rightarrow> u32 \<Rightarrow> 'o \<Rightarrow> 'o) \<Rightarrow> string \<Rightarrow> ('f \<Rightarrow> u32 \<Rightarrow> nat) \<Rightarrow> (u32 \<Rightarrow> nat) \<Rightarrow> u32 list \<Rightarrow> 'f kernel list \<Rightarrow> 'o \<Rightarrow>
   ((string \<times> u32) option \<times> 'o) option" where
  "gate host exec rname call reference probes [] mach = Some (None, mach)"
| "gate host exec rname call reference probes (k # ks) mach =
     (if \<not> runnable (k_needs k) host then gate host exec rname call reference probes ks mach
      else if probes \<noteq> [] \<and> \<not> built_for (k_fn k) \<le> host then None
      else case gate_kernel (\<lambda>p mach. exec rname p (exec (k_name k) p mach)) (call (body_of (k_fn k))) reference probes mach of
             (Some p, mach) \<Rightarrow> Some (Some (k_name k, p), mach)
           | (None, mach) \<Rightarrow> gate host exec rname call reference probes ks mach)"

text \<open>A table row: the reason a kernel was skipped, or the readings its medians are taken from.\<close>

datatype row = Skipped string string | Measured string "reading list"

fun report :: "nat \<Rightarrow> ('o \<Rightarrow> (reading \<times> nat) \<times> 'o) \<Rightarrow> 'o \<Rightarrow> reading list \<times> 'o" where
  "report 0 take_reading mach = ([], mach)"
| "report (Suc reps) take_reading mach =
     (let ((x, _), mach) = take_reading mach; (xs, mach) = report reps take_reading mach in (x # xs, mach))"

text \<open>A table calls only what the gate has called before it, on the same needles and under the same guard: an
  instruction the host does not have ends the program in \<open>gate\<close>, never here.\<close>

fun kernel_table :: "isa \<Rightarrow> nat \<Rightarrow> ('f kernel \<Rightarrow> 'o \<Rightarrow> (reading \<times> nat) \<times> 'o) \<Rightarrow> 'f kernel list \<Rightarrow> 'o \<Rightarrow> row list \<times> 'o" where
  "kernel_table host reps measure_k [] mach = ([], mach)"
| "kernel_table host reps measure_k (k # ks) mach =
     (if \<not> runnable (k_needs k) host
      then (let (rows, mach) = kernel_table host reps measure_k ks mach
            in (Skipped (k_name k) (skip_reason (k_needs k)) # rows, mach))
      else (let (xs, mach) = report reps (measure_k k) mach; (rows, mach) = kernel_table host reps measure_k ks mach
            in (Measured (k_name k) xs # rows, mach)))"

datatype outcome = Counters_Unavailable int | Disagreement string u32 | Reported "row list" "row list" "row list"

fun exit_code :: "outcome \<Rightarrow> int" where
  "exit_code (Counters_Unavailable errno) = 1"
| "exit_code (Disagreement name p) = 2"
| "exit_code (Reported eq_rows lb_rows perm_rows) = 0"

text \<open>The gate over the three families, each against its own scalar reference.\<close>

definition gates ::
  "(string \<Rightarrow> u32 \<Rightarrow> 'o \<Rightarrow> 'o) \<Rightarrow> bool \<Rightarrow> isa \<Rightarrow> node \<Rightarrow> u32 list \<Rightarrow> append_node \<Rightarrow> u32 list \<Rightarrow> 'o \<Rightarrow>
   ((string \<times> u32) option \<times> 'o) option" where
  "gates exec x86 host n probes a perm_probes mach =
     Option.bind (gate host exec ''scalar_linear'' (\<lambda>f. f n) (search_scalar_linear n) probes (kernels x86) mach) (\<lambda>(bad, mach).
       if bad \<noteq> None then Some (bad, mach)
       else Option.bind (gate host exec ''lb_scalar'' (\<lambda>f. f n) (lower_bound_scalar n) probes (lb_kernels x86) mach) (\<lambda>(bad, mach).
         if bad \<noteq> None then Some (bad, mach)
         else gate host exec ''perm_scalar'' (\<lambda>f p. f (an_node a) p (an_order a))
           (\<lambda>p. lower_bound_perm_scalar (an_node a) p (an_order a)) perm_probes (perm_kernels x86) mach))"

definition tables ::
  "'o perf \<Rightarrow> (string \<Rightarrow> u32 \<Rightarrow> 'o \<Rightarrow> 'o) \<Rightarrow> bool \<Rightarrow> isa \<Rightarrow> nat \<Rightarrow> node \<Rightarrow> u32 list \<Rightarrow> append_node \<Rightarrow> u32 list \<Rightarrow>
   counter_set \<Rightarrow> 'o \<Rightarrow> outcome \<times> 'o" where
  "tables P exec x86 host reps n probes a perm_probes cs mach =
     (let (eq_rows, mach) = kernel_table host reps (\<lambda>k. measure_eq P (exec (k_name k)) (body_of (k_fn k)) n probes cs) (kernels x86) mach;
          (lb_rows, mach) = kernel_table host reps (\<lambda>k. measure_lb P (exec (k_name k)) (body_of (k_fn k)) n probes cs) (lb_kernels x86) mach;
          (perm_rows, mach) = kernel_table host reps (\<lambda>k. measure_perm P (exec (k_name k)) (body_of (k_fn k)) a perm_probes cs) (perm_kernels x86) mach
      in (Reported eq_rows lb_rows perm_rows, mach))"

text \<open>
  \<^verbatim>\<open>main\<close> from the counters on. The hit ratio is in the generator's coin. Every way out destroys the counters. \<^const>\<open>None\<close> is
  a generator that never ends or a kernel the host cannot execute. A needle vector that cannot be allocated is not
  modelled.
\<close>

definition counter_report ::
  "'s rng \<Rightarrow> 'o perf \<Rightarrow> (string \<Rightarrow> u32 \<Rightarrow> 'o \<Rightarrow> 'o) \<Rightarrow> bool \<Rightarrow> isa \<Rightarrow> nat \<Rightarrow> nat \<Rightarrow> 's \<Rightarrow> 'o \<Rightarrow> (outcome \<times> 'o) option" where
  "counter_report G P exec x86 host probe_count reps s mach =
     (let (cs, mach) = new_counter_set P mach
      in map_option (map_prod id (close_set P cs))
        (if \<not> all_available cs then Some (Counters_Unavailable (last_errno (branch_misses_c cs)), mach)
         else Option.bind (make_nodes G 1 s) (\<lambda>(nodes, s).
              Option.bind (make_probes G nodes probe_count s) (\<lambda>(probes, s).
              Option.bind (make_append_nodes G 1 s) (\<lambda>(append_nodes, s).
              Option.bind (make_perm_probes G append_nodes probe_count s) (\<lambda>(perm_probes, s).
              map_option (\<lambda>(bad, mach). case bad of
                  Some (name, p) \<Rightarrow> (Disagreement name p, mach)
                | None \<Rightarrow> tables P exec x86 host reps (nodes ! 0) probes (append_nodes ! 0) perm_probes cs mach)
                (gates exec x86 host (nodes ! 0) probes (append_nodes ! 0) perm_probes mach)))))))"

section \<open>The kernels on generated nodes\<close>

text \<open>The machine after some calls.\<close>

definition run_calls :: "(string \<Rightarrow> u32 \<Rightarrow> 'o \<Rightarrow> 'o) \<Rightarrow> (string \<times> u32) list \<Rightarrow> 'o \<Rightarrow> 'o" where
  "run_calls exec = fold (\<lambda>(k, p). exec k p)"

lemma run_calls_append: "run_calls exec (xs @ ys) m = run_calls exec ys (run_calls exec xs m)"
  by (simp add: run_calls_def)

lemma run_calls_keeps: "(\<And>k p m. Q m \<Longrightarrow> Q (exec k p m)) \<Longrightarrow> Q m \<Longrightarrow> Q (run_calls exec calls m)"
  by (induction calls arbitrary: m) (auto simp: run_calls_def)

lemma gate_kernel_None:
  "(\<And>p. call p = reference p) \<Longrightarrow>
   \<exists>calls. gate_kernel (\<lambda>p mach. exec r p (exec k p mach)) call reference probes mach = (None, run_calls exec calls mach)"
proof (induction probes arbitrary: mach)
  case Nil
  then show ?case by (auto simp: run_calls_def intro: exI [of _ "[]"])
next
  case (Cons p ps)
  have same: "call = reference" using Cons.prems by (rule ext)
  from Cons.IH [OF Cons.prems, of "exec r p (exec k p mach)"] obtain calls where
    "gate_kernel (\<lambda>p mach. exec r p (exec k p mach)) call reference ps (exec r p (exec k p mach)) =
      (None, run_calls exec calls (exec r p (exec k p mach)))" by blast
  then show ?case by (intro exI [of _ "(k, p) # (r, p) # calls"]) (simp add: run_calls_def same)
qed

text \<open>A table whose entries name the instruction set of their function.\<close>

definition targets_named :: "'f kernel list \<Rightarrow> bool" where
  "targets_named ks \<longleftrightarrow> (\<forall>k \<in> set ks. k_needs k = built_for (k_fn k))"

lemma tables_targets_named: "targets_named (kernels x86)" "targets_named (lb_kernels x86)" "targets_named (perm_kernels x86)"
  by (auto simp: targets_named_def kernels_def lb_kernels_def perm_kernels_def compiled_defs)

lemma gate_None:
  "targets_named ks \<Longrightarrow> (\<And>k p. k \<in> set ks \<Longrightarrow> call (body_of (k_fn k)) p = reference p) \<Longrightarrow>
   \<exists>calls. gate host exec rname call reference probes ks mach = Some (None, run_calls exec calls mach)"
proof (induction ks arbitrary: mach)
  case Nil
  then show ?case by (auto simp: run_calls_def intro: exI [of _ "[]"])
next
  case (Cons k ks)
  have named: "targets_named ks" "k_needs k = built_for (k_fn k)" using Cons.prems(1) by (auto simp: targets_named_def)
  have agree: "k \<in> set ks \<Longrightarrow> call (body_of (k_fn k)) p = reference p" for k p using Cons.prems(2) by simp
  note IH = Cons.IH [OF named(1) agree]
  show ?case
  proof (cases "runnable (k_needs k) host")
    case True
    obtain calls where "gate_kernel (\<lambda>p mach. exec rname p (exec (k_name k) p mach)) (call (body_of (k_fn k))) reference probes mach =
        (None, run_calls exec calls mach)"
      using gate_kernel_None [of "call (body_of (k_fn k))" reference exec rname "k_name k" probes mach] Cons.prems(2) by auto
    moreover obtain calls' where "gate host exec rname call reference probes ks (run_calls exec calls mach) =
        Some (None, run_calls exec calls' (run_calls exec calls mach))" using IH by blast
    ultimately show ?thesis
      using True named(2) by (intro exI [of _ "calls @ calls'"]) (simp add: runnable_iff_le run_calls_append)
  qed (use IH in simp)
qed

lemma kernels_agree:
  assumes "node_wf n" "sorted_wrt (<) (keys n)" "k \<in> set (kernels x86)"
  shows "body_of (k_fn k) n p = search_scalar_linear n p"
  using autovec.agrees_with_reference [OF assms(1)] branchless.agrees_with_reference [OF assms(1)]
    avx2.agrees_with_reference [OF assms(1)] avx512.agrees_with_reference [OF assms(1)] binary_is_linear [OF assms(1,2)] assms(3)
  by (auto simp: kernels_def compiled_defs split: if_splits)

lemma lb_kernels_agree:
  assumes n: "node_wf n" "sorted_wrt (<) (keys n)" and k: "k \<in> set (lb_kernels x86)"
  shows "body_of (k_fn k) n p = lower_bound_scalar n p"
proof -
  have "sorted (keys n)" using n(2) by (simp add: strict_sorted_iff)
  then show ?thesis
    using line_scalar.lower_bound [OF n(1)] line_branchless.lower_bound [OF n(1)] line_avx2.lower_bound [OF n(1)]
      line_avx512.lower_bound [OF n(1)] k
    by (auto simp: lb_kernels_def compiled_defs split: if_splits)
qed

lemma perm_kernels_agree:
  assumes a: "node_wf n" "slot_perm ss" "sorted_wrt (<) (rank_lanes n ss)" and k: "k \<in> set (perm_kernels x86)"
  shows "body_of (k_fn k) n p (encode ss) = lower_bound_perm_scalar n p (encode ss)"
proof -
  have "sorted (rank_lanes n ss)" using a(3) by (simp add: strict_sorted_iff)
  then show ?thesis
    using perm_avx2.agrees_with_reference [OF a(1,2)] perm_avx512.agrees_with_reference [OF a(1,2)] k
    by (auto simp: perm_kernels_def compiled_defs split: if_splits)
qed

lemma gates_pass:
  assumes n: "node_wf n" "sorted_wrt (<) (keys n)"
    and a: "node_wf (an_node a)" "slot_perm ss" "an_order a = encode ss" "sorted_wrt (<) (rank_lanes (an_node a) ss)"
  shows "\<exists>calls. gates exec x86 host n probes a perm_probes mach = Some (None, run_calls exec calls mach)"
proof -
  have "\<exists>calls. gate host exec ''scalar_linear'' (\<lambda>f. f n) (search_scalar_linear n) probes (kernels x86) m = Some (None, run_calls exec calls m)" for m
    by (rule gate_None [OF tables_targets_named(1)]) (rule kernels_agree [OF n])
  then obtain c1 where 1: "gate host exec ''scalar_linear'' (\<lambda>f. f n) (search_scalar_linear n) probes (kernels x86) mach =
      Some (None, run_calls exec c1 mach)" by blast
  have "\<exists>calls. gate host exec ''lb_scalar'' (\<lambda>f. f n) (lower_bound_scalar n) probes (lb_kernels x86) m = Some (None, run_calls exec calls m)" for m
    by (rule gate_None [OF tables_targets_named(2)]) (rule lb_kernels_agree [OF n])
  then obtain c2 where 2: "gate host exec ''lb_scalar'' (\<lambda>f. f n) (lower_bound_scalar n) probes (lb_kernels x86) (run_calls exec c1 mach) =
      Some (None, run_calls exec c2 (run_calls exec c1 mach))" by blast
  have "\<exists>calls. gate host exec ''perm_scalar'' (\<lambda>f p. f (an_node a) p (an_order a)) (\<lambda>p. lower_bound_perm_scalar (an_node a) p (an_order a))
      perm_probes (perm_kernels x86) m = Some (None, run_calls exec calls m)" for m
    unfolding a(3) by (rule gate_None [OF tables_targets_named(3)]) (rule perm_kernels_agree [OF a(1,2,4)])
  then obtain c3 where 3: "gate host exec ''perm_scalar'' (\<lambda>f p. f (an_node a) p (an_order a)) (\<lambda>p. lower_bound_perm_scalar (an_node a) p (an_order a))
      perm_probes (perm_kernels x86) (run_calls exec (c1 @ c2) mach) = Some (None, run_calls exec c3 (run_calls exec (c1 @ c2) mach))" by blast
  show ?thesis using 1 2 3 by (intro exI [of _ "c1 @ c2 @ c3"]) (simp add: gates_def run_calls_append)
qed

text \<open>One node and its needles, sorted or in insertion order: what both benchmarks run their kernels on.\<close>

lemma sorted_workload:
  assumes G: "rng_contract G" "fair G"
  obtains n probes s1 s2 where "make_nodes G 1 s = Some ([n], s1)" "make_probes G [n] m s1 = Some (probes, s2)"
    "length probes = m" "node_wf n" "sorted_wrt (<) (keys n)"
proof -
  obtain n s1 where n: "make_node G s = Some (n, s1)" "node_wf n" "sorted_wrt (<) (keys n)" by (rule make_node_ok [OF G])
  have "\<exists>k s'. make_probe G [n] s = Some (k, s') \<and> (present_in [n] k \<longleftrightarrow> fst (draw_hit G s))" for s
    by (rule make_probe_mix [OF G]) (use n(2) in \<open>simp_all add: node_consts\<close>)
  from generate_ok [where f = "make_probe G [n]" and n = m and s = s1, OF this]
  show thesis using that n by (auto simp: make_nodes_def make_probes_def)
qed

lemma append_workload:
  assumes G: "rng_contract G" "fair G"
  obtains a ss probes s1 s2 where "make_append_nodes G 1 s = Some ([a], s1)" "make_perm_probes G [a] m s1 = Some (probes, s2)"
    "length probes = m" "node_wf (an_node a)" "slot_perm ss" "an_order a = encode ss" "sorted_wrt (<) (rank_lanes (an_node a) ss)"
proof -
  obtain a s1 ss where a: "make_append_node G s = Some (a, s1)" "slot_perm ss" "an_order a = encode ss" "node_wf (an_node a)"
    "sorted_wrt (<) (rank_lanes (an_node a) ss)" by (rule make_append_node_ok [OF G])
  have "\<exists>k s'. make_perm_probe G [a] s = Some (k, s') \<and> (present_anywhere [a] k \<longleftrightarrow> fst (draw_hit G s))" for s
    by (rule make_perm_probe_mix [OF G]) (simp_all add: node_consts)
  from generate_ok [where f = "make_perm_probe G [a]" and n = m and s = s1, OF this]
  show thesis using that a by (auto simp: make_append_nodes_def make_perm_probes_def)
qed

section \<open>The counter windows\<close>

text \<open>
  \<open>view mach d\<close>: the event an open descriptor counts, whether it is enabled, and its count; \<open>ev k e p mach\<close>: how many
  events \<open>e\<close> one call of kernel \<open>k\<close> on needle \<open>p\<close> causes on a machine in state \<open>mach\<close>.
\<close>

type_synonym 'o view = "'o \<Rightarrow> int \<Rightarrow> (hw_event \<times> bool \<times> nat) option"

definition perf_contract ::
  "'o perf \<Rightarrow> (string \<Rightarrow> u32 \<Rightarrow> 'o \<Rightarrow> 'o) \<Rightarrow> 'o view \<Rightarrow> (string \<Rightarrow> hw_event \<Rightarrow> u32 \<Rightarrow> 'o \<Rightarrow> nat) \<Rightarrow> bool" where
  "perf_contract P exec view ev \<longleftrightarrow>
     (\<forall>e m d err m'. perf_event_open P e m = ((d, err), m') \<longrightarrow>
        view m' = (if d < 0 then view m else (view m)(d \<mapsto> (e, False, 0))) \<and> (0 \<le> d \<longrightarrow> view m d = None)) \<and>
     (\<forall>d m e on n. view m d = Some (e, on, n) \<longrightarrow>
        view (ioctl_reset P d m) = (view m)(d \<mapsto> (e, on, 0)) \<and>
        view (ioctl_enable P d m) = (view m)(d \<mapsto> (e, True, n)) \<and>
        view (ioctl_disable P d m) = (view m)(d \<mapsto> (e, False, n)) \<and>
        fst (read_value P d m) = Some (of_nat n) \<and> view (snd (read_value P d m)) = view m \<and>
        view (close_event P d m) = (view m)(d := None)) \<and>
     (\<forall>k p m d. view (exec k p m) d = map_option (\<lambda>(e, on, n). (e, on, if on then n + ev k e p m else n)) (view m d))"

lemma perf_operations:
  assumes "perf_contract P exec view ev" "view m d = Some (e, on, n)"
  shows "view (ioctl_reset P d m) = (view m)(d \<mapsto> (e, on, 0))" "view (ioctl_enable P d m) = (view m)(d \<mapsto> (e, True, n))"
    "view (ioctl_disable P d m) = (view m)(d \<mapsto> (e, False, n))"
    "fst (read_value P d m) = Some (of_nat n)" "view (snd (read_value P d m)) = view m" "view (close_event P d m) = (view m)(d := None)"
  using assms by (simp_all add: perf_contract_def)

fun counter_of :: "counter_set \<Rightarrow> hw_event \<Rightarrow> counter" where
  "counter_of cs CPU_CYCLES = cycles_c cs"
| "counter_of cs REF_CPU_CYCLES = ref_cycles_c cs"
| "counter_of cs INSTRUCTIONS = instructions_c cs"
| "counter_of cs BRANCH_INSTRUCTIONS = branches_c cs"
| "counter_of cs BRANCH_MISSES = branch_misses_c cs"

lemma all_available_iff: "all_available cs \<longleftrightarrow> (\<forall>e. 0 \<le> fd (counter_of cs e))"
  by (metis (full_types) all_available_def available_def counter_of.simps hw_event.exhaust)

text \<open>Every counter of the set is open on its event, enabled as \<open>on\<close> says, at the count \<open>n\<close> gives.\<close>

definition counters_at :: "'o view \<Rightarrow> counter_set \<Rightarrow> (hw_event \<Rightarrow> bool) \<Rightarrow> (hw_event \<Rightarrow> nat) \<Rightarrow> 'o \<Rightarrow> bool" where
  "counters_at view cs on n m \<longleftrightarrow> (\<forall>e. 0 \<le> fd (counter_of cs e) \<and> view m (fd (counter_of cs e)) = Some (e, on e, n e))"

lemma counters_at_apart: "counters_at view cs on n m \<Longrightarrow> e \<noteq> e' \<Longrightarrow> fd (counter_of cs e) \<noteq> fd (counter_of cs e')"
  unfolding counters_at_def by (metis option.inject prod.inject)

lemma counters_at_update:
  assumes "counters_at view cs on n m" "view m' = (view m)(fd (counter_of cs e) \<mapsto> (e, b, k))"
  shows "counters_at view cs (on(e := b)) (n(e := k)) m'"
  unfolding counters_at_def
proof (intro allI)
  fix e'
  show "0 \<le> fd (counter_of cs e') \<and> view m' (fd (counter_of cs e')) = Some (e', (on(e := b)) e', (n(e := k)) e')"
    using assms counters_at_apart [OF assms(1), of e e'] by (cases "e' = e") (auto simp: counters_at_def)
qed

lemma start_counter:
  assumes P: "perf_contract P exec view ev" and at: "counters_at view cs on n m"
  shows "counters_at view cs (on(e := True)) (n(e := 0)) (start P (counter_of cs e) m)"
proof -
  let ?d = "fd (counter_of cs e)"
  have d: "0 \<le> ?d" "view m ?d = Some (e, on e, n e)" using at by (simp_all add: counters_at_def)
  note reset = perf_operations(1) [OF P d(2)]
  then have "view (ioctl_enable P ?d (ioctl_reset P ?d m)) = (view m)(?d \<mapsto> (e, True, 0))"
    using perf_operations(2) [OF P, of "ioctl_reset P ?d m" ?d e "on e" 0] by simp
  then show ?thesis using counters_at_update [OF at] d by (simp add: start_def)
qed

lemma stop_counter:
  assumes P: "perf_contract P exec view ev" and at: "counters_at view cs on n m"
  shows "\<exists>m'. stop P (counter_of cs e) m = (of_nat (n e), m') \<and> counters_at view cs (on(e := False)) n m'"
proof -
  let ?d = "fd (counter_of cs e)"
  have d: "0 \<le> ?d" "view m ?d = Some (e, on e, n e)" using at by (simp_all add: counters_at_def)
  note dis = perf_operations(3) [OF P d(2)]
  then have rd: "fst (read_value P ?d (ioctl_disable P ?d m)) = Some (of_nat (n e))"
    "view (snd (read_value P ?d (ioctl_disable P ?d m))) = (view m)(?d \<mapsto> (e, False, n e))"
    using perf_operations(4,5) [OF P, of "ioctl_disable P ?d m" ?d e False "n e"] dis by simp_all
  then show ?thesis
    using counters_at_update [OF at rd(2)] d by (cases "read_value P ?d (ioctl_disable P ?d m)") (simp add: stop_def)
qed

lemma start_all_counters:
  assumes P: "perf_contract P exec view ev" and at: "counters_at view cs on n m"
  shows "counters_at view cs (\<lambda>_. True) (\<lambda>_. 0) (start_all P cs m)"
proof -
  note start = start_counter [OF P]
  have "counters_at view cs (on(CPU_CYCLES := True, REF_CPU_CYCLES := True, INSTRUCTIONS := True, BRANCH_INSTRUCTIONS := True, BRANCH_MISSES := True))
      (n(CPU_CYCLES := 0, REF_CPU_CYCLES := 0, INSTRUCTIONS := 0, BRANCH_INSTRUCTIONS := 0, BRANCH_MISSES := 0)) (start_all P cs m)"
    unfolding start_all_def counter_of.simps [of cs, symmetric] by (intro start at)
  then show ?thesis unfolding counters_at_def by (auto split: hw_event.splits) (metis (full_types) hw_event.exhaust)+
qed

definition reading_of :: "(hw_event \<Rightarrow> nat) \<Rightarrow> reading" where
  "reading_of n =
     \<lparr>r_cycles = of_nat (n CPU_CYCLES), r_ref_cycles = of_nat (n REF_CPU_CYCLES), r_instructions = of_nat (n INSTRUCTIONS),
      r_branches = of_nat (n BRANCH_INSTRUCTIONS), r_branch_misses = of_nat (n BRANCH_MISSES)\<rparr>"

lemma stop_all_counters:
  assumes P: "perf_contract P exec view ev" and at: "counters_at view cs on n m"
  shows "\<exists>m' on'. stop_all P cs m = (reading_of n, m') \<and> counters_at view cs on' n m'"
proof -
  note stop = stop_counter [OF P]
  obtain m1 where 1: "stop P (branch_misses_c cs) m = (of_nat (n BRANCH_MISSES), m1)" "counters_at view cs (on(BRANCH_MISSES := False)) n m1"
    using stop [OF at, of BRANCH_MISSES] by auto
  obtain m2 on2 where 2: "stop P (branches_c cs) m1 = (of_nat (n BRANCH_INSTRUCTIONS), m2)" "counters_at view cs on2 n m2"
    using stop [OF 1(2), of BRANCH_INSTRUCTIONS] by auto
  obtain m3 on3 where 3: "stop P (instructions_c cs) m2 = (of_nat (n INSTRUCTIONS), m3)" "counters_at view cs on3 n m3"
    using stop [OF 2(2), of INSTRUCTIONS] by auto
  obtain m4 on4 where 4: "stop P (ref_cycles_c cs) m3 = (of_nat (n REF_CPU_CYCLES), m4)" "counters_at view cs on4 n m4"
    using stop [OF 3(2), of REF_CPU_CYCLES] by auto
  obtain m5 on5 where 5: "stop P (cycles_c cs) m4 = (of_nat (n CPU_CYCLES), m5)" "counters_at view cs on5 n m5"
    using stop [OF 4(2), of CPU_CYCLES] by auto
  show ?thesis using 1(1) 2(1) 3(1) 4(1) 5 by (auto simp: stop_all_def reading_of_def)
qed

text \<open>The events of one pass over the needles that begins in the state \<open>m\<close>.\<close>

fun pass_events :: "(string \<Rightarrow> u32 \<Rightarrow> 'o \<Rightarrow> 'o) \<Rightarrow> (string \<Rightarrow> hw_event \<Rightarrow> u32 \<Rightarrow> 'o \<Rightarrow> nat) \<Rightarrow> string \<Rightarrow> u32 list \<Rightarrow> 'o \<Rightarrow> hw_event \<Rightarrow> nat" where
  "pass_events exec ev k [] m e = 0"
| "pass_events exec ev k (p # ps) m e = ev k e p m + pass_events exec ev k ps (exec k p m) e"

lemma probe_loop_counters:
  assumes P: "perf_contract P exec view ev"
  shows "counters_at view cs on n m \<Longrightarrow>
    probe_loop call (exec k) probes (acc, m) = (acc + (\<Sum>p \<leftarrow> probes. call p), fold (exec k) probes m) \<and>
    counters_at view cs on (\<lambda>e. if on e then n e + pass_events exec ev k probes m e else n e) (fold (exec k) probes m)"
proof (induction probes arbitrary: n acc m)
  case Nil
  then show ?case by (simp add: probe_loop_def cong: if_cong)
next
  case (Cons p probes)
  have "counters_at view cs on (\<lambda>e. if on e then n e + ev k e p m else n e) (exec k p m)"
    using Cons.prems P by (simp add: counters_at_def perf_contract_def)
  from Cons.IH [OF this, of "acc + call p"] show ?case
    by (simp add: probe_loop_def add.assoc cong: if_cong)
qed

definition counters_open :: "'o view \<Rightarrow> counter_set \<Rightarrow> 'o \<Rightarrow> bool" where
  "counters_open view cs m \<longleftrightarrow> (\<exists>on n. counters_at view cs on n m)"

lemma run_calls_open:
  assumes P: "perf_contract P exec view ev"
  shows "counters_open view cs m \<Longrightarrow> counters_open view cs (run_calls exec calls m)"
proof (rule run_calls_keeps)
  fix k p m assume "counters_open view cs m"
  then obtain on n where "counters_at view cs on n m" by (auto simp: counters_open_def)
  then have "counters_at view cs on (\<lambda>e. if on e then n e + ev k e p m else n e) (exec k p m)"
    using P by (simp add: counters_at_def perf_contract_def)
  then show "counters_open view cs (exec k p m)" by (auto simp: counters_open_def)
qed

text \<open>
  The readings a kernel should have: in each repetition a first pass that is not counted, the counters started on the
  machine it leaves behind, and the events of the pass that follows. The next repetition begins where this one ends.
\<close>

fun second_passes ::
  "'o perf \<Rightarrow> (string \<Rightarrow> u32 \<Rightarrow> 'o \<Rightarrow> 'o) \<Rightarrow> (string \<Rightarrow> hw_event \<Rightarrow> u32 \<Rightarrow> 'o \<Rightarrow> nat) \<Rightarrow> counter_set \<Rightarrow> string \<Rightarrow> u32 list \<Rightarrow>
   nat \<Rightarrow> 'o \<Rightarrow> reading list \<times> 'o" where
  "second_passes P exec ev cs k probes 0 m = ([], m)"
| "second_passes P exec ev cs k probes (Suc reps) m =
     (let warm = start_all P cs (fold (exec k) probes m);
          done = snd (stop_all P cs (fold (exec k) probes warm));
          (xs, m') = second_passes P exec ev cs k probes reps done
      in (reading_of (pass_events exec ev k probes warm) # xs, m'))"

lemma measure_calls_counters:
  fixes k :: string and probes :: "u32 list"
  assumes P: "perf_contract P exec view ev" and opened: "counters_open view cs m"
  defines "warm \<equiv> start_all P cs (fold (exec k) probes m)"
  defines "done \<equiv> snd (stop_all P cs (fold (exec k) probes warm))"
  shows "measure_calls P (exec k) call probes cs m =
      ((reading_of (pass_events exec ev k probes warm), 2 * (\<Sum>p \<leftarrow> probes. call p)), done)" and "counters_open view cs done"
proof -
  let ?s = "\<Sum>p \<leftarrow> probes. call p"
  obtain on n where "counters_at view cs on n m" using opened by (auto simp: counters_open_def)
  then obtain n1 where 1: "probe_loop call (exec k) probes (0, m) = (?s, fold (exec k) probes m)"
    "counters_at view cs on n1 (fold (exec k) probes m)"
    using probe_loop_counters [OF P, of cs on n m call k probes 0] by auto
  have w: "counters_at view cs (\<lambda>_. True) (\<lambda>_. 0) warm" unfolding warm_def by (rule start_all_counters [OF P 1(2)])
  have 2: "probe_loop call (exec k) probes (?s, warm) = (2 * ?s, fold (exec k) probes warm)"
    "counters_at view cs (\<lambda>_. True) (pass_events exec ev k probes warm) (fold (exec k) probes warm)"
    using probe_loop_counters [OF P w, of call k probes ?s] by (simp_all add: mult_2)
  obtain m3 on3 where 3: "stop_all P cs (fold (exec k) probes warm) = (reading_of (pass_events exec ev k probes warm), m3)"
    "counters_at view cs on3 (pass_events exec ev k probes warm) m3"
    using stop_all_counters [OF P 2(2)] by blast
  have "done = m3" by (simp add: done_def 3(1))
  then show "measure_calls P (exec k) call probes cs m = ((reading_of (pass_events exec ev k probes warm), 2 * ?s), done)"
    using 1(1) 2(1) 3(1) by (simp add: measure_calls_def warm_def [symmetric])
  show "counters_open view cs done" using 3(2) \<open>done = m3\<close> by (auto simp: counters_open_def)
qed

lemma report_counters:
  assumes P: "perf_contract P exec view ev"
  shows "counters_open view cs m \<Longrightarrow>
    report reps (measure_calls P (exec k) call probes cs) m = second_passes P exec ev cs k probes reps m \<and>
    counters_open view cs (snd (second_passes P exec ev cs k probes reps m))"
proof (induction reps arbitrary: m)
  case (Suc reps)
  note one = measure_calls_counters [OF P Suc.prems, where k = k and probes = probes]
  from Suc.IH [OF one(2)] show ?case by (simp add: one(1) Let_def split_beta)
qed simp

lemma new_counter_view:
  assumes P: "perf_contract P exec view ev" and "new_counter P e name m = (c, m')" "0 \<le> fd c"
  shows "view m (fd c) = None" "view m' = (view m)(fd c \<mapsto> (e, False, 0))"
  using assms unfolding perf_contract_def by (auto simp: new_counter_def split: prod.splits)

text \<open>The five descriptors a lawful system hands out are open on their five events.\<close>

lemma new_counter_set_open:
  assumes P: "perf_contract P exec view ev" and new: "new_counter_set P m = (cs, m')" and all: "all_available cs"
  shows "counters_open view cs m'"
proof -
  obtain c m1 where 1: "new_counter P CPU_CYCLES ''cycles'' m = (c, m1)" by fastforce
  obtain rc m2 where 2: "new_counter P REF_CPU_CYCLES ''ref-cycles'' m1 = (rc, m2)" by fastforce
  obtain i m3 where 3: "new_counter P INSTRUCTIONS ''instructions'' m2 = (i, m3)" by fastforce
  obtain b m4 where 4: "new_counter P BRANCH_INSTRUCTIONS ''branches'' m3 = (b, m4)" by fastforce
  obtain bm m5 where 5: "new_counter P BRANCH_MISSES ''branch-misses'' m4 = (bm, m5)" by fastforce
  have cs: "cs = \<lparr>cycles_c = c, ref_cycles_c = rc, instructions_c = i, branches_c = b, branch_misses_c = bm\<rparr>" "m' = m5"
    using new 1 2 3 4 5 by (simp_all add: new_counter_set_def)
  have fds: "0 \<le> fd c" "0 \<le> fd rc" "0 \<le> fd i" "0 \<le> fd b" "0 \<le> fd bm" using all by (simp_all add: cs all_available_def available_def)
  note v1 = new_counter_view [OF P 1 fds(1)]
  note v2 = new_counter_view [OF P 2 fds(2), unfolded v1(2)]
  note v3 = new_counter_view [OF P 3 fds(3), unfolded v2(2)]
  note v4 = new_counter_view [OF P 4 fds(4), unfolded v3(2)]
  note v5 = new_counter_view [OF P 5 fds(5), unfolded v4(2)]
  have "0 \<le> fd (counter_of cs e) \<and> view m' (fd (counter_of cs e)) = Some (e, False, 0)" for e
    using fds v2(1) v3(1) v4(1) v5 by (cases e) (auto simp: cs split: if_splits)
  then have "counters_at view cs (\<lambda>_. False) (\<lambda>_. 0) m'" by (simp add: counters_at_def)
  then show ?thesis unfolding counters_open_def by blast
qed

text \<open>
  What the tables should hold: a kernel is measured exactly when the host has the instruction set its function is
  compiled for, the kernels one after the other.
\<close>

fun expected_rows ::
  "'o perf \<Rightarrow> (string \<Rightarrow> u32 \<Rightarrow> 'o \<Rightarrow> 'o) \<Rightarrow> (string \<Rightarrow> hw_event \<Rightarrow> u32 \<Rightarrow> 'o \<Rightarrow> nat) \<Rightarrow> counter_set \<Rightarrow> isa \<Rightarrow> nat \<Rightarrow> u32 list \<Rightarrow>
   'f kernel list \<Rightarrow> 'o \<Rightarrow> row list \<times> 'o" where
  "expected_rows P exec ev cs host reps probes [] m = ([], m)"
| "expected_rows P exec ev cs host reps probes (k # ks) m =
     (if built_for (k_fn k) \<le> host
      then (let (xs, m) = second_passes P exec ev cs (k_name k) probes reps m;
                (rows, m) = expected_rows P exec ev cs host reps probes ks m
            in (Measured (k_name k) xs # rows, m))
      else (let (rows, m) = expected_rows P exec ev cs host reps probes ks m
            in (Skipped (k_name k) (skip_reason (built_for (k_fn k))) # rows, m)))"

lemma table_counters:
  assumes P: "perf_contract P exec view ev"
  shows "targets_named ks \<Longrightarrow> counters_open view cs m \<Longrightarrow>
    kernel_table host reps (\<lambda>k. measure_calls P (exec (k_name k)) (call k) probes cs) ks m = expected_rows P exec ev cs host reps probes ks m \<and>
    counters_open view cs (snd (expected_rows P exec ev cs host reps probes ks m))"
proof (induction ks arbitrary: m)
  case (Cons k ks)
  have named: "targets_named ks" "k_needs k = built_for (k_fn k)" using Cons.prems(1) by (auto simp: targets_named_def)
  note one = report_counters [OF P, where reps = reps and k = "k_name k" and call = "call k" and probes = probes and m = m]
  show ?case
  proof (cases "built_for (k_fn k) \<le> host")
    case True
    then show ?thesis using one Cons.IH [OF named(1)] Cons.prems(2) named(2) by (simp add: runnable_iff_le Let_def split_beta)
  next
    case False
    then show ?thesis using Cons.IH [OF named(1)] Cons.prems(2) named(2) by (simp add: runnable_iff_le Let_def split_beta)
  qed
qed simp

lemma tables_counters:
  assumes P: "perf_contract P exec view ev" and opened: "counters_open view cs m"
    and eq: "expected_rows P exec ev cs host reps probes (kernels x86) m = (eq_rows, m1)"
    and lb: "expected_rows P exec ev cs host reps probes (lb_kernels x86) m1 = (lb_rows, m2)"
    and perm: "expected_rows P exec ev cs host reps perm_probes (perm_kernels x86) m2 = (perm_rows, m3)"
  shows "tables P exec x86 host reps n probes a perm_probes cs m = (Reported eq_rows lb_rows perm_rows, m3)"
proof -
  note table = table_counters [OF P, where host = host and reps = reps]
  have 1: "kernel_table host reps (\<lambda>k. measure_eq P (exec (k_name k)) (body_of (k_fn k)) n probes cs) (kernels x86) m = (eq_rows, m1)"
    "counters_open view cs m1"
    using table [OF tables_targets_named(1) opened, of "\<lambda>k. body_of (k_fn k) n" probes x86] eq by (simp_all add: measure_eq_def)
  have 2: "kernel_table host reps (\<lambda>k. measure_lb P (exec (k_name k)) (body_of (k_fn k)) n probes cs) (lb_kernels x86) m1 = (lb_rows, m2)"
    "counters_open view cs m2"
    using table [OF tables_targets_named(2) 1(2), of "\<lambda>k. body_of (k_fn k) n" probes x86] lb by (simp_all add: measure_lb_def)
  have 3: "kernel_table host reps (\<lambda>k. measure_perm P (exec (k_name k)) (body_of (k_fn k)) a perm_probes cs) (perm_kernels x86) m2 =
      (perm_rows, m3)"
    using table [OF tables_targets_named(3) 2(2), of "\<lambda>k p. body_of (k_fn k) (an_node a) p (an_order a)" perm_probes x86] perm
    by (simp add: measure_perm_def)
  show ?thesis by (simp add: tables_def 1(1) 2(1) 3)
qed

section \<open>The open descriptors\<close>

lemma close_dom:
  assumes "perf_contract P exec view ev" "0 \<le> fd c \<longrightarrow> fd c \<in> dom (view m)"
  shows "dom (view (close_counter P c m)) = dom (view m) - {d. d = fd c \<and> 0 \<le> d}"
proof (cases "0 \<le> fd c")
  case True
  then obtain e on n where "view m (fd c) = Some (e, on, n)" using assms(2) by fastforce
  from perf_operations(6) [OF assms(1) this] show ?thesis using True by (auto simp: close_counter_def)
qed (auto simp: close_counter_def)

lemma start_dom:
  assumes P: "perf_contract P exec view ev" and d: "fd c \<in> dom (view m)"
  shows "dom (view (start P c m)) = dom (view m)"
proof -
  obtain e on n where v: "view m (fd c) = Some (e, on, n)" using d by fastforce
  note r = perf_operations(1) [OF P v]
  then have "view (ioctl_enable P (fd c) (ioctl_reset P (fd c) m)) = (view m)(fd c \<mapsto> (e, True, 0))"
    using perf_operations(2) [OF P, of "ioctl_reset P (fd c) m" "fd c" e on 0] by simp
  then show ?thesis using d by (auto simp: start_def)
qed

lemma stop_dom:
  assumes P: "perf_contract P exec view ev" and d: "fd c \<in> dom (view m)"
  shows "dom (view (snd (stop P c m))) = dom (view m)"
proof -
  obtain e on n where v: "view m (fd c) = Some (e, on, n)" using d by fastforce
  let ?m = "ioctl_disable P (fd c) m"
  have dis: "view ?m = (view m)(fd c \<mapsto> (e, False, n))" by (rule perf_operations(3) [OF P v])
  then have "view (snd (read_value P (fd c) ?m)) = view ?m" using perf_operations(5) [OF P, of ?m "fd c" e False n] by simp
  then have "dom (view (snd (read_value P (fd c) ?m))) = dom (view m)" using dis d by auto
  then show ?thesis by (simp add: stop_def split: prod.split option.split) (metis snd_conv)
qed

lemma exec_dom: "perf_contract P exec view ev \<Longrightarrow> dom (view (exec k p m)) = dom (view m)"
  unfolding perf_contract_def by (auto simp: dom_def)

text \<open>The five descriptors are open, and no others than those in \<open>D\<close>.\<close>

definition holds_open :: "'o view \<Rightarrow> counter_set \<Rightarrow> int set \<Rightarrow> 'o \<Rightarrow> bool" where
  "holds_open view cs D m \<longleftrightarrow> dom (view m) = D \<and> (\<forall>e. fd (counter_of cs e) \<in> D)"

lemma holds_open_five:
  assumes "holds_open view cs D m"
  shows "dom (view m) = D" "fd (cycles_c cs) \<in> D" "fd (ref_cycles_c cs) \<in> D" "fd (instructions_c cs) \<in> D"
    "fd (branches_c cs) \<in> D" "fd (branch_misses_c cs) \<in> D"
  using assms unfolding holds_open_def by (metis counter_of.simps)+

lemma start_all_open: "perf_contract P exec view ev \<Longrightarrow> holds_open view cs D m \<Longrightarrow> holds_open view cs D (start_all P cs m)"
  using holds_open_five [of view cs D m] by (simp add: start_all_def holds_open_def start_dom)

lemma stop_all_open: "perf_contract P exec view ev \<Longrightarrow> holds_open view cs D m \<Longrightarrow> holds_open view cs D (snd (stop_all P cs m))"
  using holds_open_five [of view cs D m] by (simp add: stop_all_def holds_open_def stop_dom Let_def split_beta)

lemma probe_loop_open:
  assumes P: "perf_contract P exec view ev"
  shows "holds_open view cs D (snd am) \<Longrightarrow> holds_open view cs D (snd (probe_loop call (exec k) probes am))"
proof (induction probes arbitrary: am)
  case (Cons p probes)
  have "holds_open view cs D (exec k p (snd am))" using Cons.prems by (simp add: holds_open_def exec_dom [OF P])
  from Cons.IH [of "(fst am + call p, exec k p (snd am))"] this show ?case by (simp add: probe_loop_def split_beta)
qed (simp add: probe_loop_def)

lemma measure_calls_open:
  assumes P: "perf_contract P exec view ev" and m: "holds_open view cs D m"
  shows "holds_open view cs D (snd (measure_calls P (exec k) call probes cs m))"
  using m by (simp add: measure_calls_def Let_def split_beta stop_all_open [OF P] probe_loop_open [OF P] start_all_open [OF P])

lemma report_open:
  assumes "\<And>m. Q m \<Longrightarrow> Q (snd (take_reading m))"
  shows "Q m \<Longrightarrow> Q (snd (report reps take_reading m))"
  by (induction reps arbitrary: m) (simp_all add: assms split_beta Let_def)

lemma kernel_table_open:
  assumes "\<And>k m. Q m \<Longrightarrow> Q (snd (measure_k k m))"
  shows "Q m \<Longrightarrow> Q (snd (kernel_table host reps measure_k ks m))"
  by (induction ks arbitrary: m) (simp_all add: report_open [where Q = Q, OF assms] split_beta Let_def)

lemma tables_open:
  assumes P: "perf_contract P exec view ev" and m: "holds_open view cs D m"
  shows "holds_open view cs D (snd (tables P exec x86 host reps n probes a perm_probes cs m))"
  using m unfolding tables_def measure_eq_def measure_lb_def measure_perm_def
  by (simp add: Let_def split_beta kernel_table_open [where Q = "holds_open view cs D"] measure_calls_open [OF P])

text \<open>The descriptors of a set: apart from each other, closed one after the other.\<close>

definition fds :: "counter_set \<Rightarrow> hw_event set \<Rightarrow> int set" where
  "fds cs E = {d. 0 \<le> d \<and> (\<exists>e \<in> E. d = fd (counter_of cs e))}"

definition fds_apart :: "counter_set \<Rightarrow> bool" where
  "fds_apart cs \<longleftrightarrow> (\<forall>e e'. 0 \<le> fd (counter_of cs e) \<longrightarrow> fd (counter_of cs e) = fd (counter_of cs e') \<longrightarrow> e = e')"

lemma all_events: "(\<exists>e. Q e) \<longleftrightarrow> Q CPU_CYCLES \<or> Q REF_CPU_CYCLES \<or> Q INSTRUCTIONS \<or> Q BRANCH_INSTRUCTIONS \<or> Q BRANCH_MISSES"
  by (metis (full_types) hw_event.exhaust)

lemma new_counter_dom:
  assumes P: "perf_contract P exec view ev" and new: "new_counter P e name m = (c, m')"
  shows "dom (view m') = dom (view m) \<union> {d. 0 \<le> d \<and> d = fd c}" "0 \<le> fd c \<Longrightarrow> fd c \<notin> dom (view m)"
proof -
  show "dom (view m') = dom (view m) \<union> {d. 0 \<le> d \<and> d = fd c}"
  proof (cases "0 \<le> fd c")
    case True
    then show ?thesis using new_counter_view(2) [OF P new] by auto
  next
    case False
    obtain d err m1 where o: "perf_event_open P e m = ((d, err), m1)" by (metis surj_pair)
    then have "d < 0" "m1 = m'" using new False by (auto simp: new_counter_def)
    then have "view m' = view m" using P o unfolding perf_contract_def by metis
    then show ?thesis using False by auto
  qed
  show "fd c \<notin> dom (view m)" if "0 \<le> fd c" using new_counter_view(1) [OF P new that] by auto
qed

lemma new_counter_set_dom:
  assumes P: "perf_contract P exec view ev" and new: "new_counter_set P m = (cs, m')"
  shows "fds_apart cs" "fds cs UNIV \<inter> dom (view m) = {}" "dom (view m') = dom (view m) \<union> fds cs UNIV"
proof -
  obtain c m1 where 1: "new_counter P CPU_CYCLES ''cycles'' m = (c, m1)" by fastforce
  obtain rc m2 where 2: "new_counter P REF_CPU_CYCLES ''ref-cycles'' m1 = (rc, m2)" by fastforce
  obtain i m3 where 3: "new_counter P INSTRUCTIONS ''instructions'' m2 = (i, m3)" by fastforce
  obtain b m4 where 4: "new_counter P BRANCH_INSTRUCTIONS ''branches'' m3 = (b, m4)" by fastforce
  obtain bm m5 where 5: "new_counter P BRANCH_MISSES ''branch-misses'' m4 = (bm, m5)" by fastforce
  have cs: "cs = \<lparr>cycles_c = c, ref_cycles_c = rc, instructions_c = i, branches_c = b, branch_misses_c = bm\<rparr>" "m' = m5"
    using new 1 2 3 4 5 by (simp_all add: new_counter_set_def)
  note d = new_counter_dom [OF P 1] new_counter_dom [OF P 2] new_counter_dom [OF P 3] new_counter_dom [OF P 4] new_counter_dom [OF P 5]
  have fds: "fds cs UNIV = {d. 0 \<le> d \<and> d \<in> {fd c, fd rc, fd i, fd b, fd bm}}" by (auto simp: fds_def all_events cs)
  show "fds cs UNIV \<inter> dom (view m) = {}" "dom (view m') = dom (view m) \<union> fds cs UNIV"
    using d unfolding fds cs(2) by auto
  have apart: "0 \<le> fd c \<Longrightarrow> fd c \<notin> {fd rc, fd i, fd b, fd bm}" "0 \<le> fd rc \<Longrightarrow> fd rc \<notin> {fd i, fd b, fd bm}"
    "0 \<le> fd i \<Longrightarrow> fd i \<notin> {fd b, fd bm}" "0 \<le> fd b \<Longrightarrow> fd b \<noteq> fd bm"
    using d by auto
  show "fds_apart cs"
    unfolding fds_apart_def
  proof (intro allI impI)
    fix e e' assume "0 \<le> fd (counter_of cs e)" "fd (counter_of cs e) = fd (counter_of cs e')"
    then show "e = e'" using apart by (cases e; cases e') (auto simp: cs)
  qed
qed

lemma close_one:
  assumes P: "perf_contract P exec view ev" and "fds_apart cs" "fds cs UNIV \<subseteq> D" "e \<notin> E"
    and m: "dom (view m) = D - fds cs E"
  shows "dom (view (close_counter P (counter_of cs e) m)) = D - fds cs (insert e E)"
proof -
  have "0 \<le> fd (counter_of cs e) \<longrightarrow> fd (counter_of cs e) \<in> dom (view m)"
    using assms(2-4) unfolding m fds_apart_def fds_def by blast
  from close_dom [OF P this] show ?thesis by (auto simp: m fds_def)
qed

lemma close_set_dom:
  assumes P: "perf_contract P exec view ev" and "fds_apart cs" "fds cs UNIV \<subseteq> dom (view m)"
  shows "dom (view (close_set P cs m)) = dom (view m) - fds cs UNIV"
proof -
  note close = close_one [OF P assms(2,3)]
  have none: "dom (view m) = dom (view m) - fds cs {}" by (simp add: fds_def)
  have "dom (view (close_set P cs m)) =
      dom (view m) - fds cs {CPU_CYCLES, REF_CPU_CYCLES, INSTRUCTIONS, BRANCH_INSTRUCTIONS, BRANCH_MISSES}"
    unfolding close_set_def counter_of.simps [of cs, symmetric] by (intro close none) simp_all
  moreover have "{CPU_CYCLES, REF_CPU_CYCLES, INSTRUCTIONS, BRANCH_INSTRUCTIONS, BRANCH_MISSES} = UNIV"
    by (auto intro: hw_event.exhaust)
  ultimately show ?thesis by simp
qed

lemma available_open:
  assumes "all_available cs" "fds cs UNIV \<subseteq> dom (view m)"
  shows "holds_open view cs (dom (view m)) m"
  using assms unfolding holds_open_def all_available_iff fds_def by blast

section \<open>A machine\<close>

text \<open>
  Descriptors index a list of events, each open or closed. The machine remembers the needle of the last call: a call on
  another one costs as many events as its needle says, a call on the same one none.
\<close>

type_synonym list_machine = "u32 \<times> (hw_event \<times> bool \<times> nat) option list"

definition list_perf :: "list_machine perf" where
  "list_perf =
     \<lparr>perf_event_open = (\<lambda>e (l, m). ((int (length m), 0), (l, m @ [Some (e, False, 0)]))),
      ioctl_reset = (\<lambda>d (l, m). (l, m[nat d := map_option (\<lambda>(e, on, n). (e, on, 0)) (m ! nat d)])),
      ioctl_enable = (\<lambda>d (l, m). (l, m[nat d := map_option (\<lambda>(e, on, n). (e, True, n)) (m ! nat d)])),
      ioctl_disable = (\<lambda>d (l, m). (l, m[nat d := map_option (\<lambda>(e, on, n). (e, False, n)) (m ! nat d)])),
      read_value = (\<lambda>d (l, m). (map_option (\<lambda>(e, on, n). of_nat n) (m ! nat d), (l, m))),
      close_event = (\<lambda>d (l, m). (l, m[nat d := None]))\<rparr>"

definition list_ev :: "string \<Rightarrow> hw_event \<Rightarrow> u32 \<Rightarrow> list_machine \<Rightarrow> nat" where
  "list_ev k e p m = (if fst m = p then 0 else unat p)"

definition list_exec :: "string \<Rightarrow> u32 \<Rightarrow> list_machine \<Rightarrow> list_machine" where
  "list_exec k p m = (p, map (map_option (\<lambda>(e, on, n). (e, on, if on then n + list_ev k e p m else n))) (snd m))"

definition list_view :: "list_machine view" where
  "list_view m d = (if 0 \<le> d \<and> nat d < length (snd m) then snd m ! nat d else None)"

lemma list_perf_lawful: "perf_contract list_perf list_exec list_view list_ev"
proof -
  have upd: "list_view (l, m[nat d := x]) = (list_view (l, m))(d := x)" if "list_view (l, m) d = Some y" for l m d x y
    using that by (auto simp: list_view_def fun_eq_iff nth_list_update split: if_splits)
  have app: "list_view (l, m @ [x]) = (list_view (l, m))(int (length m) := x)" for l m x
    by (auto simp: list_view_def fun_eq_iff nth_append)
  have at: "m ! nat d = Some x" if "list_view (l, m) d = Some x" for l m d x using that by (simp add: list_view_def split: if_splits)
  have new: "list_view (l, m) d = None" if "d = int (length m)" for l m d using that by (simp add: list_view_def)
  show ?thesis
    unfolding perf_contract_def
  proof (intro conjI allI impI)
    fix d :: int and lm :: list_machine and e on n
    assume "list_view lm d = Some (e, on, n)"
    moreover obtain l m where lm: "lm = (l, m)" by fastforce
    ultimately have d: "list_view (l, m) d = Some (e, on, n)" by simp
    show "list_view (ioctl_reset list_perf d lm) = (list_view lm)(d \<mapsto> (e, on, 0))" by (simp add: lm list_perf_def at [OF d] upd [OF d])
    show "list_view (ioctl_enable list_perf d lm) = (list_view lm)(d \<mapsto> (e, True, n))" by (simp add: lm list_perf_def at [OF d] upd [OF d])
    show "list_view (ioctl_disable list_perf d lm) = (list_view lm)(d \<mapsto> (e, False, n))" by (simp add: lm list_perf_def at [OF d] upd [OF d])
    show "fst (read_value list_perf d lm) = Some (of_nat n)" "list_view (snd (read_value list_perf d lm)) = list_view lm"
      by (simp_all add: lm list_perf_def at [OF d])
    show "list_view (close_event list_perf d lm) = (list_view lm)(d := None)" by (simp add: lm list_perf_def upd [OF d])
  next
    fix k p m d
    show "list_view (list_exec k p m) d = map_option (\<lambda>(e, on, n). (e, on, if on then n + list_ev k e p m else n)) (list_view m d)"
      by (auto simp: list_exec_def list_view_def)
  qed (auto simp: list_perf_def app new split: prod.splits)
qed

section \<open>The whole program\<close>

text \<open>What the report does with the workload it draws: the gate's calls, then the tables.\<close>

lemma counter_report_reaches_tables:
  assumes G: "rng_contract G" "fair G" and new: "new_counter_set P mach = (cs, m)" and all: "all_available cs"
  shows "\<exists>n a probes perm_probes calls. length probes = probe_count \<and> length perm_probes = probe_count \<and>
    counter_report G P exec x86 host probe_count reps s mach =
      Some (map_prod id (close_set P cs) (tables P exec x86 host reps n probes a perm_probes cs (run_calls exec calls m)))"
proof -
  obtain n probes s1 s2 where n: "make_nodes G 1 s = Some ([n], s1)" "make_probes G [n] probe_count s1 = Some (probes, s2)"
    "length probes = probe_count" "node_wf n" "sorted_wrt (<) (keys n)" by (rule sorted_workload [OF G])
  obtain a ss perm s3 s4 where a: "make_append_nodes G 1 s2 = Some ([a], s3)" "make_perm_probes G [a] probe_count s3 = Some (perm, s4)"
    "length perm = probe_count" "node_wf (an_node a)" "slot_perm ss" "an_order a = encode ss" "sorted_wrt (<) (rank_lanes (an_node a) ss)"
    by (rule append_workload [OF G])
  obtain calls where "gates exec x86 host n probes a perm m = Some (None, run_calls exec calls m)"
    using gates_pass [OF n(4,5) a(4-7), where exec = exec and mach = m] by blast
  then have "counter_report G P exec x86 host probe_count reps s mach =
      Some (map_prod id (close_set P cs) (tables P exec x86 host reps n probes a perm cs (run_calls exec calls m)))"
    using n(1,2) a(1,2) all new by (simp add: counter_report_def)
  then show ?thesis using n(3) a(3) by blast
qed

lemma exit_code_tables [simp]: "exit_code (fst (tables P exec x86 host reps n probes a perm_probes cs m)) = 0"
  by (simp add: tables_def split_beta Let_def)

text \<open>Closing what was opened leaves the descriptors that were open before, counters available or not.\<close>

lemma closed_again:
  assumes P: "perf_contract P exec view ev" and new: "new_counter_set P mach = (cs, m)" and m': "dom (view m') = dom (view m)"
  shows "dom (view (close_set P cs m')) = dom (view mach)"
proof -
  note d = new_counter_set_dom [OF P new]
  have "dom (view (close_set P cs m')) = dom (view m') - fds cs UNIV"
    by (rule close_set_dom [OF P d(1)]) (simp add: m' d(3))
  then show ?thesis using d(2) by (auto simp: m' d(3))
qed

lemma tables_closed:
  assumes P: "perf_contract P exec view ev" and new: "new_counter_set P mach = (cs, m)" and all: "all_available cs"
  shows "dom (view (close_set P cs (snd (tables P exec x86 host reps n probes a perm_probes cs (run_calls exec calls m))))) = dom (view mach)"
proof (rule closed_again [OF P new])
  have "holds_open view cs (dom (view m)) m"
    using new_counter_set_dom(3) [OF P new] by (intro available_open [OF all]) simp
  then have "holds_open view cs (dom (view m)) (run_calls exec calls m)"
    by (rule run_calls_keeps [rotated]) (simp add: holds_open_def exec_dom [OF P])
  from tables_open [OF P this] show "dom (view (snd (tables P exec x86 host reps n probes a perm_probes cs (run_calls exec calls m)))) = dom (view m)"
    by (simp add: holds_open_def)
qed

text \<open>C35: the correctness gate never fires. Whatever the random engine draws, on every host and instruction set, with
  counters that answer anything, the report ends, with exit code 1 exactly when a counter could not be opened and with
  0 otherwise: no kernel departs from its scalar reference on the generated nodes and needles. On every way out each
  descriptor that was opened is closed again. No host is led into a kernel compiled for an instruction set it lacks.\<close>

theorem gate_passes:
  assumes "rng_contract G" "fair G"
  shows "\<exists>out m'. counter_report G P exec x86 host probe_count reps s mach = Some (out, m') \<and>
    exit_code out = (if all_available (fst (new_counter_set P mach)) then 0 else 1) \<and>
    (perf_contract P exec view ev \<longrightarrow> dom (view m') = dom (view mach))"
proof -
  obtain cs m where new: "new_counter_set P mach = (cs, m)" by fastforce
  show ?thesis
  proof (cases "all_available cs")
    case True
    then obtain n a probes perm_probes calls where "counter_report G P exec x86 host probe_count reps s mach =
        Some (map_prod id (close_set P cs) (tables P exec x86 host reps n probes a perm_probes cs (run_calls exec calls m)))"
      using counter_report_reaches_tables [OF assms new] by blast
    then show ?thesis
      using True new tables_closed [OF _ new True]
      by (cases "tables P exec x86 host reps n probes a perm_probes cs (run_calls exec calls m)")
        (metis exit_code_tables fst_conv map_prod_simp snd_conv id_apply)
  next
    case False
    then show ?thesis using new closed_again [OF _ new] by (simp add: counter_report_def)
  qed
qed

theorem gate_passes_witness:
  "\<exists>out m'. counter_report counting_rng list_perf list_exec True Avx512 100 9 7 (0, []) = Some (out, m') \<and> exit_code out = 0 \<and>
    dom (list_view m') = {}"
proof -
  have "list_view (0, []) = Map.empty" by (simp add: list_view_def fun_eq_iff)
  then show ?thesis
    using gate_passes [OF counting_rng_lawful, of list_perf list_exec True Avx512 100 9 7 "(0, [])" list_view list_ev] list_perf_lawful
    by (simp add: new_counter_set_def new_counter_def list_perf_def all_available_def available_def)
qed

end
