(* ===== verification/Doubles.thy ===== *)
theory Doubles
  imports Prelude Complex_Main
begin

text \<open>
  The arithmetic both reports do on \<^verbatim>\<open>double\<close>, and the numbers they read from their command lines and print.

  A finite \<^verbatim>\<open>double\<close> is a rational, rounded after every operation by a function the definitions take;
  \<open>rounding\<close> says what round-to-nearest and the directed modes have in common. The reports only divide numbers that
  are not negative, so the one infinity is positive, and NaN is \<open>0/0\<close> and what is computed from it.
\<close>

section \<open>Doubles\<close>

datatype double = Fin rat | Inf | NaN

definition rounding :: "(rat \<Rightarrow> rat) \<Rightarrow> bool" where
  "rounding rnd \<longleftrightarrow> mono rnd \<and> (\<forall>n \<le> 2 ^ 53. rnd (of_nat n) = of_nat n)"

lemma rounding_nat: "rounding rnd \<Longrightarrow> n \<le> 2 ^ 53 \<Longrightarrow> rnd (of_nat n) = of_nat n"
  by (simp add: rounding_def)

definition fp_divide :: "(rat \<Rightarrow> rat) \<Rightarrow> rat \<Rightarrow> rat \<Rightarrow> double" where
  "fp_divide rnd a b = (if b \<noteq> 0 then Fin (rnd (a / b)) else if a = 0 then NaN else Inf)"

fun quotient :: "(rat \<Rightarrow> rat) \<Rightarrow> double \<Rightarrow> double \<Rightarrow> double" where
  "quotient rnd (Fin a) (Fin b) = fp_divide rnd a b"
| "quotient rnd (Fin a) Inf = Fin 0"
| "quotient rnd Inf (Fin b) = Inf"
| "quotient rnd _ _ = NaN"

text \<open>Every comparison with NaN is false.\<close>

definition fp_less :: "double \<Rightarrow> rat \<Rightarrow> bool" where
  "fp_less e b = (case e of Fin x \<Rightarrow> x < b | _ \<Rightarrow> False)"

fun fp_positive :: "double \<Rightarrow> bool" where
  "fp_positive (Fin x) = (x > 0)"
| "fp_positive Inf = True"
| "fp_positive NaN = False"

text \<open>The order \<^verbatim>\<open>std::sort\<close> sorts numbers by, with NaN on top so that it is total.\<close>

instantiation double :: linorder
begin

fun less_eq_double :: "double \<Rightarrow> double \<Rightarrow> bool" where
  "Fin a \<le> Fin b \<longleftrightarrow> a \<le> b"
| "(_ :: double) \<le> NaN \<longleftrightarrow> True"
| "Fin a \<le> Inf \<longleftrightarrow> True"
| "Inf \<le> Inf \<longleftrightarrow> True"
| "(_ :: double) \<le> _ \<longleftrightarrow> False"

definition less_double :: "double \<Rightarrow> double \<Rightarrow> bool" where
  "less_double a b \<longleftrightarrow> a \<le> b \<and> \<not> b \<le> a"

instance
proof
  fix x y z :: double
  show "x \<le> x" "x \<le> y \<or> y \<le> x" by (cases x; cases y; force)+
  show "x < y \<longleftrightarrow> x \<le> y \<and> \<not> y \<le> x" by (rule less_double_def)
  show "x = y" if "x \<le> y" "y \<le> x" using that by (cases x; cases y) auto
  show "x \<le> z" if "x \<le> y" "y \<le> z" using that by (cases x; cases y; cases z) auto
qed

end

text \<open>A rounding to multiples of \<open>2 ^ -52\<close>, for the witnesses.\<close>

lemma rounding_down: "rounding (\<lambda>x. of_int \<lfloor>x * 2 ^ 52\<rfloor> / 2 ^ 52)"
proof -
  have "(of_nat n :: rat) * 2 ^ 52 = of_int (int n * 2 ^ 52)" for n by simp
  then have "of_int \<lfloor>(of_nat n :: rat) * 2 ^ 52\<rfloor> = of_nat n * (2 ^ 52 :: rat)" for n by (metis floor_of_int)
  moreover have "mono (\<lambda>x :: rat. of_int \<lfloor>x * 2 ^ 52\<rfloor> / 2 ^ 52 :: rat)"
    by (intro monoI divide_right_mono) (simp_all add: floor_mono)
  ultimately show ?thesis by (simp add: rounding_def)
qed

section \<open>Numbers as text\<close>

definition ascii :: "string \<Rightarrow> bytes" where
  "ascii s = map of_char s"

text \<open>\<^verbatim>\<open>std::to_string\<close>, and \<^verbatim>\<open>printf\<close>'s zero padded decimal.\<close>

fun decimal :: "nat \<Rightarrow> bytes" where
  "decimal n = (if n < 10 then [of_nat (48 + n)] else decimal (n div 10) @ [of_nat (48 + n mod 10)])"

declare decimal.simps [simp del]

definition zero_padded :: "nat \<Rightarrow> nat \<Rightarrow> bytes" where
  "zero_padded width n = replicate (width - length (decimal n)) 48 @ decimal n"

text \<open>\<^verbatim>\<open>std::strtoul\<close> and \<^verbatim>\<open>std::atoi\<close> to base ten: spaces, a sign, the digits that follow. The first saturates, and negates
  modulo \<open>2 ^ 64\<close>; the second is undefined on a number that is no \<^verbatim>\<open>int\<close>.\<close>

definition is_digit :: "u8 \<Rightarrow> bool" where
  "is_digit c \<longleftrightarrow> 48 \<le> c \<and> c \<le> 57"

definition digits_value :: "bytes \<Rightarrow> nat" where
  "digits_value cs = fold (\<lambda>c acc. 10 * acc + (unat c - 48)) (takeWhile is_digit cs) 0"

definition signed_digits :: "bytes \<Rightarrow> bool \<times> nat" where
  "signed_digits cs =
     (let cs = dropWhile (\<lambda>c. c = 32 \<or> 9 \<le> c \<and> c \<le> 13) cs
      in if cs \<noteq> [] \<and> hd cs = 45 then (True, digits_value (tl cs))
         else if cs \<noteq> [] \<and> hd cs = 43 then (False, digits_value (tl cs))
         else (False, digits_value cs))"

definition strtoul :: "bytes \<Rightarrow> nat" where
  "strtoul cs =
     (case signed_digits cs of (negative, v) \<Rightarrow>
        if v \<ge> 2 ^ 64 then 2 ^ 64 - 1 else if negative then (2 ^ 64 - v) mod 2 ^ 64 else v)"

definition atoi :: "bytes \<Rightarrow> int option" where
  "atoi cs =
     (case signed_digits cs of (negative, v) \<Rightarrow>
        let i = (if negative then - int v else int v) in if - (2 ^ 31) \<le> i \<and> i < 2 ^ 31 then Some i else None)"

text \<open>What is printed is read back.\<close>

lemma decimal_digits: "\<forall>c \<in> set (decimal n). is_digit c"
proof (induction n rule: decimal.induct)
  case (1 n)
  have "is_digit (of_nat (48 + d))" if "d < 10" for d
    using that by (simp add: is_digit_def word_le_nat_alt unat_of_nat take_bit_nat_eq_self del: of_nat_add)
  from this [of n] this [of "n mod 10"] 1 show ?case by (subst decimal.simps) auto
qed

lemma decimal_nonempty [simp]: "decimal n \<noteq> []"
  by (subst decimal.simps) simp

lemma digits_value_decimal: "digits_value (decimal n) = n"
proof -
  have all: "takeWhile is_digit (decimal n) = decimal n" by (simp add: takeWhile_eq_all_conv decimal_digits)
  have "fold (\<lambda>c acc. 10 * acc + (unat c - 48)) (decimal n) 0 = n"
  proof (induction n rule: decimal.induct)
    case (1 n)
    have "unat (of_nat (48 + d) :: u8) - 48 = d" if "d < 10" for d
      using that by (simp add: unat_of_nat take_bit_nat_eq_self del: of_nat_add)
    from this [of n] this [of "n mod 10"] 1 show ?case by (subst decimal.simps) auto
  qed
  then show ?thesis by (simp add: digits_value_def all)
qed

lemma signed_digits_decimal: "signed_digits (decimal n) = (False, n)"
proof -
  have d: "is_digit (hd (decimal n))" using decimal_digits hd_in_set [OF decimal_nonempty] by blast
  then have h: "hd (decimal n) \<noteq> 45" "hd (decimal n) \<noteq> 43" "\<not> (hd (decimal n) = 32 \<or> 9 \<le> hd (decimal n) \<and> hd (decimal n) \<le> 13)"
    by (auto simp: is_digit_def word_le_nat_alt)
  then have "dropWhile (\<lambda>c. c = 32 \<or> 9 \<le> c \<and> c \<le> 13) (decimal n) = decimal n"
    by (cases "decimal n") (use decimal_nonempty [of n] in auto)
  then show ?thesis using h by (simp add: signed_digits_def digits_value_decimal Let_def)
qed

lemma strtoul_decimal: "n < 2 ^ 64 \<Longrightarrow> strtoul (decimal n) = n"
  by (simp add: strtoul_def signed_digits_decimal)

lemma atoi_decimal: "n < 2 ^ 31 \<Longrightarrow> atoi (decimal n) = Some (int n)"
  by (simp add: atoi_def signed_digits_decimal)

text \<open>The number of needles or keys, the first argument of both programs.\<close>

definition count_argument :: "bytes list \<Rightarrow> nat" where
  "count_argument argv = (if length argv > 1 then strtoul (argv ! 1) else 200000)"

end
