(* ===== verification/Collision_Report.thy ===== *)
theory Collision_Report
  imports Surrogate Doubles
begin

text \<open>
  \<^verbatim>\<open>bench/collision_report.cpp\<close>: how many full comparisons a lane leaves to a lookup, over eight key
  distributions, with the lane taken from the start of the key and past the prefix of a page of sorted keys.
  No infinity arises, and the one NaN is the quotient \<open>0/0\<close> of an empty key set.
\<close>

section \<open>Measuring a lane\<close>

record stats =
  st_keys :: nat
  st_distinct :: nat
  st_largest_group :: nat
  st_expected_scan :: double
  st_collision_rate :: double

text \<open>\<^verbatim>\<open>std::map\<close> with its entries in key order; \<open>bump\<close> is \<^verbatim>\<open>++hist[s]\<close>.\<close>

fun bump :: "u32 \<Rightarrow> (u32 \<times> nat) list \<Rightarrow> (u32 \<times> nat) list" where
  "bump s [] = [(s, 1)]"
| "bump s ((k, m) # hist) =
     (if s < k then (s, 1) # (k, m) # hist else if s = k then (k, m + 1) # hist else (k, m) # bump s hist)"

definition histogram :: "u32 list \<Rightarrow> (u32 \<times> nat) list" where
  "histogram ss = fold bump ss []"

text \<open>One group of a histogram added to the largest group, the sum of squares and the colliding keys.\<close>

definition tally :: "(rat \<Rightarrow> rat) \<Rightarrow> u32 \<times> nat \<Rightarrow> nat \<times> rat \<times> nat \<Rightarrow> nat \<times> rat \<times> nat" where
  "tally rnd = (\<lambda>(sur, m) (largest_group, sum_sq, colliding).
     (max largest_group m, rnd (sum_sq + rnd (rnd (of_nat m) * rnd (of_nat m))),
      if m > 1 then colliding + m else colliding))"

definition analyze :: "(rat \<Rightarrow> rat) \<Rightarrow> bytes list \<Rightarrow> stats" where
  "analyze rnd ks =
     (let hist = histogram (map surrogate ks);
          (largest_group, sum_sq, colliding) = fold (tally rnd) hist (0, 0, 0)
      in \<lparr>st_keys = length ks, st_distinct = length hist, st_largest_group = largest_group,
          st_expected_scan = fp_divide rnd sum_sq (rnd (of_nat (length ks))),
          st_collision_rate = fp_divide rnd (rnd (of_nat colliding)) (rnd (of_nat (length ks)))\<rparr>)"

function paged_loop :: "(rat \<Rightarrow> rat) \<Rightarrow> bytes list \<Rightarrow> nat \<Rightarrow> nat \<times> nat \<times> rat \<times> nat \<Rightarrow> nat \<times> nat \<times> rat \<times> nat" where
  "paged_loop rnd ks i (distinct_lanes, acc) =
     (if i < length ks
      then let n = min kNodeKeys (length ks - i);
               plen = (if n > 1 then common_prefix_len (ks ! i) (ks ! (i + n - 1)) else 0);
               hist = histogram (map (\<lambda>j. surrogate_at (ks ! (i + j)) plen) [0..<n])
           in paged_loop rnd ks (i + kNodeKeys) (distinct_lanes + length hist, fold (tally rnd) hist acc)
      else (distinct_lanes, acc))"
  by pat_completeness auto
termination
  by (relation "measure (\<lambda>(rnd, ks, i, acc). length ks - i)") (auto simp: node_consts)

declare paged_loop.simps [simp del]

definition analyze_paged :: "(rat \<Rightarrow> rat) \<Rightarrow> bytes list \<Rightarrow> stats" where
  "analyze_paged rnd ks =
     (let ks = sort ks;
          (distinct_lanes, largest_group, sum_sq, colliding) = paged_loop rnd ks 0 (0, 0, 0, 0)
      in \<lparr>st_keys = length ks, st_distinct = distinct_lanes, st_largest_group = largest_group,
          st_expected_scan = fp_divide rnd sum_sq (rnd (of_nat (length ks))),
          st_collision_rate = fp_divide rnd (rnd (of_nat colliding)) (rnd (of_nat (length ks)))\<rparr>)"

definition verdict :: "double \<Rightarrow> string" where
  "verdict e = (if fp_less e (3 / 2) then ''SIMD effective'' else if fp_less e 16 then ''degraded'' else ''SIMD defeated'')"

section \<open>The key distributions\<close>

text \<open>The engine's raw draws and the two distributions over it.\<close>

record 's engine =
  draw64 :: "'s \<Rightarrow> u64 \<times> 's"
  draw_byte :: "'s \<Rightarrow> u8 \<times> 's"
  draw_tenant :: "'s \<Rightarrow> nat \<times> 's"

fun repeat_draw :: "('s \<Rightarrow> 'a \<times> 's) \<Rightarrow> nat \<Rightarrow> 's \<Rightarrow> 'a list \<times> 's" where
  "repeat_draw f 0 s = ([], s)"
| "repeat_draw f (Suc n) s = (let (x, s) = f s; (xs, s) = repeat_draw f n s in (x # xs, s))"

definition hex_of :: "u64 \<Rightarrow> nat \<Rightarrow> bytes" where
  "hex_of v digits = map (\<lambda>i. ascii ''0123456789abcdef'' ! unat (drop_bit (4 * i) v AND 0xF)) (rev [0..<digits])"

text \<open>The eight byte loop, most significant byte first.\<close>

definition be_bytes :: "u64 \<Rightarrow> bytes" where
  "be_bytes v = map (\<lambda>b. ucast (drop_bit (8 * (7 - b)) v AND 0xFF)) [0..<8]"

definition gen_random_binary :: "'s engine \<Rightarrow> nat \<Rightarrow> 's \<Rightarrow> bytes list \<times> 's" where
  "gen_random_binary G n = repeat_draw (repeat_draw (draw_byte G) 16) n"

definition gen_sequential :: "nat \<Rightarrow> 's \<Rightarrow> bytes list \<times> 's" where
  "gen_sequential n s = (map (\<lambda>i. ascii ''user_'' @ zero_padded 10 i) [0..<n], s)"

definition gen_sequential_bigendian :: "nat \<Rightarrow> 's \<Rightarrow> bytes list \<times> 's" where
  "gen_sequential_bigendian n s = (map (\<lambda>i. be_bytes (of_nat i)) [0..<n], s)"

definition gen_db_bench :: "nat \<Rightarrow> 's \<Rightarrow> bytes list \<times> 's" where
  "gen_db_bench n s = (map (\<lambda>i. be_bytes (of_nat i) @ drop 8 (replicate 16 48)) [0..<n], s)"

text \<open>
  Where one expression draws twice (here and in \<^verbatim>\<open>gen_uuid_hex\<close>) C++ leaves the order of the draws open; the
  model draws from left to right.
\<close>

definition gen_tenant_prefixed :: "'s engine \<Rightarrow> nat \<Rightarrow> 's \<Rightarrow> bytes list \<times> 's" where
  "gen_tenant_prefixed G n = repeat_draw (\<lambda>s.
     let (t, s) = draw_tenant G s; (v, s) = draw64 G s
     in (ascii ''t'' @ zero_padded 3 t @ ascii '':'' @ hex_of v 12, s)) n"

definition gen_single_prefix :: "'s engine \<Rightarrow> nat \<Rightarrow> 's \<Rightarrow> bytes list \<times> 's" where
  "gen_single_prefix G n = repeat_draw (\<lambda>s. let (v, s) = draw64 G s in (ascii ''rows:'' @ hex_of v 16, s)) n"

definition gen_uuid_hex :: "'s engine \<Rightarrow> nat \<Rightarrow> 's \<Rightarrow> bytes list \<times> 's" where
  "gen_uuid_hex G n = repeat_draw (\<lambda>s.
     let (u, s) = draw64 G s; (v, s) = draw64 G s in (hex_of u 16 @ ascii ''-'' @ hex_of v 16, s)) n"

fun timestamps :: "'s engine \<Rightarrow> nat list \<Rightarrow> 's \<Rightarrow> bytes list \<times> 's" where
  "timestamps G [] s = ([], s)"
| "timestamps G (i # is) s =
     (let ts = 1750000000000 + of_nat (i div 10); (v, s) = draw64 G s; (ks, s) = timestamps G is s
      in ((be_bytes ts @ hex_of v 4) # ks, s))"

definition gen_timestamp :: "'s engine \<Rightarrow> nat \<Rightarrow> 's \<Rightarrow> bytes list \<times> 's" where
  "gen_timestamp G n = timestamps G [0..<n]"

section \<open>The report\<close>

definition gens :: "'s engine \<Rightarrow> (string \<times> (nat \<Rightarrow> 's \<Rightarrow> bytes list \<times> 's)) list" where
  "gens G =
     [(''random_binary'', gen_random_binary G), (''uuid_hex'', gen_uuid_hex G),
      (''sequential_bigendian'', gen_sequential_bigendian), (''tenant_prefixed'', gen_tenant_prefixed G),
      (''timestamp_series'', gen_timestamp G), (''sequential_decimal'', gen_sequential),
      (''single_prefix'', gen_single_prefix G), (''db_bench_default'', gen_db_bench)]"

definition report_row :: "(rat \<Rightarrow> rat) \<Rightarrow> (nat \<Rightarrow> 's \<Rightarrow> bytes list \<times> 's) \<Rightarrow> nat \<Rightarrow> 's \<Rightarrow> double \<times> double \<times> string" where
  "report_row rnd gen n seed =
     (let ks = fst (gen n seed); g = analyze rnd ks; pn = analyze_paged rnd ks
      in (st_expected_scan g, st_expected_scan pn, verdict (st_expected_scan pn)))"

text \<open>Every distribution starts from a freshly seeded engine.\<close>

definition collision_report :: "(rat \<Rightarrow> rat) \<Rightarrow> 's engine \<Rightarrow> nat \<Rightarrow> 's \<Rightarrow> (string \<times> double \<times> double \<times> string) list" where
  "collision_report rnd G n seed = map (\<lambda>(name, gen). (name, report_row rnd gen n seed)) (gens G)"

text \<open>What \<^verbatim>\<open>main\<close> prints beside fixed text: the number of keys and the rows.\<close>

definition collision_main ::
  "(rat \<Rightarrow> rat) \<Rightarrow> 's engine \<Rightarrow> bytes list \<Rightarrow> 's \<Rightarrow> nat \<times> (string \<times> double \<times> double \<times> string) list" where
  "collision_main rnd G argv seed = (let n = count_argument argv in (n, collision_report rnd G n seed))"

section \<open>What the loops compute\<close>

lemma bump_map:
  "sorted_wrt (<) ks \<Longrightarrow>
   bump s (map (\<lambda>k. (k, f k)) ks) =
     map (\<lambda>k. (k, if k = s then (if s \<in> set ks then f s + 1 else 1) else f k)) (insort_insert s ks)"
proof (induction ks)
  case Nil
  then show ?case by (simp add: insort_insert_key_def)
next
  case (Cons k ks)
  show ?case
  proof (cases "s < k")
    case True
    then have "s \<notin> set (k # ks)" using Cons.prems by force
    then show ?thesis using True by (auto simp: insort_insert_key_def)
  next
    case False
    then show ?thesis using Cons by (auto simp: insort_insert_key_def)
  qed
qed

lemma histogram_eq: "histogram ss = map (\<lambda>s. (s, count_list ss s)) (sorted_list_of_set (set ss))"
proof (induction ss rule: rev_induct)
  case Nil
  then show ?case by (simp add: histogram_def)
next
  case (snoc s ss)
  have "histogram (ss @ [s]) = bump s (histogram ss)" by (simp add: histogram_def)
  also have "\<dots> = map (\<lambda>s'. (s', count_list (ss @ [s]) s')) (insort_insert s (sorted_list_of_set (set ss)))"
    unfolding snoc.IH by (subst bump_map) (auto simp: count_notin)
  also have "insort_insert s (sorted_list_of_set (set ss)) = sorted_list_of_set (set (ss @ [s]))"
    by (cases "s \<in> set ss") (simp_all add: insort_insert_key_def insert_absorb)
  finally show ?case .
qed

text \<open>A sum over the groups weighted by their size is a sum over the keys.\<close>

lemma sum_groups:
  "(\<Sum>(s, m) \<leftarrow> histogram ss. m * g m) = (\<Sum>s \<leftarrow> ss. g (count_list ss s) :: nat)"
proof -
  have "(\<Sum>(s, m) \<leftarrow> histogram ss. m * g m) = (\<Sum>s \<in> set ss. count_list ss s * g (count_list ss s))"
    by (simp add: histogram_eq comp_def sum_list_distinct_conv_sum_set)
  also have "\<dots> = (\<Sum>s \<leftarrow> ss. g (count_list ss s))" by (simp add: sum_list_map_eq_sum_count)
  finally show ?thesis .
qed

lemma fold_tally:
  assumes rnd: "rounding rnd"
  shows "q + (\<Sum>(s, m) \<leftarrow> hist. m * m) \<le> 2 ^ 53 \<Longrightarrow>
    fold (tally rnd) hist (l, of_nat q, c) =
      (fold max (map snd hist) l, of_nat (q + (\<Sum>(s, m) \<leftarrow> hist. m * m)),
       c + (\<Sum>(s, m) \<leftarrow> hist. m * of_bool (m > 1)))"
proof (induction hist arbitrary: l q c)
  case Nil
  then show ?case by simp
next
  case (Cons group hist)
  obtain s m where group: "group = (s, m)" by fastforce
  have m: "q + m * m \<le> 2 ^ 53" using Cons.prems group by simp
  have mm: "m * m \<le> 2 ^ 53" using m by linarith
  moreover have "m \<le> m * m" by (cases m) auto
  ultimately have "m \<le> 2 ^ 53" by linarith
  then have "tally rnd group (l, of_nat q, c) = (max l m, of_nat (q + m * m), c + m * of_bool (m > 1))"
    using rounding_nat [OF rnd m] rounding_nat [OF rnd mm] rounding_nat [OF rnd, of m]
    by (simp add: tally_def group)
  then show ?case using Cons.IH [of "q + m * m"] Cons.prems by (simp add: group max.commute)
qed

section \<open>Pages\<close>

function pages :: "'a list \<Rightarrow> 'a list list" where
  "pages ks = (if ks = [] then [] else take kNodeKeys ks # pages (drop kNodeKeys ks))"
  by pat_completeness auto
termination
  by (relation "measure length") (auto simp: node_consts)

declare pages.simps [simp del]

definition page_lane :: "bytes list \<Rightarrow> bytes \<Rightarrow> u32" where
  "page_lane p k = surrogate_at k (if length p > 1 then common_prefix_len (hd p) (last p) else 0)"

definition page_groups :: "bytes list \<Rightarrow> (u32 \<times> nat) list" where
  "page_groups p = histogram (map (page_lane p) p)"

lemma concat_pages: "concat (pages ks) = ks"
  by (induction ks rule: pages.induct) (subst pages.simps, simp)

lemma length_page: "p \<in> set (pages ks) \<Longrightarrow> length p \<le> kNodeKeys"
  by (induction ks rule: pages.induct) (subst (asm) (2) pages.simps, auto split: if_splits)

lemma paged_loop_pages:
  "paged_loop rnd ks i (d, acc) =
     (d + (\<Sum>p \<leftarrow> pages (drop i ks). length (page_groups p)),
      fold (tally rnd) (concat (map page_groups (pages (drop i ks)))) acc)"
proof (induction rnd ks i "(d, acc)" arbitrary: d acc rule: paged_loop.induct)
  case (1 rnd ks i d acc)
  show ?case
  proof (cases "i < length ks")
    case True
    let ?n = "min kNodeKeys (length ks - i)"
    let ?p = "take kNodeKeys (drop i ks)"
    have p: "?p = map (\<lambda>j. ks ! (i + j)) [0..<?n]"
      using True by (intro nth_equalityI) auto
    have ends: "hd ?p = ks ! i" "last ?p = ks ! (i + ?n - 1)"
      using True by (simp_all add: hd_drop_conv_nth last_conv_nth node_consts min.commute)
    have groups: "page_groups ?p = histogram (map (\<lambda>j. surrogate_at (ks ! (i + j))
        (if ?n > 1 then common_prefix_len (ks ! i) (ks ! (i + ?n - 1)) else 0)) [0..<?n])"
      using ends unfolding page_groups_def page_lane_def by (subst (4) p) (simp add: comp_def min.commute)
    have "pages (drop i ks) = ?p # pages (drop (i + kNodeKeys) ks)"
      using True by (subst pages.simps) (simp add: add.commute)
    then show ?thesis
      using True 1 [OF True refl refl refl] by (subst paged_loop.simps) (simp add: groups Let_def)
  next
    case False
    then show ?thesis by (simp add: paged_loop.simps pages.simps)
  qed
qed

section \<open>The statistics as means over the keys\<close>

text \<open>The keys a search with lane function \<open>f\<close> cannot tell from \<open>k\<close>: the candidates a lookup of \<open>k\<close> compares.\<close>

definition candidates :: "('a \<Rightarrow> u32) \<Rightarrow> 'a list \<Rightarrow> 'a \<Rightarrow> nat" where
  "candidates f ks k = length (filter (\<lambda>k'. f k' = f k) ks)"

lemma count_list_candidates: "count_list (map f ks) (f k) = candidates f ks k"
  by (induction ks) (auto simp: candidates_def)

lemma candidates_le: "candidates f ks k \<le> length ks"
  by (simp add: candidates_def)

lemma candidates_pos: "k \<in> set ks \<Longrightarrow> 0 < candidates f ks k"
  by (auto simp: candidates_def filter_empty_conv)

lemma sum_candidates: "(\<Sum>(s, m) \<leftarrow> histogram (map f ks). m * g m) = (\<Sum>k \<leftarrow> ks. g (candidates f ks k) :: nat)"
  by (simp add: sum_groups comp_def count_list_candidates)

definition total_scan :: "bytes list \<Rightarrow> nat" where
  "total_scan ks = (\<Sum>k \<leftarrow> ks. candidates surrogate ks k)"

definition paged_scan :: "bytes list \<Rightarrow> nat" where
  "paged_scan ks = (\<Sum>p \<leftarrow> pages (sort ks). \<Sum>k \<leftarrow> p. candidates (page_lane p) p k)"

lemma sum_list_bound: "(\<And>x. x \<in> set xs \<Longrightarrow> f x \<le> b) \<Longrightarrow> (\<Sum>x \<leftarrow> xs. f x) \<le> length xs * (b :: nat)"
  by (induction xs) (auto intro: add_mono)

lemma total_scan_le: "total_scan ks \<le> length ks * length ks"
  unfolding total_scan_def by (intro sum_list_bound candidates_le)

lemma sum_list_concat: "sum_list (map f (concat xss)) = (\<Sum>xs \<leftarrow> xss. \<Sum>x \<leftarrow> xs. f x :: nat)"
  by (induction xss) auto

lemma sum_length_pages: "(\<Sum>p \<leftarrow> pages ks. length p) = length ks"
  using length_concat [of "pages ks"] by (simp add: concat_pages)

lemma paged_scan_le: "paged_scan ks \<le> 16 * length ks"
proof -
  have "(\<Sum>k \<leftarrow> p. candidates (page_lane p) p k) \<le> 16 * length p" if "p \<in> set (pages (sort ks))" for p
  proof -
    have "candidates (page_lane p) p k \<le> 16" for k
      using candidates_le [of "page_lane p" p k] length_page [OF that] by (simp add: node_consts)
    then show ?thesis using sum_list_bound [of p "candidates (page_lane p) p" 16] by (simp add: mult.commute)
  qed
  then have "paged_scan ks \<le> (\<Sum>p \<leftarrow> pages (sort ks). 16 * length p)"
    unfolding paged_scan_def by (intro sum_list_mono)
  also have "\<dots> = 16 * length ks" by (simp add: sum_list_const_mult sum_length_pages)
  finally show ?thesis .
qed

lemma paged_groups:
  "(\<Sum>(s, m) \<leftarrow> concat (map page_groups ps). m * g m) = (\<Sum>p \<leftarrow> ps. \<Sum>k \<leftarrow> p. g (candidates (page_lane p) p k) :: nat)"
  by (simp add: sum_list_concat comp_def page_groups_def sum_candidates)

lemma sum_if_more: "(\<Sum>k \<leftarrow> ks. of_bool (P k)) = length (filter P ks)"
  by (induction ks) auto

text \<open>The summary both measurements end in, of groups whose squares sum up to \<open>sum_sq\<close>.\<close>

definition summary :: "(rat \<Rightarrow> rat) \<Rightarrow> nat \<Rightarrow> (u32 \<times> nat) list \<Rightarrow> nat \<Rightarrow> nat \<Rightarrow> stats" where
  "summary rnd n groups sum_sq colliding =
     \<lparr>st_keys = n, st_distinct = length groups, st_largest_group = fold max (map snd groups) 0,
      st_expected_scan = fp_divide rnd (of_nat sum_sq) (of_nat n), st_collision_rate = fp_divide rnd (of_nat colliding) (of_nat n)\<rparr>"

lemma analyze_summary:
  assumes rnd: "rounding rnd" and ks: "length ks \<le> 2 ^ 26"
  shows "analyze rnd ks =
    summary rnd (length ks) (histogram (map surrogate ks)) (total_scan ks) (length (filter (\<lambda>k. candidates surrogate ks k > 1) ks))"
proof -
  have sq: "(\<Sum>(s, m) \<leftarrow> histogram (map surrogate ks). m * m) = total_scan ks"
    using sum_candidates [of "\<lambda>m. m" surrogate ks] by (simp add: total_scan_def)
  have coll: "(\<Sum>(s, m) \<leftarrow> histogram (map surrogate ks). m * of_bool (m > 1)) = length (filter (\<lambda>k. candidates surrogate ks k > 1) ks)"
    using sum_candidates [of "\<lambda>m. of_bool (m > 1)" surrogate ks] by (simp add: sum_if_more)
  have "length ks * length ks \<le> 2 ^ 26 * 2 ^ 26" using mult_mono [OF ks ks] by simp
  then have small: "total_scan ks \<le> 2 ^ 53" using total_scan_le [of ks] by simp
  have "rnd (of_nat (length (filter P ks))) = of_nat (length (filter P ks))" "rnd (of_nat (length ks)) = of_nat (length ks)" for P
    using rounding_nat [OF rnd, of "length (filter P ks)"] rounding_nat [OF rnd, of "length ks"]
      le_trans [OF length_filter_le [of P ks] ks] ks by simp_all
  then show ?thesis
    using fold_tally [OF rnd, of 0 "histogram (map surrogate ks)" 0 0] small
    by (simp add: analyze_def summary_def sq coll [unfolded One_nat_def] Let_def)
qed

lemma analyze_paged_summary:
  assumes rnd: "rounding rnd" and ks: "length ks \<le> 2 ^ 26"
  shows "analyze_paged rnd ks =
    summary rnd (length ks) (concat (map page_groups (pages (sort ks)))) (paged_scan ks)
      (\<Sum>p \<leftarrow> pages (sort ks). length (filter (\<lambda>k. candidates (page_lane p) p k > 1) p))"
proof -
  let ?ps = "pages (sort ks)" and ?coll = "\<Sum>p \<leftarrow> pages (sort ks). length (filter (\<lambda>k. candidates (page_lane p) p k > 1) p)"
  have sq: "(\<Sum>(s, m) \<leftarrow> concat (map page_groups ?ps). m * m) = paged_scan ks"
    using paged_groups [of "\<lambda>m. m" ?ps] by (simp add: paged_scan_def)
  have coll: "(\<Sum>(s, m) \<leftarrow> concat (map page_groups ?ps). m * of_bool (m > 1)) = ?coll"
    using paged_groups [of "\<lambda>m. of_bool (m > 1)" ?ps] by (simp add: sum_if_more)
  have small: "paged_scan ks \<le> 2 ^ 53" using paged_scan_le [of ks] ks by simp
  have "?coll \<le> (\<Sum>p \<leftarrow> ?ps. length p)" by (intro sum_list_mono) simp
  then have "rnd (of_nat ?coll) = of_nat ?coll" "rnd (of_nat (length ks)) = of_nat (length ks)"
    using ks by (intro rounding_nat [OF rnd]; simp add: sum_length_pages)+
  then show ?thesis
    using fold_tally [OF rnd, of 0 "concat (map page_groups ?ps)" 0 0] small
    by (simp add: analyze_paged_def summary_def paged_loop_pages sq coll [unfolded One_nat_def] length_concat comp_def Let_def)
qed

section \<open>The lane past the page's prefix against the lane from the start\<close>

lemma pad_append: "length p \<le> n \<Longrightarrow> pad n (p @ k) = p @ pad (n - length p) k"
proof (induction p arbitrary: n)
  case (Cons x p)
  then show ?case by (cases n) auto
qed simp

lemma big_endian_inject: "length as = length bs \<Longrightarrow> big_endian as = big_endian bs \<longleftrightarrow> as = bs"
  by (metis big_endian_le_iff order.antisym order.refl)

lemma surrogate_eq_iff: "surrogate a = surrogate b \<longleftrightarrow> pad 4 a = pad 4 b"
  by (simp add: word_unat_eq_iff unat_surrogate big_endian_inject)

lemma take_pad: "m \<le> n \<Longrightarrow> take m (pad n k) = pad m k"
proof (induction m arbitrary: n k)
  case (Suc m)
  then show ?case by (cases n; cases k) auto
qed simp

lemma pad_eq_mono: "pad n a = pad n b \<Longrightarrow> m \<le> n \<Longrightarrow> pad m a = pad m b"
  by (metis take_pad)

text \<open>Behind a shared prefix, an equal lane there means an equal lane from the start.\<close>

lemma surrogate_at_imp_surrogate:
  assumes "take q a = take q b" "q \<le> length a" "q \<le> length b" "surrogate_at a q = surrogate_at b q"
  shows "surrogate a = surrogate b"
proof -
  have lanes: "pad 4 (drop q a) = pad 4 (drop q b)" using assms(4) by (simp add: surrogate_at_drop surrogate_eq_iff)
  show ?thesis
  proof (cases "q \<le> 4")
    case True
    have "pad 4 k = take q k @ pad (4 - q) (drop q k)" if "q \<le> length k" for k
      using pad_append [of "take q k" 4 "drop q k"] that True by (simp add: min_absorb2)
    then show ?thesis using assms(1-3) pad_eq_mono [OF lanes, of "4 - q"] by (simp add: surrogate_eq_iff)
  next
    case False
    then have "take 4 a = take 4 (take q a)" "take 4 b = take 4 (take q b)" by (simp_all add: min_absorb1)
    then have "take 4 a = take 4 b" using assms(1) by simp
    then show ?thesis by (auto simp: surrogate_eq_iff dest: pad_cong_take)
  qed
qed

lemma sorted_ends: "sorted p \<Longrightarrow> x \<in> set p \<Longrightarrow> hd p \<le> x \<and> x \<le> last p"
  by (induction p) auto

lemma page_lane_imp_surrogate:
  assumes "sorted p" "k \<in> set p" "k' \<in> set p" "page_lane p k = page_lane p k'"
  shows "surrogate k = surrogate k'"
proof (cases "length p > 1")
  case True
  let ?q = "common_prefix_len (hd p) (last p)"
  have "hd p \<le> x \<and> x \<le> last p" if "x \<in> set p" for x
    using assms(1) that by (rule sorted_ends)
  then have "take ?q x = take ?q (hd p) \<and> ?q \<le> length x" if "x \<in> set p" for x
    using that take_between [of "hd p" x "last p" ?q] common_prefix_take common_prefix_le1 common_prefix_le2 by blast
  then show ?thesis
    using assms True surrogate_at_imp_surrogate [of ?q k k'] by (simp add: page_lane_def)
next
  case False
  then show ?thesis using assms by (cases p) auto
qed

lemma length_filter_page: "p \<in> set (pages ks) \<Longrightarrow> length (filter P p) \<le> length (filter P ks)"
proof -
  assume "p \<in> set (pages ks)"
  then have "length (filter P p) \<in> set (map (\<lambda>p. length (filter P p)) (pages ks))" by simp
  then have "length (filter P p) \<le> (\<Sum>p \<leftarrow> pages ks. length (filter P p))" by (rule member_le_sum_list) simp
  also have "\<dots> = length (filter P (concat (pages ks)))" by (simp add: filter_concat length_concat comp_def)
  finally show ?thesis by (simp add: concat_pages)
qed

lemma sorted_page: "sorted ks \<Longrightarrow> p \<in> set (pages ks) \<Longrightarrow> sorted p"
  using concat_pages [of ks] by (metis sorted_append concat_append concat.simps(2) split_list)

lemma page_candidates_le:
  assumes "p \<in> set (pages (sort ks))" "k \<in> set p"
  shows "candidates (page_lane p) p k \<le> candidates surrogate ks k"
proof -
  have p: "sorted p" using assms(1) by (rule sorted_page [OF sorted_sort])
  have "candidates (page_lane p) p k \<le> candidates surrogate p k"
    using page_lane_imp_surrogate [OF p _ assms(2)] unfolding candidates_def length_filter_conv_card
    by (intro card_mono) auto
  also have "\<dots> \<le> candidates surrogate (sort ks) k" unfolding candidates_def by (rule length_filter_page [OF assms(1)])
  also have "\<dots> = candidates surrogate ks k" unfolding candidates_def by (simp add: filter_sort)
  finally show ?thesis .
qed

lemma paged_scan_le_total: "paged_scan ks \<le> total_scan ks"
proof -
  have "paged_scan ks \<le> (\<Sum>p \<leftarrow> pages (sort ks). \<Sum>k \<leftarrow> p. candidates surrogate ks k)"
    unfolding paged_scan_def by (intro sum_list_mono page_candidates_le)
  also have "\<dots> = (\<Sum>k \<leftarrow> sort ks. candidates surrogate ks k)"
    by (simp only: sum_list_concat [symmetric] concat_pages)
  also have "\<dots> = total_scan ks" by (simp add: total_scan_def sum_mset_sum_list [symmetric])
  finally show ?thesis .
qed

lemma paged_scan_ge: "length ks \<le> paged_scan ks"
proof -
  have "length p \<le> (\<Sum>k \<leftarrow> p. candidates (page_lane p) p k)" for p
    using sum_list_mono [of p "\<lambda>_. 1" "candidates (page_lane p) p"] candidates_pos [of _ p]
    by (auto simp: sum_list_triv Suc_le_eq)
  then have "(\<Sum>p \<leftarrow> pages (sort ks). length p) \<le> paged_scan ks" unfolding paged_scan_def by (intro sum_list_mono)
  then show ?thesis by (simp add: sum_length_pages)
qed

lemma fold_max_le_iff: "fold max xs (a::nat) \<le> b \<longleftrightarrow> a \<le> b \<and> (\<forall>x \<in> set xs. x \<le> b)"
  by (induction xs arbitrary: a) auto

lemma group_sizes: "snd ` set (histogram (map f ks)) = candidates f ks ` set ks"
  by (auto simp: histogram_eq image_comp comp_def count_list_candidates)

lemma largest_group_le_iff: "fold max (map snd (histogram (map f ks))) 0 \<le> b \<longleftrightarrow> (\<forall>k \<in> set ks. candidates f ks k \<le> b)"
  unfolding fold_max_le_iff set_map group_sizes by simp

lemma paged_largest_le_iff:
  "fold max (map snd (concat (map page_groups ps))) 0 \<le> b \<longleftrightarrow> (\<forall>p \<in> set ps. \<forall>k \<in> set p. candidates (page_lane p) p k \<le> b)"
proof -
  have "(\<forall>x \<in> set (map snd (concat (map page_groups ps))). x \<le> b) \<longleftrightarrow> (\<forall>p \<in> set ps. \<forall>x \<in> snd ` set (page_groups p). x \<le> b)"
    by auto
  then show ?thesis unfolding fold_max_le_iff by (simp add: page_groups_def group_sizes)
qed

lemma set_page: "p \<in> set (pages (sort ks)) \<Longrightarrow> k \<in> set p \<Longrightarrow> k \<in> set ks"
  using concat_pages [of "sort ks"] by (metis UN_I set_concat set_sort)

lemma page_candidates_bound:
  assumes "p \<in> set (pages (sort ks))" "k \<in> set p"
  shows "candidates (page_lane p) p k \<le> min 16 (fold max (map snd (histogram (map surrogate ks))) 0)"
proof -
  have "candidates surrogate ks k \<le> fold max (map snd (histogram (map surrogate ks))) 0"
    using largest_group_le_iff [of surrogate ks] set_page [OF assms] by blast
  moreover have "candidates (page_lane p) p k \<le> 16"
    using candidates_le [of "page_lane p" p k] length_page [OF assms(1)] by (simp add: node_consts)
  ultimately show ?thesis using page_candidates_le [OF assms] by simp
qed

section \<open>Big-endian ordinals\<close>

text \<open>\<open>be k n\<close>: the last \<open>k\<close> base 256 digits of \<open>n\<close>.\<close>

definition be :: "nat \<Rightarrow> nat \<Rightarrow> bytes" where
  "be k n = map (\<lambda>b. of_nat (n div 256 ^ (k - 1 - b))) [0..<k]"

lemma length_be [simp]: "length (be k n) = k"
  by (simp add: be_def)

lemma be_Suc: "be (Suc k) n = be k (n div 256) @ [of_nat n]"
proof -
  have "n div 256 ^ (k - b) = n div 256 div 256 ^ (k - Suc b)" if "b < k" for b
    using that by (simp add: div_mult2_eq [symmetric] Suc_diff_Suc power_Suc [symmetric] del: power_Suc)
  then show ?thesis by (auto simp: be_def)
qed

lemma be_bytes_be:
  assumes "i < 2 ^ 64"
  shows "be_bytes (of_nat i) = be 8 i"
proof -
  have "ucast (drop_bit (8 * j) (of_nat i :: u64) AND 0xFF) = (of_nat (i div 256 ^ j) :: u8)" for j
  proof -
    have u: "unat (of_nat i :: u64) = i" using assms by (simp add: unat_of_nat take_bit_nat_eq_self)
    have "ucast (w AND 0xFF) = (ucast w :: u8)" for w :: u64
    proof -
      have "(0xFF :: u64) = mask 8" by (simp add: mask_eq_exp_minus_1)
      then have "w AND 0xFF = take_bit 8 w" by (simp add: take_bit_eq_mask)
      then show ?thesis by (auto intro!: bit_word_eqI simp: bit_ucast_iff bit_take_bit_iff)
    qed
    then have "ucast (drop_bit (8 * j) (of_nat i :: u64) AND 0xFF) = (ucast (drop_bit (8 * j) (of_nat i :: u64)) :: u8)" by simp
    also have "\<dots> = of_nat (unat (drop_bit (8 * j) (of_nat i :: u64)))" by simp
    also have "unat (drop_bit (8 * j) (of_nat i :: u64)) = i div 256 ^ j"
      by (simp add: unat_drop_bit_eq u drop_bit_nat_def power_mult)
    finally show ?thesis .
  qed
  then show ?thesis by (simp add: be_bytes_def be_def)
qed

lemma big_endian_append: "big_endian (as @ bs) = big_endian as * 256 ^ length bs + big_endian bs"
  by (induction as) (simp_all add: power_add algebra_simps)

lemma big_endian_be: "big_endian (be k n) = n mod 256 ^ k"
proof (induction k arbitrary: n)
  case 0
  then show ?case by (simp add: be_def)
next
  case (Suc k)
  have "unat (of_nat n :: u8) = n mod 256" by (simp add: unat_of_nat take_bit_eq_mod)
  then show ?case using Suc.IH [of "n div 256"] by (simp add: be_Suc big_endian_append mod_mult2_eq)
qed

lemma be_mono: "i \<le> j \<Longrightarrow> j < 256 ^ k \<Longrightarrow> be k i @ suf \<le> be k j @ suf"
  by (subst big_endian_le_iff [symmetric]) (simp_all add: big_endian_append big_endian_be)

section \<open>Pages of consecutive ordinals\<close>

lemma pages_upt:
  "p \<in> set (pages (map f [16 * q..<n])) \<Longrightarrow> \<exists>r m. p = map f [16 * r..<m] \<and> 16 * r < m \<and> m \<le> 16 * r + 16 \<and> m \<le> n"
proof (induction "n - 16 * q" arbitrary: q rule: less_induct)
  case less
  have ne: "16 * q < n" using less.prems by (subst (asm) pages.simps) (auto split: if_splits)
  have "pages (map f [16 * q..<n]) = map f [16 * q..<min (16 * q + 16) n] # pages (map f [16 * Suc q..<n])"
    using ne by (subst pages.simps) (simp add: take_map drop_map node_consts min_def add.commute)
  then consider "p = map f [16 * q..<min (16 * q + 16) n]" | "p \<in> set (pages (map f [16 * Suc q..<n]))"
    using less.prems by auto
  then show ?case
  proof cases
    case 1
    then show ?thesis using ne by (intro exI [of _ q] exI [of _ "min (16 * q + 16) n"]) simp
  next
    case 2
    have "n - 16 * Suc q < n - 16 * q" using ne by presburger
    then show ?thesis using less.hyps 2 by blast
  qed
qed

lemma pad_Cons_append: "n < length k \<Longrightarrow> pad (Suc n) (b # k) = b # pad n k"
  by simp

lemma page_lanes_apart:
  assumes p: "p = map (\<lambda>i. be 8 i @ suf) [16 * r..<m]" "16 * r < m" "m \<le> 16 * r + 16"
    and ij: "i \<in> {16 * r..<m}" "j \<in> {16 * r..<m}" "page_lane p (be 8 i @ suf) = page_lane p (be 8 j @ suf)"
  shows "i = j"
proof (cases "length p > 1")
  case False
  then have "m = Suc (16 * r)" using p(1,2) by simp
  then show ?thesis using ij by simp
next
  case True
  let ?first = "be 8 (16 * r) @ suf" and ?last = "be 8 (m - 1) @ suf"
  have block: "x div 256 = r div 16" if "x \<in> {16 * r..<m}" for x using that p(3) by auto
  have key: "be 8 x @ suf = be 7 (r div 16) @ of_nat x # suf" if "x \<in> {16 * r..<m}" for x
    using be_Suc [of 7 x] block [OF that] by simp
  have m1: "16 * r \<in> {16 * r..<m}" "m - 1 \<in> {16 * r..<m}" "16 * r < m - 1" using True p by auto
  note keys = key [OF m1(1)] key [OF m1(2)]
  have ends: "hd p = ?first" "last p = ?last" using p by (simp_all add: hd_map last_map)
  have byte: "x = y" if "(of_nat x :: u8) = of_nat y" "x \<in> {16 * r..<m}" "y \<in> {16 * r..<m}" for x y
  proof -
    have "x mod 256 = y mod 256" using that(1) by (simp add: word_of_nat_eq_iff take_bit_eq_mod)
    moreover have "x div 256 = y div 256" using block that(2,3) by simp
    ultimately show ?thesis by (metis div_mult_mod_eq)
  qed
  have "7 \<le> common_prefix_len ?first ?last" unfolding common_prefix_len_greatest keys by simp
  moreover have "\<not> 8 \<le> common_prefix_len ?first ?last"
    using byte [OF _ m1(1,2)] m1(3) unfolding common_prefix_len_greatest keys by auto
  ultimately have "common_prefix_len ?first ?last = 7" by simp
  then have "surrogate (of_nat i # suf) = surrogate (of_nat j # suf)"
    using ij(3) True unfolding page_lane_def ends key [OF ij(1)] key [OF ij(2)] by (simp add: surrogate_at_drop)
  then have "(of_nat i :: u8) = of_nat j" by (simp add: surrogate_eq_iff eval_nat_numeral)
  then show ?thesis using byte ij(1,2) by blast
qed

lemma candidates_1: "distinct ks \<Longrightarrow> inj_on f (set ks) \<Longrightarrow> k \<in> set ks \<Longrightarrow> candidates f ks k = 1"
proof -
  assume "distinct ks" "inj_on f (set ks)" "k \<in> set ks"
  then have "filter (\<lambda>k'. f k' = f k) ks = filter (\<lambda>k'. k' = k) ks" by (intro filter_cong) (auto dest: inj_onD)
  then show ?thesis using \<open>distinct ks\<close> \<open>k \<in> set ks\<close>
    by (simp add: candidates_def distinct_length_filter Int_insert_left)
qed

lemma ordinals_paged_scan:
  assumes "n \<le> 2 ^ 64"
  shows "paged_scan (map (\<lambda>i. be 8 i @ suf) [0..<n]) = n"
proof -
  let ?f = "\<lambda>i. be 8 i @ suf"
  have sorted: "sorted (map ?f [0..<n])" using assms by (auto simp: sorted_iff_nth_mono intro: be_mono)
  have "candidates (page_lane p) p k = 1" if p: "p \<in> set (pages (map ?f [0..<n]))" and k: "k \<in> set p" for p k
  proof -
    obtain r m where rm: "p = map ?f [16 * r..<m]" "16 * r < m" "m \<le> 16 * r + 16"
      using pages_upt [of p ?f 0 n] p by auto
    note apart = page_lanes_apart [OF rm]
    have "distinct p" using apart rm(1) by (auto simp: distinct_map intro!: inj_onI)
    moreover have "inj_on (page_lane p) (set p)" unfolding rm(1) set_map
      using apart by (intro inj_onI) (auto simp only: set_upt rm(1))
    ultimately show ?thesis using k by (rule candidates_1)
  qed
  then have "(\<Sum>k \<leftarrow> p. candidates (page_lane p) p k) = length p" if "p \<in> set (pages (map ?f [0..<n]))" for p
    using that by (simp add: sum_list_triv cong: map_cong)
  then have "paged_scan (map ?f [0..<n]) = (\<Sum>p \<leftarrow> pages (map ?f [0..<n]). length p)"
    unfolding paged_scan_def sorted_sort_id [OF sorted] by (intro arg_cong [of _ _ sum_list] map_cong) auto
  then show ?thesis by (simp add: sum_length_pages)
qed

lemma big_endian_zeros [simp]: "big_endian (replicate n 0) = 0"
  by (induction n) simp_all

lemma ordinal_surrogate: "i < 2 ^ 32 \<Longrightarrow> surrogate (be 8 i @ suf) = 0"
proof -
  assume i: "i < 2 ^ 32"
  have "big_endian (pad 4 (be 8 i @ suf)) = big_endian (take 4 (be 8 i))"
    using pad_take [of 4 "be 8 i @ suf"] pad_append [of "take 4 (be 8 i)" 4 "[]"] by simp
  also have "take 4 (be 8 i) = replicate 4 0"
  proof (rule nth_equalityI)
    fix b
    assume "b < length (take 4 (be 8 i))"
    then have b: "b < 4" by simp
    have "(256::nat) ^ 4 \<le> 256 ^ (7 - b)" using b by (intro power_increasing) auto
    then have "i < 256 ^ (7 - b)" using i by simp
    then show "take 4 (be 8 i) ! b = replicate 4 0 ! b" using b by (simp add: be_def)
  qed simp
  finally show ?thesis by (simp add: word_unat_eq_iff unat_surrogate)
qed

lemma ordinals_total_scan:
  assumes "n \<le> 2 ^ 32"
  shows "total_scan (map (\<lambda>i. be 8 i @ suf) [0..<n]) = n * n"
proof -
  let ?ks = "map (\<lambda>i. be 8 i @ suf) [0..<n]"
  have lane: "surrogate k = 0" if "k \<in> set ?ks" for k using that assms ordinal_surrogate by auto
  then have "candidates surrogate ?ks k = n" if "k \<in> set ?ks" for k
    unfolding candidates_def using that by (subst filter_True) simp_all
  then have "total_scan ?ks = (\<Sum>k \<leftarrow> ?ks. n)" unfolding total_scan_def by (intro arg_cong [of _ _ sum_list] map_cong refl)
  then show ?thesis by (simp add: comp_def sum_list_triv)
qed

lemma ordinals_report:
  assumes rnd: "rounding rnd" and n: "0 < n" "n \<le> 2 ^ 26" and ks: "fst (gen n s) = map (\<lambda>i. be 8 i @ suf) [0..<n]"
  shows "report_row rnd gen n s = (Fin (of_nat n), Fin 1, ''SIMD effective'')"
proof -
  have "rnd 1 = 1" "rnd (of_nat n) = of_nat n" using n rounding_nat [OF rnd, of 1] rounding_nat [OF rnd, of n] by simp_all
  moreover have "length (map (\<lambda>i. be 8 i @ suf) [0..<n]) \<le> 2 ^ 26" using n by simp
  ultimately show ?thesis
    using n ordinals_total_scan [of n suf] ordinals_paged_scan [of n suf]
    by (simp add: report_row_def ks analyze_summary [OF rnd] analyze_paged_summary [OF rnd] summary_def fp_divide_def verdict_def fp_less_def)
qed

section \<open>Properties\<close>

text \<open>The expected scan both columns report is the mean, over the keys, of the candidates a lookup of the
  key has to compare: the keys with its lane, over the whole key set or on its page of the sorted keys. The
  collision rate counts the keys with a second candidate. An empty key set gives NaN.\<close>

theorem expected_scan_is_mean:
  assumes "rounding rnd" "length ks \<le> 2 ^ 26"
  shows "st_expected_scan (analyze rnd ks) =
      fp_divide rnd (of_nat (\<Sum>k \<leftarrow> ks. candidates surrogate ks k)) (of_nat (length ks)) \<and>
    st_expected_scan (analyze_paged rnd ks) =
      fp_divide rnd (of_nat (\<Sum>p \<leftarrow> pages (sort ks). \<Sum>k \<leftarrow> p. candidates (page_lane p) p k)) (of_nat (length ks)) \<and>
    st_collision_rate (analyze rnd ks) =
      fp_divide rnd (of_nat (length (filter (\<lambda>k. candidates surrogate ks k > 1) ks))) (of_nat (length ks))"
  by (simp add: analyze_summary [OF assms] analyze_paged_summary [OF assms] summary_def total_scan_def paged_scan_def)

theorem expected_scan_is_mean_witness:
  "st_expected_scan (analyze (\<lambda>x. of_int \<lfloor>x * 2 ^ 52\<rfloor> / 2 ^ 52) [[1, 2], [3], [1, 2, 0]]) =
     fp_divide (\<lambda>x. of_int \<lfloor>x * 2 ^ 52\<rfloor> / 2 ^ 52) 5 3"
  using expected_scan_is_mean [OF rounding_down, of "[[1, 2], [3], [1, 2, 0]]"]
  by (simp add: candidates_def surrogate_def surrogate_shift_def load_be_def)

text \<open>C38: taking the lane past the page's prefix is never worse than taking it from the start of the key, on any
  key set: the per-node column is at most the global one, and it lies between one comparison and a page full.\<close>

theorem per_node_never_worse:
  assumes "rounding rnd" "length ks \<le> 2 ^ 26" "ks \<noteq> []"
  shows "\<exists>g pn. st_expected_scan (analyze rnd ks) = Fin g \<and> st_expected_scan (analyze_paged rnd ks) = Fin pn \<and>
    1 \<le> pn \<and> pn \<le> g \<and> pn \<le> 16 \<and>
    st_largest_group (analyze_paged rnd ks) \<le> min 16 (st_largest_group (analyze rnd ks))"
proof -
  let ?N = "of_nat (length ks) :: rat"
  have N: "0 < ?N" using assms(3) by simp
  have pos: "1 \<le> of_nat (paged_scan ks) / ?N" using paged_scan_ge [of ks] N by (simp add: le_divide_eq)
  have glob: "of_nat (paged_scan ks) / ?N \<le> of_nat (total_scan ks) / ?N"
    using paged_scan_le_total [of ks] by (intro divide_right_mono) simp_all
  have "of_nat (paged_scan ks) \<le> (of_nat (16 * length ks) :: rat)" using paged_scan_le [of ks] by (simp only: of_nat_le_iff)
  then have page: "of_nat (paged_scan ks) / ?N \<le> 16" using N by (simp add: divide_le_eq)
  have mono: "rnd x \<le> rnd y" if "x \<le> y" for x y using assms(1) that by (simp add: rounding_def mono_def)
  have exact: "rnd 1 = 1" "rnd 16 = 16" using rounding_nat [OF assms(1), of 1] rounding_nat [OF assms(1), of 16] by simp_all
  have "\<forall>p \<in> set (pages (sort ks)). \<forall>k \<in> set p. candidates (page_lane p) p k \<le> min 16 (fold max (map snd (histogram (map surrogate ks))) 0)"
    using page_candidates_bound by blast
  then show ?thesis
    using N mono [OF pos] mono [OF glob] mono [OF page]
    by (simp add: analyze_summary [OF assms(1,2)] analyze_paged_summary [OF assms(1,2)] summary_def fp_divide_def paged_largest_le_iff exact)
qed

theorem per_node_never_worse_witness:
  "\<exists>g pn. st_expected_scan (analyze (\<lambda>x. of_int \<lfloor>x * 2 ^ 52\<rfloor> / 2 ^ 52) [[1], [2]]) = Fin g \<and>
     st_expected_scan (analyze_paged (\<lambda>x. of_int \<lfloor>x * 2 ^ 52\<rfloor> / 2 ^ 52) [[1], [2]]) = Fin pn \<and> 1 \<le> pn \<and> pn \<le> g"
  using per_node_never_worse [OF rounding_down, of "[[1], [2]]"] by auto

text \<open>C39: on the two keyspaces of big-endian ordinals, RocksDB's \<^verbatim>\<open>db_bench\<close> among them, the lane from the
  start of the key holds one value for every key, so that a lookup compares all of them, and the lane past the
  page's prefix tells every two keys of a page apart.\<close>

theorem ordinal_keys_report:
  assumes "rounding rnd" "0 < count_argument argv" "count_argument argv \<le> 2 ^ 26"
  shows "\<exists>n rows. collision_main rnd G argv seed = (n, rows) \<and>
    {(''sequential_bigendian'', Fin (of_nat n), Fin 1, ''SIMD effective''),
     (''db_bench_default'', Fin (of_nat n), Fin 1, ''SIMD effective'')} \<subseteq> set rows"
proof -
  let ?n = "count_argument argv"
  have "fst (gen_sequential_bigendian ?n seed) = map (\<lambda>i. be 8 i @ []) [0..<?n]"
    using assms(3) by (simp add: gen_sequential_bigendian_def be_bytes_be)
  moreover have "fst (gen_db_bench ?n seed) = map (\<lambda>i. be 8 i @ drop 8 (replicate 16 48)) [0..<?n]"
    using assms(3) by (simp add: gen_db_bench_def be_bytes_be)
  ultimately have "report_row rnd gen_sequential_bigendian ?n seed = (Fin (of_nat ?n), Fin 1, ''SIMD effective'')"
    "report_row rnd gen_db_bench ?n seed = (Fin (of_nat ?n), Fin 1, ''SIMD effective'')"
    by (auto intro!: ordinals_report [OF assms])
  then show ?thesis by (simp add: collision_main_def collision_report_def gens_def Let_def)
qed

theorem ordinal_keys_report_witness:
  "\<exists>rows. collision_main (\<lambda>x. of_int \<lfloor>x * 2 ^ 52\<rfloor> / 2 ^ 52)
      \<lparr>draw64 = \<lambda>s. (s, s + 1), draw_byte = \<lambda>s. (ucast s, s + 1), draw_tenant = \<lambda>s. (unat s mod 1000, s + 1)\<rparr>
      [ascii ''collision_report'', decimal 5000] 0xC0FFEE = (5000, rows) \<and>
    (''db_bench_default'', Fin 5000, Fin 1, ''SIMD effective'') \<in> set rows"
proof -
  have "count_argument [ascii ''collision_report'', decimal 5000] = 5000" by (simp add: count_argument_def strtoul_decimal)
  then show ?thesis
    using ordinal_keys_report [OF rounding_down, where argv = "[ascii ''collision_report'', decimal 5000]"
        and G = "\<lparr>draw64 = \<lambda>s. (s, s + 1), draw_byte = \<lambda>s. (ucast s, s + 1), draw_tenant = \<lambda>s. (unat s mod 1000, s + 1)\<rparr>" and seed = "0xC0FFEE"]
    by (auto simp: collision_main_def)
qed

end
