(* ===== verification/Search_Bench.thy ===== *)
theory Search_Bench
  imports Kernel_Bench Collision_Report
begin

text \<open>
  \<^verbatim>\<open>bench/bench_search.cpp\<close>: the two families of timed benchmarks, what they are registered with, and what each of them
  hands to the library that times it.

  Google Benchmark is not modelled. What a body gives it is a value: the reason it was skipped, or the answers
  passed to \<^verbatim>\<open>DoNotOptimize\<close> in order with the number of items and the label it sets. How often the timed loop runs is
  the library's choice, a parameter. The engine \<^verbatim>\<open>mt19937_64\<close> seeded with a number is the parameter \<open>seed\<close>.
\<close>

section \<open>The fixtures\<close>

definition kProbes :: nat where "kProbes = 8192"

text \<open>The static objects behind \<^verbatim>\<open>single_node()\<close> and \<^verbatim>\<open>append_node()\<close>: built once, the same for every benchmark.\<close>

definition single_node :: "'s rng \<Rightarrow> (u64 \<Rightarrow> 's) \<Rightarrow> (node list \<times> u32 list) option" where
  "single_node G seed =
     Option.bind (make_nodes G 1 (seed 0xA9A12A11)) (\<lambda>(nodes, s).
       map_option (\<lambda>(probes, s). (nodes, probes)) (make_probes G nodes kProbes s))"

definition append_node_fixture :: "'s rng \<Rightarrow> (u64 \<Rightarrow> 's) \<Rightarrow> (append_node list \<times> u32 list) option" where
  "append_node_fixture G seed =
     Option.bind (make_append_nodes G 1 (seed 0xA9A12A11)) (\<lambda>(nodes, s).
       map_option (\<lambda>(probes, s). (nodes, probes)) (make_perm_probes G nodes kProbes s))"

text \<open>One needle of the sweep with the node it is looked up in, whose index is kept in 32 bits. A miss is any
  key below the sentinel, and may be present by chance.\<close>

definition working_set_probe :: "'s rng \<Rightarrow> node list \<Rightarrow> 's \<Rightarrow> (u32 \<times> u32) \<times> 's" where
  "working_set_probe G nodes s =
     (let (i, s) = draw_index G (length nodes - 1) s; (hit, s) = draw_hit G s
      in if hit then (let (slot, s) = draw_index G (kNodeKeys - 1) s in ((of_nat i, keys (nodes ! i) ! slot), s))
         else (let (k, s) = draw_key G s in ((of_nat i, k), s)))"

definition working_set :: "'s rng \<Rightarrow> (u64 \<Rightarrow> 's) \<Rightarrow> nat \<Rightarrow> (node list \<times> (u32 \<times> u32) list) option" where
  "working_set G seed node_count =
     Option.bind (make_nodes G node_count (seed 0xC0FFEE)) (\<lambda>(nodes, s).
       map_option (\<lambda>(probes, s). (nodes, probes)) (generate (\<lambda>s. Some (working_set_probe G nodes s)) kProbes s))"

section \<open>The bodies\<close>

fun isa_available :: "isa \<Rightarrow> isa \<Rightarrow> bool" where
  "isa_available host Avx512 = (host = Avx512)"
| "isa_available host Avx2 = (host = Avx2 \<or> host = Avx512)"
| "isa_available host Scalar = True"

text \<open>\<open>Illegal_Instruction\<close>: the host stopped the program at a call of a function compiled for more than it has.\<close>

datatype bench_run = Skipped_With_Error string | Timed "nat list" int "bytes option" | Illegal_Instruction

definition executed :: "isa \<Rightarrow> 'f compiled \<Rightarrow> nat \<Rightarrow> 'p list \<Rightarrow> bench_run \<Rightarrow> bench_run" where
  "executed host fn iterations probes run =
     (if 0 < iterations \<and> probes \<noteq> [] \<and> \<not> built_for fn \<le> host then Illegal_Instruction else run)"

text \<open>\<^verbatim>\<open>for (auto _ : state)\<close> around the loop over the needles.\<close>

fun timed_loop :: "nat \<Rightarrow> ('p \<Rightarrow> nat) \<Rightarrow> 'p list \<Rightarrow> nat list" where
  "timed_loop 0 call probes = []"
| "timed_loop (Suc iterations) call probes = map call probes @ timed_loop iterations call probes"

text \<open>The product is one of \<^verbatim>\<open>std::size_t\<close>, handed over as \<^verbatim>\<open>std::int64_t\<close>.\<close>

definition items_processed :: "nat \<Rightarrow> int" where
  "items_processed iterations = sint (of_nat iterations * of_nat kProbes :: u64)"

definition no_isa :: string where "no_isa = ''host lacks the required ISA''"

definition BM_Probe :: "'s rng \<Rightarrow> (u64 \<Rightarrow> 's) \<Rightarrow> isa \<Rightarrow> (node \<Rightarrow> u32 \<Rightarrow> nat) compiled \<Rightarrow> isa \<Rightarrow> nat \<Rightarrow> bench_run option" where
  "BM_Probe G seed host fn needs iterations =
     (if \<not> isa_available host needs then Some (Skipped_With_Error no_isa)
      else map_option (\<lambda>(nodes, probes). executed host fn iterations probes
               (Timed (timed_loop iterations (body_of fn (nodes ! 0)) probes) (items_processed iterations) None))
             (single_node G seed))"

definition BM_ProbePerm ::
  "'s rng \<Rightarrow> (u64 \<Rightarrow> 's) \<Rightarrow> isa \<Rightarrow> (node \<Rightarrow> u32 \<Rightarrow> u64 \<Rightarrow> nat) compiled \<Rightarrow> isa \<Rightarrow> nat \<Rightarrow> bench_run option" where
  "BM_ProbePerm G seed host fn needs iterations =
     (if \<not> isa_available host needs then Some (Skipped_With_Error no_isa)
      else map_option (\<lambda>(nodes, probes). let a = nodes ! 0
               in executed host fn iterations probes
                    (Timed (timed_loop iterations (\<lambda>p. body_of fn (an_node a) p (an_order a)) probes) (items_processed iterations) None))
             (append_node_fixture G seed))"

definition BM_WorkingSet ::
  "'s rng \<Rightarrow> (u64 \<Rightarrow> 's) \<Rightarrow> isa \<Rightarrow> (node \<Rightarrow> u32 \<Rightarrow> nat) compiled \<Rightarrow> isa \<Rightarrow> nat \<Rightarrow> nat \<Rightarrow> bench_run option" where
  "BM_WorkingSet G seed host fn needs node_count iterations =
     (if \<not> isa_available host needs then Some (Skipped_With_Error no_isa)
      else map_option (\<lambda>(nodes, probes). executed host fn iterations probes
               (Timed (timed_loop iterations (\<lambda>(i, k). body_of fn (nodes ! unat i) k) probes) (items_processed iterations)
                 (Some (decimal (unat (of_nat node_count * of_nat kCacheLine div 1024 :: u64)) @ ascii '' KiB''))))
             (working_set G seed node_count))"

section \<open>The registrations\<close>

definition probe_benchmarks :: "bool \<Rightarrow> (node \<Rightarrow> u32 \<Rightarrow> nat) kernel list" where
  "probe_benchmarks x86 =
     [\<lparr>k_name = ''probe/scalar_linear'', k_fn = portable search_scalar_linear, k_needs = Scalar\<rparr>,
      \<lparr>k_name = ''probe/scalar_autovec'', k_fn = portable search_scalar_autovec, k_needs = Scalar\<rparr>,
      \<lparr>k_name = ''probe/scalar_branchless'', k_fn = portable search_scalar_branchless, k_needs = Scalar\<rparr>,
      \<lparr>k_name = ''probe/scalar_binary'', k_fn = portable search_scalar_binary, k_needs = Scalar\<rparr>] @
     (if x86 then [\<lparr>k_name = ''probe/avx2'', k_fn = avx2_search, k_needs = Avx2\<rparr>,
                   \<lparr>k_name = ''probe/avx512'', k_fn = avx512_search, k_needs = Avx512\<rparr>] else [])"

definition lb_benchmarks :: "bool \<Rightarrow> (node \<Rightarrow> u32 \<Rightarrow> nat) kernel list" where
  "lb_benchmarks x86 =
     [\<lparr>k_name = ''probe/lb_scalar'', k_fn = portable lower_bound_scalar, k_needs = Scalar\<rparr>,
      \<lparr>k_name = ''probe/lb_scalar_brless'', k_fn = portable lower_bound_scalar_branchless, k_needs = Scalar\<rparr>] @
     (if x86 then [\<lparr>k_name = ''probe/lb_avx2'', k_fn = avx2_lower_bound, k_needs = Avx2\<rparr>,
                   \<lparr>k_name = ''probe/lb_avx512'', k_fn = avx512_lower_bound, k_needs = Avx512\<rparr>] else [])"

definition perm_benchmarks :: "bool \<Rightarrow> (node \<Rightarrow> u32 \<Rightarrow> u64 \<Rightarrow> nat) kernel list" where
  "perm_benchmarks x86 =
     [\<lparr>k_name = ''probe/perm_scalar'', k_fn = portable lower_bound_perm_scalar, k_needs = Scalar\<rparr>] @
     (if x86 then [\<lparr>k_name = ''probe/perm_avx2'', k_fn = avx2_lower_bound_perm, k_needs = Avx2\<rparr>,
                   \<lparr>k_name = ''probe/perm_avx512'', k_fn = avx512_lower_bound_perm, k_needs = Avx512\<rparr>] else [])"

definition working_set_benchmarks :: "bool \<Rightarrow> (node \<Rightarrow> u32 \<Rightarrow> nat) kernel list" where
  "working_set_benchmarks x86 =
     [\<lparr>k_name = ''working_set/scalar_linear'', k_fn = portable search_scalar_linear, k_needs = Scalar\<rparr>] @
     (if x86 then [\<lparr>k_name = ''working_set/avx2'', k_fn = avx2_search, k_needs = Avx2\<rparr>,
                   \<lparr>k_name = ''working_set/avx512'', k_fn = avx512_search, k_needs = Avx512\<rparr>] else [])"

definition working_set_args :: "nat list" where "working_set_args = [512, 2048, 65536, 1048576]"

text \<open>\<^verbatim>\<open>BENCHMARK_MAIN\<close>: every registered body with every argument, in order.\<close>

definition search_bench ::
  "'s rng \<Rightarrow> (u64 \<Rightarrow> 's) \<Rightarrow> bool \<Rightarrow> isa \<Rightarrow> (string \<Rightarrow> nat \<Rightarrow> nat) \<Rightarrow> (string \<times> nat option \<times> bench_run option) list" where
  "search_bench G seed x86 host iterations =
     map (\<lambda>k. (k_name k, None, BM_Probe G seed host (k_fn k) (k_needs k) (iterations (k_name k) 0)))
       (probe_benchmarks x86 @ lb_benchmarks x86) @
     map (\<lambda>k. (k_name k, None, BM_ProbePerm G seed host (k_fn k) (k_needs k) (iterations (k_name k) 0))) (perm_benchmarks x86) @
     concat (map (\<lambda>k. map (\<lambda>n. (k_name k, Some n, BM_WorkingSet G seed host (k_fn k) (k_needs k) n (iterations (k_name k) n)))
         working_set_args) (working_set_benchmarks x86))"

section \<open>What the fixtures hold\<close>

lemma isa_available_iff_le: "isa_available host needs \<longleftrightarrow> needs \<le> host"
  by (cases needs; cases host) (simp_all add: less_eq_isa_def)

text \<open>A benchmark of \<^verbatim>\<open>bench_search.cpp\<close> runs a kernel that the counter report runs too.\<close>

lemma listed_kernels:
  "map k_fn (probe_benchmarks x86) = map k_fn (kernels x86)"
  "map k_fn (lb_benchmarks x86) = map k_fn (lb_kernels x86)"
  "map k_fn (perm_benchmarks x86) = map k_fn (perm_kernels x86)"
  "k_fn ` set (working_set_benchmarks x86) \<subseteq> k_fn ` set (kernels x86)"
  by (cases x86; simp add: probe_benchmarks_def kernels_def lb_benchmarks_def lb_kernels_def perm_benchmarks_def perm_kernels_def
      working_set_benchmarks_def)+

lemma benchmarks_targets_named:
  "targets_named (probe_benchmarks x86)" "targets_named (lb_benchmarks x86)" "targets_named (perm_benchmarks x86)"
  "targets_named (working_set_benchmarks x86)"
  by (auto simp: targets_named_def probe_benchmarks_def lb_benchmarks_def perm_benchmarks_def working_set_benchmarks_def compiled_defs)

lemma listed_kernel: "map f ks = map f ks' \<Longrightarrow> k \<in> set ks \<Longrightarrow> \<exists>k' \<in> set ks'. f k = f k'"
  by (metis image_eqI image_iff list.set_map)

lemma nodes_ready:
  assumes G: "rng_contract G" "fair G"
  obtains nodes s' where "make_nodes G n s = Some (nodes, s')" "length nodes = n"
    "\<forall>x \<in> set nodes. node_wf x \<and> sorted_wrt (<) (keys x)"
proof -
  have "\<exists>x s'. make_node G s = Some (x, s') \<and> (node_wf x \<and> sorted_wrt (<) (keys x))" for s
    by (rule make_node_ok [OF G]) blast
  from generate_ok [where f = "make_node G" and n = n and s = s and P = "\<lambda>s x. node_wf x \<and> sorted_wrt (<) (keys x)", OF this]
  obtain nodes s' where "make_nodes G n s = Some (nodes, s')" "length nodes = n"
    "list_all2 (\<lambda>s x. node_wf x \<and> sorted_wrt (<) (keys x)) (starts (make_node G) n s) nodes"
    by (auto simp: make_nodes_def)
  then show thesis using that by (force simp: list_all2_conv_all_nth in_set_conv_nth)
qed

text \<open>Every needle of the sweep is looked up in a node of the working set: the 32-bit index does not wrap.\<close>

lemma working_set_in_range:
  assumes G: "rng_contract G" "fair G" and n: "0 < node_count" "node_count \<le> 2 ^ 32"
  obtains nodes probes where "working_set G seed node_count = Some (nodes, probes)" "length nodes = node_count"
    "length probes = kProbes" "\<forall>(i, k) \<in> set probes. unat i < node_count" "\<forall>x \<in> set nodes. node_wf x \<and> sorted_wrt (<) (keys x)"
proof -
  obtain nodes s1 where nodes: "make_nodes G node_count (seed 0xC0FFEE) = Some (nodes, s1)" "length nodes = node_count"
    "\<forall>x \<in> set nodes. node_wf x \<and> sorted_wrt (<) (keys x)" by (rule nodes_ready [OF G])
  have "\<exists>x s'. Some (working_set_probe G nodes s) = Some (x, s') \<and> unat (fst x) < node_count" for s
  proof -
    obtain i s2 where i: "draw_index G (length nodes - 1) s = (i, s2)" by fastforce
    then have "i \<le> length nodes - 1" using G(1) unfolding rng_contract_def by (metis fst_conv)
    then have less: "i < node_count" using n(1) nodes(2) by linarith
    then have "unat (of_nat i :: u32) = i" using n(2) by (simp add: unat_of_nat take_bit_nat_eq_self)
    then show ?thesis using i less by (auto simp: working_set_probe_def split: prod.split)
  qed
  from generate_ok [where f = "\<lambda>s. Some (working_set_probe G nodes s)" and P = "\<lambda>s x. unat (fst x) < node_count"
      and n = kProbes and s = s1, OF this]
  obtain probes s2 where probes: "generate (\<lambda>s. Some (working_set_probe G nodes s)) kProbes s1 = Some (probes, s2)"
    "list_all2 (\<lambda>s x. unat (fst x) < node_count) (starts (\<lambda>s. Some (working_set_probe G nodes s)) kProbes s1) probes"
    "length probes = kProbes" by blast
  have "\<forall>(i, k) \<in> set probes. unat i < node_count"
    using probes(2) by (force simp: list_all2_conv_all_nth in_set_conv_nth)
  then show thesis using that nodes probes(1,3) by (simp add: working_set_def)
qed

lemma timed_loop_cong: "(\<And>p. p \<in> set probes \<Longrightarrow> f p = g p) \<Longrightarrow> timed_loop n f probes = timed_loop n g probes"
  by (induction n) auto

lemma length_timed_loop [simp]: "length (timed_loop n f probes) = n * length probes"
  by (induction n) auto

lemma timed_loop_replicate: "timed_loop n f probes = concat (replicate n (map f probes))"
  by (induction n) auto

text \<open>The number of items is the number of calls, as long as it fits.\<close>

lemma sint_of_nat_small: "m < 2 ^ 63 \<Longrightarrow> sint (of_nat m :: u64) = int m"
  by (simp add: signed_of_nat signed_take_bit_int_eq_self)

lemma items_processed: "n * kProbes < 2 ^ 63 \<Longrightarrow> items_processed n = int (n * kProbes)"
  unfolding items_processed_def of_nat_mult [symmetric] by (rule sint_of_nat_small)

text \<open>What a benchmark should hand over: the answers of its family's scalar reference, pass after pass, one item a call;
  or, exactly when the host lacks the instruction set its function is compiled for, why it was skipped.\<close>

definition expected_run :: "isa \<Rightarrow> 'f kernel \<Rightarrow> nat \<Rightarrow> ('p \<Rightarrow> nat) \<Rightarrow> 'p list \<Rightarrow> bytes option \<Rightarrow> bench_run" where
  "expected_run host k iterations reference probes label =
     (if built_for (k_fn k) \<le> host then Timed (concat (replicate iterations (map reference probes))) (int (iterations * kProbes)) label
      else Skipped_With_Error no_isa)"

lemma expected_timed:
  assumes "iterations * kProbes < 2 ^ 63" "built_for (k_fn k) \<le> host" "\<And>p. p \<in> set probes \<Longrightarrow> call p = reference p"
  shows "executed host (k_fn k) iterations probes (Timed (timed_loop iterations call probes) (items_processed iterations) label) =
    expected_run host k iterations reference probes label"
  using assms(1,2) timed_loop_cong [where f = call and g = reference and probes = probes and n = iterations, OF assms(3)]
  by (simp add: expected_run_def executed_def items_processed timed_loop_replicate)

lemma BM_Probe_expected:
  assumes "single_node G seed = Some ([n], probes)" "iterations * kProbes < 2 ^ 63" and named: "k_needs k = built_for (k_fn k)"
    and agree: "\<And>p. body_of (k_fn k) n p = reference p"
  shows "BM_Probe G seed host (k_fn k) (k_needs k) iterations = Some (expected_run host k iterations reference probes None)"
proof (cases "built_for (k_fn k) \<le> host")
  case True
  then show ?thesis
    using expected_timed [where call = "body_of (k_fn k) n" and reference = reference and probes = probes and label = None, OF assms(2) True agree] assms(1)
    by (simp add: BM_Probe_def isa_available_iff_le named)
qed (simp add: BM_Probe_def isa_available_iff_le expected_run_def named)

lemma BM_ProbePerm_expected:
  assumes "append_node_fixture G seed = Some ([a], probes)" "iterations * kProbes < 2 ^ 63" and named: "k_needs k = built_for (k_fn k)"
    and agree: "\<And>p. body_of (k_fn k) (an_node a) p (an_order a) = reference p"
  shows "BM_ProbePerm G seed host (k_fn k) (k_needs k) iterations = Some (expected_run host k iterations reference probes None)"
proof (cases "built_for (k_fn k) \<le> host")
  case True
  then show ?thesis
    using expected_timed [where call = "\<lambda>p. body_of (k_fn k) (an_node a) p (an_order a)" and reference = reference and probes = probes and label = None,
        OF assms(2) True agree] assms(1)
    by (simp add: BM_ProbePerm_def isa_available_iff_le Let_def named)
qed (simp add: BM_ProbePerm_def isa_available_iff_le expected_run_def named)

text \<open>The label is the size of the nodes, sixteen to the kibibyte.\<close>

definition size_label :: "nat \<Rightarrow> bytes" where
  "size_label node_count = decimal (node_count div 16) @ ascii '' KiB''"

lemma label_size:
  assumes "node_count < 2 ^ 58"
  shows "decimal (unat (of_nat node_count * of_nat kCacheLine div 1024 :: u64)) @ ascii '' KiB'' = size_label node_count"
proof -
  have "unat (of_nat (node_count * 64) :: u64) = node_count * 64"
    using assms by (intro of_nat_inverse) simp_all
  then have "unat (of_nat node_count * 64 div 1024 :: u64) = node_count * 64 div 1024" by (simp add: unat_div_distrib)
  moreover have "node_count * 64 div 1024 = node_count div 16" by simp
  ultimately show ?thesis by (simp add: size_label_def kCacheLine_def)
qed

lemma BM_WorkingSet_expected:
  assumes "working_set G seed node_count = Some (nodes, probes)" "iterations * kProbes < 2 ^ 63" "node_count < 2 ^ 58"
    and named: "k_needs k = built_for (k_fn k)"
    and agree: "\<And>i key. (i, key) \<in> set probes \<Longrightarrow> body_of (k_fn k) (nodes ! unat i) key = reference (nodes ! unat i) key"
  shows "BM_WorkingSet G seed host (k_fn k) (k_needs k) node_count iterations =
    Some (expected_run host k iterations (\<lambda>(i, key). reference (nodes ! unat i) key) probes (Some (size_label node_count)))"
proof (cases "built_for (k_fn k) \<le> host")
  case True
  have "executed host (k_fn k) iterations probes
        (Timed (timed_loop iterations (\<lambda>(i, key). body_of (k_fn k) (nodes ! unat i) key) probes) (items_processed iterations) label) =
      expected_run host k iterations (\<lambda>(i, key). reference (nodes ! unat i) key) probes label" for label
    by (rule expected_timed [OF assms(2) True]) (use agree in auto)
  then show ?thesis
    using assms(1) True label_size [OF assms(3)] by (simp add: BM_WorkingSet_def isa_available_iff_le named)
qed (simp add: BM_WorkingSet_def isa_available_iff_le expected_run_def named)

section \<open>The whole program\<close>

text \<open>A working set of \<open>c\<close> nodes with its needles, as the sweep draws it.\<close>

definition sweep_ready :: "'s rng \<Rightarrow> (u64 \<Rightarrow> 's) \<Rightarrow> nat \<Rightarrow> node list \<Rightarrow> (u32 \<times> u32) list \<Rightarrow> bool" where
  "sweep_ready G seed c nodes needles \<longleftrightarrow>
     working_set G seed c = Some (nodes, needles) \<and> length nodes = c \<and> length needles = kProbes \<and>
     (\<forall>(i, key) \<in> set needles. unat i < c) \<and> (\<forall>x \<in> set nodes. node_wf x \<and> sorted_wrt (<) (keys x))"

lemma sweeps_ready:
  assumes G: "rng_contract G" "fair G"
  obtains nodes needles where "\<forall>c \<in> set working_set_args. sweep_ready G seed c (nodes c) (needles c)"
proof -
  have "\<exists>r. sweep_ready G seed c (fst r) (snd r)" if "c \<in> set working_set_args" for c
  proof -
    have "0 < c" "c \<le> 2 ^ 32" using that by (auto simp: working_set_args_def)
    then show ?thesis
      by (rule working_set_in_range [OF G, where seed = seed]) (auto simp: sweep_ready_def)
  qed
  then have "\<forall>c \<in> set working_set_args. \<exists>r. sweep_ready G seed c (fst r) (snd r)" by blast
  then obtain W where "\<forall>c \<in> set working_set_args. sweep_ready G seed c (fst (W c)) (snd (W c))" by metis
  then show thesis by (intro that [of "fst \<circ> W" "snd \<circ> W"]) simp
qed

lemma sweep_expected:
  assumes ready: "sweep_ready G seed c nodes needles" and k: "k \<in> set (working_set_benchmarks x86)"
    and c: "c \<in> set working_set_args" and it: "iterations * kProbes < 2 ^ 63"
  shows "BM_WorkingSet G seed host (k_fn k) (k_needs k) c iterations =
    Some (expected_run host k iterations (\<lambda>(i, key). search_scalar_linear (nodes ! unat i) key) needles (Some (size_label c)))"
proof -
  have w: "working_set G seed c = Some (nodes, needles)" using ready by (simp add: sweep_ready_def)
  obtain k' where k': "k' \<in> set (kernels x86)" "k_fn k = k_fn k'" using listed_kernels(4) k by blast
  have "body_of (k_fn k) (nodes ! unat i) key = search_scalar_linear (nodes ! unat i) key" if "(i, key) \<in> set needles" for i key
  proof -
    have "nodes ! unat i \<in> set nodes" using ready that by (auto simp: sweep_ready_def)
    then show ?thesis using ready k' kernels_agree by (metis sweep_ready_def)
  qed
  moreover have "c < 2 ^ 58" using c by (auto simp: working_set_args_def)
  moreover have "k_needs k = built_for (k_fn k)" using benchmarks_targets_named(4) k by (auto simp: targets_named_def)
  ultimately show ?thesis by (intro BM_WorkingSet_expected [OF w it])
qed

text \<open>C36: the benchmark program times what it says it times. Whatever the random engine draws, on every host and for
  any numbers of iterations, each registered benchmark ends, and no host meets an instruction it does not have: a benchmark
  is skipped exactly when the host lacks the instruction set its function is compiled for, and otherwise hands over, pass
  after pass, the answers of its family's scalar reference on the same workload, with one item counted for every call and
  the size of the working set as its label.\<close>

theorem search_bench_correct:
  assumes "rng_contract G" "fair G" "\<forall>name arg. iterations name arg * kProbes < 2 ^ 63"
  shows "\<exists>n probes (a :: append_node) perm_probes nodes (needles :: nat \<Rightarrow> (u32 \<times> u32) list).
    length probes = kProbes \<and> length perm_probes = kProbes \<and>
    (\<forall>c \<in> set working_set_args. length (nodes c) = c \<and> length (needles c) = kProbes \<and> (\<forall>(i, key) \<in> set (needles c). unat i < c)) \<and>
    search_bench G seed x86 host iterations =
      map (\<lambda>k. (k_name k, None, Some (expected_run host k (iterations (k_name k) 0) (search_scalar_linear n) probes None)))
        (probe_benchmarks x86) @
      map (\<lambda>k. (k_name k, None, Some (expected_run host k (iterations (k_name k) 0) (lower_bound_scalar n) probes None)))
        (lb_benchmarks x86) @
      map (\<lambda>k. (k_name k, None, Some (expected_run host k (iterations (k_name k) 0)
          (\<lambda>p. lower_bound_perm_scalar (an_node a) p (an_order a)) perm_probes None))) (perm_benchmarks x86) @
      concat (map (\<lambda>k. map (\<lambda>c. (k_name k, Some c, Some (expected_run host k (iterations (k_name k) c)
          (\<lambda>(i, key). search_scalar_linear (nodes c ! unat i) key) (needles c) (Some (size_label c))))) working_set_args)
        (working_set_benchmarks x86))"
proof -
  note G = assms(1,2)
  obtain n probes s1 s2 where n: "make_nodes G 1 (seed 0xA9A12A11) = Some ([n], s1)" "make_probes G [n] kProbes s1 = Some (probes, s2)"
    "length probes = kProbes" "node_wf n" "sorted_wrt (<) (keys n)" by (rule sorted_workload [OF G])
  have single: "single_node G seed = Some ([n], probes)" using n(1,2) by (simp add: single_node_def)
  obtain a ss perm s3 s4 where a: "make_append_nodes G 1 (seed 0xA9A12A11) = Some ([a], s3)"
    "make_perm_probes G [a] kProbes s3 = Some (perm, s4)" "length perm = kProbes" "node_wf (an_node a)" "slot_perm ss"
    "an_order a = encode ss" "sorted_wrt (<) (rank_lanes (an_node a) ss)" by (rule append_workload [OF G])
  have append: "append_node_fixture G seed = Some ([a], perm)" using a(1,2) by (simp add: append_node_fixture_def)
  obtain nodes needles where sweeps: "\<forall>c \<in> set working_set_args. sweep_ready G seed c (nodes c) (needles c)"
    by (rule sweeps_ready [OF G, where seed = seed])
  have it: "iterations name arg * kProbes < 2 ^ 63" for name arg using assms(3) by blast
  have probe: "BM_Probe G seed host (k_fn k) (k_needs k) (iterations (k_name k) 0) =
      Some (expected_run host k (iterations (k_name k) 0) (search_scalar_linear n) probes None)"
    if "k \<in> set (probe_benchmarks x86)" for k
    using listed_kernel [OF listed_kernels(1) that] kernels_agree [OF n(4,5)]
      benchmarks_targets_named(1) that
    by (intro BM_Probe_expected [OF single it]) (auto simp: targets_named_def)
  have lb: "BM_Probe G seed host (k_fn k) (k_needs k) (iterations (k_name k) 0) =
      Some (expected_run host k (iterations (k_name k) 0) (lower_bound_scalar n) probes None)"
    if "k \<in> set (lb_benchmarks x86)" for k
    using listed_kernel [OF listed_kernels(2) that] lb_kernels_agree [OF n(4,5)]
      benchmarks_targets_named(2) that
    by (intro BM_Probe_expected [OF single it]) (auto simp: targets_named_def)
  have perms: "BM_ProbePerm G seed host (k_fn k) (k_needs k) (iterations (k_name k) 0) =
      Some (expected_run host k (iterations (k_name k) 0) (\<lambda>p. lower_bound_perm_scalar (an_node a) p (an_order a)) perm None)"
    if "k \<in> set (perm_benchmarks x86)" for k
    using listed_kernel [OF listed_kernels(3) that] perm_kernels_agree [OF a(4,5,7)]
      benchmarks_targets_named(3) that
    by (intro BM_ProbePerm_expected [OF append it]) (auto simp: a(6) targets_named_def)
  have sets: "BM_WorkingSet G seed host (k_fn k) (k_needs k) c (iterations (k_name k) c) =
      Some (expected_run host k (iterations (k_name k) c) (\<lambda>(i, key). search_scalar_linear (nodes c ! unat i) key) (needles c)
        (Some (size_label c)))"
    if "k \<in> set (working_set_benchmarks x86)" "c \<in> set working_set_args" for k c
    using sweeps that it by (intro sweep_expected) auto
  have shape: "\<forall>c \<in> set working_set_args. length (nodes c) = c \<and> length (needles c) = kProbes \<and>
      (\<forall>(i, key) \<in> set (needles c). unat i < c)"
    using sweeps by (simp add: sweep_ready_def)
  show ?thesis
    unfolding search_bench_def map_append append_assoc
    by (rule exI [of _ n], rule exI [of _ probes], rule exI [of _ a], rule exI [of _ perm], rule exI [of _ nodes],
        rule exI [of _ needles])
      (intro conjI shape n(3) a(3) arg_cong2 [where f = "(@)"] arg_cong [where f = concat] map_cong refl;
        simp add: probe lb perms sets)
qed

theorem search_bench_correct_witness:
  "\<exists>n probes. length probes = kProbes \<and>
    search_bench counting_rng (\<lambda>_. 7) True Avx2 (\<lambda>_ _. 3) ! 4 =
      (''probe/avx2'', None, Some (Timed (concat (replicate 3 (map (search_scalar_linear n) probes))) 24576 None)) \<and>
    search_bench counting_rng (\<lambda>_. 7) True Avx2 (\<lambda>_ _. 3) ! 5 = (''probe/avx512'', None, Some (Skipped_With_Error no_isa))"
proof -
  have "\<forall>name arg. (\<lambda>_ _. 3) name arg * kProbes < 2 ^ 63" by (simp add: kProbes_def)
  from search_bench_correct [OF counting_rng_lawful this, of "\<lambda>_. 7" True Avx2]
  obtain n probes rest where "length probes = kProbes" and
    run: "search_bench counting_rng (\<lambda>_. 7) True Avx2 (\<lambda>_ _. 3) =
      map (\<lambda>k. (k_name k, None, Some (expected_run Avx2 k 3 (search_scalar_linear n) probes None))) (probe_benchmarks True) @ rest"
    by blast
  then show ?thesis
    unfolding run by (intro exI [of _ n] exI [of _ probes])
      (simp add: probe_benchmarks_def expected_run_def less_eq_isa_def kProbes_def compiled_defs)
qed

end
