(* ===== verification/Report_Lines.thy ===== *)
theory Report_Lines
  imports Kernel_Bench Doubles
begin

text \<open>
  The rest of \<^verbatim>\<open>bench/counter_report.cpp\<close>: its arguments, the arithmetic that turns the readings of a kernel into
  the numbers of a row, and what it prints, where a \<^verbatim>\<open>printf\<close> is a constructor with its arguments.
\<close>

section \<open>The columns\<close>

text \<open>\<^const>\<open>None\<close> is what C++ leaves undefined: the first element of an empty vector, or a sort of numbers and NaNs.\<close>

definition median :: "double list \<Rightarrow> double option" where
  "median v =
     (if NaN \<in> set v \<and> (\<exists>x \<in> set v. x \<noteq> NaN) then None
      else let v = sort v in if length v div 2 < length v then Some (v ! (length v div 2)) else None)"

fun fp_add :: "(rat \<Rightarrow> rat) \<Rightarrow> double \<Rightarrow> double \<Rightarrow> double" where
  "fp_add rnd (Fin a) (Fin b) = Fin (rnd (a + b))"
| "fp_add rnd NaN _ = NaN"
| "fp_add rnd _ NaN = NaN"
| "fp_add rnd _ _ = Inf"

text \<open>\<^verbatim>\<open>(x - mean) * (x - mean)\<close>.\<close>

fun squared_difference :: "(rat \<Rightarrow> rat) \<Rightarrow> double \<Rightarrow> double \<Rightarrow> double" where
  "squared_difference rnd (Fin x) (Fin mean) = (let d = rnd (x - mean) in Fin (rnd (d * d)))"
| "squared_difference rnd (Fin x) Inf = Inf"
| "squared_difference rnd Inf (Fin mean) = Inf"
| "squared_difference rnd _ _ = NaN"

fun fp_sqrt :: "(rat \<Rightarrow> rat) \<Rightarrow> double \<Rightarrow> double" where
  "fp_sqrt sq (Fin x) = Fin (sq x)"
| "fp_sqrt sq x = x"

definition stddev :: "(rat \<Rightarrow> rat) \<Rightarrow> (rat \<Rightarrow> rat) \<Rightarrow> double list \<Rightarrow> double" where
  "stddev rnd sq v =
     (let size = Fin (rnd (of_nat (length v)));
          mean = quotient rnd (fold (\<lambda>x mean. fp_add rnd mean x) v (Fin 0)) size;
          acc = fold (\<lambda>x acc. fp_add rnd acc (squared_difference rnd x mean)) v (Fin 0)
      in fp_sqrt sq (quotient rnd acc size))"

definition per_probe :: "(rat \<Rightarrow> rat) \<Rightarrow> nat \<Rightarrow> u64 \<Rightarrow> double" where
  "per_probe rnd probe_count v = fp_divide rnd (rnd (of_nat (unat v))) (rnd (of_nat probe_count))"

definition frequency :: "(rat \<Rightarrow> rat) \<Rightarrow> reading \<Rightarrow> double" where
  "frequency rnd x =
     (if r_ref_cycles x > 0 then fp_divide rnd (rnd (of_nat (unat (r_cycles x)))) (rnd (of_nat (unat (r_ref_cycles x)))) else Fin 0)"

fun hundred_times :: "(rat \<Rightarrow> rat) \<Rightarrow> double \<Rightarrow> double" where
  "hundred_times rnd (Fin m) = Fin (rnd (100 * m))"
| "hundred_times rnd m = m"

record line =
  cyc_probe :: double
  cyc_sd :: double
  ins_probe :: double
  ipc :: double
  brnch_prb :: double
  miss_prb :: double
  miss_percent :: double
  freq_nom :: double

definition report_line :: "(rat \<Rightarrow> rat) \<Rightarrow> (rat \<Rightarrow> rat) \<Rightarrow> nat \<Rightarrow> reading list \<Rightarrow> line option" where
  "report_line rnd sq probe_count xs =
     (let cyc = map (\<lambda>x. per_probe rnd probe_count (r_cycles x)) xs;
          ins = map (\<lambda>x. per_probe rnd probe_count (r_instructions x)) xs;
          brn = map (\<lambda>x. per_probe rnd probe_count (r_branches x)) xs;
          mis = map (\<lambda>x. per_probe rnd probe_count (r_branch_misses x)) xs;
          freq = map (frequency rnd) xs
      in Option.bind (median cyc) (\<lambda>c. Option.bind (median ins) (\<lambda>i. Option.bind (median brn) (\<lambda>b.
         Option.bind (median mis) (\<lambda>m. map_option (\<lambda>f.
           \<lparr>cyc_probe = c, cyc_sd = stddev rnd sq cyc, ins_probe = i, ipc = quotient rnd i c, brnch_prb = b, miss_prb = m,
            miss_percent = (if fp_positive b then quotient rnd (hundred_times rnd m) b else Fin 0), freq_nom = f\<rparr>) (median freq))))))"

section \<open>The output\<close>

datatype printed =
    Banner string nat int
  | Unavailable int
  | Disagrees string u32
  | Title string
  | Header
  | Skip_Line string string
  | Row_Line string line

definition print_row :: "(rat \<Rightarrow> rat) \<Rightarrow> (rat \<Rightarrow> rat) \<Rightarrow> nat \<Rightarrow> row \<Rightarrow> printed option" where
  "print_row rnd sq probe_count r =
     (case r of Skipped name reason \<Rightarrow> Some (Skip_Line name reason)
      | Measured name xs \<Rightarrow> map_option (Row_Line name) (report_line rnd sq probe_count xs))"

definition print_table :: "(rat \<Rightarrow> rat) \<Rightarrow> (rat \<Rightarrow> rat) \<Rightarrow> nat \<Rightarrow> string \<Rightarrow> row list \<Rightarrow> printed list option" where
  "print_table rnd sq probe_count title rows =
     map_option (\<lambda>ps. Title title # Header # ps) (those (map (print_row rnd sq probe_count) rows))"

fun print_outcome :: "(rat \<Rightarrow> rat) \<Rightarrow> (rat \<Rightarrow> rat) \<Rightarrow> nat \<Rightarrow> outcome \<Rightarrow> printed list option" where
  "print_outcome rnd sq probe_count (Counters_Unavailable errno) = Some [Unavailable errno]"
| "print_outcome rnd sq probe_count (Disagreement name p) = Some [Disagrees name p]"
| "print_outcome rnd sq probe_count (Reported eq_rows lb_rows perm_rows) =
     Option.bind (print_table rnd sq probe_count ''== equality: search_* over a sorted node =='' eq_rows) (\<lambda>a.
     Option.bind (print_table rnd sq probe_count ''== ordered: lower_bound_* over a sorted node (the reference) =='' lb_rows) (\<lambda>b.
     map_option (\<lambda>c. a @ b @ c)
       (print_table rnd sq probe_count ''== ordered: lower_bound_perm_* over an append-only node (what runs) =='' perm_rows)))"

text \<open>
  \<^verbatim>\<open>main\<close>: what it prints and returns. The third argument, the hit ratio, decides the coin of the generator
  (\<open>G\<close> of its text, or of none). A repetition count that is no \<^verbatim>\<open>int\<close> is undefined.
\<close>

definition counter_main ::
  "(bytes option \<Rightarrow> 's rng) \<Rightarrow> 'o perf \<Rightarrow> (string \<Rightarrow> u32 \<Rightarrow> 'o \<Rightarrow> 'o) \<Rightarrow> (rat \<Rightarrow> rat) \<Rightarrow> (rat \<Rightarrow> rat) \<Rightarrow> bool \<Rightarrow> isa \<Rightarrow>
   bytes list \<Rightarrow> 's \<Rightarrow> 'o \<Rightarrow> (printed list \<times> int) option" where
  "counter_main G P exec rnd sq x86 host argv s mach =
     (let probe_count = count_argument argv;
          hit_ratio = (if length argv > 3 then Some (argv ! 3) else None)
      in Option.bind (if length argv > 2 then atoi (argv ! 2) else Some 9) (\<lambda>reps.
         Option.bind (counter_report (G hit_ratio) P exec x86 host probe_count (nat reps) s mach) (\<lambda>(out, _).
         map_option (\<lambda>ps. (Banner (isa_name host) probe_count reps # ps, exit_code out)) (print_outcome rnd sq probe_count out))))"

section \<open>What a row shows\<close>

text \<open>
  The median of a list, without sorting it: an element with at most half of the list below it and less than half above
  it, so the upper one of the two in the middle of an even number.
\<close>

definition is_median :: "double list \<Rightarrow> double \<Rightarrow> bool" where
  "is_median v x \<longleftrightarrow> x \<in> set v \<and> 2 * length (filter (\<lambda>y. y < x) v) \<le> length v \<and> 2 * length (filter (\<lambda>y. x < y) v) < length v"

lemma sorted_sides:
  assumes "sorted (xs :: double list)" "i < length xs"
  shows "length (filter (\<lambda>y. y < xs ! i) xs) \<le> i" "length (filter (\<lambda>y. xs ! i < y) xs) \<le> length xs - Suc i"
proof -
  have "filter (\<lambda>y. y < xs ! i) (drop i xs) = []"
    using sorted_nth_mono [OF assms(1)] by (auto simp: filter_empty_conv in_set_conv_nth not_less)
  then have "filter (\<lambda>y. y < xs ! i) xs = filter (\<lambda>y. y < xs ! i) (take i xs)"
    by (metis append.right_neutral append_take_drop_id filter_append)
  then show "length (filter (\<lambda>y. y < xs ! i) xs) \<le> i" using length_filter_le [of _ "take i xs"] by (simp add: order_trans)
  have "filter (\<lambda>y. xs ! i < y) (take (Suc i) xs) = []"
    using sorted_nth_mono [OF assms(1), of _ i] assms(2) by (auto simp: filter_empty_conv in_set_conv_nth not_less)
  then have "filter (\<lambda>y. xs ! i < y) xs = filter (\<lambda>y. xs ! i < y) (drop (Suc i) xs)"
    by (metis append_Nil append_take_drop_id filter_append)
  then show "length (filter (\<lambda>y. xs ! i < y) xs) \<le> length xs - Suc i"
    using length_filter_le [of _ "drop (Suc i) xs"] by (simp add: order_trans)
qed

lemma median_is_median:
  assumes "v \<noteq> []" "NaN \<notin> set v \<or> set v = {NaN}"
  shows "\<exists>x. median v = Some x \<and> is_median v x"
proof -
  let ?x = "sort v ! (length v div 2)"
  have i: "length v div 2 < length v" using assms(1) by simp
  have sides: "length (filter Q (sort v)) = length (filter Q v)" for Q
    by (metis mset_filter mset_sort size_mset)
  have half: "2 * (n div 2) \<le> n \<and> (0 < n \<longrightarrow> 2 * (n - Suc (n div 2)) < n)" for n :: nat by presburger
  have "length (filter (\<lambda>y. y < ?x) v) \<le> length v div 2" "length (filter (\<lambda>y. ?x < y) v) \<le> length v - Suc (length v div 2)"
    using sorted_sides [of "sort v" "length v div 2"] i by (simp_all add: sides)
  moreover have "?x \<in> set v" using nth_mem [of "length v div 2" "sort v"] i by simp
  moreover have "0 < length v" using assms(1) by simp
  ultimately have "is_median v ?x" using half [of "length v"] unfolding is_median_def by linarith
  moreover have "median v = Some ?x" using assms(2) i by (auto simp: median_def Let_def)
  ultimately show ?thesis by blast
qed

text \<open>A row's columns, from the readings of its kernel.\<close>

definition shows_line :: "(rat \<Rightarrow> rat) \<Rightarrow> (rat \<Rightarrow> rat) \<Rightarrow> nat \<Rightarrow> reading list \<Rightarrow> line \<Rightarrow> bool" where
  "shows_line rnd sq probe_count xs l \<longleftrightarrow>
     is_median (map (per_probe rnd probe_count \<circ> r_cycles) xs) (cyc_probe l) \<and>
     cyc_sd l = stddev rnd sq (map (per_probe rnd probe_count \<circ> r_cycles) xs) \<and>
     is_median (map (per_probe rnd probe_count \<circ> r_instructions) xs) (ins_probe l) \<and>
     ipc l = quotient rnd (ins_probe l) (cyc_probe l) \<and>
     is_median (map (per_probe rnd probe_count \<circ> r_branches) xs) (brnch_prb l) \<and>
     is_median (map (per_probe rnd probe_count \<circ> r_branch_misses) xs) (miss_prb l) \<and>
     miss_percent l = (if fp_positive (brnch_prb l) then quotient rnd (hundred_times rnd (miss_prb l)) (brnch_prb l) else Fin 0) \<and>
     is_median (map (frequency rnd) xs) (freq_nom l)"

fun row_shows :: "(rat \<Rightarrow> rat) \<Rightarrow> (rat \<Rightarrow> rat) \<Rightarrow> nat \<Rightarrow> row \<Rightarrow> printed \<Rightarrow> bool" where
  "row_shows rnd sq probe_count (Skipped name reason) p \<longleftrightarrow> p = Skip_Line name reason"
| "row_shows rnd sq probe_count (Measured name xs) p \<longleftrightarrow> (\<exists>l. p = Row_Line name l \<and> shows_line rnd sq probe_count xs l)"

text \<open>Numbers and NaNs are never mixed in a column: without needles nothing is counted, with needles no count is divided by zero.\<close>

lemma rounding_positive: "rounding rnd \<Longrightarrow> 0 < n \<Longrightarrow> 1 \<le> rnd (of_nat n)"
  using rounding_nat [of rnd 1] monoD [of rnd 1 "of_nat n"] by (simp add: rounding_def)

lemma rounding_zero: "rounding rnd \<Longrightarrow> rnd 0 = 0"
  using rounding_nat [of rnd 0] by simp

lemma per_probe_columns:
  assumes rnd: "rounding rnd" and ne: "xs \<noteq> []" and none: "probe_count = 0 \<longrightarrow> (\<forall>x \<in> set xs. f x = 0)"
  shows "\<exists>c. median (map (per_probe rnd probe_count \<circ> f) xs) = Some c \<and> is_median (map (per_probe rnd probe_count \<circ> f) xs) c"
proof (rule median_is_median)
  show "NaN \<notin> set (map (per_probe rnd probe_count \<circ> f) xs) \<or> set (map (per_probe rnd probe_count \<circ> f) xs) = {NaN}"
  proof (cases "probe_count = 0")
    case True
    then have "(per_probe rnd probe_count \<circ> f) x = NaN" if "x \<in> set xs" for x
      using that none by (simp add: per_probe_def fp_divide_def rounding_zero [OF rnd])
    then show ?thesis using ne by (cases xs) (auto simp del: o_apply)
  next
    case False
    then show ?thesis using rounding_positive [OF rnd, of probe_count] by (auto simp: per_probe_def fp_divide_def)
  qed
qed (use ne in simp)

lemma frequency_column:
  assumes rnd: "rounding rnd" and ne: "xs \<noteq> []"
  shows "\<exists>c. median (map (frequency rnd) xs) = Some c \<and> is_median (map (frequency rnd) xs) c"
proof (rule median_is_median)
  have "rnd (of_nat (unat (r_ref_cycles x))) \<noteq> 0" if "r_ref_cycles x > 0" for x
    using rounding_positive [OF rnd, of "unat (r_ref_cycles x)"] that by (simp add: word_greater_zero_iff unat_gt_0)
  then show "NaN \<notin> set (map (frequency rnd) xs) \<or> set (map (frequency rnd) xs) = {NaN}"
    by (auto simp: frequency_def fp_divide_def split: if_splits)
qed (use ne in simp)

lemma report_line_shows:
  assumes rnd: "rounding rnd" and ne: "xs \<noteq> []" and none: "probe_count = 0 \<longrightarrow> (\<forall>x \<in> set xs. x = reading_of (\<lambda>_. 0))"
  shows "\<exists>l. report_line rnd sq probe_count xs = Some l \<and> shows_line rnd sq probe_count xs l"
proof -
  note column = per_probe_columns [OF rnd ne]
  have z: "probe_count = 0 \<longrightarrow> (\<forall>x \<in> set xs. r_cycles x = 0)" "probe_count = 0 \<longrightarrow> (\<forall>x \<in> set xs. r_instructions x = 0)"
    "probe_count = 0 \<longrightarrow> (\<forall>x \<in> set xs. r_branches x = 0)" "probe_count = 0 \<longrightarrow> (\<forall>x \<in> set xs. r_branch_misses x = 0)"
    using none by (auto simp: reading_of_def)
  obtain c where "median (map (per_probe rnd probe_count \<circ> r_cycles) xs) = Some c"
    "is_median (map (per_probe rnd probe_count \<circ> r_cycles) xs) c"
    using column [OF z(1)] by blast
  moreover obtain i where "median (map (per_probe rnd probe_count \<circ> r_instructions) xs) = Some i"
    "is_median (map (per_probe rnd probe_count \<circ> r_instructions) xs) i"
    using column [OF z(2)] by blast
  moreover obtain b where "median (map (per_probe rnd probe_count \<circ> r_branches) xs) = Some b"
    "is_median (map (per_probe rnd probe_count \<circ> r_branches) xs) b"
    using column [OF z(3)] by blast
  moreover obtain m where "median (map (per_probe rnd probe_count \<circ> r_branch_misses) xs) = Some m"
    "is_median (map (per_probe rnd probe_count \<circ> r_branch_misses) xs) m"
    using column [OF z(4)] by blast
  moreover obtain f where "median (map (frequency rnd) xs) = Some f" "is_median (map (frequency rnd) xs) f"
    using frequency_column [OF rnd ne] by blast
  ultimately show ?thesis by (simp add: report_line_def shows_line_def o_def)
qed

section \<open>The tables\<close>

lemma pass_events_Nil: "pass_events exec ev k [] m = (\<lambda>_. 0)"
  by (rule ext) simp

lemma second_passes_readings:
  "length (fst (second_passes P exec ev cs k probes reps m)) = reps"
  "probes = [] \<Longrightarrow> x \<in> set (fst (second_passes P exec ev cs k probes reps m)) \<Longrightarrow> x = reading_of (\<lambda>_. 0)"
  by (induction reps arbitrary: m) (auto simp: Let_def split_beta pass_events_Nil)

lemma those_rel:
  "\<forall>x \<in> set xs. \<exists>y. f x = Some y \<and> R x y \<Longrightarrow> \<exists>ys. those (map f xs) = Some ys \<and> list_all2 R xs ys"
  by (induction xs) auto

lemma print_row_shows:
  assumes rnd: "rounding rnd" and reps: "0 < reps" and count: "length probes = probe_count"
    and r: "r \<in> set (fst (expected_rows P exec ev cs host reps probes ks m))"
  shows "\<exists>p. print_row rnd sq probe_count r = Some p \<and> row_shows rnd sq probe_count r p"
  using r
proof (induction ks arbitrary: m)
  case (Cons k ks)
  let ?xs = "fst (second_passes P exec ev cs (k_name k) probes reps m)"
  have "length ?xs = reps" by (rule second_passes_readings(1))
  then have "?xs \<noteq> []" using reps by (metis length_0_conv less_irrefl)
  moreover have "probe_count = 0 \<longrightarrow> (\<forall>x \<in> set ?xs. x = reading_of (\<lambda>_. 0))"
  proof (intro impI ballI)
    fix x assume "probe_count = 0" "x \<in> set ?xs"
    then show "x = reading_of (\<lambda>_. 0)" using count by (intro second_passes_readings(2) [OF _ \<open>x \<in> set ?xs\<close>]) simp
  qed
  ultimately have "\<exists>l. report_line rnd sq probe_count ?xs = Some l \<and> shows_line rnd sq probe_count ?xs l"
    by (rule report_line_shows [OF rnd])
  then obtain l where "report_line rnd sq probe_count ?xs = Some l" "shows_line rnd sq probe_count ?xs l" by (elim exE conjE)
  then have measured: "\<exists>p. print_row rnd sq probe_count (Measured (k_name k) ?xs) = Some p \<and>
      row_shows rnd sq probe_count (Measured (k_name k) ?xs) p"
    by (intro exI [of _ "Row_Line (k_name k) l"]) (simp add: print_row_def)
  have skipped: "\<exists>p. print_row rnd sq probe_count (Skipped name reason) = Some p \<and> row_shows rnd sq probe_count (Skipped name reason) p"
    for name reason by (simp add: print_row_def)
  show ?case
  proof (cases "built_for (k_fn k) \<le> host")
    case True
    then have "r = Measured (k_name k) ?xs \<or>
        r \<in> set (fst (expected_rows P exec ev cs host reps probes ks (snd (second_passes P exec ev cs (k_name k) probes reps m))))"
      using Cons.prems by (simp add: Let_def split_beta)
    then show ?thesis using measured Cons.IH by blast
  next
    case False
    then have "r = Skipped (k_name k) (skip_reason (built_for (k_fn k))) \<or> r \<in> set (fst (expected_rows P exec ev cs host reps probes ks m))"
      using Cons.prems by (simp add: Let_def split_beta)
    then show ?thesis using skipped Cons.IH by blast
  qed
qed simp

lemma print_expected:
  assumes "rounding rnd" "0 < reps" "length probes = probe_count"
    and rows: "expected_rows P exec ev cs host reps probes ks m = (rows, m')"
  obtains lines where "print_table rnd sq probe_count title rows = Some (Title title # Header # lines)"
    "list_all2 (row_shows rnd sq probe_count) rows lines"
  using those_rel [of rows "print_row rnd sq probe_count" "row_shows rnd sq probe_count"]
    print_row_shows [OF assms(1-3), where P = P and exec = exec and ev = ev and cs = cs and host = host and ks = ks and m = m] rows
  by (auto simp: print_table_def)

text \<open>C37: what the counter report prints. With counters that work as documented, a rounding that keeps small whole numbers,
  and at least one repetition, the program ends with exit code 0 and prints a line for every entry of its three tables.
  An entry is skipped exactly when the host lacks the instruction set its function is compiled for. Every other line
  shows the medians (and the deviation) of as many readings as there are repetitions, each the events of a single pass
  over the needles by a machine that the pass before it, uncounted, has left warm. What a call costs may depend on the
  machine in any way; the repetitions, the kernels and the tables follow one another on the same machine, from where
  the gate's calls leave it. Nothing counted before a window opens, for the same kernel or another, is in a reading.\<close>

theorem report_measures_one_pass:
  assumes "rng_contract (G (if length argv > 3 then Some (argv ! 3) else None))" "fair (G (if length argv > 3 then Some (argv ! 3) else None))"
    and P: "perf_contract P exec view ev" and "all_available (fst (new_counter_set P mach))"
    and reps: "(if length argv > 2 then atoi (argv ! 2) else Some 9) = Some reps" "0 < reps" and rnd: "rounding rnd"
  shows "\<exists>probes perm_probes calls. length probes = count_argument argv \<and> length perm_probes = count_argument argv \<and>
    (let (cs, m) = new_counter_set P mach;
         (eq_rows, m) = expected_rows P exec ev cs host (nat reps) probes (kernels x86) (run_calls exec calls m);
         (lb_rows, m) = expected_rows P exec ev cs host (nat reps) probes (lb_kernels x86) m;
         (perm_rows, m) = expected_rows P exec ev cs host (nat reps) perm_probes (perm_kernels x86) m
     in \<exists>eq_lines lb_lines perm_lines.
          list_all2 (row_shows rnd sq (count_argument argv)) eq_rows eq_lines \<and>
          list_all2 (row_shows rnd sq (count_argument argv)) lb_rows lb_lines \<and>
          list_all2 (row_shows rnd sq (count_argument argv)) perm_rows perm_lines \<and>
          counter_main G P exec rnd sq x86 host argv s mach =
            Some (Banner (isa_name host) (count_argument argv) reps #
              Title ''== equality: search_* over a sorted node =='' # Header # eq_lines @
              Title ''== ordered: lower_bound_* over a sorted node (the reference) =='' # Header # lb_lines @
              Title ''== ordered: lower_bound_perm_* over an append-only node (what runs) =='' # Header # perm_lines, 0))"
proof -
  let ?count = "count_argument argv"
  obtain cs m where new: "new_counter_set P mach = (cs, m)" by fastforce
  have all: "all_available cs" using assms(4) new by simp
  obtain n a probes perm_probes calls where len: "length probes = ?count" "length perm_probes = ?count" and
    "counter_report (G (if length argv > 3 then Some (argv ! 3) else None)) P exec x86 host ?count (nat reps) s mach =
      Some (map_prod id (close_set P cs) (tables P exec x86 host (nat reps) n probes a perm_probes cs (run_calls exec calls m)))"
    using counter_report_reaches_tables [OF assms(1,2) new all] by blast
  moreover obtain eq_rows m1 where eq: "expected_rows P exec ev cs host (nat reps) probes (kernels x86) (run_calls exec calls m) = (eq_rows, m1)"
    by fastforce
  moreover obtain lb_rows m2 where lb: "expected_rows P exec ev cs host (nat reps) probes (lb_kernels x86) m1 = (lb_rows, m2)" by fastforce
  moreover obtain perm_rows m3 where perm: "expected_rows P exec ev cs host (nat reps) perm_probes (perm_kernels x86) m2 = (perm_rows, m3)"
    by fastforce
  moreover note tables_counters [OF P run_calls_open [OF P new_counter_set_open [OF P new all]] eq lb perm, of n a]
  moreover obtain eq_lines where "print_table rnd sq ?count ''== equality: search_* over a sorted node =='' eq_rows =
      Some (Title ''== equality: search_* over a sorted node =='' # Header # eq_lines)" and lines: "list_all2 (row_shows rnd sq ?count) eq_rows eq_lines"
    by (rule print_expected [OF rnd _ len(1) eq]) (use reps(2) in simp)
  moreover obtain lb_lines where "print_table rnd sq ?count ''== ordered: lower_bound_* over a sorted node (the reference) =='' lb_rows =
      Some (Title ''== ordered: lower_bound_* over a sorted node (the reference) =='' # Header # lb_lines)"
      and lines': "list_all2 (row_shows rnd sq ?count) lb_rows lb_lines"
    by (rule print_expected [OF rnd _ len(1) lb]) (use reps(2) in simp)
  moreover obtain perm_lines where
      "print_table rnd sq ?count ''== ordered: lower_bound_perm_* over an append-only node (what runs) =='' perm_rows =
        Some (Title ''== ordered: lower_bound_perm_* over an append-only node (what runs) =='' # Header # perm_lines)"
      and lines'': "list_all2 (row_shows rnd sq ?count) perm_rows perm_lines"
    by (rule print_expected [OF rnd _ len(2) perm]) (use reps(2) in simp)
  ultimately have "counter_main G P exec rnd sq x86 host argv s mach =
      Some (Banner (isa_name host) ?count reps #
        Title ''== equality: search_* over a sorted node =='' # Header # eq_lines @
        Title ''== ordered: lower_bound_* over a sorted node (the reference) =='' # Header # lb_lines @
        Title ''== ordered: lower_bound_perm_* over an append-only node (what runs) =='' # Header # perm_lines, 0)"
    using reps(1) by (simp add: counter_main_def Let_def)
  then show ?thesis
    using len lines lines' lines'' unfolding Let_def
    by - (rule exI [of _ probes], rule exI [of _ perm_probes], rule exI [of _ calls], simp add: new eq lb perm, blast)
qed

theorem report_measures_one_pass_witness:
  "\<exists>probes calls lines ps. length probes = 100 \<and>
    (let (cs, m) = new_counter_set list_perf (0, [])
     in list_all2 (row_shows (\<lambda>x. of_int \<lfloor>x * 2 ^ 52\<rfloor> / 2 ^ 52) (\<lambda>x. x) 100)
          (fst (expected_rows list_perf list_exec list_ev cs Scalar 2 probes (kernels False) (run_calls list_exec calls m))) lines) \<and>
    counter_main (\<lambda>_. counting_rng) list_perf list_exec (\<lambda>x. of_int \<lfloor>x * 2 ^ 52\<rfloor> / 2 ^ 52) (\<lambda>x. x) False Scalar
        [ascii ''counter_report'', decimal 100, decimal 2] 7 (0, []) =
      Some (Banner ''scalar'' 100 2 # Title ''== equality: search_* over a sorted node =='' # Header # lines @ ps, 0)"
proof -
  let ?argv = "[ascii ''counter_report'', decimal 100, decimal 2]"
  have args: "count_argument ?argv = 100" "(if length ?argv > 2 then atoi (?argv ! 2) else Some 9) = Some 2"
    by (simp_all add: count_argument_def strtoul_decimal atoi_decimal)
  have "all_available (fst (new_counter_set list_perf (0, [])))"
    by (simp add: new_counter_set_def new_counter_def list_perf_def all_available_def available_def)
  from report_measures_one_pass [where G = "\<lambda>_. counting_rng", OF counting_rng_lawful list_perf_lawful this args(2) _ rounding_down,
      of Scalar False "\<lambda>x. x" 7]
  show ?thesis unfolding args(1) by (fastforce simp: Let_def split_beta)
qed

end
