(* ===== verification/Weak_Memory.thy ===== *)
theory Weak_Memory
  imports Main
begin

text \<open>
  A memory in which a load need not see the last store: the release/acquire fragment of the C++ memory model, with
  relaxed and plain accesses, as an operational machine on views.

  A location has the list of its stores in modification order, and a store carries a view: how many stores of each
  location happen before whoever reads it with acquire. A thread has a view too, which only grows. An atomic load may
  return any store the thread's view has not passed; a plain access has to be ordered after every other access in
  conflict with it, which \<open>race_free\<close> says. Stores are appended at the end of the modification order, which is what
  C++ allows when the storing thread knows of all the others; \<open>race_free\<close> demands that, so that nothing is lost.
\<close>

datatype memory_order = Plain | Relaxed | Acquire | Release | AcqRel

definition acquires :: "memory_order \<Rightarrow> bool" where
  "acquires ord \<longleftrightarrow> ord = Acquire \<or> ord = AcqRel"

definition releases :: "memory_order \<Rightarrow> bool" where
  "releases ord \<longleftrightarrow> ord = Release \<or> ord = AcqRel"

lemma orders [simp]:
  "acquires Acquire" "acquires AcqRel" "\<not> acquires Plain" "\<not> acquires Relaxed" "\<not> acquires Release"
  "releases Release" "releases AcqRel" "\<not> releases Plain" "\<not> releases Relaxed" "\<not> releases Acquire"
  by (simp_all add: acquires_def releases_def)

type_synonym 'l view = "'l \<Rightarrow> nat"

record ('l, 'v) message =
  content :: 'v
  carried :: "'l view"

type_synonym ('l, 'v) memory = "'l \<Rightarrow> ('l, 'v) message list"

text \<open>The stores of a location are numbered from 1; a view of 0 does not even know that the location exists.\<close>

definition store_at :: "('l, 'v) memory \<Rightarrow> 'l \<Rightarrow> nat \<Rightarrow> ('l, 'v) message" where
  "store_at M l i = M l ! (i - 1)"

definition visible :: "('l, 'v) memory \<Rightarrow> 'l view \<Rightarrow> 'l \<Rightarrow> nat \<Rightarrow> bool" where
  "visible M V l i \<longleftrightarrow> 1 \<le> i \<and> V l \<le> i \<and> i \<le> length (M l)"

definition latest :: "('l, 'v) memory \<Rightarrow> 'l view \<Rightarrow> 'l \<Rightarrow> bool" where
  "latest M V l \<longleftrightarrow> V l = length (M l)"

definition after_load :: "memory_order \<Rightarrow> ('l, 'v) memory \<Rightarrow> 'l view \<Rightarrow> 'l \<Rightarrow> nat \<Rightarrow> 'l view" where
  "after_load ord M V l i = (if acquires ord then sup (V(l := i)) (carried (store_at M l i)) else V(l := i))"

text \<open>A plain load that races with a store may return anything.\<close>

definition plain_content :: "('l, 'v) memory \<Rightarrow> 'l view \<Rightarrow> 'l \<Rightarrow> 'v \<Rightarrow> bool" where
  "plain_content M V l v \<longleftrightarrow> (latest M V l \<and> M l \<noteq> [] \<longrightarrow> v = content (last (M l)))"

definition view_after_store :: "('l, 'v) memory \<Rightarrow> 'l view \<Rightarrow> 'l \<Rightarrow> 'l view" where
  "view_after_store M V l = V(l := Suc (length (M l)))"

definition after_store :: "memory_order \<Rightarrow> ('l, 'v) memory \<Rightarrow> 'l view \<Rightarrow> 'l \<Rightarrow> 'v \<Rightarrow> ('l, 'v) memory" where
  "after_store ord M V l v =
     M(l := M l @ [\<lparr>content = v, carried = (if releases ord then view_after_store M V l else bot)\<rparr>])"

text \<open>A read-modify-write reads the last store, and its own store carries on what that one carried.\<close>

definition view_after_exchange :: "memory_order \<Rightarrow> ('l, 'v) memory \<Rightarrow> 'l view \<Rightarrow> 'l \<Rightarrow> 'l view" where
  "view_after_exchange ord M V l =
     (if acquires ord then sup V (carried (last (M l))) else V)(l := Suc (length (M l)))"

definition after_exchange :: "memory_order \<Rightarrow> ('l, 'v) memory \<Rightarrow> 'l view \<Rightarrow> 'l \<Rightarrow> 'v \<Rightarrow> ('l, 'v) memory" where
  "after_exchange ord M V l v =
     M(l := M l @ [\<lparr>content = v, carried = sup (carried (last (M l))) (if releases ord then view_after_exchange ord M V l else bot)\<rparr>])"

section \<open>Races\<close>

text \<open>\<open>Faults\<close>: a null pointer is followed.\<close>

datatype 'l access = Loads memory_order 'l | Stores memory_order 'l | Exchanges memory_order 'l | Faults

text \<open>
  \<open>R l\<close>: the threads that have read \<open>l\<close> with a plain load. A plain load must know every store; a plain store
  must also come after every plain load of another thread, and is asked for more, that there was none. An atomic access
  must know that the location has been initialised.
\<close>

fun race_free :: "('l, 'v) memory \<Rightarrow> ('l \<Rightarrow> nat set) \<Rightarrow> nat \<Rightarrow> 'l view \<Rightarrow> 'l access \<Rightarrow> bool" where
  "race_free M R t V (Loads ord l) \<longleftrightarrow> 1 \<le> V l \<and> (ord = Plain \<longrightarrow> latest M V l)"
| "race_free M R t V (Stores ord l) \<longleftrightarrow> latest M V l \<and> (ord = Plain \<longrightarrow> R l \<subseteq> {t}) \<and> (ord \<noteq> Plain \<longrightarrow> 1 \<le> V l)"
| "race_free M R t V (Exchanges ord l) \<longleftrightarrow> 1 \<le> V l"
| "race_free M R t V Faults \<longleftrightarrow> False"

fun plain_loads :: "'l access list \<Rightarrow> 'l set" where
  "plain_loads [] = {}"
| "plain_loads (a # as) = (case a of Loads Plain l \<Rightarrow> {l} | _ \<Rightarrow> {}) \<union> plain_loads as"

section \<open>Growth\<close>

text \<open>Memory only grows, and so does what is known of it.\<close>

definition grown :: "('l, 'v) memory \<Rightarrow> ('l, 'v) memory \<Rightarrow> bool" where
  "grown M M' \<longleftrightarrow> (\<forall>l. length (M l) \<le> length (M' l) \<and> (\<forall>i < length (M l). M' l ! i = M l ! i))"

lemma grown_refl [simp]: "grown M M"
  by (simp add: grown_def)

lemma grown_length: "grown M M' \<Longrightarrow> length (M l) \<le> length (M' l)"
  by (simp add: grown_def)

lemma grown_nth: "grown M M' \<Longrightarrow> i < length (M l) \<Longrightarrow> M' l ! i = M l ! i"
  by (simp add: grown_def)

lemma grown_trans: "grown M M' \<Longrightarrow> grown M' M'' \<Longrightarrow> grown M M''"
  unfolding grown_def by (metis le_trans less_le_trans)

lemma grown_same: "grown M M' \<Longrightarrow> length (M' l) = length (M l) \<Longrightarrow> M' l = M l"
  by (rule nth_equalityI) (auto simp: grown_def)

lemma grown_nonempty: "grown M M' \<Longrightarrow> M l \<noteq> [] \<Longrightarrow> M' l \<noteq> []"
  using grown_length [of M M' l] by auto

lemma grown_store_at: "grown M M' \<Longrightarrow> 1 \<le> i \<Longrightarrow> i \<le> length (M l) \<Longrightarrow> store_at M' l i = store_at M l i"
  by (simp add: store_at_def grown_nth)

lemma grown_after_store [simp]: "grown M (after_store ord M V l v)"
  by (auto simp: grown_def after_store_def nth_append)

lemma grown_after_exchange [simp]: "grown M (after_exchange ord M V l v)"
  by (auto simp: grown_def after_exchange_def nth_append)

lemma after_store_other: "l' \<noteq> l \<Longrightarrow> after_store ord M V l v l' = M l'"
  by (simp add: after_store_def)

lemma after_exchange_other: "l' \<noteq> l \<Longrightarrow> after_exchange ord M V l v l' = M l'"
  by (simp add: after_exchange_def)

lemma length_after_store: "length (after_store ord M V l v l') = (if l' = l then Suc (length (M l)) else length (M l'))"
  by (simp add: after_store_def)

lemma length_after_exchange: "length (after_exchange ord M V l v l') = (if l' = l then Suc (length (M l)) else length (M l'))"
  by (simp add: after_exchange_def)

text \<open>A view that knows of no store that was not made.\<close>

definition within :: "('l, 'v) memory \<Rightarrow> 'l view \<Rightarrow> bool" where
  "within M V \<longleftrightarrow> (\<forall>l. V l \<le> length (M l))"

lemma within_grown: "within M V \<Longrightarrow> grown M M' \<Longrightarrow> within M' V"
  unfolding within_def using grown_length le_trans by metis

lemma within_sup: "within M V \<Longrightarrow> within M W \<Longrightarrow> within M (sup V W)"
  by (simp add: within_def)

lemma within_bot [simp]: "within M bot"
  by (simp add: within_def)

lemma within_store: "within M V \<Longrightarrow> within (after_store ord M V l v) (view_after_store M V l)"
  by (auto simp: within_def view_after_store_def length_after_store)

lemma view_grows:
  "within M V \<Longrightarrow> V \<le> view_after_store M V l"
  "visible M V l i \<Longrightarrow> V \<le> after_load ord M V l i"
  "within M V \<Longrightarrow> V \<le> view_after_exchange ord M V l"
  by (auto simp: within_def view_after_store_def visible_def after_load_def view_after_exchange_def le_fun_def le_supI1 le_Suc_eq)

definition bounded :: "('l, 'v) memory \<Rightarrow> bool" where
  "bounded M \<longleftrightarrow> (\<forall>l. \<forall>m \<in> set (M l). within M (carried m))"

lemma bounded_store_at: "bounded M \<Longrightarrow> 1 \<le> i \<Longrightarrow> i \<le> length (M l) \<Longrightarrow> within M (carried (store_at M l i))"
proof -
  assume "bounded M" "1 \<le> i" "i \<le> length (M l)"
  moreover from this have "store_at M l i \<in> set (M l)" unfolding store_at_def by (intro nth_mem) simp
  ultimately show ?thesis by (simp add: bounded_def)
qed

lemma bounded_last: "bounded M \<Longrightarrow> M l \<noteq> [] \<Longrightarrow> within M (carried (last (M l)))"
  unfolding bounded_def using last_in_set by blast

lemma within_load: "bounded M \<Longrightarrow> within M V \<Longrightarrow> visible M V l i \<Longrightarrow> within M (after_load ord M V l i)"
  using bounded_store_at [of M i l]
  by (auto simp: after_load_def visible_def within_def)

lemma within_exchange:
  assumes "bounded M" "within M V" "M l \<noteq> []"
  shows "within (after_exchange ord M V l v) (view_after_exchange ord M V l)"
  using bounded_last [OF assms(1,3)] assms(2)
  by (auto simp: view_after_exchange_def within_def length_after_exchange)

lemma bounded_append:
  assumes "bounded M" "grown M M'" "\<And>l m. m \<in> set (M' l) \<Longrightarrow> m \<in> set (M l) \<or> within M' (carried m)"
  shows "bounded M'"
  using assms within_grown unfolding bounded_def by metis

lemma bounded_after_store:
  assumes "bounded M" "within M V"
  shows "bounded (after_store ord M V l v)"
proof (rule bounded_append [OF assms(1) grown_after_store])
  fix l' m
  assume "m \<in> set (after_store ord M V l v l')"
  then show "m \<in> set (M l') \<or> within (after_store ord M V l v) (carried m)"
    using within_store [OF assms(2), of ord l v] within_bot [of "after_store ord M V l v"]
    by (auto simp: after_store_def split: if_splits)
qed

lemma bounded_after_exchange:
  assumes "bounded M" "within M V" "M l \<noteq> []"
  shows "bounded (after_exchange ord M V l v)"
proof (rule bounded_append [OF assms(1) grown_after_exchange])
  fix l' m
  assume m: "m \<in> set (after_exchange ord M V l v l')"
  have "within (after_exchange ord M V l v) (carried (last (M l)))"
    by (rule within_grown [OF bounded_last [OF assms(1,3)] grown_after_exchange])
  then have "within (after_exchange ord M V l v) (sup (carried (last (M l))) (if releases ord then view_after_exchange ord M V l else bot))"
    using within_exchange [OF assms, of ord v] by (intro within_sup) auto
  with m show "m \<in> set (M l') \<or> within (after_exchange ord M V l v) (carried m)"
    by (cases "l' = l") (auto simp: after_exchange_def)
qed

end
