(* ===== verification/Publication.thy ===== *)
theory Publication
  imports Insert Weak_Memory
begin

text \<open>
  What a memtable's threads do to shared memory, with the memory order the source gives each access, on a memory that
  is not sequentially consistent.

  A thread may read whatever it holds a pointer to, at any time and in any order: that covers the descents, the
  lookups, the iterators and the reading that writers do. Writers follow \<^verbatim>\<open>insert_entry\<close> store by store. Which rank
  a key takes, which lanes and hints are stored and where a tower link goes is left open here (the other theories say
  it); what matters is which location is accessed when, and what is known by then.

  Locations are fields: of list nodes (\<open>Data\<close>, \<open>Hint\<close>, \<open>Lock\<close>, \<open>Height\<close>, \<open>Tower\<close>), of payloads (\<open>Order\<close>, \<open>Prefix\<close>,
  \<open>Next\<close>, a \<open>Key\<close> and a \<open>Lane\<close> per slot) and the bytes an entry points to.
\<close>

datatype loc =
    Data nat | Hint nat | Lock nat | Height nat | Tower nat nat
  | Order nat | Prefix nat | Next nat | Key nat nat | Lane nat nat
  | Bytes nat

datatype val = Null | Node_Ptr nat | Payload_Ptr nat | Word u64 | Flag bool | Entry nat | Number nat

section \<open>The memory orders of the source\<close>

definition data_load :: memory_order where "data_load = Acquire"
definition data_store :: memory_order where "data_store = Release"
definition hint_load :: memory_order where "hint_load = Relaxed"
definition hint_store :: memory_order where "hint_store = Release"
definition snapshot_load :: memory_order where "snapshot_load = Acquire"
definition locked_order_load :: memory_order where "locked_order_load = Relaxed"
definition publish_order_load :: memory_order where "publish_order_load = Relaxed"
definition append_order_store :: memory_order where "append_order_store = Release"
definition lock_exchange :: memory_order where "lock_exchange = Acquire"
definition unlock_store :: memory_order where "unlock_store = Release"
definition tower_load :: memory_order where "tower_load = Acquire"
definition tower_store :: memory_order where "tower_store = Release"
definition tower_exchange :: memory_order where "tower_exchange = AcqRel"
definition tower_exchange_failed :: memory_order where "tower_exchange_failed = Relaxed"

lemmas memory_orders = data_load_def data_store_def hint_load_def hint_store_def snapshot_load_def locked_order_load_def
  publish_order_load_def append_order_store_def lock_exchange_def unlock_store_def tower_load_def tower_store_def
  tower_exchange_def tower_exchange_failed_def

section \<open>Threads\<close>

text \<open>
  Where a writer is in \<^verbatim>\<open>insert_entry\<close>, with the entry \<open>e\<close> it inserts, the node \<open>c\<close> it has locked, the payload \<open>p\<close> and
  order word \<open>w\<close> it works on, and in a split the sibling \<open>s\<close> and the payloads \<open>l\<close> and \<open>r\<close>.

  \<open>Arrived\<close>: looking for the node; \<open>Locked\<close>, \<open>Opened\<close>: the lock is taken, the payload is loaded; \<open>To_Key\<close>, \<open>To_Lane\<close>,
  \<open>To_Hint\<close>, \<open>To_Order\<close>: the stores of an append to come; \<open>Splitting\<close>: about to build; \<open>Built\<close>, \<open>Sibling_Hinted\<close>,
  \<open>Sibling_Shown\<close>, \<open>Cur_Hinted\<close>: about to store the sibling's hint, its payload, the node's hint, its payload;
  \<open>Linking\<close>: on a level of \<^verbatim>\<open>link_tower\<close>; \<open>Found\<close>, \<open>Swapping\<close>: about to store the sibling's pointer, to exchange
  the predecessor's; \<open>Unlocking\<close>: about to clear the lock.
\<close>

datatype stage =
    Resting
  | Arrived nat
  | Locked nat nat
  | Opened nat nat nat
  | To_Key nat nat nat u64 nat
  | To_Lane nat nat nat u64 nat
  | To_Hint nat nat nat u64 nat
  | To_Order nat nat nat u64 nat
  | Splitting nat nat nat u64
  | Built nat nat nat nat
  | Sibling_Hinted nat nat nat nat
  | Sibling_Shown nat nat nat nat
  | Cur_Hinted nat nat nat nat
  | Linking nat nat nat
  | Found nat nat nat nat val
  | Swapping nat nat nat nat val
  | Unlocking nat

text \<open>
  A thread's view, the pointers it has come by, and its stage. A node is held with the highest level it was reached on:
  its tower is only read from there down. A payload's order word is kept with the payload.
\<close>

record local =
  view :: "loc view"
  nodes :: "(nat \<times> nat) set"
  pays :: "nat set"
  words :: "(nat \<times> u64) set"
  ents :: "nat set"
  stage :: stage

record shared =
  mem :: "(loc, val) memory"
  node_count :: nat
  payload_count :: nat
  entry_count :: nat

section \<open>Construction\<close>

definition node_locs :: "nat \<Rightarrow> loc list" where
  "node_locs s = [Data s, Hint s, Lock s, Height s] @ map (Tower s) [0..<kMaxHeight]"

definition payload_locs :: "nat \<Rightarrow> loc list" where
  "payload_locs p = [Order p, Prefix p, Next p] @ map (Key p) [0..<kNodeKeys] @ map (Lane p) [0..<kNodeKeys]"

text \<open>\<^verbatim>\<open>ListNode()\<close> with the height that is drawn for it.\<close>

fun node_init :: "nat \<Rightarrow> loc \<Rightarrow> val" where
  "node_init h (Hint s) = Number 0"
| "node_init h (Lock s) = Flag False"
| "node_init h (Height s) = Number h"
| "node_init h l = Null"

text \<open>What \<^verbatim>\<open>fill\<close> leaves in a payload: the run \<open>es\<close>, the successor \<open>nx\<close>, some prefix length and lanes.\<close>

fun payload_init :: "nat list \<Rightarrow> val \<Rightarrow> nat \<Rightarrow> (nat \<Rightarrow> nat) \<Rightarrow> loc \<Rightarrow> val" where
  "payload_init es nx x lanes (Order p) = Word (order_identity (length es))"
| "payload_init es nx x lanes (Prefix p) = Number x"
| "payload_init es nx x lanes (Next p) = nx"
| "payload_init es nx x lanes (Key p j) = (if j < length es then Entry (es ! j) else Null)"
| "payload_init es nx x lanes (Lane p j) = Number (lanes j)"
| "payload_init es nx x lanes l = Null"

text \<open>The stores into objects nobody else can reach yet are one step, with their last values.\<close>

definition construct :: "loc list \<Rightarrow> (loc \<Rightarrow> val) \<Rightarrow> (loc, val) memory \<Rightarrow> (loc, val) memory" where
  "construct ls f M = (\<lambda>l. if l \<in> set ls then [\<lparr>content = f l, carried = bot\<rparr>] else M l)"

definition view_after_construct :: "loc list \<Rightarrow> loc view \<Rightarrow> loc view" where
  "view_after_construct ls V = (\<lambda>l. if l \<in> set ls then 1 else V l)"

text \<open>\<open>create_node\<close>, \<open>fresh_data\<close> twice and \<open>fill\<close> twice: sibling \<open>s\<close>, right half \<open>r\<close>, left half \<open>l\<close>.\<close>

definition split_locs :: "nat \<Rightarrow> nat \<Rightarrow> nat \<Rightarrow> loc list" where
  "split_locs s l r = node_locs s @ payload_locs r @ payload_locs l"

definition split_init ::
  "nat \<Rightarrow> nat \<Rightarrow> nat \<Rightarrow> nat \<Rightarrow> nat list \<Rightarrow> val \<Rightarrow> (nat \<Rightarrow> nat) \<Rightarrow> (nat \<Rightarrow> nat \<Rightarrow> nat) \<Rightarrow> loc \<Rightarrow> val" where
  "split_init s l r h xs nx pre_lens lanes k =
     (if k \<in> set (node_locs s) then node_init h k
      else if k \<in> set (payload_locs r) then payload_init (drop kMid xs) nx (pre_lens r) (lanes r) k
      else payload_init (take kMid xs) (Node_Ptr s) (pre_lens l) (lanes l) k)"

section \<open>Steps\<close>

text \<open>The node or payload a loaded pointer leads to.\<close>

definition node_of :: "val \<Rightarrow> nat \<Rightarrow> (nat \<times> nat) set" where
  "node_of v lv = (case v of Node_Ptr n \<Rightarrow> {(n, lv)} | _ \<Rightarrow> {})"

text \<open>
  One step of a thread with the accesses it makes. A test-and-set that finds the lock taken stores what is there
  already, and leaves memory as it is; a compare-exchange that fails is its load.
\<close>

inductive action :: "shared \<Rightarrow> local \<Rightarrow> loc access list \<Rightarrow> shared \<Rightarrow> local \<Rightarrow> bool" where
  load_data: "(c, lv) \<in> nodes h \<Longrightarrow> visible (mem S) (view h) (Data c) i \<Longrightarrow> content (store_at (mem S) (Data c) i) = Payload_Ptr p \<Longrightarrow>
    action S h [Loads data_load (Data c)] S
      (h\<lparr>view := after_load data_load (mem S) (view h) (Data c) i, pays := insert p (pays h)\<rparr>)"
| load_null: "(c, lv) \<in> nodes h \<Longrightarrow> visible (mem S) (view h) (Data c) i \<Longrightarrow> content (store_at (mem S) (Data c) i) = Null \<Longrightarrow>
    action S h [Loads data_load (Data c), Faults] S h"
| follow_next: "p \<in> pays h \<Longrightarrow> plain_content (mem S) (view h) (Next p) v \<Longrightarrow>
    action S h [Loads Plain (Next p)] S (h\<lparr>nodes := nodes h \<union> node_of v 0\<rparr>)"
| load_prefix: "p \<in> pays h \<Longrightarrow> action S h [Loads Plain (Prefix p)] S h"
| snapshot: "p \<in> pays h \<Longrightarrow> visible (mem S) (view h) (Order p) i \<Longrightarrow> content (store_at (mem S) (Order p) i) = Word w \<Longrightarrow>
    action S h [Loads snapshot_load (Order p)] S
      (h\<lparr>view := after_load snapshot_load (mem S) (view h) (Order p) i, words := insert (p, w) (words h)\<rparr>)"
| load_key: "(p, w) \<in> words h \<Longrightarrow> rank < order_count w \<Longrightarrow> plain_content (mem S) (view h) (Key p (order_slot w rank)) (Entry e) \<Longrightarrow>
    action S h [Loads Plain (Key p (order_slot w rank))] S (h\<lparr>ents := insert e (ents h)\<rparr>)"
| load_lane: "(p, w) \<in> words h \<Longrightarrow> slot < order_count w \<Longrightarrow> action S h [Loads Plain (Lane p slot)] S h"
| load_bytes: "e \<in> ents h \<Longrightarrow> action S h [Loads Plain (Bytes e)] S h"
| load_tower: "(c, lv) \<in> nodes h \<Longrightarrow> 1 \<le> l \<Longrightarrow> l \<le> lv \<Longrightarrow> visible (mem S) (view h) (Tower c l) i \<Longrightarrow>
    action S h [Loads tower_load (Tower c l)] S
      (h\<lparr>view := after_load tower_load (mem S) (view h) (Tower c l) i,
         nodes := nodes h \<union> node_of (content (store_at (mem S) (Tower c l) i)) l\<rparr>)"
| load_hint: "(c, lv) \<in> nodes h \<Longrightarrow> visible (mem S) (view h) (Hint c) i \<Longrightarrow>
    action S h [Loads hint_load (Hint c)] S (h\<lparr>view := after_load hint_load (mem S) (view h) (Hint c) i\<rparr>)"

| arrive: "stage h = Resting \<Longrightarrow> e = entry_count S \<Longrightarrow>
    action S h [Stores Plain (Bytes e)]
      (S\<lparr>mem := after_store Plain (mem S) (view h) (Bytes e) (Number 0), entry_count := Suc e\<rparr>)
      (h\<lparr>view := view_after_store (mem S) (view h) (Bytes e), ents := insert e (ents h), stage := Arrived e\<rparr>)"
| lock: "stage h = Arrived e \<Longrightarrow> (c, lv) \<in> nodes h \<Longrightarrow> content (last (mem S (Lock c))) = Flag False \<Longrightarrow>
    action S h [Exchanges lock_exchange (Lock c)]
      (S\<lparr>mem := after_exchange lock_exchange (mem S) (view h) (Lock c) (Flag True)\<rparr>)
      (h\<lparr>view := view_after_exchange lock_exchange (mem S) (view h) (Lock c), stage := Locked e c\<rparr>)"
| lock_taken: "stage h = Arrived e \<Longrightarrow> (c, lv) \<in> nodes h \<Longrightarrow> content (last (mem S (Lock c))) \<noteq> Flag False \<Longrightarrow>
    action S h [Exchanges lock_exchange (Lock c)] S h"
| open_node: "stage h = Locked e c \<Longrightarrow> visible (mem S) (view h) (Data c) i \<Longrightarrow> content (store_at (mem S) (Data c) i) = Payload_Ptr p \<Longrightarrow>
    action S h [Loads data_load (Data c)] S
      (h\<lparr>view := after_load data_load (mem S) (view h) (Data c) i, pays := insert p (pays h), stage := Opened e c p\<rparr>)"
| back_off: "stage h = Opened e c p \<Longrightarrow>
    action S h [Stores unlock_store (Lock c)]
      (S\<lparr>mem := after_store unlock_store (mem S) (view h) (Lock c) (Flag False)\<rparr>)
      (h\<lparr>view := view_after_store (mem S) (view h) (Lock c), stage := Arrived e\<rparr>)"
| load_order: "stage h = Opened e c p \<Longrightarrow> visible (mem S) (view h) (Order p) i \<Longrightarrow> content (store_at (mem S) (Order p) i) = Word w \<Longrightarrow>
    rank \<le> order_count w \<Longrightarrow>
    action S h [Loads locked_order_load (Order p)] S
      (h\<lparr>view := after_load locked_order_load (mem S) (view h) (Order p) i, words := insert (p, w) (words h),
         stage := (if order_count w < kNodeCapacity then To_Key e c p w rank else Splitting e c p w)\<rparr>)"

| store_key: "stage h = To_Key e c p w rank \<Longrightarrow>
    action S h [Stores Plain (Key p (order_count w))]
      (S\<lparr>mem := after_store Plain (mem S) (view h) (Key p (order_count w)) (Entry e)\<rparr>)
      (h\<lparr>view := view_after_store (mem S) (view h) (Key p (order_count w)), stage := To_Lane e c p w rank\<rparr>)"
| store_lane: "stage h = To_Lane e c p w rank \<Longrightarrow>
    action S h [Stores Plain (Lane p (order_count w))]
      (S\<lparr>mem := after_store Plain (mem S) (view h) (Lane p (order_count w)) (Number x)\<rparr>)
      (h\<lparr>view := view_after_store (mem S) (view h) (Lane p (order_count w)),
         stage := (if rank = 0 then To_Hint e c p w rank else To_Order e c p w rank)\<rparr>)"
| same_hint: "stage h = To_Hint e c p w rank \<Longrightarrow> visible (mem S) (view h) (Hint c) i \<Longrightarrow>
    action S h [Loads hint_load (Hint c)] S
      (h\<lparr>view := after_load hint_load (mem S) (view h) (Hint c) i, stage := To_Order e c p w rank\<rparr>)"
| store_hint: "stage h = To_Hint e c p w rank \<Longrightarrow>
    action S h [Loads hint_load (Hint c), Stores hint_store (Hint c)]
      (S\<lparr>mem := after_store hint_store (mem S) (view h) (Hint c) (Number x)\<rparr>)
      (h\<lparr>view := view_after_store (mem S) (view h) (Hint c), stage := To_Order e c p w rank\<rparr>)"
| store_order: "stage h = To_Order e c p w rank \<Longrightarrow>
    action S h [Stores append_order_store (Order p)]
      (S\<lparr>mem := after_store append_order_store (mem S) (view h) (Order p) (Word (order_insert w rank (order_count w)))\<rparr>)
      (h\<lparr>view := view_after_store (mem S) (view h) (Order p), stage := Unlocking c\<rparr>)"

| build: "stage h = Splitting e c p w \<Longrightarrow> s = node_count S \<Longrightarrow> r = payload_count S \<Longrightarrow> l = Suc r \<Longrightarrow>
    length xs = Suc (order_count w) \<Longrightarrow>
    \<forall>x \<in> set xs. x = e \<or> (\<exists>rank < order_count w. plain_content (mem S) (view h) (Key p (order_slot w rank)) (Entry x)) \<Longrightarrow>
    plain_content (mem S) (view h) (Next p) nx \<Longrightarrow>
    action S h
      (map (\<lambda>rank. Loads Plain (Key p (order_slot w rank))) [0..<order_count w] @ [Loads Plain (Next p)] @
       map (Stores Plain) (split_locs s l r))
      (S\<lparr>mem := construct (split_locs s l r) (split_init s l r hgt xs nx pre_lens lanes) (mem S),
         node_count := Suc s, payload_count := Suc l\<rparr>)
      (h\<lparr>view := view_after_construct (split_locs s l r) (view h),
         words := words h \<union> {(r, order_identity (length xs - kMid)), (l, order_identity kMid)}, stage := Built c s l r\<rparr>)"
| sibling_hint: "stage h = Built c s l r \<Longrightarrow>
    action S h [Loads publish_order_load (Order r), Loads Plain (Key r 0), Loads hint_load (Hint s), Stores hint_store (Hint s)]
      (S\<lparr>mem := after_store hint_store (mem S) (view h) (Hint s) (Number x)\<rparr>)
      (h\<lparr>view := view_after_store (mem S) (view h) (Hint s), stage := Sibling_Hinted c s l r\<rparr>)"
| sibling_hint_same: "stage h = Built c s l r \<Longrightarrow> visible (mem S) (view h) (Hint s) i \<Longrightarrow>
    action S h [Loads publish_order_load (Order r), Loads Plain (Key r 0), Loads hint_load (Hint s)] S
      (h\<lparr>view := after_load hint_load (mem S) (view h) (Hint s) i, stage := Sibling_Hinted c s l r\<rparr>)"
| show_sibling: "stage h = Sibling_Hinted c s l r \<Longrightarrow>
    action S h [Stores data_store (Data s)]
      (S\<lparr>mem := after_store data_store (mem S) (view h) (Data s) (Payload_Ptr r)\<rparr>)
      (h\<lparr>view := view_after_store (mem S) (view h) (Data s), stage := Sibling_Shown c s l r\<rparr>)"
| cur_hint: "stage h = Sibling_Shown c s l r \<Longrightarrow>
    action S h [Loads publish_order_load (Order l), Loads Plain (Key l 0), Loads hint_load (Hint c), Stores hint_store (Hint c)]
      (S\<lparr>mem := after_store hint_store (mem S) (view h) (Hint c) (Number x)\<rparr>)
      (h\<lparr>view := view_after_store (mem S) (view h) (Hint c), stage := Cur_Hinted c s l r\<rparr>)"
| cur_hint_same: "stage h = Sibling_Shown c s l r \<Longrightarrow> visible (mem S) (view h) (Hint c) i \<Longrightarrow>
    action S h [Loads publish_order_load (Order l), Loads Plain (Key l 0), Loads hint_load (Hint c)] S
      (h\<lparr>view := after_load hint_load (mem S) (view h) (Hint c) i, stage := Cur_Hinted c s l r\<rparr>)"
| show_cur: "stage h = Cur_Hinted c s l r \<Longrightarrow>
    action S h [Stores data_store (Data c)]
      (S\<lparr>mem := after_store data_store (mem S) (view h) (Data c) (Payload_Ptr l)\<rparr>)
      (h\<lparr>view := view_after_store (mem S) (view h) (Data c), stage := Linking c s 1\<rparr>)"

| find_pred: "stage h = Linking c s lv \<Longrightarrow> lv < kMaxHeight \<Longrightarrow> (pred, l) \<in> nodes h \<Longrightarrow> lv \<le> l \<Longrightarrow> pred \<noteq> s \<Longrightarrow>
    visible (mem S) (view h) (Tower pred lv) i \<Longrightarrow> v = content (store_at (mem S) (Tower pred lv) i) \<Longrightarrow>
    action S h [Loads Plain (Height s), Loads tower_load (Tower pred lv)] S
      (h\<lparr>view := after_load tower_load (mem S) (view h) (Tower pred lv) i, nodes := nodes h \<union> node_of v lv,
         stage := Found c s lv pred v\<rparr>)"
| find_again: "stage h = Found c s lv pred v \<Longrightarrow> action S h [] S (h\<lparr>stage := Linking c s lv\<rparr>)"
| store_tower: "stage h = Found c s lv pred v \<Longrightarrow>
    action S h [Stores tower_store (Tower s lv)]
      (S\<lparr>mem := after_store tower_store (mem S) (view h) (Tower s lv) v\<rparr>)
      (h\<lparr>view := view_after_store (mem S) (view h) (Tower s lv), stage := Swapping c s lv pred v\<rparr>)"
| swap: "stage h = Swapping c s lv pred v \<Longrightarrow> content (last (mem S (Tower pred lv))) = v \<Longrightarrow>
    action S h [Exchanges tower_exchange (Tower pred lv)]
      (S\<lparr>mem := after_exchange tower_exchange (mem S) (view h) (Tower pred lv) (Node_Ptr s)\<rparr>)
      (h\<lparr>view := view_after_exchange tower_exchange (mem S) (view h) (Tower pred lv), stage := Linking c s (Suc lv)\<rparr>)"
| swap_failed: "stage h = Swapping c s lv pred v \<Longrightarrow> visible (mem S) (view h) (Tower pred lv) i \<Longrightarrow>
    action S h [Loads tower_exchange_failed (Tower pred lv)] S
      (h\<lparr>view := after_load tower_exchange_failed (mem S) (view h) (Tower pred lv) i, stage := Linking c s lv\<rparr>)"
| next_level: "stage h = Linking c s lv \<Longrightarrow> action S h [Loads Plain (Height s)] S (h\<lparr>stage := Linking c s (Suc lv)\<rparr>)"
| linked: "stage h = Linking c s lv \<Longrightarrow> action S h [Loads Plain (Height s)] S (h\<lparr>stage := Unlocking c\<rparr>)"
| unlock: "stage h = Unlocking c \<Longrightarrow>
    action S h [Stores unlock_store (Lock c)]
      (S\<lparr>mem := after_store unlock_store (mem S) (view h) (Lock c) (Flag False)\<rparr>)
      (h\<lparr>view := view_after_store (mem S) (view h) (Lock c), stage := Resting\<rparr>)"

section \<open>The system\<close>

record system =
  sh :: shared
  readers :: "loc \<Rightarrow> nat set"
  locals :: "nat \<Rightarrow> local"

inductive sys_step :: "system \<Rightarrow> nat \<Rightarrow> loc access list \<Rightarrow> system \<Rightarrow> bool" where
  act: "action (sh X) (locals X t) as S' h' \<Longrightarrow>
    sys_step X t as
      (X\<lparr>sh := S', readers := (\<lambda>l. if l \<in> plain_loads as then insert t (readers X l) else readers X l),
         locals := (locals X)(t := h')\<rparr>)"

text \<open>The table as its constructor leaves it, known to every thread: the head with an empty payload.\<close>

definition head_locs :: "loc list" where
  "head_locs = node_locs 0 @ payload_locs 0"

definition head_view :: "loc view" where
  "head_view = (view_after_construct head_locs bot)(Data 0 := 2)"

definition head_memory :: "(loc, val) memory" where
  "head_memory =
     (construct head_locs (\<lambda>l. if l \<in> set (node_locs 0) then node_init kMaxHeight l else payload_init [] Null 0 (\<lambda>_. 0) l) (\<lambda>_. []))
       (Data 0 := [\<lparr>content = Null, carried = bot\<rparr>, \<lparr>content = Payload_Ptr 0, carried = head_view\<rparr>])"

definition initial :: system where
  "initial =
     \<lparr>sh = \<lparr>mem = head_memory, node_count = 1, payload_count = 1, entry_count = 0\<rparr>, readers = (\<lambda>_. {}),
      locals = (\<lambda>_. \<lparr>view = head_view, nodes = {(0, kMaxHeight - 1)}, pays = {}, words = {}, ents = {}, stage = Resting\<rparr>)\<rparr>"

inductive reachable :: "system \<Rightarrow> bool" where
  start: "reachable initial"
| step: "reachable X \<Longrightarrow> sys_step X t as X' \<Longrightarrow> reachable X'"

end
