(* ===== verification/Publication_Safe.thy ===== *)
theory Publication_Safe
  imports Publication
begin

text \<open>
  What holds whenever the threads of \<^verbatim>\<open>Publication\<close> are between two steps. A store that publishes something carries
  a view that covers what it publishes; a thread that holds a pointer has taken such a view over; and a location that
  is still written plainly, or under a lock, has one owner, a thread or the node whose lock is free, that knows its last
  store.
\<close>

section \<open>Order words\<close>

definition word_ok :: "u64 \<Rightarrow> bool" where
  "word_ok w \<longleftrightarrow> (\<exists>ss. w = encode ss \<and> slot_perm ss)"

lemma word_ok_count: "word_ok w \<Longrightarrow> order_count w \<le> 15"
  using slot_perm_length slot_perm_packable by (auto simp: word_ok_def order_count_encode)

lemma word_ok_slot: "word_ok w \<Longrightarrow> r < order_count w \<Longrightarrow> order_slot w r < order_count w"
  using slot_perm_packable slot_perm_less
  by (auto simp: word_ok_def order_count_encode order_slot_ranks ranks_encode)

lemma word_ok_insert:
  assumes "word_ok w" "order_count w < kNodeCapacity" "rank \<le> order_count w"
  shows "word_ok (order_insert w rank (order_count w))" "order_count (order_insert w rank (order_count w)) = Suc (order_count w)"
proof -
  obtain ss where ss: "w = encode ss" "slot_perm ss" using assms(1) by (auto simp: word_ok_def)
  then have "packable ss" "order_count w = length ss" by (simp_all add: slot_perm_packable order_count_encode)
  then have "order_insert w rank (order_count w) = encode (ins_at rank (length ss) ss)" "slot_perm (ins_at rank (length ss) ss)"
    using assms ss by (simp_all add: order_insert_encode slot_perm_ins_at node_consts)
  then show "word_ok (order_insert w rank (order_count w))" "order_count (order_insert w rank (order_count w)) = Suc (order_count w)"
    using ss \<open>packable ss\<close> by (auto simp: word_ok_def order_count_encode slot_perm_packable)
qed

lemma word_ok_identity: "n \<le> 15 \<Longrightarrow> word_ok (order_identity n)" "n \<le> 15 \<Longrightarrow> order_count (order_identity n) = n"
  using slot_perm_upt [of n] slot_perm_packable [of "[0..<n]"]
  by (auto simp: word_ok_def order_identity_encode node_consts order_count_encode)

section \<open>What a view covers\<close>

definition the_word :: "val \<Rightarrow> u64" where
  "the_word v = (case v of Word w \<Rightarrow> w | _ \<Rightarrow> 0)"

definition the_payload :: "val \<Rightarrow> nat" where
  "the_payload v = (case v of Payload_Ptr p \<Rightarrow> p | _ \<Rightarrow> 0)"

lemma the_simps [simp]: "the_word (Word w) = w" "the_payload (Payload_Ptr p) = p"
  by (simp_all add: the_word_def the_payload_def)

definition first_word :: "(loc, val) memory \<Rightarrow> nat \<Rightarrow> u64" where
  "first_word M p = the_word (content (store_at M (Order p) 1))"

definition last_word :: "(loc, val) memory \<Rightarrow> nat \<Rightarrow> u64" where
  "last_word M p = the_word (content (last (M (Order p))))"

text \<open>A slot is stored once by \<^verbatim>\<open>fill\<close>, and once more by an append if \<^verbatim>\<open>fill\<close> left it empty.\<close>

definition settled_at :: "(loc, val) memory \<Rightarrow> nat \<Rightarrow> nat \<Rightarrow> nat" where
  "settled_at M p j = (if j < order_count (first_word M p) then 1 else 2)"

definition covers :: "(loc, val) memory \<Rightarrow> loc view \<Rightarrow> nat \<Rightarrow> u64 \<Rightarrow> bool" where
  "covers M V p w \<longleftrightarrow> 1 \<le> V (Order p) \<and>
     (\<forall>j < order_count w. settled_at M p j \<le> V (Key p j) \<and> settled_at M p j \<le> V (Lane p j) \<and>
        (\<exists>e. content (store_at M (Key p j) (settled_at M p j)) = Entry e \<and> 1 \<le> V (Bytes e)))"

definition filled :: "(loc, val) memory \<Rightarrow> loc view \<Rightarrow> nat \<Rightarrow> bool" where
  "filled M V p \<longleftrightarrow> (\<forall>l \<in> set (payload_locs p). 1 \<le> V l) \<and> covers M V p (first_word M p)"

text \<open>To know a node is to have taken over what its first publication carried.\<close>

definition knows_node :: "(loc, val) memory \<Rightarrow> loc view \<Rightarrow> nat \<Rightarrow> bool" where
  "knows_node M V n \<longleftrightarrow> 2 \<le> length (M (Data n)) \<and> carried (store_at M (Data n) 2) \<le> V"

definition next_known :: "(loc, val) memory \<Rightarrow> loc view \<Rightarrow> nat \<Rightarrow> bool" where
  "next_known M V p \<longleftrightarrow> 1 \<le> V (Next p) \<and> (\<forall>n. content (store_at M (Next p) 1) = Node_Ptr n \<longrightarrow> knows_node M V n)"

definition knows_payload :: "(loc, val) memory \<Rightarrow> loc view \<Rightarrow> nat \<Rightarrow> bool" where
  "knows_payload M V p \<longleftrightarrow>
     (\<exists>c i. 2 \<le> i \<and> i \<le> length (M (Data c)) \<and> content (store_at M (Data c) i) = Payload_Ptr p \<and> carried (store_at M (Data c) i) \<le> V)"

definition publishes :: "(loc, val) memory \<Rightarrow> nat \<Rightarrow> nat \<Rightarrow> bool" where
  "publishes M c i \<longleftrightarrow>
     (let V = carried (store_at M (Data c) i)
      in i \<le> V (Data c) \<and> (\<forall>l \<in> set (node_locs c). 1 \<le> V l) \<and>
         (\<exists>p. content (store_at M (Data c) i) = Payload_Ptr p \<and> filled M V p \<and> next_known M V p))"

lemma covers_mono:
  assumes "covers M V p w" "within M V" "grown M M'" "V \<le> V'"
  shows "covers M' V' p w"
proof -
  have V: "V l \<le> V' l" for l using assms(4) by (simp add: le_fun_def)
  have len: "V l \<le> length (M l)" for l using assms(2) by (simp add: within_def)
  have o: "1 \<le> V (Order p)" using assms(1) by (simp add: covers_def)
  then have "store_at M' (Order p) 1 = store_at M (Order p) 1" using grown_store_at [OF assms(3)] len [of "Order p"] by simp
  then have s: "settled_at M' p j = settled_at M p j" for j by (simp add: settled_at_def first_word_def)
  have "settled_at M p j \<le> V' (Key p j) \<and> settled_at M p j \<le> V' (Lane p j) \<and>
      (\<exists>e. content (store_at M' (Key p j) (settled_at M p j)) = Entry e \<and> 1 \<le> V' (Bytes e))" if j: "j < order_count w" for j
  proof -
    obtain e where e: "settled_at M p j \<le> V (Key p j)" "settled_at M p j \<le> V (Lane p j)"
      "content (store_at M (Key p j) (settled_at M p j)) = Entry e" "1 \<le> V (Bytes e)"
      using assms(1) j unfolding covers_def by blast
    have "1 \<le> settled_at M p j" by (simp add: settled_at_def)
    then have "store_at M' (Key p j) (settled_at M p j) = store_at M (Key p j) (settled_at M p j)"
      using grown_store_at [OF assms(3)] e(1) len le_trans by metis
    then show ?thesis using e V le_trans by metis
  qed
  moreover have "1 \<le> V' (Order p)" using o V le_trans by metis
  ultimately show ?thesis by (simp add: covers_def s)
qed

lemma filled_mono: "filled M V p \<Longrightarrow> within M V \<Longrightarrow> grown M M' \<Longrightarrow> V \<le> V' \<Longrightarrow> filled M' V' p"
proof -
  assume f: "filled M V p" and w: "within M V" and x: "grown M M'" and v: "V \<le> V'"
  have "1 \<le> V (Order p)" using f by (simp add: filled_def covers_def)
  then have "first_word M' p = first_word M p"
    using w grown_store_at [OF x, of 1 "Order p"] by (simp add: first_word_def within_def) (metis le_trans)
  then show ?thesis using f covers_mono [OF _ w x v] v unfolding filled_def le_fun_def by (metis le_trans)
qed

lemma knows_node_mono: "knows_node M V n \<Longrightarrow> grown M M' \<Longrightarrow> V \<le> V' \<Longrightarrow> knows_node M' V' n"
  using grown_length [of M M' "Data n"] grown_store_at [of M M' 2 "Data n"] unfolding knows_node_def
  by (auto intro: order_trans)

lemma next_known_mono: "next_known M V p \<Longrightarrow> within M V \<Longrightarrow> grown M M' \<Longrightarrow> V \<le> V' \<Longrightarrow> next_known M' V' p"
  unfolding next_known_def within_def le_fun_def using knows_node_mono [of M V _ M' V'] grown_store_at [of M M' 1 "Next p"]
  by (metis le_fun_def le_trans order_refl)

lemma knows_payload_mono: "knows_payload M V p \<Longrightarrow> grown M M' \<Longrightarrow> V \<le> V' \<Longrightarrow> knows_payload M' V' p"
proof -
  assume k: "knows_payload M V p" and x: "grown M M'" and v: "V \<le> V'"
  then obtain c i where "2 \<le> i" "i \<le> length (M (Data c))" "content (store_at M (Data c) i) = Payload_Ptr p"
    "carried (store_at M (Data c) i) \<le> V" by (auto simp: knows_payload_def)
  then show ?thesis using grown_store_at [OF x, of i "Data c"] grown_length [OF x, of "Data c"] v unfolding knows_payload_def
    by (intro exI [of _ c] exI [of _ i]) (auto intro: order_trans)
qed

lemma publishes_mono:
  assumes "publishes M c i" "bounded M" "grown M M'" "2 \<le> i" "i \<le> length (M (Data c))"
  shows "publishes M' c i"
proof -
  have "store_at M' (Data c) i = store_at M (Data c) i" using grown_store_at [OF assms(3)] assms(4,5) by simp
  moreover have "within M (carried (store_at M (Data c) i))" using bounded_store_at [OF assms(2)] assms(4,5) by simp
  ultimately show ?thesis
    using assms(1) filled_mono [OF _ _ assms(3) order_refl] next_known_mono [OF _ _ assms(3) order_refl]
    unfolding publishes_def Let_def by metis
qed

section \<open>The invariants of memory\<close>

definition messages_ok :: "(loc, val) memory \<Rightarrow> bool" where
  "messages_ok M \<longleftrightarrow> bounded M \<and>
     (\<forall>c i. 2 \<le> i \<longrightarrow> i \<le> length (M (Data c)) \<longrightarrow> publishes M c i) \<and>
     (\<forall>c lv. \<forall>m \<in> set (M (Tower c lv)). \<forall>n. content m = Node_Ptr n \<longrightarrow> knows_node M (carried m) n) \<and>
     (\<forall>p i. 2 \<le> i \<longrightarrow> i \<le> length (M (Order p)) \<longrightarrow>
        covers M (carried (store_at M (Order p) i)) p (the_word (content (store_at M (Order p) i))))"

lemma messages_okD:
  assumes "messages_ok M"
  shows "bounded M" "2 \<le> i \<Longrightarrow> i \<le> length (M (Data c)) \<Longrightarrow> publishes M c i"
    "m \<in> set (M (Tower c lv)) \<Longrightarrow> content m = Node_Ptr n \<Longrightarrow> knows_node M (carried m) n"
    "2 \<le> i \<Longrightarrow> i \<le> length (M (Order p)) \<Longrightarrow> covers M (carried (store_at M (Order p) i)) p (the_word (content (store_at M (Order p) i)))"
  using assms unfolding messages_ok_def by blast+

text \<open>Only what was stored new has to be looked at.\<close>

lemma messages_ok_grown:
  assumes M: "messages_ok M" and x: "grown M M'" and b: "bounded M'"
    and data: "\<And>c i. length (M (Data c)) < i \<Longrightarrow> i \<le> length (M' (Data c)) \<Longrightarrow> 2 \<le> i \<Longrightarrow> publishes M' c i"
    and tower: "\<And>c lv m n. m \<in> set (M' (Tower c lv)) \<Longrightarrow> m \<notin> set (M (Tower c lv)) \<Longrightarrow> content m = Node_Ptr n \<Longrightarrow> knows_node M' (carried m) n"
    and order: "\<And>p i. length (M (Order p)) < i \<Longrightarrow> i \<le> length (M' (Order p)) \<Longrightarrow> 2 \<le> i \<Longrightarrow>
      covers M' (carried (store_at M' (Order p) i)) p (the_word (content (store_at M' (Order p) i)))"
  shows "messages_ok M'"
  unfolding messages_ok_def
proof (intro conjI allI impI ballI)
  show "bounded M'" by (rule b)
  fix c i
  assume i: "2 \<le> i" "i \<le> length (M' (Data c))"
  show "publishes M' c i"
  proof (cases "i \<le> length (M (Data c))")
    case True
    then show ?thesis using publishes_mono [OF messages_okD(2) [OF M i(1) True] messages_okD(1) [OF M] x i(1)] by simp
  qed (use data i in simp)
next
  fix c lv m n
  assume m: "m \<in> set (M' (Tower c lv))" "content m = Node_Ptr n"
  show "knows_node M' (carried m) n"
  proof (cases "m \<in> set (M (Tower c lv))")
    case True
    then show ?thesis using knows_node_mono [OF messages_okD(3) [OF M True m(2)] x order_refl] by simp
  qed (use tower m in blast)
next
  fix p i
  assume i: "2 \<le> i" "i \<le> length (M' (Order p))"
  show "covers M' (carried (store_at M' (Order p) i)) p (the_word (content (store_at M' (Order p) i)))"
  proof (cases "i \<le> length (M (Order p))")
    case True
    then have "store_at M' (Order p) i = store_at M (Order p) i" using grown_store_at [OF x] i by simp
    then show ?thesis
      using covers_mono [OF messages_okD(4) [OF M i(1) True] bounded_store_at [OF messages_okD(1) [OF M]] x order_refl] True i(1) by simp
  qed (use order i in simp)
qed

section \<open>What the locations hold\<close>

text \<open>Order words that grow by one entry each, slots settled before a word names them, plain fields stored once.\<close>

definition contents_ok :: "(loc, val) memory \<Rightarrow> bool" where
  "contents_ok M \<longleftrightarrow>
     (\<forall>p i. 1 \<le> i \<longrightarrow> i \<le> length (M (Order p)) \<longrightarrow>
        (\<exists>w. content (store_at M (Order p) i) = Word w \<and> word_ok w \<and> order_count w = order_count (first_word M p) + (i - 1))) \<and>
     (\<forall>p j. M (Order p) \<noteq> [] \<longrightarrow> j < order_count (last_word M p) \<longrightarrow>
        length (M (Key p j)) = settled_at M p j \<and> length (M (Lane p j)) = settled_at M p j) \<and>
     (\<forall>n. length (M (Next n)) \<le> 1 \<and> length (M (Prefix n)) \<le> 1 \<and> length (M (Bytes n)) \<le> 1 \<and> length (M (Height n)) \<le> 1)"

lemma contents_okD:
  assumes "contents_ok M"
  shows "1 \<le> i \<Longrightarrow> i \<le> length (M (Order p)) \<Longrightarrow>
      \<exists>w. content (store_at M (Order p) i) = Word w \<and> word_ok w \<and> order_count w = order_count (first_word M p) + (i - 1)"
    "M (Order p) \<noteq> [] \<Longrightarrow> j < order_count (last_word M p) \<Longrightarrow> length (M (Key p j)) = settled_at M p j"
    "M (Order p) \<noteq> [] \<Longrightarrow> j < order_count (last_word M p) \<Longrightarrow> length (M (Lane p j)) = settled_at M p j"
    "length (M (Next n)) \<le> 1" "length (M (Prefix n)) \<le> 1" "length (M (Bytes n)) \<le> 1" "length (M (Height n)) \<le> 1"
  using assms unfolding contents_ok_def by blast+

lemma last_store: "M l \<noteq> [] \<Longrightarrow> last (M l) = store_at M l (length (M l))"
  by (simp add: store_at_def last_conv_nth)

text \<open>The word a snapshot may have seen, and what every such word is.\<close>

definition stored_word :: "(loc, val) memory \<Rightarrow> nat \<Rightarrow> u64 \<Rightarrow> bool" where
  "stored_word M p w \<longleftrightarrow> (\<exists>i. 1 \<le> i \<and> i \<le> length (M (Order p)) \<and> content (store_at M (Order p) i) = Word w)"

lemma stored_word_mono: "stored_word M p w \<Longrightarrow> grown M M' \<Longrightarrow> stored_word M' p w"
  unfolding stored_word_def by (metis grown_length grown_store_at le_trans)

lemma last_word_stored:
  assumes "contents_ok M" "M (Order p) \<noteq> []"
  shows "stored_word M p (last_word M p)" "content (last (M (Order p))) = Word (last_word M p)"
    "order_count (last_word M p) = order_count (first_word M p) + (length (M (Order p)) - 1)" "word_ok (last_word M p)"
  using contents_okD(1) [OF assms(1), of "length (M (Order p))" p] assms(2) last_store [of M "Order p"]
  by (auto simp: stored_word_def last_word_def Suc_le_eq)

lemma stored_word_facts:
  assumes "contents_ok M" "stored_word M p w"
  shows "word_ok w" "order_count w \<le> order_count (last_word M p)" "M (Order p) \<noteq> []"
proof -
  obtain i where i: "1 \<le> i" "i \<le> length (M (Order p))" "content (store_at M (Order p) i) = Word w"
    using assms(2) by (auto simp: stored_word_def)
  show ne: "M (Order p) \<noteq> []" using i by auto
  show "word_ok w" "order_count w \<le> order_count (last_word M p)"
    using contents_okD(1) [OF assms(1) i(1,2)] i last_word_stored(3) [OF assms(1) ne] by auto
qed

text \<open>The last word is at most as long as that of a later memory.\<close>

lemma last_word_grows:
  assumes "contents_ok M" "contents_ok M'" "grown M M'" "M (Order p) \<noteq> []"
  shows "order_count (last_word M p) \<le> order_count (last_word M' p)"
  using stored_word_facts(2) [OF assms(2)] stored_word_mono [OF _ assms(3)] last_word_stored(1) [OF assms(1,4)] by blast

end
