(* ===== verification/Publication_Owners.thy ===== *)
theory Publication_Owners
  imports Publication_Safe
begin

text \<open>
  Who may write where: the ownership of locations, what a node's owner knows, what is true of a thread at each of its
  places, and that all of it survives the steps of the other threads.
\<close>

datatype owner = Nobody | Thread nat | Node nat

section \<open>Nodes under their lock\<close>

definition cur_payload :: "(loc, val) memory \<Rightarrow> nat \<Rightarrow> nat" where
  "cur_payload M c = the_payload (content (last (M (Data c))))"

definition prot :: "(loc, val) memory \<Rightarrow> nat \<Rightarrow> loc set" where
  "prot M c = {Lock c, Data c, Hint c} \<union> set (payload_locs (cur_payload M c))"

text \<open>The slots that no append has touched.\<close>

definition slots_from :: "(loc, val) memory \<Rightarrow> nat \<Rightarrow> nat \<Rightarrow> bool" where
  "slots_from M p k \<longleftrightarrow> (\<forall>j. k \<le> j \<longrightarrow> j < kNodeKeys \<longrightarrow> length (M (Key p j)) = 1 \<and> length (M (Lane p j)) = 1)"

definition untouched :: "(loc, val) memory \<Rightarrow> nat \<Rightarrow> bool" where
  "untouched M c \<longleftrightarrow> slots_from M (cur_payload M c) (order_count (last_word M (cur_payload M c)))"

definition master :: "(loc, val) memory \<Rightarrow> loc view \<Rightarrow> nat \<Rightarrow> bool" where
  "master M V c \<longleftrightarrow> knows_node M V c \<and> (\<forall>l \<in> prot M c. latest M V l) \<and>
     covers M V (cur_payload M c) (last_word M (cur_payload M c)) \<and> filled M V (cur_payload M c) \<and> next_known M V (cur_payload M c)"

text \<open>What whoever takes a free lock comes to know.\<close>

definition lock_view :: "(loc, val) memory \<Rightarrow> nat \<Rightarrow> loc view" where
  "lock_view M c = sup (carried (store_at M (Data c) 2)) (carried (last (M (Lock c))))"

definition free_node :: "(loc, val) memory \<Rightarrow> nat \<Rightarrow> bool" where
  "free_node M c \<longleftrightarrow> 2 \<le> length (M (Data c)) \<and> content (last (M (Lock c))) = Flag False"

definition free_ok :: "(loc \<Rightarrow> owner) \<Rightarrow> (loc, val) memory \<Rightarrow> nat \<Rightarrow> bool" where
  "free_ok own M c \<longleftrightarrow> (\<forall>l \<in> prot M c. own l = Node c) \<and> master M (lock_view M c) c \<and> untouched M c"

text \<open>A list node's tower is shared up to the highest level it was linked on.\<close>

definition tower_clear :: "(loc \<Rightarrow> owner) \<Rightarrow> nat \<Rightarrow> nat \<Rightarrow> bool" where
  "tower_clear own s lv \<longleftrightarrow> (\<forall>x. 1 \<le> x \<longrightarrow> x \<le> lv \<longrightarrow> x < kMaxHeight \<longrightarrow> own (Tower s x) = Nobody)"

definition memory_ok :: "(loc \<Rightarrow> owner) \<Rightarrow> (loc, val) memory \<Rightarrow> bool" where
  "memory_ok own M \<longleftrightarrow> messages_ok M \<and> contents_ok M \<and> (\<forall>l. own l \<noteq> Nobody \<longrightarrow> M l \<noteq> []) \<and>
     (\<forall>c lv. \<forall>m \<in> set (M (Tower c lv)). \<forall>s. lv < kMaxHeight \<longrightarrow> content m = Node_Ptr s \<longrightarrow> tower_clear own s lv) \<and>
     (\<forall>c. free_node M c \<longrightarrow> free_ok own M c)"

lemma memory_okD:
  assumes "memory_ok own M"
  shows "messages_ok M" "contents_ok M" "own l \<noteq> Nobody \<Longrightarrow> M l \<noteq> []"
    "m \<in> set (M (Tower c lv)) \<Longrightarrow> lv < kMaxHeight \<Longrightarrow> content m = Node_Ptr s \<Longrightarrow> tower_clear own s lv"
    "free_node M c \<Longrightarrow> free_ok own M c" "bounded M"
  using assms messages_okD(1) unfolding memory_ok_def by blast+

section \<open>Threads\<close>

definition knowledge :: "(loc \<Rightarrow> owner) \<Rightarrow> (loc, val) memory \<Rightarrow> loc view \<Rightarrow>
    (nat \<times> nat) set \<Rightarrow> nat set \<Rightarrow> (nat \<times> u64) set \<Rightarrow> nat set \<Rightarrow> bool" where
  "knowledge own M V ns ps ws es \<longleftrightarrow> within M V \<and>
     (\<forall>(c, lv) \<in> ns. lv < kMaxHeight \<and> knows_node M V c \<and> tower_clear own c lv) \<and>
     (\<forall>p \<in> ps. filled M V p \<and> next_known M V p) \<and>
     (\<forall>(p, w) \<in> ws. covers M V p w \<and> stored_word M p w) \<and>
     (\<forall>e \<in> es. 1 \<le> V (Bytes e))"

lemma knowledgeD:
  assumes "knowledge own M V ns ps ws es"
  shows "within M V" "(c, lv) \<in> ns \<Longrightarrow> lv < kMaxHeight" "(c, lv) \<in> ns \<Longrightarrow> knows_node M V c"
    "(c, lv) \<in> ns \<Longrightarrow> tower_clear own c lv" "p \<in> ps \<Longrightarrow> filled M V p" "p \<in> ps \<Longrightarrow> next_known M V p"
    "(p, w) \<in> ws \<Longrightarrow> covers M V p w" "(p, w) \<in> ws \<Longrightarrow> stored_word M p w" "e \<in> es \<Longrightarrow> 1 \<le> V (Bytes e)"
  using assms unfolding knowledge_def by blast+

definition holding :: "(loc \<Rightarrow> owner) \<Rightarrow> (loc, val) memory \<Rightarrow> nat \<Rightarrow> loc view \<Rightarrow> nat \<Rightarrow> bool" where
  "holding own M t V c \<longleftrightarrow> (\<forall>l \<in> prot M c. own l = Thread t) \<and> master M V c"

definition idle :: "(loc \<Rightarrow> owner) \<Rightarrow> (loc, val) memory \<Rightarrow> nat \<Rightarrow> loc view \<Rightarrow> nat \<Rightarrow> bool" where
  "idle own M t V c \<longleftrightarrow> holding own M t V c \<and> untouched M c"

definition settled_word :: "(loc, val) memory \<Rightarrow> nat \<Rightarrow> nat \<Rightarrow> u64 \<Rightarrow> bool" where
  "settled_word M c p w \<longleftrightarrow> p = cur_payload M c \<and> w = last_word M p"

text \<open>In an append the free slot's key has been stored \<open>k\<close> times and its lane \<open>l\<close> times.\<close>

definition appending ::
  "(loc \<Rightarrow> owner) \<Rightarrow> (loc, val) memory \<Rightarrow> nat \<Rightarrow> loc view \<Rightarrow> nat \<Rightarrow> nat \<Rightarrow> nat \<Rightarrow> u64 \<Rightarrow> nat \<Rightarrow> nat \<Rightarrow> nat \<Rightarrow> bool" where
  "appending own M t V e c p w rank k l \<longleftrightarrow> 1 \<le> V (Bytes e) \<and> holding own M t V c \<and> settled_word M c p w \<and>
     order_count w < kNodeCapacity \<and> rank \<le> order_count w \<and> slots_from M p (Suc (order_count w)) \<and>
     length (M (Key p (order_count w))) = k \<and> length (M (Lane p (order_count w))) = l \<and>
     (k = 2 \<longrightarrow> content (store_at M (Key p (order_count w)) 2) = Entry e)"

definition private_payload :: "(loc \<Rightarrow> owner) \<Rightarrow> (loc, val) memory \<Rightarrow> nat \<Rightarrow> loc view \<Rightarrow> nat \<Rightarrow> bool" where
  "private_payload own M t V p \<longleftrightarrow> (\<forall>l \<in> set (payload_locs p). own l = Thread t \<and> length (M l) = 1) \<and>
     0 < order_count (first_word M p) \<and> filled M V p"

definition building ::
  "(loc \<Rightarrow> owner) \<Rightarrow> (loc, val) memory \<Rightarrow> nat \<Rightarrow> loc view \<Rightarrow> nat \<Rightarrow> nat \<Rightarrow> nat \<Rightarrow> nat \<Rightarrow> bool" where
  "building own M t V c s l r \<longleftrightarrow> idle own M t V c \<and> l \<noteq> r \<and> cur_payload M c \<noteq> r \<and>
     (\<forall>x \<in> set (node_locs s). own x = Thread t) \<and> length (M (Data s)) = 1 \<and>
     length (M (Lock s)) = 1 \<and> content (last (M (Lock s))) = Flag False \<and>
     private_payload own M t V r \<and> next_known M V r \<and> private_payload own M t V l \<and> content (store_at M (Next l) 1) = Node_Ptr s"

definition showing ::
  "(loc \<Rightarrow> owner) \<Rightarrow> (loc, val) memory \<Rightarrow> nat \<Rightarrow> loc view \<Rightarrow> nat \<Rightarrow> nat \<Rightarrow> nat \<Rightarrow> bool" where
  "showing own M t V c s l \<longleftrightarrow> idle own M t V c \<and> private_payload own M t V l \<and> content (store_at M (Next l) 1) = Node_Ptr s \<and>
     knows_node M V s \<and> (\<forall>x. 1 \<le> x \<longrightarrow> x < kMaxHeight \<longrightarrow> own (Tower s x) = Thread t)"

definition link_stage :: "(loc \<Rightarrow> owner) \<Rightarrow> (loc, val) memory \<Rightarrow> nat \<Rightarrow> loc view \<Rightarrow> nat \<Rightarrow> nat \<Rightarrow> nat \<Rightarrow> bool" where
  "link_stage own M t V c s lv \<longleftrightarrow> idle own M t V c \<and> 1 \<le> lv \<and> knows_node M V s \<and>
     (\<forall>x. lv \<le> x \<longrightarrow> x < kMaxHeight \<longrightarrow> own (Tower s x) = Thread t) \<and> tower_clear own s (lv - 1)"

definition link_found :: "nat \<Rightarrow> (nat \<times> nat) set \<Rightarrow> nat \<Rightarrow> val \<Rightarrow> bool" where
  "link_found lv ns pred v \<longleftrightarrow> lv < kMaxHeight \<and> (\<exists>l \<ge> lv. (pred, l) \<in> ns) \<and> node_of v lv \<subseteq> ns"

fun stage_ok :: "(loc \<Rightarrow> owner) \<Rightarrow> (loc, val) memory \<Rightarrow> nat \<Rightarrow> loc view \<Rightarrow> (nat \<times> nat) set \<Rightarrow> stage \<Rightarrow> bool" where
  "stage_ok own M t V ns Resting \<longleftrightarrow> True"
| "stage_ok own M t V ns (Arrived e) \<longleftrightarrow> 1 \<le> V (Bytes e)"
| "stage_ok own M t V ns (Locked e c) \<longleftrightarrow> 1 \<le> V (Bytes e) \<and> idle own M t V c"
| "stage_ok own M t V ns (Opened e c p) \<longleftrightarrow> 1 \<le> V (Bytes e) \<and> idle own M t V c \<and> p = cur_payload M c"
| "stage_ok own M t V ns (To_Key e c p w rank) \<longleftrightarrow> appending own M t V e c p w rank 1 1"
| "stage_ok own M t V ns (To_Lane e c p w rank) \<longleftrightarrow> appending own M t V e c p w rank 2 1"
| "stage_ok own M t V ns (To_Hint e c p w rank) \<longleftrightarrow> appending own M t V e c p w rank 2 2"
| "stage_ok own M t V ns (To_Order e c p w rank) \<longleftrightarrow> appending own M t V e c p w rank 2 2"
| "stage_ok own M t V ns (Splitting e c p w) \<longleftrightarrow> 1 \<le> V (Bytes e) \<and> idle own M t V c \<and> settled_word M c p w \<and> order_count w = 15"
| "stage_ok own M t V ns (Built c s l r) \<longleftrightarrow> building own M t V c s l r"
| "stage_ok own M t V ns (Sibling_Hinted c s l r) \<longleftrightarrow> building own M t V c s l r"
| "stage_ok own M t V ns (Sibling_Shown c s l r) \<longleftrightarrow> showing own M t V c s l"
| "stage_ok own M t V ns (Cur_Hinted c s l r) \<longleftrightarrow> showing own M t V c s l"
| "stage_ok own M t V ns (Linking c s lv) \<longleftrightarrow> link_stage own M t V c s lv"
| "stage_ok own M t V ns (Found c s lv pred v) \<longleftrightarrow> link_stage own M t V c s lv \<and> link_found lv ns pred v"
| "stage_ok own M t V ns (Swapping c s lv pred v) \<longleftrightarrow> link_stage own M t V c s lv \<and> link_found lv ns pred v"
| "stage_ok own M t V ns (Unlocking c) \<longleftrightarrow> idle own M t V c"

text \<open>A thread knows the last store of whatever it owns.\<close>

definition thread_ok :: "(loc \<Rightarrow> owner) \<Rightarrow> (loc, val) memory \<Rightarrow> nat \<Rightarrow> local \<Rightarrow> bool" where
  "thread_ok own M t h \<longleftrightarrow> knowledge own M (view h) (nodes h) (pays h) (words h) (ents h) \<and>
     (\<forall>l. own l = Thread t \<longrightarrow> latest M (view h) l) \<and> stage_ok own M t (view h) (nodes h) (stage h)"

definition readers_ok :: "(loc, val) memory \<Rightarrow> (loc \<Rightarrow> nat set) \<Rightarrow> bool" where
  "readers_ok M R \<longleftrightarrow> (\<forall>l. R l \<noteq> {} \<longrightarrow> M l \<noteq> []) \<and>
     (\<forall>p j. R (Key p j) \<noteq> {} \<or> R (Lane p j) \<noteq> {} \<longrightarrow> M (Order p) \<noteq> [] \<and> j < order_count (last_word M p))"

definition unallocated :: "shared \<Rightarrow> bool" where
  "unallocated S \<longleftrightarrow>
     (\<forall>n \<ge> node_count S. \<forall>l \<in> set (node_locs n). mem S l = []) \<and>
     (\<forall>p \<ge> payload_count S. \<forall>l \<in> set (payload_locs p). mem S l = []) \<and>
     (\<forall>e \<ge> entry_count S. mem S (Bytes e) = [])"

definition system_ok :: "(loc \<Rightarrow> owner) \<Rightarrow> system \<Rightarrow> bool" where
  "system_ok own X \<longleftrightarrow> memory_ok own (mem (sh X)) \<and> unallocated (sh X) \<and> readers_ok (mem (sh X)) (readers X) \<and>
     (\<forall>t. thread_ok own (mem (sh X)) t (locals X t))"

section \<open>What survives\<close>

lemma knows_node_locs:
  assumes "messages_ok M" "knows_node M V s" "l \<in> set (node_locs s)"
  shows "1 \<le> V l"
proof -
  have "publishes M s 2" "carried (store_at M (Data s) 2) \<le> V"
    using messages_okD(2) [OF assms(1), of 2 s] assms(2) by (simp_all add: knows_node_def)
  then show ?thesis using assms(3) unfolding publishes_def Let_def le_fun_def by (meson le_trans)
qed

lemma knows_node_data:
  assumes "messages_ok M" "knows_node M V s"
  shows "2 \<le> V (Data s)"
proof -
  have "publishes M s 2" "carried (store_at M (Data s) 2) \<le> V"
    using messages_okD(2) [OF assms(1), of 2 s] assms(2) by (simp_all add: knows_node_def)
  then show ?thesis unfolding publishes_def Let_def le_fun_def by (meson le_trans)
qed

lemma node_locs_iff [simp]:
  "Data c \<in> set (node_locs s) \<longleftrightarrow> c = s" "Hint c \<in> set (node_locs s) \<longleftrightarrow> c = s" "Lock c \<in> set (node_locs s) \<longleftrightarrow> c = s"
  "Height c \<in> set (node_locs s) \<longleftrightarrow> c = s" "Tower c x \<in> set (node_locs s) \<longleftrightarrow> c = s \<and> x < kMaxHeight"
  "Order p \<notin> set (node_locs s)" "Prefix p \<notin> set (node_locs s)" "Next p \<notin> set (node_locs s)"
  "Key p j \<notin> set (node_locs s)" "Lane p j \<notin> set (node_locs s)" "Bytes e \<notin> set (node_locs s)"
  by (auto simp: node_locs_def)

lemma payload_locs_iff [simp]:
  "Data c \<notin> set (payload_locs p)" "Hint c \<notin> set (payload_locs p)" "Lock c \<notin> set (payload_locs p)"
  "Height c \<notin> set (payload_locs p)" "Tower c x \<notin> set (payload_locs p)" "Bytes e \<notin> set (payload_locs p)"
  "Order q \<in> set (payload_locs p) \<longleftrightarrow> q = p" "Prefix q \<in> set (payload_locs p) \<longleftrightarrow> q = p" "Next q \<in> set (payload_locs p) \<longleftrightarrow> q = p"
  "Key q j \<in> set (payload_locs p) \<longleftrightarrow> q = p \<and> j < kNodeKeys" "Lane q j \<in> set (payload_locs p) \<longleftrightarrow> q = p \<and> j < kNodeKeys"
  by (auto simp: payload_locs_def)

text \<open>What one owner sees of a step of somebody else: nothing, but that memory grows.\<close>

definition undisturbed :: "owner \<Rightarrow> (loc \<Rightarrow> owner) \<Rightarrow> (loc, val) memory \<Rightarrow> (loc \<Rightarrow> owner) \<Rightarrow> (loc, val) memory \<Rightarrow> bool" where
  "undisturbed o1 own M own' M' \<longleftrightarrow> grown M M' \<and> (\<forall>l. own l = o1 \<longrightarrow> own' l = o1 \<and> M' l = M l) \<and>
     (\<forall>l. own l = Nobody \<longrightarrow> M l \<noteq> [] \<longrightarrow> own' l = Nobody)"

lemma undisturbedD:
  assumes "undisturbed o1 own M own' M'"
  shows "grown M M'" "own l = o1 \<Longrightarrow> own' l = o1" "own l = o1 \<Longrightarrow> M' l = M l" "own l = Nobody \<Longrightarrow> M l \<noteq> [] \<Longrightarrow> own' l = Nobody"
  using assms unfolding undisturbed_def by blast+

lemma undisturbed_refl [simp]: "undisturbed o1 own M own M"
  by (simp add: undisturbed_def)

lemma tower_clear_stable:
  assumes "tower_clear own s lv" "knows_node M V s" "messages_ok M" "within M V"
    "\<forall>l. own l = Nobody \<longrightarrow> M l \<noteq> [] \<longrightarrow> own' l = Nobody"
  shows "tower_clear own' s lv"
  unfolding tower_clear_def
proof (intro allI impI)
  fix x
  assume x: "1 \<le> x" "x \<le> lv" "x < kMaxHeight"
  then have "1 \<le> V (Tower s x)" using knows_node_locs [OF assms(3,2), of "Tower s x"] by simp
  moreover have "V (Tower s x) \<le> length (M (Tower s x))" using assms(4) by (simp add: within_def)
  ultimately have "M (Tower s x) \<noteq> []" by auto
  then show "own' (Tower s x) = Nobody" using assms(1,5) x by (simp add: tower_clear_def)
qed

lemma knowledge_stable:
  assumes k: "knowledge own M V ns ps ws es" and m: "messages_ok M" and g: "grown M M'" and v: "V \<le> V'" and w: "within M' V'"
    and n: "\<forall>l. own l = Nobody \<longrightarrow> M l \<noteq> [] \<longrightarrow> own' l = Nobody"
  shows "knowledge own' M' V' ns ps ws es"
proof -
  note wi = knowledgeD(1) [OF k]
  have "lv < kMaxHeight \<and> knows_node M' V' c \<and> tower_clear own' c lv" if "(c, lv) \<in> ns" for c lv
    using knowledgeD(2-4) [OF k that] knows_node_mono [OF _ g v] tower_clear_stable [OF _ _ m wi n] by blast
  moreover have "filled M' V' p \<and> next_known M' V' p" if "p \<in> ps" for p
    using knowledgeD(5,6) [OF k that] filled_mono [OF _ wi g v] next_known_mono [OF _ wi g v] by blast
  moreover have "covers M' V' p u \<and> stored_word M' p u" if "(p, u) \<in> ws" for p u
    using knowledgeD(7,8) [OF k that] covers_mono [OF _ wi g v] stored_word_mono [OF _ g] by blast
  moreover have "1 \<le> V' (Bytes e)" if "e \<in> es" for e
    using knowledgeD(9) [OF k that] v le_trans unfolding le_fun_def by blast
  ultimately show ?thesis using w unfolding knowledge_def by auto
qed

text \<open>Whoever owns a node's locations keeps what it knows of the node.\<close>

definition owns :: "owner \<Rightarrow> (loc \<Rightarrow> owner) \<Rightarrow> (loc, val) memory \<Rightarrow> nat \<Rightarrow> bool" where
  "owns o1 own M c \<longleftrightarrow> (\<forall>l \<in> prot M c. own l = o1)"

lemma prot_simps [simp]: "Lock c \<in> prot M c" "Data c \<in> prot M c" "Hint c \<in> prot M c" "Order (cur_payload M c) \<in> prot M c"
  "j < kNodeKeys \<Longrightarrow> Key (cur_payload M c) j \<in> prot M c" "j < kNodeKeys \<Longrightarrow> Lane (cur_payload M c) j \<in> prot M c"
  "Next (cur_payload M c) \<in> prot M c"
  by (simp_all add: prot_def)

lemma owns_same:
  assumes "\<forall>l \<in> prot M c. M' l = M l"
  shows "cur_payload M' c = cur_payload M c" "prot M' c = prot M c" "last_word M' (cur_payload M c) = last_word M (cur_payload M c)"
    "untouched M' c \<longleftrightarrow> untouched M c"
proof -
  show p: "cur_payload M' c = cur_payload M c" using assms by (simp add: cur_payload_def prot_def)
  then show "prot M' c = prot M c" by (simp add: prot_def)
  show o: "last_word M' (cur_payload M c) = last_word M (cur_payload M c)" using assms by (simp add: last_word_def)
  show "untouched M' c \<longleftrightarrow> untouched M c" unfolding untouched_def p o slots_from_def using assms by auto
qed

lemma master_same:
  assumes m: "master M V c" and e: "\<forall>l \<in> prot M c. M' l = M l" and g: "grown M M'" and v: "V \<le> V'"
    and w: "within M V" "within M' V'"
  shows "master M' V' c"
proof -
  note same = owns_same [OF e]
  have "latest M' V' l" if "l \<in> prot M c" for l
  proof -
    have "V l = length (M l)" using m that by (simp add: master_def latest_def)
    moreover have "V l \<le> V' l" "V' l \<le> length (M' l)" using v w(2) by (simp_all add: le_fun_def within_def)
    ultimately show ?thesis using e that by (simp add: latest_def)
  qed
  then show ?thesis
    using m knows_node_mono [OF _ g v] covers_mono [OF _ w(1) g v] filled_mono [OF _ w(1) g v] next_known_mono [OF _ w(1) g v]
    unfolding master_def same by blast
qed

lemma free_stable:
  assumes f: "free_ok own M c" and m: "messages_ok M" and s: "undisturbed (Node c) own M own' M'" and w: "within M (lock_view M c)" "within M' (lock_view M' c)"
    and d: "free_node M c"
  shows "free_ok own' M' c"
proof -
  have own: "\<forall>l \<in> prot M c. own l = Node c" and ma: "master M (lock_view M c) c" using f by (simp_all add: free_ok_def)
  then have e: "\<forall>l \<in> prot M c. M' l = M l" using undisturbedD(3) [OF s] by blast
  note same = owns_same [OF e]
  have "lock_view M' c = lock_view M c"
    using e d grown_store_at [OF undisturbedD(1) [OF s], of 2 "Data c"] by (simp add: lock_view_def free_node_def)
  then have "master M' (lock_view M' c) c" using master_same [OF ma e undisturbedD(1) [OF s] order_refl w(1)] w(2) by simp
  then show ?thesis using f own undisturbedD(2) [OF s] same by (simp add: free_ok_def)
qed

lemma holding_stable:
  assumes h: "holding own M t V c" and s: "undisturbed (Thread t) own M own' M'" and v: "V \<le> V'" and w: "within M V" "within M' V'"
  shows "holding own' M' t V' c" "cur_payload M' c = cur_payload M c" "prot M' c = prot M c"
    "last_word M' (cur_payload M c) = last_word M (cur_payload M c)" "untouched M' c \<longleftrightarrow> untouched M c"
proof -
  have e: "\<forall>l \<in> prot M c. M' l = M l" using h undisturbedD(3) [OF s] by (simp add: holding_def)
  note same = owns_same [OF e]
  show "cur_payload M' c = cur_payload M c" "prot M' c = prot M c"
    "last_word M' (cur_payload M c) = last_word M (cur_payload M c)" "untouched M' c \<longleftrightarrow> untouched M c" by (fact same)+
  show "holding own' M' t V' c"
    using h same(2) undisturbedD(2) [OF s] master_same [OF _ e undisturbedD(1) [OF s] v w] by (simp add: holding_def)
qed

lemma idle_stable:
  assumes "idle own M t V c" "undisturbed (Thread t) own M own' M'" "V \<le> V'" "within M V" "within M' V'"
  shows "idle own' M' t V' c"
  using holding_stable [OF _ assms(2-5)] assms(1) by (auto simp: idle_def)

lemma appending_stable:
  assumes "appending own M t V e c p w rank k l" "undisturbed (Thread t) own M own' M'" "V \<le> V'" "within M V" "within M' V'"
  shows "appending own' M' t V' e c p w rank k l"
proof -
  have h: "holding own M t V c" and p: "p = cur_payload M c" and n: "order_count w < kNodeKeys" and b: "1 \<le> V (Bytes e)"
    using assms(1) unfolding appending_def settled_word_def node_consts by linarith+
  note same = holding_stable [OF h assms(2-5)]
  have "M' x = M x" if "x \<in> prot M c" for x using h that undisturbedD(3) [OF assms(2)] by (simp add: holding_def)
  then have "M' (Key p j) = M (Key p j)" "M' (Lane p j) = M (Lane p j)" if "j < kNodeKeys" for j using that p by simp_all
  moreover have "1 \<le> V' (Bytes e)" using b assms(3) le_trans unfolding le_fun_def by blast
  ultimately show ?thesis using assms(1) same n unfolding appending_def settled_word_def slots_from_def store_at_def
    by auto
qed

lemma private_payload_stable:
  assumes f: "private_payload own M t V p" and s: "undisturbed (Thread t) own M own' M'" and v: "V \<le> V'" and w: "within M V"
  shows "private_payload own' M' t V' p" "content (store_at M' (Next p) 1) = content (store_at M (Next p) 1)"
proof -
  have "own l = Thread t" if "l \<in> set (payload_locs p)" for l using f that by (simp add: private_payload_def)
  then have e: "M' l = M l \<and> own' l = Thread t" if "l \<in> set (payload_locs p)" for l using that undisturbedD(2,3) [OF s] by blast
  then show "content (store_at M' (Next p) 1) = content (store_at M (Next p) 1)" by (simp add: store_at_def)
  show "private_payload own' M' t V' p"
    using f e filled_mono [OF _ w undisturbedD(1) [OF s] v] by (simp add: private_payload_def first_word_def store_at_def)
qed

lemma stage_stable:
  assumes p: "stage_ok own M t V ns pl" and m: "messages_ok M" and s: "undisturbed (Thread t) own M own' M'"
    and v: "V \<le> V'" and w: "within M V" "within M' V'" and n: "ns \<subseteq> ns'"
  shows "stage_ok own' M' t V' ns' pl"
proof -
  note i = idle_stable [OF _ s v w] and a = appending_stable [OF _ s v w] and f = private_payload_stable [OF _ s v w(1)]
  note k = knows_node_mono [OF _ undisturbedD(1) [OF s] v] and nk = next_known_mono [OF _ w(1) undisturbedD(1) [OF s] v]
  have b: "1 \<le> V' (Bytes e)" if "1 \<le> V (Bytes e)" for e using that v le_trans unfolding le_fun_def by blast
  have cur: "cur_payload M' c = cur_payload M c" "last_word M' (cur_payload M c) = last_word M (cur_payload M c)" if "idle own M t V c" for c
    using holding_stable [OF _ s v w] that by (simp_all add: idle_def)
  have bu: "building own' M' t V' c s1 l r" if "building own M t V c s1 l r" for c s1 l r
  proof -
    have "own x = Thread t" if "x \<in> set (node_locs s1)" for x using \<open>building own M t V c s1 l r\<close> that by (simp add: building_def)
    then have "own' x = Thread t" "M' x = M x" if "x \<in> set (node_locs s1)" for x using that undisturbedD(2,3) [OF s] by blast+
    then show ?thesis using that i [of c] f nk [of r] cur(1) [of c] by (simp add: building_def)
  qed
  have sh: "showing own' M' t V' c s1 l" if "showing own M t V c s1 l" for c s1 l
    using that i [of c] f k undisturbedD(2) [OF s] by (simp add: showing_def)
  have li: "link_stage own' M' t V' c s1 lv" if l: "link_stage own M t V c s1 lv" for c s1 lv
  proof -
    have "tower_clear own' s1 (lv - 1)"
      using l tower_clear_stable [OF _ _ m w(1)] undisturbedD(4) [OF s] unfolding link_stage_def by blast
    then show ?thesis using l i [of c] k undisturbedD(2) [OF s] by (simp add: link_stage_def)
  qed
  show ?thesis using p b i a bu sh li cur n by (cases pl) (auto simp: settled_word_def link_found_def)
qed

end
