(* ===== verification/Publication_Races.thy ===== *)
theory Publication_Races
  imports Publication_Owners
begin

text \<open>
  What the invariant gives for the next step: none of its accesses races, and no pointer it follows is null.
\<close>

lemma within_length: "within M V \<Longrightarrow> V l \<le> length (M l)"
  by (simp add: within_def)

lemma latest_once: "within M V \<Longrightarrow> length (M l) \<le> 1 \<Longrightarrow> 1 \<le> V l \<Longrightarrow> latest M V l"
  using within_length [of M V l] by (simp add: latest_def)

lemma filled_payload_locs: "filled M V p \<Longrightarrow> l \<in> set (payload_locs p) \<Longrightarrow> 1 \<le> V l"
  by (simp add: filled_def)

text \<open>A slot named by an order word is known for good.\<close>

lemma covers_slot:
  assumes c: "contents_ok M" and v: "covers M V p w" and w: "stored_word M p w" and wi: "within M V" and j: "j < order_count w"
  shows "latest M V (Key p j)" "1 \<le> V (Key p j)" "latest M V (Lane p j)" "1 \<le> V (Lane p j)" "j < order_count (last_word M p)"
    "\<exists>e. content (last (M (Key p j))) = Entry e \<and> 1 \<le> V (Bytes e)"
proof -
  have one: "1 \<le> settled_at M p j" by (simp add: settled_at_def)
  have s: "settled_at M p j \<le> V (Key p j)" "settled_at M p j \<le> V (Lane p j)"
    "\<exists>e. content (store_at M (Key p j) (settled_at M p j)) = Entry e \<and> 1 \<le> V (Bytes e)"
    using v j by (simp_all add: covers_def)
  note f = stored_word_facts [OF c w]
  show l: "j < order_count (last_word M p)" using f(2) j by simp
  have len: "length (M (Key p j)) = settled_at M p j" "length (M (Lane p j)) = settled_at M p j"
    using contents_okD(2,3) [OF c f(3) l] .
  then show "latest M V (Key p j)" "1 \<le> V (Key p j)" "latest M V (Lane p j)" "1 \<le> V (Lane p j)"
    using s one within_length [OF wi, of "Key p j"] within_length [OF wi, of "Lane p j"] by (simp_all add: latest_def)
  have "M (Key p j) \<noteq> []" using len(1) one by auto
  then show "\<exists>e. content (last (M (Key p j))) = Entry e \<and> 1 \<le> V (Bytes e)" using s(3) last_store len(1) by metis
qed

lemma masterD:
  assumes "master M V c" "contents_ok M" "within M V"
  shows "knows_node M V c" "l \<in> prot M c \<Longrightarrow> latest M V l" "filled M V (cur_payload M c)" "next_known M V (cur_payload M c)"
    "covers M V (cur_payload M c) (last_word M (cur_payload M c))" "stored_word M (cur_payload M c) (last_word M (cur_payload M c))"
    "M (Order (cur_payload M c)) \<noteq> []"
proof -
  show k: "knows_node M V c" "l \<in> prot M c \<Longrightarrow> latest M V l" "filled M V (cur_payload M c)" "next_known M V (cur_payload M c)"
    "covers M V (cur_payload M c) (last_word M (cur_payload M c))"
    using assms(1) by (simp_all add: master_def)
  have "1 \<le> V (Order (cur_payload M c))" using k(5) by (simp add: covers_def)
  then show ne: "M (Order (cur_payload M c)) \<noteq> []" using within_length [OF assms(3), of "Order (cur_payload M c)"] by auto
  show "stored_word M (cur_payload M c) (last_word M (cur_payload M c))" by (rule last_word_stored [OF assms(2) ne])
qed

text \<open>A plain field of a payload is stored once.\<close>

lemma filled_once:
  assumes "contents_ok M" "within M V" "filled M V p"
  shows "latest M V (Next p)" "1 \<le> V (Next p)" "latest M V (Prefix p)" "1 \<le> V (Prefix p)"
  using filled_payload_locs [OF assms(3), of "Next p"] filled_payload_locs [OF assms(3), of "Prefix p"]
    latest_once [OF assms(2)] contents_okD(4,5) [OF assms(1)] by simp_all

lemma private_payload_slot:
  assumes f: "private_payload own M t V p" and o: "\<forall>l. own l = Thread t \<longrightarrow> latest M V l"
  shows "latest M V (Key p 0)" "1 \<le> V (Key p 0)" "1 \<le> V (Order p)" "last_word M p = first_word M p" "0 < order_count (last_word M p)"
proof -
  have a: "own l = Thread t \<and> length (M l) = 1" if "l \<in> set (payload_locs p)" for l using f that by (simp add: private_payload_def)
  show k: "latest M V (Key p 0)" using a [of "Key p 0"] o by (simp add: node_consts)
  then show "1 \<le> V (Key p 0)" using a [of "Key p 0"] by (simp add: latest_def node_consts)
  show "1 \<le> V (Order p)" using a [of "Order p"] o by (simp add: latest_def)
  have "M (Order p) \<noteq> []" using a [of "Order p"] by auto
  then show w: "last_word M p = first_word M p"
    using a [of "Order p"] last_store [of M "Order p"] by (simp add: last_word_def first_word_def)
  show "0 < order_count (last_word M p)" using f by (simp add: w private_payload_def)
qed

lemma race_free_load: "1 \<le> V l \<Longrightarrow> ord \<noteq> Plain \<Longrightarrow> race_free M R t V (Loads ord l)"
  by simp

section \<open>One step\<close>

lemma link_stage_height:
  assumes "link_stage own M t V c s lv" "messages_ok M" "contents_ok M" "within M V"
  shows "1 \<le> V (Height s)" "latest M V (Height s)"
proof -
  show "1 \<le> V (Height s)" using assms(1) knows_node_locs [OF assms(2), of V s "Height s"] by (simp add: link_stage_def)
  then show "latest M V (Height s)" using latest_once [OF assms(4) contents_okD(7) [OF assms(3)]] by blast
qed

lemma owned_store:
  assumes "own l = Thread t" "\<forall>l. own l = Thread t \<longrightarrow> latest M V l" "memory_ok own M"
  shows "latest M V l" "1 \<le> V l"
proof -
  show l: "latest M V l" using assms by blast
  have "M l \<noteq> []" using memory_okD(3) [OF assms(3), of l] assms(1) by simp
  then show "1 \<le> V l" using l by (simp add: latest_def Suc_le_eq)
qed

lemma appending_store:
  assumes ap: "appending own M t V e c p w rank k l" and ow: "\<forall>l. own l = Thread t \<longrightarrow> latest M V l" and m: "memory_ok own M"
    and r: "readers_ok M R"
  shows "latest M V (Key p (order_count w))" "R (Key p (order_count w)) = {}" "latest M V (Lane p (order_count w))"
    "R (Lane p (order_count w)) = {}" "latest M V (Hint c)" "1 \<le> V (Hint c)" "latest M V (Order p)" "1 \<le> V (Order p)"
proof -
  have p: "p = cur_payload M c" "w = last_word M p" and n: "order_count w < kNodeKeys" and own: "own x = Thread t" if "x \<in> prot M c" for x
    using ap that unfolding appending_def holding_def settled_word_def node_consts by auto
  then have n: "order_count w < kNodeKeys" and w: "w = last_word M p" using prot_simps(1) by blast+
  have o: "own (Key p (order_count w)) = Thread t" "own (Lane p (order_count w)) = Thread t" "own (Hint c) = Thread t" "own (Order p) = Thread t"
    using own n p(1) [of "Lock c"] by simp_all
  show "latest M V (Key p (order_count w))" "latest M V (Lane p (order_count w))" "latest M V (Hint c)" "1 \<le> V (Hint c)"
    "latest M V (Order p)" "1 \<le> V (Order p)" using owned_store [OF _ ow m] o by blast+
  show "R (Key p (order_count w)) = {}" "R (Lane p (order_count w)) = {}" using r w unfolding readers_ok_def by blast+
qed

text \<open>Building reads the full payload and writes what nobody else has seen.\<close>

lemma build_race_free:
  assumes i: "idle own (mem S) t V c" and sw: "settled_word (mem S) c p w" and m: "memory_ok own (mem S)" and u: "unallocated S"
    and r: "readers_ok (mem S) R" and wi: "within (mem S) V"
  shows "rank < order_count w \<Longrightarrow> race_free (mem S) R t V (Loads Plain (Key p (order_slot w rank)))"
    "race_free (mem S) R t V (Loads Plain (Next p))"
    "l \<in> set (split_locs (node_count S) (Suc (payload_count S)) (payload_count S)) \<Longrightarrow> race_free (mem S) R t V (Stores Plain l)"
proof -
  note co = memory_okD(2) [OF m]
  have ma: "master (mem S) V c" using i by (simp add: idle_def holding_def)
  have p: "p = cur_payload (mem S) c" "w = last_word (mem S) p" using sw by (simp_all add: settled_word_def)
  note d = masterD [OF ma co wi]
  show "race_free (mem S) R t V (Loads Plain (Next p))" using filled_once [OF co wi d(3)] p by simp
  show "rank < order_count w \<Longrightarrow> race_free (mem S) R t V (Loads Plain (Key p (order_slot w rank)))"
    using covers_slot [OF co d(5,6) wi] word_ok_slot [OF stored_word_facts(1) [OF co d(6)]] p by simp
  assume "l \<in> set (split_locs (node_count S) (Suc (payload_count S)) (payload_count S))"
  moreover have "\<forall>l \<in> set (payload_locs (Suc (payload_count S))). mem S l = []" using u le_SucI unfolding unallocated_def by blast
  ultimately have "mem S l = []" using u unfolding split_locs_def unallocated_def by auto
  then show "race_free (mem S) R t V (Stores Plain l)"
    using within_length [OF wi, of l] r unfolding readers_ok_def by (auto simp: latest_def)
qed

lemma building_loads:
  assumes b: "building own M t V c s l r" and ow: "\<forall>l. own l = Thread t \<longrightarrow> latest M V l" and m: "memory_ok own M"
  shows "1 \<le> V (Order r)" "1 \<le> V (Key r 0)" "latest M V (Key r 0)" "1 \<le> V (Hint s)" "latest M V (Hint s)" "1 \<le> V (Data s)" "latest M V (Data s)"
proof -
  have f: "private_payload own M t V r" and o: "own (Hint s) = Thread t" "own (Data s) = Thread t" using b by (simp_all add: building_def)
  show "1 \<le> V (Order r)" "1 \<le> V (Key r 0)" "latest M V (Key r 0)" using private_payload_slot [OF f ow] by simp_all
  show "1 \<le> V (Hint s)" "latest M V (Hint s)" "1 \<le> V (Data s)" "latest M V (Data s)" using owned_store [OF _ ow m] o by simp_all
qed

lemma showing_loads:
  assumes b: "showing own M t V c s l" and ow: "\<forall>l. own l = Thread t \<longrightarrow> latest M V l" and m: "memory_ok own M"
  shows "1 \<le> V (Order l)" "1 \<le> V (Key l 0)" "latest M V (Key l 0)" "1 \<le> V (Hint c)" "latest M V (Hint c)" "1 \<le> V (Data c)" "latest M V (Data c)"
proof -
  have f: "private_payload own M t V l" and o: "own (Hint c) = Thread t" "own (Data c) = Thread t"
    using b by (simp_all add: showing_def idle_def holding_def)
  show "1 \<le> V (Order l)" "1 \<le> V (Key l 0)" "latest M V (Key l 0)" using private_payload_slot [OF f ow] by simp_all
  show "1 \<le> V (Hint c)" "latest M V (Hint c)" "1 \<le> V (Data c)" "latest M V (Data c)" using owned_store [OF _ ow m] o by simp_all
qed

lemma action_race_free:
  assumes step: "action S h as S' h'" and m: "memory_ok own (mem S)" and u: "unallocated S" and r: "readers_ok (mem S) R"
    and t: "thread_ok own (mem S) t h" and a: "a \<in> set as"
  shows "race_free (mem S) R t (view h) a"
proof -
  note me = memory_okD(1) [OF m] and co = memory_okD(2) [OF m]
  have k: "knowledge own (mem S) (view h) (nodes h) (pays h) (words h) (ents h)"
    and ow: "\<forall>l. own l = Thread t \<longrightarrow> latest (mem S) (view h) l"
    and pl: "stage_ok own (mem S) t (view h) (nodes h) (stage h)" using t by (simp_all add: thread_ok_def)
  note w = knowledgeD(1) [OF k]
  have nd: "1 \<le> view h l" if "(c, lv) \<in> nodes h" "l \<in> set (node_locs c)" for c lv l
    using knows_node_locs [OF me knowledgeD(3) [OF k that(1)] that(2)] .
  note st = owned_store [OF _ ow m]
  have hold: "own l = Thread t" if "idle own (mem S) t (view h) c" "l \<in> prot (mem S) c" for c l
    using that by (simp add: idle_def holding_def)
  have ma: "master (mem S) (view h) c" if "idle own (mem S) t (view h) c" for c
    using that by (simp add: idle_def holding_def)
  show ?thesis
    using step
  proof cases
    case (load_data c lv i p)
    then show ?thesis using a nd [of c lv "Data c"] by (simp add: memory_orders)
  next
    case (load_null c lv i)
    have i: "2 \<le> i" using knows_node_data [OF me knowledgeD(3) [OF k load_null(4)]] load_null(5) by (simp add: visible_def)
    have "publishes (mem S) c i" using messages_okD(2) [OF me i] load_null(5) by (simp add: visible_def)
    then show ?thesis using load_null by (simp add: publishes_def Let_def)
  next
    case (follow_next p v)
    then show ?thesis using a filled_once [OF co w knowledgeD(5) [OF k]] by simp
  next
    case (load_prefix p)
    then show ?thesis using a filled_once [OF co w knowledgeD(5) [OF k]] by simp
  next
    case (snapshot p i w)
    then show ?thesis using a filled_payload_locs [OF knowledgeD(5) [OF k], of p "Order p"] by (simp add: memory_orders)
  next
    case (load_key p w1 rank e)
    note s = covers_slot [OF co knowledgeD(7,8) [OF k load_key(4)] w]
    show ?thesis using a s load_key word_ok_slot [OF stored_word_facts(1) [OF co knowledgeD(8) [OF k load_key(4)]]] by simp
  next
    case (load_lane p w1 slot)
    then show ?thesis using a covers_slot [OF co knowledgeD(7,8) [OF k load_lane(4)] w] by simp
  next
    case (load_bytes e)
    then show ?thesis using a knowledgeD(9) [OF k] latest_once [OF w contents_okD(6) [OF co]] by simp
  next
    case (load_tower c lv l i)
    then have "1 \<le> view h (Tower c l)" using knowledgeD(2) [OF k, of c lv] by (intro nd [of c lv]) simp_all
    then show ?thesis using a load_tower by (simp add: memory_orders)
  next
    case (load_hint c lv i)
    then show ?thesis using a nd [of c lv "Hint c"] by (simp add: memory_orders)
  next
    case (arrive e)
    have "mem S (Bytes e) = []" using u arrive(5) by (simp add: unallocated_def)
    then show ?thesis using a arrive r within_length [OF w, of "Bytes e"] by (auto simp: latest_def readers_ok_def)
  next
    case (lock e c lv)
    then show ?thesis using a nd [of c lv "Lock c"] by simp
  next
    case (lock_taken e c lv)
    then show ?thesis using a nd [of c lv "Lock c"] by simp
  next
    case (open_node e c i p)
    then have "idle own (mem S) t (view h) c" using pl by simp
    then show ?thesis using a open_node st(2) [OF hold, of c "Data c"] by (simp add: memory_orders)
  next
    case (back_off e c p)
    then have "idle own (mem S) t (view h) c" using pl by simp
    then show ?thesis using a back_off st [OF hold, of c "Lock c"] by (simp add: memory_orders)
  next
    case (load_order e c p i w rank)
    then have "idle own (mem S) t (view h) c" "p = cur_payload (mem S) c" using pl by simp_all
    then show ?thesis using a load_order st(2) [OF hold, of c "Order p"] by (simp add: memory_orders)
  next
    case (store_key e c p w1 rank)
    then have "appending own (mem S) t (view h) e c p w1 rank 1 1" using pl by simp
    then show ?thesis using a store_key appending_store [OF _ ow m r] by simp
  next
    case (store_lane e c p w1 rank x)
    then have "appending own (mem S) t (view h) e c p w1 rank 2 1" using pl by simp
    then show ?thesis using a store_lane appending_store [OF _ ow m r] by simp
  next
    case (same_hint e c p w1 rank i)
    then have "appending own (mem S) t (view h) e c p w1 rank 2 2" using pl by simp
    then show ?thesis using a same_hint appending_store [OF _ ow m r] by (simp add: memory_orders)
  next
    case (store_hint e c p w1 rank x)
    then have "appending own (mem S) t (view h) e c p w1 rank 2 2" using pl by simp
    then show ?thesis using a store_hint appending_store [OF _ ow m r] by (auto simp: memory_orders)
  next
    case (store_order e c p w1 rank)
    then have "appending own (mem S) t (view h) e c p w1 rank 2 2" using pl by simp
    then show ?thesis using a store_order appending_store [OF _ ow m r] by (simp add: memory_orders)
  next
    case (build e c p w1 s r' l xs nx hgt pre_lens lanes)
    then have b: "idle own (mem S) t (view h) c" "settled_word (mem S) c p w1" using pl by simp_all
    note free = build_race_free [OF b m u r w]
    from a consider (key) rank where "rank < order_count w1" "a = Loads Plain (Key p (order_slot w1 rank))"
      | (nxt) "a = Loads Plain (Next p)" | (new) x where "x \<in> set (split_locs s l r')" "a = Stores Plain x"
      unfolding build(1) by auto
    then show ?thesis using free build(5-7) by cases simp_all
  next
    case (sibling_hint c s l r' x)
    then have b: "building own (mem S) t (view h) c s l r'" using pl by simp
    show ?thesis using a sibling_hint(1) building_loads [OF b ow m] by (auto simp: memory_orders)
  next
    case (sibling_hint_same c s l r' i)
    then have b: "building own (mem S) t (view h) c s l r'" using pl by simp
    show ?thesis using a sibling_hint_same(1) building_loads [OF b ow m] by (auto simp: memory_orders)
  next
    case (show_sibling c s l r')
    then have b: "building own (mem S) t (view h) c s l r'" using pl by simp
    show ?thesis using a show_sibling(1) building_loads [OF b ow m] by (auto simp: memory_orders)
  next
    case (cur_hint c s l r' x)
    then have b: "showing own (mem S) t (view h) c s l" using pl by simp
    show ?thesis using a cur_hint(1) showing_loads [OF b ow m] by (auto simp: memory_orders)
  next
    case (cur_hint_same c s l r' i)
    then have b: "showing own (mem S) t (view h) c s l" using pl by simp
    show ?thesis using a cur_hint_same(1) showing_loads [OF b ow m] by (auto simp: memory_orders)
  next
    case (show_cur c s l r')
    then have b: "showing own (mem S) t (view h) c s l" using pl by simp
    show ?thesis using a show_cur(1) showing_loads [OF b ow m] by (auto simp: memory_orders)
  next
    case (find_pred c s lv pred l i v)
    then have b: "link_stage own (mem S) t (view h) c s lv" using pl by simp
    have "1 \<le> view h (Tower pred lv)" using nd [of pred l "Tower pred lv"] find_pred by simp
    then show ?thesis using a find_pred(1) link_stage_height [OF b me co w] by (auto simp: memory_orders)
  next
    case (find_again c s lv pred v)
    then show ?thesis using a by simp
  next
    case (store_tower c s lv pred v)
    then have b: "link_stage own (mem S) t (view h) c s lv" "lv < kMaxHeight" using pl by (simp_all add: link_found_def)
    then have "own (Tower s lv) = Thread t" by (simp add: link_stage_def)
    then show ?thesis using a store_tower(1) st [of "Tower s lv"] by (simp add: memory_orders)
  next
    case (swap c s lv pred v)
    then have b: "link_found lv (nodes h) pred v" using pl by simp
    then show ?thesis using a swap(1) nd [of pred _ "Tower pred lv"] by (auto simp: link_found_def)
  next
    case (swap_failed c s lv pred v i)
    then have b: "link_found lv (nodes h) pred v" using pl by simp
    then show ?thesis using a swap_failed(1) nd [of pred _ "Tower pred lv"] by (auto simp: link_found_def memory_orders)
  next
    case (next_level c s lv)
    then have b: "link_stage own (mem S) t (view h) c s lv" using pl by simp
    then show ?thesis using a next_level(1) link_stage_height [OF b me co w] by simp
  next
    case (linked c s lv)
    then have b: "link_stage own (mem S) t (view h) c s lv" using pl by simp
    then show ?thesis using a linked(1) link_stage_height [OF b me co w] by simp
  next
    case (unlock c)
    then have "idle own (mem S) t (view h) c" using pl by simp
    then show ?thesis using a unlock st [OF hold, of c "Lock c"] by (simp add: memory_orders)
  qed
qed

end
