(* ===== verification/Publication_Steps.thy ===== *)
theory Publication_Steps
  imports Publication_Races
begin

text \<open>
  Every step keeps the invariant. A step that only loads has to be looked at for its own thread; a store has to be
  looked at for the message it leaves and, where it hands a node over, for the new owner.
\<close>

section \<open>What a step has to keep\<close>

definition goes :: "(loc \<Rightarrow> owner) \<Rightarrow> shared \<Rightarrow> nat \<Rightarrow> (loc \<Rightarrow> owner) \<Rightarrow> shared \<Rightarrow> local \<Rightarrow> bool" where
  "goes own S t own' S' h' \<longleftrightarrow> memory_ok own' (mem S') \<and> unallocated S' \<and> thread_ok own' (mem S') t h' \<and>
     (\<forall>t'. t' \<noteq> t \<longrightarrow> undisturbed (Thread t') own (mem S) own' (mem S') \<and> (\<forall>l. own' l = Thread t' \<longrightarrow> own l = Thread t'))"

lemma latest_up: "latest M V l \<Longrightarrow> V \<le> V' \<Longrightarrow> within M V' \<Longrightarrow> latest M V' l"
  unfolding latest_def within_def le_fun_def by (metis le_antisym)

lemma latest_kept:
  assumes "latest M V l" "M' l = M l" "V \<le> V'" "within M' V'"
  shows "latest M' V' l"
proof -
  have "V l \<le> V' l" "V' l \<le> length (M' l)" using assms(3,4) by (simp_all add: le_fun_def within_def)
  then show ?thesis using assms(1,2) by (simp add: latest_def)
qed

lemma lock_view_within:
  assumes "bounded M" "2 \<le> length (M (Data c))" "M (Lock c) \<noteq> []"
  shows "within M (lock_view M c)"
  using within_sup [OF bounded_store_at [OF assms(1), of 2 "Data c"] bounded_last [OF assms(1,3)]] assms(2)
  by (simp add: lock_view_def)

text \<open>A node that stays free stays as it should be.\<close>

lemma free_kept:
  assumes m: "memory_ok own M" and d: "free_node M c" and s: "undisturbed (Node c) own M own' M'" and b: "bounded M'"
  shows "free_ok own' M' c"
proof -
  have f: "free_ok own M c" using memory_okD(5) [OF m d] .
  have l: "M (Lock c) \<noteq> []" using f memory_okD(3) [OF m, of "Lock c"] by (simp add: free_ok_def)
  have two: "2 \<le> length (M (Data c))" using d by (simp add: free_node_def)
  have "M' (Lock c) \<noteq> []" "2 \<le> length (M' (Data c))"
    using l two grown_nonempty [OF undisturbedD(1) [OF s]] grown_length [OF undisturbedD(1) [OF s], of "Data c"] by auto
  then show ?thesis
    using free_stable [OF f memory_okD(1) [OF m] s lock_view_within [OF memory_okD(6) [OF m] two l] lock_view_within [OF b] d] by simp
qed

lemma stage_up:
  assumes "stage_ok own M t V ns pl" "messages_ok M" "V \<le> V'" "within M V" "within M V'" "ns \<subseteq> ns'"
  shows "stage_ok own M t V' ns' pl"
  by (rule stage_stable [OF assms(1,2) undisturbed_refl assms(3-6)])

section \<open>Steps that only load\<close>

lemma goes_local:
  assumes t: "thread_ok own (mem S) t h" and m: "memory_ok own (mem S)" and u: "unallocated S" and v: "view h \<le> view h'"
    and k: "knowledge own (mem S) (view h') (nodes h') (pays h') (words h') (ents h')"
    and p: "stage_ok own (mem S) t (view h') (nodes h') (stage h')"
  shows "goes own S t own S h'"
  using t k p m u latest_up [OF _ v knowledgeD(1) [OF k]] by (simp add: thread_ok_def goes_def)

lemma goes_read:
  assumes t: "thread_ok own (mem S) t h" and m: "memory_ok own (mem S)" and u: "unallocated S" and v: "view h \<le> view h'"
    and k: "knowledge own (mem S) (view h') (nodes h') (pays h') (words h') (ents h')"
    and n: "nodes h \<subseteq> nodes h'" "stage h' = stage h"
  shows "goes own S t own S h'"
proof (rule goes_local [OF t m u v k])
  have "stage_ok own (mem S) t (view h) (nodes h) (stage h)" "within (mem S) (view h)"
    using t knowledgeD(1) by (auto simp: thread_ok_def)
  then show "stage_ok own (mem S) t (view h') (nodes h') (stage h')"
    using stage_up [OF _ memory_okD(1) [OF m] v _ knowledgeD(1) [OF k] n(1)] n(2) by simp
qed

lemma knowledge_up:
  assumes "knowledge own M V ns ps ws es" "messages_ok M" "V \<le> V'" "within M V'"
  shows "knowledge own M V' ns ps ws es"
  using knowledge_stable [OF assms(1,2) grown_refl assms(3,4)] by simp

lemma knowledge_extend:
  assumes "knowledge own M V ns ps ws es"
  shows "(\<And>c lv. (c, lv) \<in> ns' \<Longrightarrow> lv < kMaxHeight \<and> knows_node M V c \<and> tower_clear own c lv) \<Longrightarrow> knowledge own M V (ns \<union> ns') ps ws es"
    "filled M V p \<Longrightarrow> next_known M V p \<Longrightarrow> knowledge own M V ns (insert p ps) ws es"
    "covers M V p w \<Longrightarrow> stored_word M p w \<Longrightarrow> knowledge own M V ns ps (insert (p, w) ws) es"
    "1 \<le> V (Bytes e) \<Longrightarrow> knowledge own M V ns ps ws (insert e es)"
  using assms unfolding knowledge_def by fast+

text \<open>What an acquire load takes over.\<close>

lemma data_message:
  assumes m: "messages_ok M" and w: "within M V" and k: "knows_node M V c" and v: "visible M V (Data c) i"
    and p: "content (store_at M (Data c) i) = Payload_Ptr p"
  shows "filled M (after_load data_load M V (Data c) i) p" "next_known M (after_load data_load M V (Data c) i) p"
proof -
  have i: "2 \<le> i" "i \<le> length (M (Data c))" using knows_node_data [OF m k] v by (simp_all add: visible_def)
  have b: "within M (carried (store_at M (Data c) i))" using bounded_store_at [OF messages_okD(1) [OF m]] i by simp
  have c: "carried (store_at M (Data c) i) \<le> after_load data_load M V (Data c) i" by (simp add: after_load_def memory_orders)
  have "publishes M c i" using messages_okD(2) [OF m i] .
  then show "filled M (after_load data_load M V (Data c) i) p" "next_known M (after_load data_load M V (Data c) i) p"
    using p filled_mono [OF _ b grown_refl c] next_known_mono [OF _ b grown_refl c] by (simp_all add: publishes_def Let_def)
qed

lemma order_message:
  assumes m: "messages_ok M" and c: "contents_ok M" and w: "within M V" and f: "filled M V p" and v: "visible M V (Order p) i"
    and u: "content (store_at M (Order p) i) = Word u"
  shows "covers M (after_load snapshot_load M V (Order p) i) p u" "stored_word M p u"
proof -
  let ?V = "after_load snapshot_load M V (Order p) i"
  have i: "1 \<le> i" "i \<le> length (M (Order p))" using v by (simp_all add: visible_def)
  then show "stored_word M p u" using u by (auto simp: stored_word_def)
  have V: "V \<le> ?V" by (rule view_grows(2) [OF v])
  show "covers M ?V p u"
  proof (cases "i = 1")
    case True
    then have "u = first_word M p" using u by (simp add: first_word_def)
    then show ?thesis using f covers_mono [OF _ w grown_refl V] by (simp add: filled_def)
  next
    case False
    then have "covers M (carried (store_at M (Order p) i)) p u" using messages_okD(4) [OF m, of i p] i u by simp
    moreover have "carried (store_at M (Order p) i) \<le> ?V" by (simp add: after_load_def memory_orders)
    ultimately show ?thesis using covers_mono [OF _ bounded_store_at [OF messages_okD(1) [OF m] i] grown_refl] by blast
  qed
qed

lemma tower_message:
  assumes m: "memory_ok own M" and v: "visible M V (Tower c l) i" and l: "l < kMaxHeight" and n: "(n, x) \<in> node_of (content (store_at M (Tower c l) i)) l"
  shows "x < kMaxHeight \<and> knows_node M (after_load tower_load M V (Tower c l) i) n \<and> tower_clear own n x"
proof -
  have i: "1 \<le> i" "i \<le> length (M (Tower c l))" using v by (simp_all add: visible_def)
  then have s: "store_at M (Tower c l) i \<in> set (M (Tower c l))" unfolding store_at_def by (intro nth_mem) simp
  have c: "content (store_at M (Tower c l) i) = Node_Ptr n" "x = l" using n by (auto simp: node_of_def split: val.splits)
  have "knows_node M (carried (store_at M (Tower c l) i)) n" using messages_okD(3) [OF memory_okD(1) [OF m] s c(1)] .
  then have "knows_node M (after_load tower_load M V (Tower c l) i) n"
    using knows_node_mono [OF _ grown_refl] by (simp add: after_load_def memory_orders)
  then show ?thesis using memory_okD(4) [OF m s l c(1)] c(2) l by simp
qed

lemma next_message:
  assumes c: "contents_ok M" and w: "within M V" and f: "filled M V p" and n: "next_known M V p" and v: "plain_content M V (Next p) v"
    and x: "(m, x) \<in> node_of v 0"
  shows "x < kMaxHeight \<and> knows_node M V m \<and> tower_clear own m x"
proof -
  have l: "latest M V (Next p)" "1 \<le> V (Next p)" by (rule filled_once [OF c w f])+
  then have "length (M (Next p)) = 1" using contents_okD(4) [OF c, of p] by (simp add: latest_def)
  then have "v = content (store_at M (Next p) 1)" using v l(1) last_store [of M "Next p"] by (auto simp: plain_content_def)
  then show ?thesis using x n by (auto simp: next_known_def node_of_def tower_clear_def kMaxHeight_def split: val.splits)
qed

lemma key_content:
  assumes "contents_ok M" "within M V" "covers M V p w" "stored_word M p w" "rank < order_count w"
    "plain_content M V (Key p (order_slot w rank)) (Entry e)"
  shows "1 \<le> V (Bytes e)"
proof -
  have j: "order_slot w rank < order_count w" using word_ok_slot [OF stored_word_facts(1) [OF assms(1,4)] assms(5)] .
  note s = covers_slot [OF assms(1,3,4,2) j]
  have "M (Key p (order_slot w rank)) \<noteq> []" using s(1,2) by (auto simp: latest_def)
  then have "content (last (M (Key p (order_slot w rank)))) = Entry e" using assms(6) s(1) by (simp add: plain_content_def)
  then show ?thesis using s(6) by auto
qed

text \<open>A thread's view after a load.\<close>

lemma load_up:
  assumes k: "knowledge own M V ns ps ws es" and m: "memory_ok own M" and v: "visible M V l i"
  shows "V \<le> after_load ord M V l i" "knowledge own M (after_load ord M V l i) ns ps ws es"
proof -
  show V: "V \<le> after_load ord M V l i" by (rule view_grows(2) [OF v])
  show "knowledge own M (after_load ord M V l i) ns ps ws es"
    by (rule knowledge_up [OF k memory_okD(1) [OF m] V within_load [OF memory_okD(6) [OF m] knowledgeD(1) [OF k] v]])
qed

text \<open>What a thread reads on its way: the steps that leave its stage alone.\<close>

lemma reads_go:
  assumes step: "action S h as S' h'" and m: "memory_ok own (mem S)" and u: "unallocated S" and t: "thread_ok own (mem S) t h"
    and p: "stage h' = stage h" "S' = S"
  shows "goes own S t own S h'"
proof -
  have k: "knowledge own (mem S) (view h) (nodes h) (pays h) (words h) (ents h)" using t by (simp add: thread_ok_def)
  note me = memory_okD(1) [OF m] and co = memory_okD(2) [OF m] and w = knowledgeD(1) [OF k] and up = load_up [OF k m]
  note read = goes_read [OF t m u]
  have same: "goes own S t own S h" by (rule read) (simp_all add: k)
  show ?thesis
    using step
  proof cases
    case (load_data c lv i q)
    show ?thesis
      unfolding load_data(3) using up [OF load_data(5)] data_message [OF me w knowledgeD(3) [OF k load_data(4)] load_data(5,6)]
      by (intro read) (simp_all add: knowledge_extend)
  next
    case (follow_next q v)
    show ?thesis
      unfolding follow_next(3) using next_message [OF co w knowledgeD(5,6) [OF k follow_next(4)] follow_next(5)] k
      by (intro read) (simp_all add: knowledge_extend)
  next
    case (snapshot q i x)
    show ?thesis
      unfolding snapshot(3) using up [OF snapshot(5)] order_message [OF me co w knowledgeD(5) [OF k snapshot(4)] snapshot(5,6)]
      by (intro read) (simp_all add: knowledge_extend)
  next
    case (load_key q x rank e)
    show ?thesis
      unfolding load_key(3) using key_content [OF co w knowledgeD(7,8) [OF k load_key(4)] load_key(5,6)] k
      by (intro read) (simp_all add: knowledge_extend)
  next
    case (load_tower c lv l i)
    have "l < kMaxHeight" using knowledgeD(2) [OF k load_tower(4)] load_tower(6) by simp
    then show ?thesis
      unfolding load_tower(3) using up [OF load_tower(7)] tower_message [OF m load_tower(7)]
      by (intro read) (simp_all add: knowledge_extend)
  next
    case (load_hint c lv i)
    show ?thesis unfolding load_hint(3) using up [OF load_hint(5)] by (intro read) simp_all
  qed (use p same in \<open>auto split: if_splits\<close>)
qed

text \<open>Giving up the ownership of a tower level.\<close>

definition disown :: "(loc \<Rightarrow> owner) \<Rightarrow> nat \<Rightarrow> nat \<Rightarrow> loc \<Rightarrow> owner" where
  "disown own s lv = (if lv < kMaxHeight then own(Tower s lv := Nobody) else own)"

lemma disown_other [simp]: "(\<And>x. l \<noteq> Tower s x) \<Longrightarrow> disown own s lv l = own l"
  by (simp add: disown_def)

lemma prot_not_tower: "l \<in> prot M c \<Longrightarrow> l \<noteq> Tower s x"
  by (auto simp: prot_def)

lemma disown_prot: "l \<in> prot M c \<Longrightarrow> disown own s lv l = own l"
  using prot_not_tower by (intro disown_other) blast

lemma disown_cases: "disown own s lv l = own l \<or> disown own s lv l = Nobody"
  by (simp add: disown_def)

lemma disown_idle: "idle (disown own s lv) M t V c \<longleftrightarrow> idle own M t V c"
  by (simp add: idle_def holding_def disown_prot)

lemma disown_clear: "tower_clear own c x \<Longrightarrow> tower_clear (disown own s lv) c x"
  by (simp add: tower_clear_def disown_def)

lemma disown_memory:
  assumes m: "memory_ok own M"
  shows "memory_ok (disown own s lv) M"
proof -
  have "M l \<noteq> []" if "disown own s lv l \<noteq> Nobody" for l using that disown_cases [of own s lv l] memory_okD(3) [OF m, of l] by auto
  moreover have "free_ok (disown own s lv) M c" if "free_node M c" for c
    using memory_okD(5) [OF m that] by (simp add: free_ok_def disown_prot)
  ultimately show ?thesis using memory_okD(1,2,4) [OF m] disown_clear unfolding memory_ok_def by blast
qed

lemma next_level_goes:
  assumes t: "thread_ok own (mem S) t h" and m: "memory_ok own (mem S)" and u: "unallocated S"
    and l: "link_stage own (mem S) t (view h) c s lv"
  shows "goes own S t (disown own s lv) S (h\<lparr>stage := Linking c s (Suc lv)\<rparr>)"
proof -
  let ?own = "disown own s lv"
  have k: "knowledge own (mem S) (view h) (nodes h) (pays h) (words h) (ents h)"
    and o: "\<forall>l. own l = Thread t \<longrightarrow> latest (mem S) (view h) l" using t by (simp_all add: thread_ok_def)
  have "?own l = Nobody" if "own l = Nobody" for l using that disown_cases [of own s lv l] by auto
  then have k': "knowledge ?own (mem S) (view h) (nodes h) (pays h) (words h) (ents h)"
    using knowledge_stable [OF k memory_okD(1) [OF m] grown_refl order_refl knowledgeD(1) [OF k]] by blast
  have "latest (mem S) (view h) x" if "?own x = Thread t" for x using that o disown_cases [of own s lv x] by auto
  moreover have "?own (Tower s x) = Nobody" if "1 \<le> x" "x \<le> lv" "x < kMaxHeight" for x
  proof (cases "x = lv")
    case False
    then show ?thesis using l that by (simp add: link_stage_def tower_clear_def disown_def)
  qed (use that in \<open>simp add: disown_def\<close>)
  then have "tower_clear ?own s lv" by (simp add: tower_clear_def)
  then have "link_stage ?own (mem S) t (view h) c s (Suc lv)" using l by (simp add: link_stage_def disown_idle) (simp add: disown_def)
  moreover have "own (Tower s lv) = Thread t" if "lv < kMaxHeight" using l that by (simp add: link_stage_def)
  then have "undisturbed (Thread t') own (mem S) ?own (mem S)" "?own l = Thread t' \<Longrightarrow> own l = Thread t'" if "t' \<noteq> t" for t' l
    using that disown_cases [of own s lv] by (auto simp: undisturbed_def disown_def split: if_splits)
  ultimately show ?thesis using k' u disown_memory [OF m] unfolding goes_def thread_ok_def by simp
qed

lemma last_seen:
  assumes "latest M V l" "visible M V l i"
  shows "store_at M l i = last (M l)"
proof -
  have "i = length (M l)" "M l \<noteq> []" using assms by (auto simp: latest_def visible_def)
  then show ?thesis by (simp add: last_store)
qed

lemma idle_appending:
  assumes "idle own M t V c" "1 \<le> V (Bytes e)" "order_count (last_word M (cur_payload M c)) < kNodeCapacity"
    "rank \<le> order_count (last_word M (cur_payload M c))"
  shows "appending own M t V e c (cur_payload M c) (last_word M (cur_payload M c)) rank 1 1"
proof -
  have "order_count (last_word M (cur_payload M c)) < kNodeKeys" using assms(3) by (simp add: node_consts)
  then show ?thesis using assms by (simp add: idle_def untouched_def appending_def settled_word_def slots_from_def)
qed

fun is_write :: "loc access \<Rightarrow> bool" where
  "is_write (Stores ord l) \<longleftrightarrow> True"
| "is_write (Exchanges ord l) \<longleftrightarrow> True"
| "is_write a \<longleftrightarrow> False"

lemma writes_split [simp]: "list_ex is_write (map (Stores Plain) (split_locs s l r))"
  by (simp add: split_locs_def node_locs_def)

text \<open>The steps that move a thread on and leave memory alone.\<close>

lemma moves_go:
  assumes step: "action S h as S' h'" and m: "memory_ok own (mem S)" and u: "unallocated S" and t: "thread_ok own (mem S) t h"
    and p: "stage h' \<noteq> stage h" "\<not> list_ex is_write as"
  shows "\<exists>own'. goes own S t own' S h'"
proof -
  have k: "knowledge own (mem S) (view h) (nodes h) (pays h) (words h) (ents h)"
    and o: "\<forall>l. own l = Thread t \<longrightarrow> latest (mem S) (view h) l"
    and pl: "stage_ok own (mem S) t (view h) (nodes h) (stage h)" using t by (simp_all add: thread_ok_def)
  note me = memory_okD(1) [OF m] and co = memory_okD(2) [OF m] and w = knowledgeD(1) [OF k] and up = load_up [OF k m]
  note local = exI [where P = "\<lambda>own'. goes own S t own' S _", OF goes_local [OF t m u]]
  have pu: "stage_ok own (mem S) t (after_load ord (mem S) (view h) l i) (nodes h) (stage h)" if "visible (mem S) (view h) l i" for ord l i
    by (rule stage_up [OF pl me up(1) [OF that] w knowledgeD(1) [OF up(2) [OF that]] order_refl])
  have hold: "latest (mem S) (view h) l" if "idle own (mem S) t (view h) c" "l \<in> prot (mem S) c" for c l
    using that o by (simp add: idle_def holding_def)
  show ?thesis
    using step
  proof cases
    case (open_node e c i q)
    have i: "idle own (mem S) t (view h) c" using pl open_node(4) by simp
    then have "knows_node (mem S) (view h) c" by (simp add: idle_def holding_def master_def)
    note d = data_message [OF me w this open_node(5,6)]
    have "q = cur_payload (mem S) c"
      using last_seen [OF hold [OF i] open_node(5)] open_node(6) by (simp add: cur_payload_def)
    then show ?thesis
      unfolding open_node(3) using up [OF open_node(5)] d pu [OF open_node(5)] open_node(4)
      by (intro local) (simp_all add: knowledge_extend)
  next
    case (load_order e c q i x rank)
    have i: "idle own (mem S) t (view h) c" and q: "q = cur_payload (mem S) c" using pl load_order(4) by simp_all
    have ma: "master (mem S) (view h) c" using i by (simp add: idle_def holding_def)
    have x: "x = last_word (mem S) q"
      using last_seen [OF hold [OF i] load_order(5)] load_order(6) q by (simp add: last_word_def)
    note d = masterD [OF ma co w]
    have n: "order_count x \<le> 15" using word_ok_count [OF stored_word_facts(1) [OF co d(6)]] x q by simp
    have c: "covers (mem S) (after_load locked_order_load (mem S) (view h) (Order q) i) q x" "stored_word (mem S) q x"
      using covers_mono [OF d(5) w grown_refl up(1) [OF load_order(5)]] d(6) x q by simp_all
    have p1: "idle own (mem S) t (after_load locked_order_load (mem S) (view h) (Order q) i) c"
      "1 \<le> after_load locked_order_load (mem S) (view h) (Order q) i (Bytes e)"
      using pu [OF load_order(5), of locked_order_load] unfolding load_order(4) stage_ok.simps by blast+
    then have "appending own (mem S) t (after_load locked_order_load (mem S) (view h) (Order q) i) e c q x rank 1 1"
      if "order_count x < kNodeCapacity" using idle_appending [OF p1] that load_order(7) x q by simp
    then show ?thesis
      unfolding load_order(3) using up [OF load_order(5)] c p1 n q x
      by (intro local) (auto simp: knowledge_extend settled_word_def node_consts)
  next
    case (find_pred c s lv pred l i v)
    have l: "lv < kMaxHeight" using find_pred(5) .
    show ?thesis
      unfolding find_pred(3) using up [OF find_pred(9)] tower_message [OF m find_pred(9) l] pu [OF find_pred(9)] l find_pred(4,6,7,10)
      by (intro local) (auto simp: knowledge_extend link_found_def)
  next
    case (next_level c s lv)
    then show ?thesis using next_level_goes [OF t m u] pl by auto
  next
    case (linked c s lv)
    then show ?thesis using pl k unfolding linked(3) by (intro local) (simp_all add: link_stage_def)
  qed (use p pl k up pu local in \<open>auto\<close>)
qed

end
