(* ===== verification/Publication_Writes.thy ===== *)
theory Publication_Writes
  imports Publication_Steps
begin

text \<open>
  The stores that leave ownership alone: the entry, the slots and the word of an append, the hints, the payload of a
  split node and a tower field before it is linked.
\<close>

section \<open>One more message\<close>

definition added :: "(loc, val) memory \<Rightarrow> loc \<Rightarrow> (loc, val) message \<Rightarrow> (loc, val) memory" where
  "added M k m = M(k := M k @ [m])"

lemma added_simps [simp]: "l \<noteq> k \<Longrightarrow> added M k m l = M l" "added M k m k = M k @ [m]"
  by (simp_all add: added_def)

lemma after_store_added:
  "after_store ord M V k v = added M k \<lparr>content = v, carried = (if releases ord then view_after_store M V k else bot)\<rparr>"
  by (simp add: after_store_def added_def)

lemma grown_added [simp]: "grown M (added M k m)"
  by (auto simp: grown_def added_def nth_append)

lemma store_at_added: "1 \<le> i \<Longrightarrow> i \<le> length (M l) \<Longrightarrow> store_at (added M k m) l i = store_at M l i"
  by (rule grown_store_at [OF grown_added])

lemma store_at_new [simp]: "store_at (added M k m) k (Suc (length (M k))) = m"
  by (simp add: store_at_def)

lemma first_word_added: "M (Order p) \<noteq> [] \<Longrightarrow> first_word (added M k m) p = first_word M p"
  using store_at_added [of 1 M "Order p" k m] by (simp add: first_word_def Suc_le_eq)

lemma settled_at_added: "M (Order p) \<noteq> [] \<Longrightarrow> settled_at (added M k m) p j = settled_at M p j"
  by (simp add: settled_at_def first_word_added)

lemma last_word_added: "k \<noteq> Order p \<Longrightarrow> last_word (added M k m) p = last_word M p"
  by (simp add: last_word_def)

lemma messages_added:
  assumes M: "messages_ok M" and b: "bounded (added M k m)"
    and data: "\<And>c. k = Data c \<Longrightarrow> M k \<noteq> [] \<Longrightarrow> publishes (added M k m) c (Suc (length (M k)))"
    and tower: "\<And>c lv n. k = Tower c lv \<Longrightarrow> content m = Node_Ptr n \<Longrightarrow> knows_node (added M k m) (carried m) n"
    and order: "\<And>p. k = Order p \<Longrightarrow> M k \<noteq> [] \<Longrightarrow> covers (added M k m) (carried m) p (the_word (content m))"
  shows "messages_ok (added M k m)"
proof (rule messages_ok_grown [OF M grown_added b])
  fix c i
  assume i: "length (M (Data c)) < i" "i \<le> length (added M k m (Data c))" "2 \<le> i"
  then have "k = Data c" by (cases "k = Data c") simp_all
  then show "publishes (added M k m) c i" using i data [of c] by (cases "M k = []") (auto simp: le_Suc_eq)
next
  fix c lv x n
  assume x: "x \<in> set (added M k m (Tower c lv))" "x \<notin> set (M (Tower c lv))" "content x = Node_Ptr n"
  then have "k = Tower c lv" by (cases "k = Tower c lv") simp_all
  then show "knows_node (added M k m) (carried x) n" using x tower by auto
next
  fix p i
  assume i: "length (M (Order p)) < i" "i \<le> length (added M k m (Order p))" "2 \<le> i"
  then have k: "k = Order p" by (cases "k = Order p") simp_all
  then have "i = Suc (length (M k))" "M k \<noteq> []" using i by auto
  then show "covers (added M k m) (carried (store_at (added M k m) (Order p) i)) p (the_word (content (store_at (added M k m) (Order p) i)))"
    using order [OF k] k store_at_new [of M k m] by simp
qed

lemma contents_added:
  assumes c: "contents_ok M" and k: "\<And>p. k \<noteq> Order p" "\<And>n. k \<noteq> Next n" "\<And>n. k \<noteq> Prefix n" "\<And>n. k \<noteq> Height n"
    and b: "\<And>e. k = Bytes e \<Longrightarrow> M k = []"
    and s: "\<And>p j. k = Key p j \<or> k = Lane p j \<Longrightarrow> M (Order p) \<noteq> [] \<Longrightarrow> order_count (last_word M p) \<le> j"
  shows "contents_ok (added M k m)"
proof -
  have o: "added M k m (Order p) = M (Order p)" for p using k(1) [of p] by (intro added_simps(1)) simp
  have f: "first_word (added M k m) p = first_word M p" "last_word (added M k m) p = last_word M p" for p
    by (simp_all add: first_word_def last_word_def store_at_def o)
  have x: "added M k m l = M l" if "l \<noteq> k" for l using that by simp
  have "length (added M k m (Key p j)) = settled_at (added M k m) p j \<and> length (added M k m (Lane p j)) = settled_at (added M k m) p j"
    if "M (Order p) \<noteq> []" "j < order_count (last_word M p)" for p j
  proof -
    have "k \<noteq> Key p j" "k \<noteq> Lane p j" using s [of p j] that by auto
    then show ?thesis using contents_okD(2,3) [OF c that] by (simp add: x settled_at_def f)
  qed
  moreover have "length (added M k m (Bytes n)) \<le> 1" for n
    using b [of n] contents_okD(6) [OF c, of n] by (cases "k = Bytes n") auto
  moreover have "length (added M k m (Next n)) \<le> 1 \<and> length (added M k m (Prefix n)) \<le> 1 \<and> length (added M k m (Height n)) \<le> 1" for n
    using x [of "Next n"] x [of "Prefix n"] x [of "Height n"] k(2-4) contents_okD(4,5,7) [OF c, of n] by metis
  ultimately show ?thesis using contents_okD(1) [OF c] unfolding contents_ok_def f o store_at_def by blast
qed

section \<open>One store\<close>

lemma write_goes:
  assumes t: "thread_ok own (mem S) t h" and m: "memory_ok own (mem S)" and u: "unallocated S'" "mem S' = M'" and M': "M' = added (mem S) k msg"
    and k: "own k = Thread t \<or> own k = Nobody" "\<And>c. k \<noteq> Lock c" "\<And>c. k = Data c \<Longrightarrow> 2 \<le> length (mem S k)"
    and v: "view h \<le> view h'" "within M' (view h')" "bounded M'" "own k = Thread t \<Longrightarrow> latest M' (view h') k"
    and ok: "messages_ok M'" "contents_ok M'"
    and tow: "\<And>c lv s. k = Tower c lv \<Longrightarrow> lv < kMaxHeight \<Longrightarrow> content msg = Node_Ptr s \<Longrightarrow> tower_clear own s lv"
    and h': "nodes h' = nodes h" "pays h' = pays h" "words h' = words h" "ents h' = ents h \<union> es"
    and es: "\<And>e. e \<in> es \<Longrightarrow> 1 \<le> view h' (Bytes e)"
    and p: "stage_ok own M' t (view h') (nodes h) (stage h')"
  shows "goes own S t own S' h'"
proof -
  have know: "knowledge own (mem S) (view h) (nodes h) (pays h) (words h) (ents h)"
    and o: "\<forall>l. own l = Thread t \<longrightarrow> latest (mem S) (view h) l" using t by (simp_all add: thread_ok_def)
  have g: "grown (mem S) M'" by (simp add: M')
  have st: "undisturbed o1 own (mem S) own M'" if "own k \<noteq> o1" for o1 using that g by (auto simp: undisturbed_def M' added_def)
  have "free_ok own M' c" if "free_node M' c" for c
  proof (rule free_kept [OF m _ st v(3)])
    have "Lock c \<noteq> k" using k(2) [of c] by simp
    then show "free_node (mem S) c"
      using that k(3) [of c] by (cases "k = Data c") (simp_all add: free_node_def M')
  qed (use k(1) in auto)
  moreover have "M' l \<noteq> []" if "own l \<noteq> Nobody" for l using grown_nonempty [OF g memory_okD(3) [OF m that]] .
  moreover have "tower_clear own s lv" if "x \<in> set (M' (Tower c lv))" "lv < kMaxHeight" "content x = Node_Ptr s" for x c lv s
    using that memory_okD(4) [OF m, of x c lv s] tow [of c lv s] by (cases "k = Tower c lv") (auto simp: M')
  ultimately have mo: "memory_ok own M'" using ok unfolding memory_ok_def by blast
  have "latest M' (view h') l" if "own l = Thread t" for l
    using that v(4) latest_kept [OF _ _ v(1,2), of "mem S" l] o M' by (cases "l = k") auto
  moreover have "knowledge own M' (view h') (nodes h) (pays h) (words h) (ents h)"
    using knowledge_stable [OF know memory_okD(1) [OF m] g v(1,2)] by simp
  then have "knowledge own M' (view h') (nodes h') (pays h') (words h') (ents h')" using es unfolding h' knowledge_def by blast
  ultimately have "thread_ok own M' t h'" using p h' by (simp add: thread_ok_def)
  then show ?thesis using mo u st k(1) by (auto simp: goes_def)
qed

lemma unallocated_added:
  assumes "unallocated S" "mem S k \<noteq> []"
  shows "unallocated (S\<lparr>mem := added (mem S) k m\<rparr>)"
  using assms unfolding unallocated_def by (auto simp: added_def)

lemma own_after_store:
  fixes k :: loc and v :: val and ord :: memory_order
  assumes w: "within M V" and o: "\<forall>l. own l = Thread t \<longrightarrow> latest M V l" and b: "bounded M"
  defines "M' \<equiv> after_store ord M V k v" and "V' \<equiv> view_after_store M V k"
  shows "grown M M'" "V \<le> V'" "within M' V'" "bounded M'" "latest M' V' k" "own l = Thread t \<Longrightarrow> latest M' V' l"
proof -
  show g: "grown M M'" "V \<le> V'" "within M' V'" "bounded M'"
    using view_grows(1) [OF w] within_store [OF w] bounded_after_store [OF b w] by (simp_all add: M'_def V'_def)
  show k: "latest M' V' k" by (simp add: latest_def M'_def V'_def length_after_store view_after_store_def)
  show "own l = Thread t \<Longrightarrow> latest M' V' l"
    using k o latest_kept [OF _ _ g(2,3), of M l] by (cases "l = k") (auto simp: M'_def after_store_def)
qed

lemma store_goes:
  assumes t: "thread_ok own (mem S) t h" and m: "memory_ok own (mem S)" and u: "unallocated S"
    and k: "own k = Thread t" "\<And>c. k \<noteq> Lock c" "\<And>c. k = Data c \<Longrightarrow> 2 \<le> length (mem S k)"
    and ok: "messages_ok (after_store ord (mem S) (view h) k v)" "contents_ok (after_store ord (mem S) (view h) k v)"
    and tow: "\<And>c lv s. k = Tower c lv \<Longrightarrow> lv < kMaxHeight \<Longrightarrow> v = Node_Ptr s \<Longrightarrow> tower_clear own s lv"
    and p: "stage_ok own (after_store ord (mem S) (view h) k v) t (view_after_store (mem S) (view h) k) (nodes h) pl"
  shows "goes own S t own (S\<lparr>mem := after_store ord (mem S) (view h) k v\<rparr>) (h\<lparr>view := view_after_store (mem S) (view h) k, stage := pl\<rparr>)"
proof -
  have w: "within (mem S) (view h)" and o: "\<forall>l. own l = Thread t \<longrightarrow> latest (mem S) (view h) l"
    using t knowledgeD(1) by (auto simp: thread_ok_def)
  note after = own_after_store [OF w o memory_okD(6) [OF m]]
  have "mem S k \<noteq> []" using memory_okD(3) [OF m, of k] k(1) by simp
  note ua = unallocated_added [OF u this]
  show ?thesis
    by (rule write_goes [OF t m _ _ after_store_added, where es = "{}"]) (use ua k after(2-6) ok tow p in \<open>simp_all add: after_store_added\<close>)
qed

section \<open>The node a thread has locked\<close>

lemma holding_write:
  assumes h: "holding own M t V c" and g: "grown M M'" and v: "V \<le> V'" and w: "within M V"
    and o: "\<And>l. l \<in> prot M c \<Longrightarrow> own' l = Thread t" "\<And>l. l \<in> prot M c \<Longrightarrow> latest M' V' l"
    and d: "M' (Data c) = M (Data c)" "M' (Order (cur_payload M c)) = M (Order (cur_payload M c))"
  shows "holding own' M' t V' c" "cur_payload M' c = cur_payload M c"
    "last_word M' (cur_payload M c) = last_word M (cur_payload M c)"
proof -
  show p: "cur_payload M' c = cur_payload M c" "last_word M' (cur_payload M c) = last_word M (cur_payload M c)"
    using d by (simp_all add: cur_payload_def last_word_def)
  have "master M V c" using h by (simp add: holding_def)
  then have "master M' V' c"
    using o(2) p covers_mono [OF _ w g v] filled_mono [OF _ w g v] next_known_mono [OF _ w g v] knows_node_mono [OF _ g v]
    unfolding master_def prot_def p(1) by auto
  then show "holding own' M' t V' c" using o(1) p(1) by (simp add: holding_def prot_def)
qed

lemma idle_write:
  assumes h: "idle own M t V c" and g: "grown M M'" and v: "V \<le> V'" and w: "within M V"
    and o: "\<And>l. l \<in> prot M c \<Longrightarrow> own' l = Thread t" "\<And>l. l \<in> prot M c \<Longrightarrow> latest M' V' l"
    and d: "M' (Data c) = M (Data c)" "\<And>l. l \<in> set (payload_locs (cur_payload M c)) \<Longrightarrow> M' l = M l"
  shows "idle own' M' t V' c" "cur_payload M' c = cur_payload M c"
proof -
  have h0: "holding own M t V c" using h by (simp add: idle_def)
  have ord: "M' (Order (cur_payload M c)) = M (Order (cur_payload M c))" using d(2) by simp
  note hw = holding_write [OF h0 g v w o d(1) ord]
  show "cur_payload M' c = cur_payload M c" by (rule hw)
  show "idle own' M' t V' c" using h hw d(2) by (simp add: idle_def untouched_def slots_from_def)
qed

lemma holding_owns: "holding own M t V c \<Longrightarrow> l \<in> prot M c \<Longrightarrow> own l = Thread t"
  by (simp add: holding_def)

section \<open>The stores of an append\<close>

lemma appendingD:
  assumes "appending own M t V e c p w rank k l"
  shows "1 \<le> V (Bytes e)" "holding own M t V c" "p = cur_payload M c" "w = last_word M p" "order_count w < kNodeCapacity"
    "order_count w < kNodeKeys" "rank \<le> order_count w" "slots_from M p (Suc (order_count w))" "length (M (Key p (order_count w))) = k"
    "length (M (Lane p (order_count w))) = l" "k = 2 \<Longrightarrow> content (store_at M (Key p (order_count w)) 2) = Entry e"
  using assms unfolding appending_def settled_word_def node_consts by auto

text \<open>The slot's key and lane, then the hint: the word stays as it is.\<close>

lemma appending_write:
  assumes a: "appending own M t V e c p w rank i j" and wi: "within M V" and o: "\<forall>l. own l = Thread t \<longrightarrow> latest M V l" and b: "bounded M"
    and k: "own k = Thread t" "k \<noteq> Data c" "k \<noteq> Order p" "\<And>x. k = Key p x \<or> k = Lane p x \<Longrightarrow> x = order_count w"
    and i': "i' = (if k = Key p (order_count w) then Suc i else i)" and j': "j' = (if k = Lane p (order_count w) then Suc j else j)"
    and e: "i' = 2 \<Longrightarrow> k = Key p (order_count w) \<Longrightarrow> v = Entry e"
  shows "appending own (after_store ord M V k v) t (view_after_store M V k) e c p w rank i' j'"
proof -
  let ?M = "after_store ord M V k v"
  note d = appendingD [OF a]
  note af = own_after_store [OF wi o b]
  have same: "?M l = M l" if "l \<noteq> k" for l using that by (simp add: after_store_added)
  have h: "holding own ?M t (view_after_store M V k) c" "cur_payload ?M c = cur_payload M c"
    "last_word ?M (cur_payload M c) = last_word M (cur_payload M c)"
    using holding_write [OF d(2) af(1,2) wi, of own] holding_owns [OF d(2)] af(6) same k(2,3) d(3) by metis+
  have "slots_from ?M p (Suc (order_count w))"
    using d(8) same k(4) unfolding slots_from_def by (metis Suc_n_not_le_n)
  moreover have "content (store_at ?M (Key p (order_count w)) 2) = Entry e" if i2: "i' = 2"
  proof (cases "k = Key p (order_count w)")
    case True
    then show ?thesis using e i2 i' d(9) by (simp add: store_at_def after_store_added nth_append)
  next
    case False
    then show ?thesis using i2 i' d(11) same [of "Key p (order_count w)"] by (simp add: store_at_def)
  qed
  moreover have "1 \<le> view_after_store M V k (Bytes e)" using d(1) af(2) le_trans unfolding le_fun_def by blast
  ultimately show ?thesis using d h i' j' same unfolding appending_def settled_word_def by (simp add: length_after_store)
qed

text \<open>Publishing the slot.\<close>

lemma contents_order:
  assumes c: "contents_ok M" and ne: "M (Order p) \<noteq> []" and w: "word_ok w" "order_count w = Suc (order_count (last_word M p))"
    and l: "length (M (Key p (order_count (last_word M p)))) = 2" "length (M (Lane p (order_count (last_word M p)))) = 2"
    and m: "content m = Word w"
  shows "contents_ok (added M (Order p) m)"
proof -
  let ?M = "added M (Order p) m"
  note lw = last_word_stored [OF c ne]
  have f: "first_word ?M q = first_word M q" for q
    using ne first_word_added [of M q] by (cases "q = p") (simp_all add: first_word_def store_at_def nth_append)
  have sa: "settled_at ?M q j = settled_at M q j" for q j by (simp add: settled_at_def f)
  have x: "?M l = M l" if "l \<noteq> Order p" for l using that by simp
  have "\<exists>u. content (store_at ?M (Order q) i) = Word u \<and> word_ok u \<and> order_count u = order_count (first_word M q) + (i - 1)"
    if i: "1 \<le> i" "i \<le> length (?M (Order q))" for q i
  proof (cases "i \<le> length (M (Order q))")
    case True
    then show ?thesis using contents_okD(1) [OF c i(1) True] store_at_added [of i M "Order q"] i(1) True by simp
  next
    case False
    then have q: "q = p" "i = Suc (length (M (Order p)))" using i by (cases "q = p"; simp)+
    then show ?thesis using lw(3) w m ne store_at_new [of M "Order p" m] by (cases "M (Order p)") auto
  qed
  moreover have "length (?M (Key q j)) = settled_at M q j \<and> length (?M (Lane q j)) = settled_at M q j"
    if q: "?M (Order q) \<noteq> []" "j < order_count (last_word ?M q)" for q j
  proof (cases "q = p \<and> j = order_count (last_word M p)")
    case True
    then show ?thesis using l lw(3) by (simp add: settled_at_def)
  next
    case False
    have "last_word ?M q = (if q = p then w else last_word M q)" using m by (simp add: last_word_def)
    then have "M (Order q) \<noteq> []" "j < order_count (last_word M q)" using q False ne w(2) by (auto split: if_splits)
    then show ?thesis using contents_okD(2,3) [OF c] by simp
  qed
  ultimately show ?thesis using contents_okD(4-7) [OF c] unfolding contents_ok_def f sa by simp
qed

lemma covers_appended:
  assumes a: "appending own M t V e c p w rank 2 2" and wi: "within M V" and o: "\<forall>l. own l = Thread t \<longrightarrow> latest M V l" and c: "contents_ok M"
    and w': "order_count w' = Suc (order_count w)"
  shows "covers M V p w'"
proof -
  note d = appendingD [OF a]
  have ma: "master M V c" using d(2) by (simp add: holding_def)
  note md = masterD [OF ma c wi]
  have cv: "covers M V p w" using md(5) d(3,4) by simp
  have "order_count (first_word M p) \<le> order_count w" using last_word_stored(3) [OF c md(7)] d(3,4) by simp
  then have s: "settled_at M p (order_count w) = 2" by (simp add: settled_at_def)
  have "own (Key p (order_count w)) = Thread t" "own (Lane p (order_count w)) = Thread t"
    using holding_owns [OF d(2)] d(3,6) by simp_all
  then have v: "V (Key p (order_count w)) = 2" "V (Lane p (order_count w)) = 2"
    using o d(9,10) unfolding latest_def by metis+
  have "settled_at M p j \<le> V (Key p j) \<and> settled_at M p j \<le> V (Lane p j) \<and>
      (\<exists>e. content (store_at M (Key p j) (settled_at M p j)) = Entry e \<and> 1 \<le> V (Bytes e))" if "j < order_count w'" for j
  proof (cases "j = order_count w")
    case True
    then show ?thesis using s v d(1,11) by simp
  next
    case False
    then have "j < order_count w" using that w' by simp
    then show ?thesis using cv unfolding covers_def by blast
  qed
  then show ?thesis using cv unfolding covers_def by blast
qed

section \<open>The steps\<close>

lemma threadD:
  assumes "thread_ok own M t h"
  shows "knowledge own M (view h) (nodes h) (pays h) (words h) (ents h)" "within M (view h)"
    "\<forall>l. own l = Thread t \<longrightarrow> latest M (view h) l" "stage_ok own M t (view h) (nodes h) (stage h)"
  using assms knowledgeD(1) by (auto simp: thread_ok_def)

text \<open>What a release store has to know of what it publishes.\<close>

lemma messages_release:
  assumes "messages_ok M" "within M V" "releases ord"
    and "\<And>c. k = Data c \<Longrightarrow> M k \<noteq> [] \<Longrightarrow> publishes (after_store ord M V k v) c (Suc (length (M k)))"
    and "\<And>c lv n. k = Tower c lv \<Longrightarrow> v = Node_Ptr n \<Longrightarrow> knows_node (after_store ord M V k v) (view_after_store M V k) n"
    and "\<And>p. k = Order p \<Longrightarrow> M k \<noteq> [] \<Longrightarrow> covers (after_store ord M V k v) (view_after_store M V k) p (the_word v)"
  shows "messages_ok (after_store ord M V k v)"
  using messages_added [OF assms(1), of k "\<lparr>content = v, carried = view_after_store M V k\<rparr>"]
    bounded_after_store [OF messages_okD(1) [OF assms(1)] assms(2), of ord k v] assms(3-6)
  by (simp add: after_store_added)

lemma messages_store:
  assumes "messages_ok M" "within M V" "\<And>c. k \<noteq> Data c" "\<And>p. k \<noteq> Order p" "\<And>c lv. k \<noteq> Tower c lv"
  shows "messages_ok (after_store ord M V k v)"
  using messages_added [OF assms(1), of k] bounded_after_store [OF messages_okD(1) [OF assms(1)] assms(2), of ord k v] assms(3-5)
  by (simp add: after_store_added)

lemma slot_store_goes:
  assumes t: "thread_ok own (mem S) t h" and m: "memory_ok own (mem S)" and u: "unallocated S"
    and a: "appending own (mem S) t (view h) e c p w rank i j"
    and k: "k = Key p (order_count w) \<and> v = Entry e \<and> i' = Suc i \<and> j' = j \<or> k = Lane p (order_count w) \<and> i' = i \<and> j' = Suc j \<or>
      k = Hint c \<and> i' = i \<and> j' = j"
    and p: "\<And>V M. appending own M t V e c p w rank i' j' \<Longrightarrow> stage_ok own M t V (nodes h) pl"
  shows "goes own S t own (S\<lparr>mem := after_store ord (mem S) (view h) k v\<rparr>) (h\<lparr>view := view_after_store (mem S) (view h) k, stage := pl\<rparr>)"
proof -
  note th = threadD [OF t] and d = appendingD [OF a]
  have own: "own k = Thread t" using k holding_owns [OF d(2)] d(3,6) by auto
  have neq: "k \<noteq> Data x" "k \<noteq> Lock x" "k \<noteq> Order x" "k \<noteq> Tower x y" "k \<noteq> Next x" "k \<noteq> Prefix x" "k \<noteq> Height x" "k \<noteq> Bytes x" for x y
    using k by auto
  have "contents_ok (after_store ord (mem S) (view h) k v)"
    unfolding after_store_added
  proof (rule contents_added [OF memory_okD(2) [OF m]])
    fix q x
    assume "k = Key q x \<or> k = Lane q x"
    then show "order_count (last_word (mem S) q) \<le> x" using k d(4) by auto
  qed (use neq in auto)
  moreover have "appending own (after_store ord (mem S) (view h) k v) t (view_after_store (mem S) (view h) k) e c p w rank i' j'"
    by (rule appending_write [OF a th(2,3) memory_okD(6) [OF m] own]) (use neq k in auto)
  ultimately show ?thesis
    using messages_store [OF memory_okD(1) [OF m] th(2)] neq own p by (intro store_goes [OF t m u]) blast+
qed

lemma order_store_goes:
  assumes t: "thread_ok own (mem S) t h" and m: "memory_ok own (mem S)" and u: "unallocated S"
    and a: "appending own (mem S) t (view h) e c p w rank 2 2"
  shows "goes own S t own
    (S\<lparr>mem := after_store append_order_store (mem S) (view h) (Order p) (Word (order_insert w rank (order_count w)))\<rparr>)
    (h\<lparr>view := view_after_store (mem S) (view h) (Order p), stage := Unlocking c\<rparr>)"
proof -
  let ?w = "order_insert w rank (order_count w)"
  let ?M = "after_store append_order_store (mem S) (view h) (Order p) (Word ?w)" and ?V = "view_after_store (mem S) (view h) (Order p)"
  note th = threadD [OF t] and d = appendingD [OF a] and co = memory_okD(2) [OF m]
  have ma: "master (mem S) (view h) c" using d(2) by (simp add: holding_def)
  note md = masterD [OF ma co th(2)]
  have own: "own (Order p) = Thread t" using holding_owns [OF d(2)] d(3) by simp
  note af = own_after_store [OF th(2,3) memory_okD(6) [OF m]]
  have w: "word_ok ?w" "order_count ?w = Suc (order_count w)"
    using word_ok_insert [OF stored_word_facts(1) [OF co md(6)]] d(3-5,7) by simp_all
  have ne: "mem S (Order p) \<noteq> []" using md(7) d(3) by simp
  have cv: "covers ?M ?V p ?w"
    using covers_mono [OF covers_appended [OF a th(2,3) co w(2)] th(2) af(1,2)] .
  have lw: "last_word ?M p = ?w" by (simp add: last_word_def after_store_added)
  have same: "?M l = mem S l" if "l \<noteq> Order p" for l using that by (simp add: after_store_added)
  have cur: "cur_payload ?M c = p" using d(3) same [of "Data c"] by (simp add: cur_payload_def)
  have pr: "prot ?M c = prot (mem S) c" using cur d(3) by (simp add: prot_def)
  have "master ?M ?V c"
    using md(1,3,4) d(3) cv af(6) holding_owns [OF d(2)] knows_node_mono [OF _ af(1,2)] filled_mono [OF _ th(2) af(1,2)]
      next_known_mono [OF _ th(2) af(1,2)] unfolding master_def cur lw pr by blast
  then have idle: "idle own ?M t ?V c"
    using d(2,8) same w(2) lw unfolding idle_def holding_def pr untouched_def cur slots_from_def by auto
  have "contents_ok ?M"
    unfolding after_store_added using contents_order [OF co ne w(1)] w(2) d(4,9,10) by simp
  moreover have "messages_ok ?M"
    using cv by (intro messages_release [OF memory_okD(1) [OF m] th(2)]) (simp_all add: append_order_store_def)
  ultimately show ?thesis using own idle by (intro store_goes [OF t m u]) auto
qed

lemma hint_store_goes:
  assumes t: "thread_ok own (mem S) t h" and m: "memory_ok own (mem S)" and u: "unallocated S" and k: "own (Hint x) = Thread t"
    and p: "stage_ok own (after_store ord (mem S) (view h) (Hint x) v) t (view_after_store (mem S) (view h) (Hint x)) (nodes h) pl"
  shows "goes own S t own (S\<lparr>mem := after_store ord (mem S) (view h) (Hint x) v\<rparr>) (h\<lparr>view := view_after_store (mem S) (view h) (Hint x), stage := pl\<rparr>)"
proof -
  have "contents_ok (after_store ord (mem S) (view h) (Hint x) v)"
    unfolding after_store_added by (rule contents_added [OF memory_okD(2) [OF m]]) simp_all
  then show ?thesis
    using messages_store [OF memory_okD(1) [OF m] threadD(2) [OF t], of "Hint x"] k p by (intro store_goes [OF t m u]) simp_all
qed

lemma private_payload_write:
  assumes f: "private_payload own M t V p" and g: "grown M M'" and v: "V \<le> V'" and w: "within M V"
    and l: "\<And>l. l \<in> set (payload_locs p) \<Longrightarrow> M' l = M l \<and> own' l = Thread t"
  shows "private_payload own' M' t V' p" "content (store_at M' (Next p) 1) = content (store_at M (Next p) 1)"
  using f l filled_mono [OF _ w g v] l [of "Order p"] l [of "Next p"] by (auto simp: private_payload_def first_word_def store_at_def)

lemma idle_not_payload:
  assumes "idle own M t V c" "k \<noteq> Data c" "\<And>p. k \<notin> set (payload_locs p)"
    and th: "within M V" "\<forall>l. own l = Thread t \<longrightarrow> latest M V l" "bounded M"
  shows "idle own (after_store ord M V k v) t (view_after_store M V k) c" "cur_payload (after_store ord M V k v) c = cur_payload M c"
proof -
  note af = own_after_store [OF th]
  have same: "after_store ord M V k v l = M l" if "l \<noteq> k" for l using that by (simp add: after_store_added)
  have own: "own l = Thread t" if "l \<in> prot M c" for l using assms(1) that by (simp add: idle_def holding_def)
  show "idle own (after_store ord M V k v) t (view_after_store M V k) c" "cur_payload (after_store ord M V k v) c = cur_payload M c"
    using idle_write [OF assms(1) af(1,2) th(1), of own] own af(6) same assms(2,3) by metis+
qed

lemma building_hint:
  assumes b: "building own M t V c s l r" and th: "within M V" "\<forall>l. own l = Thread t \<longrightarrow> latest M V l" "bounded M"
  shows "building own (after_store ord M V (Hint s) v) t (view_after_store M V (Hint s)) c s l r"
proof -
  note af = own_after_store [OF th]
  have f: "private_payload own M t V r" "private_payload own M t V l" and i: "idle own M t V c" using b by (simp_all add: building_def)
  have same: "after_store ord M V (Hint s) v x = M x" if "x \<noteq> Hint s" for x using that by (simp add: after_store_added)
  have own: "own x = Thread t" if "x \<in> set (payload_locs r) \<or> x \<in> set (payload_locs l)" for x using f that by (auto simp: private_payload_def)
  have "after_store ord M V (Hint s) v x = M x \<and> own x = Thread t" if "x \<in> set (payload_locs r) \<or> x \<in> set (payload_locs l)" for x
    using that own [OF that] by (intro conjI same) auto
  then show ?thesis
    using b private_payload_write [OF f(1) af(1,2) th(1)] private_payload_write [OF f(2) af(1,2) th(1)]
      idle_not_payload [OF i, of "Hint s"] th next_known_mono [OF _ th(1) af(1,2), of r] same
    unfolding building_def by simp
qed

lemma showing_hint:
  assumes b: "showing own M t V c s l" and th: "within M V" "\<forall>l. own l = Thread t \<longrightarrow> latest M V l" "bounded M"
  shows "showing own (after_store ord M V (Hint c) v) t (view_after_store M V (Hint c)) c s l"
proof -
  note af = own_after_store [OF th]
  have f: "private_payload own M t V l" and i: "idle own M t V c" using b by (simp_all add: showing_def)
  have "after_store ord M V (Hint c) v x = M x \<and> own x = Thread t" if "x \<in> set (payload_locs l)" for x
    using that f by (auto simp: private_payload_def after_store_added added_def)
  then show ?thesis
    using b private_payload_write [OF f af(1,2) th(1)] idle_not_payload [OF i, of "Hint c"] th knows_node_mono [OF _ af(1,2)]
    unfolding showing_def by simp
qed

text \<open>The split node's own payload.\<close>

lemma private_payload_idle:
  assumes f: "private_payload own M t V l" and o: "\<forall>x. own x = Thread t \<longrightarrow> latest M V x"
    and own: "own (Lock c) = Thread t" "own (Data c) = Thread t" "own (Hint c) = Thread t"
    and k: "knows_node M V c" "next_known M V l" and cur: "cur_payload M c = l"
  shows "idle own M t V c"
proof -
  note fs = private_payload_slot [OF f o]
  have x: "own x = Thread t \<and> length (M x) = 1" if "x \<in> set (payload_locs l)" for x using f that by (simp add: private_payload_def)
  then have "\<forall>x \<in> prot M c. own x = Thread t" using own cur by (auto simp: prot_def)
  moreover have "covers M V l (last_word M l)" "filled M V l" using f fs(4) by (simp_all add: private_payload_def filled_def)
  moreover have "slots_from M l (order_count (last_word M l))" using x by (simp add: slots_from_def)
  ultimately show ?thesis using o k by (auto simp: idle_def holding_def master_def untouched_def cur)
qed

lemma publishes_store:
  assumes M: "messages_ok M" and w: "within M V" and n: "\<forall>x \<in> set (node_locs c). 1 \<le> V x" and f: "filled M V p"
    and nx: "next_known (after_store data_store M V (Data c) (Payload_Ptr p)) (view_after_store M V (Data c)) p"
  shows "publishes (after_store data_store M V (Data c) (Payload_Ptr p)) c (Suc (length (M (Data c))))"
proof -
  let ?M = "after_store data_store M V (Data c) (Payload_Ptr p)" and ?V = "view_after_store M V (Data c)"
  have s: "store_at ?M (Data c) (Suc (length (M (Data c)))) = \<lparr>content = Payload_Ptr p, carried = ?V\<rparr>"
    by (simp add: after_store_added data_store_def)
  have v: "V \<le> ?V" by (rule view_grows(1) [OF w])
  have "\<forall>x \<in> set (node_locs c). 1 \<le> ?V x" using n v le_trans unfolding le_fun_def by blast
  moreover have "filled ?M ?V p" by (rule filled_mono [OF f w grown_after_store v])
  ultimately show ?thesis using nx by (simp add: publishes_def s) (simp add: view_after_store_def)
qed

lemma show_cur_goes:
  assumes t: "thread_ok own (mem S) t h" and m: "memory_ok own (mem S)" and u: "unallocated S"
    and b: "showing own (mem S) t (view h) c s l"
  shows "goes own S t own (S\<lparr>mem := after_store data_store (mem S) (view h) (Data c) (Payload_Ptr l)\<rparr>)
    (h\<lparr>view := view_after_store (mem S) (view h) (Data c), stage := Linking c s 1\<rparr>)"
proof -
  let ?M = "after_store data_store (mem S) (view h) (Data c) (Payload_Ptr l)" and ?V = "view_after_store (mem S) (view h) (Data c)"
  note th = threadD [OF t] and me = memory_okD(1) [OF m] and af = own_after_store [OF threadD(2,3) [OF t] memory_okD(6) [OF m]]
  have i: "idle own (mem S) t (view h) c" and f: "private_payload own (mem S) t (view h) l" and kn: "knows_node (mem S) (view h) s"
    and nx: "content (store_at (mem S) (Next l) 1) = Node_Ptr s" using b by (simp_all add: showing_def)
  have kc: "knows_node (mem S) (view h) c" and own: "own (Lock c) = Thread t" "own (Data c) = Thread t" "own (Hint c) = Thread t"
    using i by (simp_all add: idle_def holding_def master_def)
  have same: "?M x = mem S x \<and> own x = Thread t" if "x \<in> set (payload_locs l)" for x
    using that f by (auto simp: private_payload_def after_store_added added_def)
  have f': "private_payload own ?M t ?V l" "content (store_at ?M (Next l) 1) = Node_Ptr s"
    using private_payload_write [OF f af(1,2) th(2) same] nx by simp_all
  have "1 \<le> ?V (Next l)" using f'(1) filled_payload_locs [of ?M ?V l "Next l"] by (simp add: private_payload_def)
  then have nk: "next_known ?M ?V l" using f'(2) knows_node_mono [OF kn af(1,2)] by (simp add: next_known_def)
  have "messages_ok ?M"
    using publishes_store [OF me th(2) _ _ nk] knows_node_locs [OF me kc] f
    by (intro messages_release [OF me th(2)]) (auto simp: private_payload_def data_store_def)
  moreover have "contents_ok ?M"
    unfolding after_store_added by (rule contents_added [OF memory_okD(2) [OF m]]) simp_all
  moreover have "idle own ?M t ?V c"
    using private_payload_idle [OF f'(1) _ own knows_node_mono [OF kc af(1,2)] nk] af(6)
    by (simp add: cur_payload_def after_store_added)
  then have "link_stage own ?M t ?V c s 1"
    using knows_node_mono [OF kn af(1,2)] b by (simp add: link_stage_def showing_def tower_clear_def)
  moreover have "2 \<le> length (mem S (Data c))" using kc by (simp add: knows_node_def)
  ultimately show ?thesis using own by (intro store_goes [OF t m u]) simp_all
qed

lemma tower_store_goes:
  assumes t: "thread_ok own (mem S) t h" and m: "memory_ok own (mem S)" and u: "unallocated S"
    and b: "link_stage own (mem S) t (view h) c s lv" "link_found lv (nodes h) pred v"
  shows "goes own S t own (S\<lparr>mem := after_store tower_store (mem S) (view h) (Tower s lv) v\<rparr>)
    (h\<lparr>view := view_after_store (mem S) (view h) (Tower s lv), stage := Swapping c s lv pred v\<rparr>)"
proof -
  let ?M = "after_store tower_store (mem S) (view h) (Tower s lv) v" and ?V = "view_after_store (mem S) (view h) (Tower s lv)"
  note th = threadD [OF t] and me = memory_okD(1) [OF m] and af = own_after_store [OF threadD(2,3) [OF t] memory_okD(6) [OF m]]
  have lv: "lv < kMaxHeight" using b(2) by (simp add: link_found_def)
  have own: "own (Tower s lv) = Thread t" using b(1) lv by (simp add: link_stage_def)
  have i: "idle own (mem S) t (view h) c" using b(1) by (simp add: link_stage_def)
  have "link_stage own ?M t ?V c s lv"
    using b(1) idle_not_payload [OF i, of "Tower s lv"] th(2,3) memory_okD(6) [OF m] knows_node_mono [OF _ af(1,2)]
    by (simp add: link_stage_def)
  moreover have n: "(n, lv) \<in> nodes h" if "v = Node_Ptr n" for n using b(2) that by (auto simp: link_found_def node_of_def)
  then have "messages_ok ?M"
    using knowledgeD(3) [OF th(1)] knows_node_mono [OF _ af(1,2)]
    by (intro messages_release [OF me th(2)]) (auto simp: tower_store_def)
  moreover have "contents_ok ?M"
    unfolding after_store_added by (rule contents_added [OF memory_okD(2) [OF m]]) simp_all
  moreover have "tower_clear own n lv" if "v = Node_Ptr n" for n using knowledgeD(4) [OF th(1) n [OF that]] .
  ultimately show ?thesis using own b(2) by (intro store_goes [OF t m u]) auto
qed

text \<open>A new entry.\<close>

lemma arrive_goes:
  assumes t: "thread_ok own (mem S) t h" and m: "memory_ok own (mem S)" and u: "unallocated S" and e: "e = entry_count S"
  shows "goes own S t own (S\<lparr>mem := after_store Plain (mem S) (view h) (Bytes e) (Number 0), entry_count := Suc e\<rparr>)
    (h\<lparr>view := view_after_store (mem S) (view h) (Bytes e), ents := insert e (ents h), stage := Arrived e\<rparr>)"
proof -
  let ?M = "after_store Plain (mem S) (view h) (Bytes e) (Number 0)" and ?V = "view_after_store (mem S) (view h) (Bytes e)"
  note th = threadD [OF t] and af = own_after_store [OF threadD(2,3) [OF t] memory_okD(6) [OF m]]
  have new: "mem S (Bytes e) = []" using u e by (simp add: unallocated_def)
  then have no: "own (Bytes e) = Nobody" using memory_okD(3) [OF m, of "Bytes e"] by blast
  have "contents_ok ?M" unfolding after_store_added by (rule contents_added [OF memory_okD(2) [OF m]]) (simp_all add: new)
  moreover have "messages_ok ?M" by (rule messages_store [OF memory_okD(1) [OF m] th(2)]) simp_all
  moreover have "unallocated (S\<lparr>mem := ?M, entry_count := Suc e\<rparr>)"
    using u e unfolding unallocated_def by (auto simp: after_store_added added_def)
  moreover have "1 \<le> ?V (Bytes e)" by (simp add: view_after_store_def)
  ultimately show ?thesis
    using no af(2-4) by (intro write_goes [OF t m _ _ after_store_added [of Plain "mem S" "view h" "Bytes e" "Number 0"], where es = "{e}"])
      simp_all
qed

end
