(* ===== verification/Publication_Handover.thy ===== *)
theory Publication_Handover
  imports Publication_Writes
begin

text \<open>
  The steps that hand locations over: taking and clearing a lock, building the two halves of a split, showing the
  sibling, and linking it on a level.
\<close>

section \<open>Changing owners\<close>

definition given :: "(loc \<Rightarrow> owner) \<Rightarrow> loc set \<Rightarrow> owner \<Rightarrow> loc \<Rightarrow> owner" where
  "given own A a = (\<lambda>l. if l \<in> A then a else own l)"

lemma given_simps [simp]: "l \<in> A \<Longrightarrow> given own A a l = a" "l \<notin> A \<Longrightarrow> given own A a l = own l"
  by (simp_all add: given_def)

lemma prot_towers [simp]: "Tower c x \<notin> prot M d"
  by (auto simp: prot_def)

lemma towers_given: "(\<And>s x. Tower s x \<notin> A) \<Longrightarrow> tower_clear (given own A a) s lv \<longleftrightarrow> tower_clear own s lv"
  by (simp add: tower_clear_def)

text \<open>
  A write at \<open>k\<close> that moves the locations \<open>A\<close> from \<open>a\<close> to \<open>b\<close>: nobody else notices. What is left to show are the
  invariants of the new memory, the node that becomes free and the thread itself.
\<close>

lemma given_stable:
  assumes "\<forall>l \<in> A. own l = a" "own k = a" "a \<noteq> Nobody" "d \<noteq> a"
  shows "undisturbed d own M (given own A b) (added M k msg)"
  using assms by (auto simp: undisturbed_def given_def added_def grown_def nth_append)

lemma given_goes:
  assumes t: "thread_ok own (mem S) t h" and m: "memory_ok own (mem S)" and u: "unallocated S"
    and A: "\<forall>l \<in> A. own l = a" "own k = a" "\<And>s x. Tower s x \<notin> A" "a \<noteq> Nobody" "b \<noteq> Nobody"
    and o: "a = Thread t \<and> b = Node c \<or> a = Node c \<and> b = Thread t"
    and ok: "messages_ok (added (mem S) k msg)" "contents_ok (added (mem S) k msg)"
    and tow: "\<And>c lv. k \<noteq> Tower c lv"
    and free: "free_node (added (mem S) k msg) c \<Longrightarrow> free_ok (given own A b) (added (mem S) k msg) c"
    and k: "\<And>d. k = Data d \<or> k = Lock d \<Longrightarrow> d = c"
    and v: "view h \<le> V'" "within (added (mem S) k msg) V'"
      "\<And>l. given own A b l = Thread t \<Longrightarrow> latest (added (mem S) k msg) V' l"
    and p: "stage_ok (given own A b) (added (mem S) k msg) t V' (nodes h) pl"
  shows "goes own S t (given own A b) (S\<lparr>mem := added (mem S) k msg\<rparr>) (h\<lparr>view := V', stage := pl\<rparr>)"
proof -
  let ?M = "added (mem S) k msg" and ?own = "given own A b"
  note th = threadD [OF t]
  have ne: "mem S l \<noteq> []" if "own l \<noteq> Nobody" for l using memory_okD(3) [OF m that] .
  have "free_ok ?own ?M d" if d: "free_node ?M d" for d
  proof (cases "d = c")
    case False
    have "undisturbed (Node d) own (mem S) ?own ?M" by (rule given_stable [OF A(1,2,4)]) (use o False in auto)
    moreover have "free_node (mem S) d" using d k [of d] False by (auto simp: free_node_def added_def split: if_splits)
    ultimately show ?thesis using free_kept [OF m _ _ messages_okD(1) [OF ok(1)]] by blast
  qed (use free d in simp)
  moreover have "mem S l \<noteq> []" if "?own l \<noteq> Nobody" for l using that A(1,4) ne [of l] by (cases "l \<in> A") auto
  then have "?M l \<noteq> []" if "?own l \<noteq> Nobody" for l using that by (simp add: added_def)
  moreover have "tower_clear ?own s lv" if "x \<in> set (?M (Tower d lv))" "lv < kMaxHeight" "content x = Node_Ptr s" for d lv x s
    using memory_okD(4) [OF m, of x d lv s] that tow [of d lv] towers_given [OF A(3)] by (simp add: added_def)
  ultimately have mo: "memory_ok ?own ?M" using ok unfolding memory_ok_def by blast
  have "\<forall>l. own l = Nobody \<longrightarrow> mem S l \<noteq> [] \<longrightarrow> ?own l = Nobody" using A(1,4) by (auto simp: given_def)
  then have "knowledge ?own ?M V' (nodes h) (pays h) (words h) (ents h)"
    using knowledge_stable [OF th(1) memory_okD(1) [OF m] grown_added v(1,2)] by blast
  then have "thread_ok ?own ?M t (h\<lparr>view := V', stage := pl\<rparr>)" using v(3) p by (simp add: thread_ok_def)
  moreover have "undisturbed (Thread t') own (mem S) ?own ?M" "?own l = Thread t' \<Longrightarrow> own l = Thread t'" if "t' \<noteq> t" for t' l
    using given_stable [OF A(1,2,4), of "Thread t'"] o that by (auto simp: given_def split: if_splits)
  moreover have "unallocated (S\<lparr>mem := ?M\<rparr>)" using unallocated_added [OF u] ne [of k] A(2,4) by simp
  ultimately show ?thesis using mo by (simp add: goes_def)
qed

section \<open>The lock\<close>

lemma contents_lock: "contents_ok M \<Longrightarrow> contents_ok (added M (Lock c) m)"
  by (rule contents_added) simp_all

lemma idleD:
  assumes "idle own M t V c"
  shows "l \<in> prot M c \<Longrightarrow> own l = Thread t" "master M V c" "untouched M c" "knows_node M V c"
  using assms by (simp_all add: idle_def holding_def master_def)

text \<open>A node its owner lets go of with a view that knows it.\<close>

lemma free_okI:
  assumes i: "idle own M t V c" and v: "V \<le> lock_view M c" and b: "bounded M" and w: "within M V" and l: "M (Lock c) \<noteq> []"
    and own': "\<forall>l \<in> prot M c. own' l = Node c"
  shows "free_ok own' M c"
proof -
  have "2 \<le> length (M (Data c))" using idleD(4) [OF i] by (simp add: knows_node_def)
  then have "master M (lock_view M c) c"
    using master_same [OF idleD(2) [OF i] _ grown_refl v w lock_view_within [OF b _ l]] by simp
  then show ?thesis using own' idleD(3) [OF i] by (simp add: free_ok_def)
qed

lemma unlock_goes:
  assumes t: "thread_ok own (mem S) t h" and m: "memory_ok own (mem S)" and u: "unallocated S" and i: "idle own (mem S) t (view h) c"
    and p: "\<And>own M. stage_ok own M t (view_after_store (mem S) (view h) (Lock c)) (nodes h) pl"
  shows "goes own S t (given own (prot (mem S) c) (Node c)) (S\<lparr>mem := after_store unlock_store (mem S) (view h) (Lock c) (Flag False)\<rparr>)
    (h\<lparr>view := view_after_store (mem S) (view h) (Lock c), stage := pl\<rparr>)"
proof -
  let ?M = "after_store unlock_store (mem S) (view h) (Lock c) (Flag False)" and ?V = "view_after_store (mem S) (view h) (Lock c)"
  note th = threadD [OF t] and af = own_after_store [OF threadD(2,3) [OF t] memory_okD(6) [OF m]]
  have i': "idle own ?M t ?V c" "cur_payload ?M c = cur_payload (mem S) c"
    using idle_not_payload [OF i _ _ th(2,3) memory_okD(6) [OF m], of "Lock c"] by simp_all
  have l: "last (?M (Lock c)) = \<lparr>content = Flag False, carried = ?V\<rparr>" by (simp add: after_store_added unlock_store_def)
  have "?V \<le> lock_view ?M c" by (simp add: lock_view_def l)
  moreover have "prot ?M c = prot (mem S) c" using i'(2) by (simp add: prot_def)
  ultimately have "free_ok (given own (prot (mem S) c) (Node c)) ?M c"
    by (intro free_okI [OF i'(1) _ af(4,3)]) (simp_all add: after_store_added)
  moreover have "latest ?M ?V x" if "given own (prot (mem S) c) (Node c) x = Thread t" for x
    using that af(6) by (cases "x \<in> prot (mem S) c") auto
  moreover have "messages_ok ?M" by (rule messages_store [OF memory_okD(1) [OF m] th(2)]) simp_all
  ultimately show ?thesis
    using p idleD(1) [OF i] af(2,3) contents_lock [OF memory_okD(2) [OF m]]
    unfolding after_store_added by (intro given_goes [OF t m u, where a = "Thread t" and c = c]) simp_all
qed

lemma after_exchange_added:
  "after_exchange ord M V k v =
     added M k \<lparr>content = v, carried = sup (carried (last (M k))) (if releases ord then view_after_exchange ord M V k else bot)\<rparr>"
  by (simp add: after_exchange_def added_def)

text \<open>Whoever takes the lock knows the node as its last owner did.\<close>

lemma locked_idle:
  assumes m: "memory_ok own M" and d: "free_node M c" and k: "knows_node M V c" and w: "within M V"
  defines "M' \<equiv> after_exchange lock_exchange M V (Lock c) (Flag True)" and "V' \<equiv> view_after_exchange lock_exchange M V (Lock c)"
  shows "\<forall>l \<in> prot M c. own l = Node c" "M (Lock c) \<noteq> []" "within M' V'" "V \<le> V'"
    "idle (given own (prot M c) (Thread t)) M' t V' c" "l \<in> prot M c \<Longrightarrow> latest M' V' l"
proof -
  have f: "\<forall>l \<in> prot M c. own l = Node c" "master M (lock_view M c) c" "untouched M c"
    using memory_okD(5) [OF m d] by (simp_all add: free_ok_def)
  show "\<forall>l \<in> prot M c. own l = Node c" by (rule f)
  show l: "M (Lock c) \<noteq> []" using f(1) memory_okD(3) [OF m, of "Lock c"] by simp
  show w': "within M' V'" unfolding M'_def V'_def by (rule within_exchange [OF memory_okD(6) [OF m] w l])
  show v: "V \<le> V'" unfolding V'_def by (rule view_grows(3) [OF w])
  have lw: "within M (lock_view M c)" using lock_view_within [OF memory_okD(6) [OF m] _ l] d by (simp add: free_node_def)
  have lv: "lock_view M c \<le> V'"
  proof (rule le_funI)
    fix x
    have "carried (store_at M (Data c) 2) x \<le> V x" using k by (simp add: knows_node_def le_fun_def)
    moreover have "lock_view M c x \<le> length (M x)" using lw by (simp add: within_def)
    ultimately show "lock_view M c x \<le> V' x"
      by (auto simp: V'_def view_after_exchange_def lock_exchange_def lock_view_def le_supI1)
  qed
  have same: "M' x = M x" if "x \<noteq> Lock c" for x using that by (simp add: M'_def after_exchange_added)
  have sp: "M' x = M x" if "x \<in> set (payload_locs q)" for x q using that by (intro same) auto
  show la: "latest M' V' l" if "l \<in> prot M c" for l
  proof (cases "l = Lock c")
    case True
    then show ?thesis by (simp add: latest_def M'_def V'_def after_exchange_added view_after_exchange_def)
  next
    case False
    have "latest M (lock_view M c) l" using f(2) that by (simp add: master_def)
    then show ?thesis by (rule latest_kept) (use same [OF False] lv w' in simp_all)
  qed
  have "idle (\<lambda>_. Thread t) M t (lock_view M c) c" using f by (simp add: idle_def holding_def)
  then show "idle (given own (prot M c) (Thread t)) M' t V' c"
    by (rule idle_write [OF _ _ lv lw]) (use la same sp in \<open>simp_all add: M'_def\<close>)
qed

lemma lock_goes:
  assumes t: "thread_ok own (mem S) t h" and m: "memory_ok own (mem S)" and u: "unallocated S"
    and a: "stage h = Arrived e" "(c, lv) \<in> nodes h" "content (last (mem S (Lock c))) = Flag False"
  shows "goes own S t (given own (prot (mem S) c) (Thread t))
    (S\<lparr>mem := after_exchange lock_exchange (mem S) (view h) (Lock c) (Flag True)\<rparr>)
    (h\<lparr>view := view_after_exchange lock_exchange (mem S) (view h) (Lock c), stage := Locked e c\<rparr>)"
proof -
  let ?M = "after_exchange lock_exchange (mem S) (view h) (Lock c) (Flag True)"
    and ?V = "view_after_exchange lock_exchange (mem S) (view h) (Lock c)"
  note th = threadD [OF t]
  have k: "knows_node (mem S) (view h) c" by (rule knowledgeD(3) [OF th(1) a(2)])
  have d: "free_node (mem S) c" using k a(3) by (simp add: free_node_def knows_node_def)
  note lk = locked_idle [OF m d k th(2)]
  have "bounded ?M" by (rule bounded_after_exchange [OF memory_okD(6) [OF m] th(2) lk(2)])
  then have "messages_ok ?M"
    unfolding after_exchange_added by (intro messages_added [OF memory_okD(1) [OF m]]) simp_all
  moreover have "latest ?M ?V x" if "given own (prot (mem S) c) (Thread t) x = Thread t" for x
  proof (cases "x \<in> prot (mem S) c")
    case False
    then have "x \<noteq> Lock c" by auto
    then show ?thesis
      using latest_kept [OF _ _ lk(4,3), of "mem S" x] th(3) that False by (simp add: after_exchange_added)
  qed (rule lk(6))
  moreover have "1 \<le> ?V (Bytes e)" using th(4) a(1) lk(4) le_trans unfolding le_fun_def by fastforce
  moreover have "\<not> free_node ?M c" by (simp add: free_node_def after_exchange_added)
  ultimately show ?thesis
    using lk(1,3-5) contents_lock [OF memory_okD(2) [OF m]]
    unfolding after_exchange_added by (intro given_goes [OF t m u, where a = "Node c" and c = c]) simp_all
qed

section \<open>The sibling\<close>

lemma own_nonempty: "memory_ok own M \<Longrightarrow> own l = Thread t \<Longrightarrow> M l \<noteq> []"
  using memory_okD(3) by fastforce

lemma show_sibling_goes:
  assumes t: "thread_ok own (mem S) t h" and m: "memory_ok own (mem S)" and u: "unallocated S"
    and b: "building own (mem S) t (view h) c s l r"
  defines "A \<equiv> {Lock s, Data s, Hint s} \<union> set (payload_locs r)"
  shows "goes own S t (given own A (Node s)) (S\<lparr>mem := after_store data_store (mem S) (view h) (Data s) (Payload_Ptr r)\<rparr>)
    (h\<lparr>view := view_after_store (mem S) (view h) (Data s), stage := Sibling_Shown c s l r\<rparr>)"
proof -
  let ?M = "after_store data_store (mem S) (view h) (Data s) (Payload_Ptr r)" and ?V = "view_after_store (mem S) (view h) (Data s)"
  let ?own = "given own A (Node s)"
  note th = threadD [OF t] and me = memory_okD(1) [OF m] and af = own_after_store [OF threadD(2,3) [OF t] memory_okD(6) [OF m]]
  have i: "idle own (mem S) t (view h) c" and neq: "l \<noteq> r" "cur_payload (mem S) c \<noteq> r" and lk: "content (last (mem S (Lock s))) = Flag False"
    and one: "length (mem S (Data s)) = 1" and nl: "\<forall>x \<in> set (node_locs s). own x = Thread t"
    and f: "private_payload own (mem S) t (view h) r" "private_payload own (mem S) t (view h) l"
    and nx: "next_known (mem S) (view h) r" "content (store_at (mem S) (Next l) 1) = Node_Ptr s"
    using b by (simp_all add: building_def)
  have same: "?M x = mem S x" if "x \<noteq> Data s" for x using that by (simp add: after_store_added)
  have A: "\<forall>x \<in> A. own x = Thread t" using nl f(1) by (auto simp: A_def private_payload_def)
  have cs: "c \<noteq> s" using idleD(4) [OF i] one by (auto simp: knows_node_def)
  have ks: "knows_node ?M ?V s"
    using one by (simp add: knows_node_def after_store_added store_at_def nth_append data_store_def)
  have pay: "?M x = mem S x \<and> own x = Thread t" if "x \<in> set (payload_locs q)" "q = r \<or> q = l" for x q
    using that f by (intro conjI same) (auto simp: private_payload_def)
  have fr: "private_payload own ?M t ?V r" using private_payload_write(1) [OF f(1) af(1,2) th(2)] pay by blast
  have nr: "next_known ?M ?V r" by (rule next_known_mono [OF nx(1) th(2) af(1,2)])
  have cur: "cur_payload ?M s = r" by (simp add: cur_payload_def after_store_added)
  have "idle own ?M t ?V s" using private_payload_idle [OF fr _ _ _ _ ks nr cur] af(6) nl by simp
  moreover have "?V \<le> lock_view ?M s"
    using one by (simp add: lock_view_def after_store_added store_at_def nth_append data_store_def)
  moreover have "?M (Lock s) \<noteq> []" using own_nonempty [OF m, of "Lock s"] nl by (simp add: after_store_added)
  moreover have "prot ?M s = A" using cur by (simp add: prot_def A_def)
  ultimately have free: "free_ok ?own ?M s" using af(3,4) by (intro free_okI) simp_all
  have "prot (mem S) c \<inter> A = {}" using cs neq(2) by (auto simp: prot_def A_def payload_locs_def)
  then have "?own x = Thread t" if "x \<in> prot (mem S) c" for x using that idleD(1) [OF i] by (auto simp: given_def)
  moreover have "?M x = mem S x" if "x \<in> set (payload_locs q)" for x q using that by (intro same) auto
  ultimately have ic: "idle ?own ?M t ?V c"
    using idleD(1) [OF i] af(6) cs same by (intro idle_write [OF i af(1,2) th(2)]) simp_all
  have "set (payload_locs l) \<inter> A = {}" using neq(1) by (auto simp: A_def payload_locs_def)
  then have "?M x = mem S x \<and> ?own x = Thread t" if "x \<in> set (payload_locs l)" for x using pay [OF that] that by (auto simp: given_def)
  then have "private_payload ?own ?M t ?V l" "content (store_at ?M (Next l) 1) = Node_Ptr s"
    using private_payload_write [OF f(2) af(1,2) th(2)] nx(2) by simp_all
  moreover have tw: "Tower n x \<notin> A" and dA: "Data s \<in> A" for n x by (simp_all add: A_def)
  ultimately have "showing ?own ?M t ?V c s l" using ic ks nl by (simp add: showing_def)
  moreover have "messages_ok ?M"
    using publishes_store [OF me th(2) _ _ nr] own_nonempty [OF m] nl th(3) f(1)
    by (intro messages_release [OF me th(2)]) (auto simp: private_payload_def data_store_def latest_def Suc_le_eq)
  moreover have "contents_ok ?M" unfolding after_store_added by (rule contents_added [OF memory_okD(2) [OF m]]) simp_all
  moreover have "latest ?M ?V x" if "?own x = Thread t" for x using that af(6) by (cases "x \<in> A") auto
  ultimately show ?thesis
    using A free tw dA af(2,3) unfolding after_store_added
    by (intro given_goes [OF t m u, where a = "Thread t" and c = s]) simp_all
qed

lemma undisturbed_after: "undisturbed x own M own1 M \<Longrightarrow> undisturbed x own1 M own2 M2 \<Longrightarrow> undisturbed x own M own2 M2"
  unfolding undisturbed_def by simp

lemma goes_trans: "goes own S t own1 S h1 \<Longrightarrow> goes own1 S t own2 S2 h2 \<Longrightarrow> goes own S t own2 S2 h2"
  unfolding goes_def using undisturbed_after by blast

lemma swap_goes:
  assumes t: "thread_ok own (mem S) t h" and m: "memory_ok own (mem S)" and u: "unallocated S"
    and l: "link_stage own (mem S) t (view h) c s lv" "link_found lv (nodes h) pred v"
  shows "goes own S t (disown own s lv)
    (S\<lparr>mem := after_exchange tower_exchange (mem S) (view h) (Tower pred lv) (Node_Ptr s)\<rparr>)
    (h\<lparr>view := view_after_exchange tower_exchange (mem S) (view h) (Tower pred lv), stage := Linking c s (Suc lv)\<rparr>)"
proof (rule goes_trans [OF next_level_goes [OF t m u l(1)]])
  let ?own = "disown own s lv" and ?h = "h\<lparr>stage := Linking c s (Suc lv)\<rparr>"
  let ?M = "after_exchange tower_exchange (mem S) (view h) (Tower pred lv) (Node_Ptr s)"
    and ?V = "view_after_exchange tower_exchange (mem S) (view h) (Tower pred lv)"
  have t': "thread_ok ?own (mem S) t ?h" and m': "memory_ok ?own (mem S)" using next_level_goes [OF t m u l(1)] by (simp_all add: goes_def)
  note th = threadD [OF t', simplified] and me = memory_okD(1) [OF m']
  obtain x where x: "lv \<le> x" "(pred, x) \<in> nodes h" and lv: "lv < kMaxHeight" using l(2) by (auto simp: link_found_def)
  have "1 \<le> view h (Tower pred lv)"
    using knows_node_locs [OF me knowledgeD(3) [OF th(1) x(2)]] lv by simp
  then have ne: "mem S (Tower pred lv) \<noteq> []" using within_length [OF th(2), of "Tower pred lv"] by auto
  have no: "?own (Tower pred lv) = Nobody"
    using knowledgeD(4) [OF th(1) x(2)] x(1) lv l(1) by (simp add: tower_clear_def link_stage_def)
  have v: "view h \<le> ?V" "within ?M ?V" by (rule view_grows(3) [OF th(2)], rule within_exchange [OF memory_okD(6) [OF m'] th(2) ne])
  have b: "bounded ?M" by (rule bounded_after_exchange [OF memory_okD(6) [OF m'] th(2) ne])
  have k: "knows_node (mem S) (view h) s" and lk: "link_stage ?own (mem S) t (view h) c s (Suc lv)" using th(4) by (simp_all add: link_stage_def)
  have "undisturbed (Thread t) ?own (mem S) ?own ?M" using no by (auto simp: undisturbed_def after_exchange_added added_def grown_def nth_append)
  moreover have "stage_ok ?own (mem S) t (view h) (nodes h) (Linking c s (Suc lv))" using lk by simp
  ultimately have "stage_ok ?own ?M t ?V (nodes h) (Linking c s (Suc lv))"
    using stage_stable [OF _ me _ v(1) th(2) v(2)] by blast
  moreover have "knows_node ?M (sup (carried (last (mem S (Tower pred lv)))) ?V) s"
    by (rule knows_node_mono [OF k grown_after_exchange]) (use v(1) le_supI2 in blast)
  then have "messages_ok ?M"
    unfolding after_exchange_added by (intro messages_added [OF me]) (use b in \<open>auto simp: after_exchange_added tower_exchange_def\<close>)
  moreover have "contents_ok ?M" unfolding after_exchange_added by (rule contents_added [OF memory_okD(2) [OF m']]) simp_all
  moreover have "tower_clear ?own s lv" using lk by (simp add: link_stage_def)
  ultimately show "goes ?own S t ?own (S\<lparr>mem := ?M\<rparr>) (h\<lparr>view := ?V, stage := Linking c s (Suc lv)\<rparr>)"
    using no v b unallocated_added [OF u ne]
    by (intro write_goes [OF t' m' _ _ after_exchange_added, where es = "{}"]) (simp_all add: after_exchange_added)
qed

end
