(* ===== verification/Publication_Split.thy ===== *)
theory Publication_Split
  imports Publication_Handover
begin

text \<open>
  The building of a split: a list node and two payloads nobody has seen, constructed from what the full payload holds.
\<close>

section \<open>Constructed objects\<close>

lemma construct_simps [simp]:
  "x \<in> set L \<Longrightarrow> construct L f M x = [\<lparr>content = f x, carried = bot\<rparr>]" "x \<notin> set L \<Longrightarrow> construct L f M x = M x"
  by (simp_all add: construct_def)

lemma grown_construct: "\<forall>x \<in> set L. M x = [] \<Longrightarrow> grown M (construct L f M)"
  unfolding grown_def construct_def by simp

lemma view_construct:
  assumes "\<forall>x \<in> set L. M x = []" "within M V"
  shows "V \<le> view_after_construct L V" "within (construct L f M) (view_after_construct L V)"
proof -
  have "V x \<le> length (M x)" for x using assms(2) by (simp add: within_def)
  moreover from this have "V x = 0" if "x \<in> set L" for x using assms(1) that by (metis le_zero_eq list.size(3))
  ultimately show "V \<le> view_after_construct L V" "within (construct L f M) (view_after_construct L V)"
    by (simp_all add: le_fun_def view_after_construct_def within_def construct_def)
qed

lemma bounded_construct: "\<forall>x \<in> set L. M x = [] \<Longrightarrow> bounded M \<Longrightarrow> bounded (construct L f M)"
  by (rule bounded_append [OF _ grown_construct]) (auto simp: construct_def split: if_splits)

lemma messages_construct:
  assumes m: "messages_ok M" and new: "\<forall>x \<in> set L. M x = []" and tow: "\<And>c lv n. Tower c lv \<in> set L \<Longrightarrow> f (Tower c lv) \<noteq> Node_Ptr n"
  shows "messages_ok (construct L f M)"
proof (rule messages_ok_grown [OF m grown_construct [OF new] bounded_construct [OF new messages_okD(1) [OF m]]])
  fix c i
  assume "length (M (Data c)) < i" "i \<le> length (construct L f M (Data c))" "2 \<le> i"
  then show "publishes (construct L f M) c i" by (cases "Data c \<in> set L") simp_all
next
  fix c lv x n
  assume "x \<in> set (construct L f M (Tower c lv))" "x \<notin> set (M (Tower c lv))" "content x = Node_Ptr n"
  then show "knows_node (construct L f M) (carried x) n" using tow [of c lv n] by (cases "Tower c lv \<in> set L") auto
next
  fix p i
  assume "length (M (Order p)) < i" "i \<le> length (construct L f M (Order p))" "2 \<le> i"
  then show "covers (construct L f M) (carried (store_at (construct L f M) (Order p) i)) p (the_word (content (store_at (construct L f M) (Order p) i)))"
    by (cases "Order p \<in> set L") simp_all
qed

text \<open>A payload as \<^verbatim>\<open>fill\<close> leaves it.\<close>

definition filled_with :: "(loc \<Rightarrow> val) \<Rightarrow> nat list \<Rightarrow> val \<Rightarrow> nat \<Rightarrow> bool" where
  "filled_with f es nx p \<longleftrightarrow> length es \<le> 15 \<and> f (Order p) = Word (order_identity (length es)) \<and> f (Next p) = nx \<and>
     (\<forall>j < length es. f (Key p j) = Entry (es ! j))"

lemma construct_first_word:
  assumes "Order p \<in> set L" "filled_with f es nx p"
  shows "first_word (construct L f M) p = order_identity (length es)" "last_word (construct L f M) p = order_identity (length es)"
    "order_count (first_word (construct L f M) p) = length es"
  using assms word_ok_identity(2) by (simp_all add: first_word_def last_word_def store_at_def filled_with_def)

lemma contents_construct:
  assumes c: "contents_ok M" and new: "\<forall>x \<in> set L. M x = []" and bytes: "\<And>e. Bytes e \<notin> set L"
    and pay: "\<And>p. Order p \<in> set L \<Longrightarrow> (\<exists>es nx. filled_with f es nx p) \<and> set (payload_locs p) \<subseteq> set L"
    and old: "\<And>p. Order p \<notin> set L \<Longrightarrow> set (payload_locs p) \<inter> set L = {}"
  shows "contents_ok (construct L f M)"
proof -
  let ?M = "construct L f M"
  have fst: "first_word ?M p = first_word M p" "last_word ?M p = last_word M p" if "Order p \<notin> set L" for p
    using that by (simp_all add: first_word_def last_word_def store_at_def)
  have "\<exists>w. content (store_at ?M (Order p) i) = Word w \<and> word_ok w \<and> order_count w = order_count (first_word ?M p) + (i - 1)"
    if i: "1 \<le> i" "i \<le> length (?M (Order p))" for p i
  proof (cases "Order p \<in> set L")
    case True
    then obtain es nx where es: "filled_with f es nx p" using pay by blast
    then have "i = 1" "length es \<le> 15" using i True by (simp_all add: filled_with_def)
    then show ?thesis using True es word_ok_identity(1) by (simp add: filled_with_def first_word_def store_at_def)
  next
    case False
    then show ?thesis using contents_okD(1) [OF c] i fst(1) [OF False] by (simp add: store_at_def)
  qed
  moreover have "length (?M (Key p j)) = settled_at ?M p j \<and> length (?M (Lane p j)) = settled_at ?M p j"
    if p: "?M (Order p) \<noteq> []" "j < order_count (last_word ?M p)" for p j
  proof (cases "Order p \<in> set L")
    case True
    then obtain es nx where es: "filled_with f es nx p" and sub: "set (payload_locs p) \<subseteq> set L" using pay by blast
    note w = construct_first_word [OF True es]
    have "j < length es" using p(2) w by simp
    then have "Key p j \<in> set L" "Lane p j \<in> set L" using es sub by (auto simp: filled_with_def node_consts)
    then show ?thesis using w \<open>j < length es\<close> by (simp add: settled_at_def)
  next
    case False
    have o: "M (Order p) \<noteq> []" "j < order_count (last_word M p)" using p False fst by simp_all
    have "j < kNodeKeys" using o(2) word_ok_count [OF last_word_stored(4) [OF c o(1)]] by (simp add: node_consts)
    then have "Key p j \<in> set (payload_locs p)" "Lane p j \<in> set (payload_locs p)" by simp_all
    then have "Key p j \<notin> set L" "Lane p j \<notin> set L" using old [OF False] by blast+
    then show ?thesis using contents_okD(2,3) [OF c o] fst(1) [OF False] by (simp add: settled_at_def)
  qed
  moreover have "length (?M l) \<le> 1" if "length (M l) \<le> 1" for l using that by (cases "l \<in> set L") simp_all
  ultimately show ?thesis using contents_okD(4-7) [OF c] unfolding contents_ok_def by blast
qed

lemma filled_construct:
  assumes f: "filled_with f es nx p" and sub: "set (payload_locs p) \<subseteq> set L" and b: "\<And>e. Bytes e \<notin> set L"
    and es: "\<forall>e \<in> set es. 1 \<le> V (Bytes e)"
  shows "filled (construct L f M) (view_after_construct L V) p"
    "covers (construct L f M) (view_after_construct L V) p (order_identity (length es))"
    "stored_word (construct L f M) p (order_identity (length es))" "content (store_at (construct L f M) (Next p) 1) = nx"
proof -
  let ?M = "construct L f M" and ?V = "view_after_construct L V"
  have o: "Order p \<in> set L" "Next p \<in> set L" using sub by auto
  note w = construct_first_word [OF o(1) f]
  have one: "?V x = 1" if "x \<in> set (payload_locs p)" for x using that sub by (auto simp: view_after_construct_def)
  have "?V (Bytes e) = V (Bytes e)" for e using b by (simp add: view_after_construct_def)
  then have "1 \<le> ?V (Bytes (es ! j))" if "j < length es" for j using es that by simp
  moreover have "length es \<le> kNodeKeys" using f by (simp add: filled_with_def node_consts)
  moreover have "content (store_at ?M (Key p j) 1) = Entry (es ! j)" if "j < length es" for j
  proof -
    have "Key p j \<in> set L" using that sub \<open>length es \<le> kNodeKeys\<close> by auto
    then show ?thesis using f that by (simp add: store_at_def filled_with_def)
  qed
  moreover have "order_count (order_identity (length es)) = length es" using f word_ok_identity(2) by (simp add: filled_with_def)
  ultimately show cv: "covers ?M ?V p (order_identity (length es))"
    using one w(3) by (simp add: covers_def settled_at_def)
  then show "filled ?M ?V p" using one w(1) by (simp add: filled_def)
  show "stored_word ?M p (order_identity (length es))"
    unfolding stored_word_def by (rule exI [of _ 1]) (use o f in \<open>simp add: store_at_def filled_with_def\<close>)
  show "content (store_at ?M (Next p) 1) = nx" using o f by (simp add: store_at_def filled_with_def)
qed

lemma fresh_construct:
  assumes "filled (construct L f M) (view_after_construct L V) p" "filled_with f es nx p" "es \<noteq> []" "set (payload_locs p) \<subseteq> set L"
  shows "private_payload (given own (set L) (Thread t)) (construct L f M) t (view_after_construct L V) p"
proof -
  have "Order p \<in> set L" using assms(4) by auto
  then show ?thesis using assms construct_first_word(3) [OF _ assms(2)] by (auto simp: private_payload_def)
qed

section \<open>The step\<close>

lemma undisturbed_construct:
  assumes m: "memory_ok own M" and new: "\<forall>x \<in> set L. M x = []" and a: "a \<noteq> Nobody"
  shows "undisturbed a own M (given own (set L) b) (construct L f M)"
proof -
  have "x \<notin> set L" if "own x = a \<or> M x \<noteq> []" for x using that new a memory_okD(3) [OF m, of x] by auto
  then show ?thesis using grown_construct [OF new] by (auto simp: undisturbed_def)
qed

text \<open>Constructing new objects disturbs nobody, and whoever constructs them owns them.\<close>

lemma memory_construct:
  assumes m: "memory_ok own M" and new: "\<forall>x \<in> set L. M x = []" and ok: "messages_ok (construct L f M)" "contents_ok (construct L f M)"
    and node: "\<And>d. Lock d \<in> set L \<Longrightarrow> Data d \<in> set L" and tow: "\<And>c lv n. Tower c lv \<in> set L \<Longrightarrow> f (Tower c lv) \<noteq> Node_Ptr n"
  shows "memory_ok (given own (set L) (Thread t)) (construct L f M)"
proof -
  let ?M = "construct L f M" and ?own = "given own (set L) (Thread t)"
  have "?M x \<noteq> []" if "?own x \<noteq> Nobody" for x using that memory_okD(3) [OF m, of x] by (cases "x \<in> set L") auto
  moreover have "tower_clear ?own n lv" if x: "x \<in> set (?M (Tower d lv))" "lv < kMaxHeight" "content x = Node_Ptr n" for d lv x n
  proof -
    have x': "x \<in> set (M (Tower d lv))" using x tow [of d lv n] by (cases "Tower d lv \<in> set L") auto
    have st: "\<forall>l. own l = Nobody \<longrightarrow> M l \<noteq> [] \<longrightarrow> ?own l = Nobody" using new by (auto simp: given_def)
    have "within M (carried x)" using memory_okD(6) [OF m] x' unfolding bounded_def by blast
    then show ?thesis
      using tower_clear_stable [OF memory_okD(4) [OF m x' x(2,3)] messages_okD(3) [OF memory_okD(1) [OF m] x' x(3)] memory_okD(1) [OF m] _ st]
      by simp
  qed
  moreover have "free_ok ?own ?M d" if d: "free_node ?M d" for d
  proof (rule free_kept [OF m _ undisturbed_construct [OF m new] messages_okD(1) [OF ok(1)]])
    have "Data d \<notin> set L" using d by (auto simp: free_node_def)
    moreover from this have "Lock d \<notin> set L" using node by blast
    ultimately show "free_node M d" using d by (simp add: free_node_def)
  qed simp
  ultimately show ?thesis using ok unfolding memory_ok_def by blast
qed

lemma split_locs_set: "set (split_locs s l r) = set (node_locs s) \<union> set (payload_locs r) \<union> set (payload_locs l)"
  by (auto simp: split_locs_def)

lemma split_filled:
  assumes "length xs = 16" "l \<noteq> r"
  shows "filled_with (split_init s l r hgt xs nx pre lanes) (drop kMid xs) nx r"
    "filled_with (split_init s l r hgt xs nx pre lanes) (take kMid xs) (Node_Ptr s) l"
  using assms by (auto simp: filled_with_def split_init_def kMid_def node_consts)

lemma split_new:
  assumes "unallocated S" "s = node_count S" "r = payload_count S" "l = Suc r"
  shows "\<forall>x \<in> set (split_locs s l r). mem S x = []"
proof -
  have "r \<le> l" using assms(4) by simp
  then show ?thesis using assms(1-3) unfolding split_locs_set unallocated_def by blast
qed

lemma node_locs_disjoint: "k \<noteq> s \<Longrightarrow> x \<in> set (node_locs k) \<Longrightarrow> x \<notin> set (node_locs s) \<and> x \<notin> set (payload_locs p)"
  by (auto simp: node_locs_def payload_locs_def)

lemma payload_locs_disjoint: "k \<noteq> p \<Longrightarrow> x \<in> set (payload_locs k) \<Longrightarrow> x \<notin> set (payload_locs p) \<and> x \<notin> set (node_locs s)"
  by (auto simp: node_locs_def payload_locs_def)

lemma split_unallocated:
  assumes u: "unallocated S" and new: "s = node_count S" "r = payload_count S" "l = Suc r"
  shows "unallocated (S\<lparr>mem := construct (split_locs s l r) f (mem S), node_count := Suc s, payload_count := Suc l\<rparr>)"
proof -
  have "x \<notin> set (split_locs s l r)" if "Suc s \<le> k" "x \<in> set (node_locs k)" for k x
    using that node_locs_disjoint [of k s x] unfolding split_locs_set by auto
  moreover have "x \<notin> set (split_locs s l r)" if "Suc l \<le> k" "x \<in> set (payload_locs k)" for k x
    using that new payload_locs_disjoint [of k l x] payload_locs_disjoint [of k r x] unfolding split_locs_set by auto
  moreover have "Bytes e \<notin> set (split_locs s l r)" for e by (simp add: split_locs_set)
  ultimately show ?thesis using u new unfolding unallocated_def by simp (meson Suc_leD)
qed

lemma split_contents:
  assumes c: "contents_ok M" and new: "\<forall>x \<in> set (split_locs s l r). M x = []" and x: "length xs = 16" "l \<noteq> r"
  shows "contents_ok (construct (split_locs s l r) (split_init s l r hgt xs nx pre lanes) M)"
proof (rule contents_construct [OF c new])
  fix p
  show "(\<exists>es nx'. filled_with (split_init s l r hgt xs nx pre lanes) es nx' p) \<and> set (payload_locs p) \<subseteq> set (split_locs s l r)"
    if "Order p \<in> set (split_locs s l r)"
  proof -
    have "p = r \<or> p = l" using that by (auto simp: split_locs_set)
    then show ?thesis using split_filled [OF x] unfolding split_locs_set by blast
  qed
  show "set (payload_locs p) \<inter> set (split_locs s l r) = {}" if "Order p \<notin> set (split_locs s l r)"
    using that by (auto simp: split_locs_set payload_locs_def)
qed (simp add: split_locs_set)

lemma split_messages:
  assumes "messages_ok M" "\<forall>x \<in> set (split_locs s l r). M x = []"
  shows "messages_ok (construct (split_locs s l r) (split_init s l r hgt xs nx pre lanes) M)"
  by (rule messages_construct [OF assms]) (auto simp: split_locs_set split_init_def)

lemma build_goes:
  assumes t: "thread_ok own (mem S) t h" and m: "memory_ok own (mem S)" and u: "unallocated S"
    and i: "idle own (mem S) t (view h) c" and sw: "settled_word (mem S) c p w" and n: "order_count w = 15" and e: "1 \<le> view h (Bytes e)"
    and new: "s = node_count S" "r = payload_count S" "l = Suc r" and xs: "length xs = Suc (order_count w)"
    and es: "\<forall>x \<in> set xs. x = e \<or> (\<exists>rank < order_count w. plain_content (mem S) (view h) (Key p (order_slot w rank)) (Entry x))"
    and nx: "plain_content (mem S) (view h) (Next p) nx"
  shows "goes own S t (given own (set (split_locs s l r)) (Thread t))
      (S\<lparr>mem := construct (split_locs s l r) (split_init s l r hgt xs nx pre lanes) (mem S), node_count := Suc s, payload_count := Suc l\<rparr>)
      (h\<lparr>view := view_after_construct (split_locs s l r) (view h),
         words := words h \<union> {(r, order_identity (length xs - kMid)), (l, order_identity kMid)}, stage := Built c s l r\<rparr>)"
proof -
  let ?L = "split_locs s l r"
  let ?M = "construct ?L (split_init s l r hgt xs nx pre lanes) (mem S)" and ?V = "view_after_construct ?L (view h)"
  let ?own = "given own (set ?L) (Thread t)"
  note th = threadD [OF t] and me = memory_okD(1) [OF m] and co = memory_okD(2) [OF m] and ma = idleD(2) [OF i]
  note md = masterD [OF ma co th(2)]
  have p: "p = cur_payload (mem S) c" "w = last_word (mem S) p" using sw by (simp_all add: settled_word_def)
  have x16: "length xs = 16" and lr: "l \<noteq> r" using xs n new(3) by simp_all
  have nw: "\<forall>x \<in> set ?L. mem S x = []" by (rule split_new [OF u new])
  have v: "view h \<le> ?V" "within ?M ?V" by (rule view_construct [OF nw th(2)])+
  have sub: "set (payload_locs r) \<subseteq> set ?L" "set (payload_locs l) \<subseteq> set ?L" "set (node_locs s) \<subseteq> set ?L" by (auto simp: split_locs_set)
  have bytes: "Bytes b \<notin> set ?L" for b by (simp add: split_locs_set)
  have known: "\<forall>x \<in> set xs. 1 \<le> view h (Bytes x)"
  proof
    fix x
    assume "x \<in> set xs"
    then show "1 \<le> view h (Bytes x)" using es e key_content [OF co th(2) md(5,6), of _ x] unfolding p by auto
  qed
  have fw: "filled_with (split_init s l r hgt xs nx pre lanes) (drop kMid xs) nx r"
    "filled_with (split_init s l r hgt xs nx pre lanes) (take kMid xs) (Node_Ptr s) l" by (rule split_filled [OF x16 lr])+
  have kr: "\<forall>x \<in> set (drop kMid xs). 1 \<le> view h (Bytes x)" and kl: "\<forall>x \<in> set (take kMid xs). 1 \<le> view h (Bytes x)"
    using known in_set_dropD in_set_takeD by fast+
  note fr = filled_construct [OF fw(1) sub(1) bytes kr, of "mem S"] and fl = filled_construct [OF fw(2) sub(2) bytes kl, of "mem S"]
  have ne: "drop kMid xs \<noteq> []" "take kMid xs \<noteq> []" using x16 by (auto simp: kMid_def node_consts)
  have mo: "memory_ok ?own ?M"
    by (rule memory_construct [OF m nw split_messages [OF me nw] split_contents [OF co nw x16 lr]]) (auto simp: split_locs_set split_init_def)
  have st: "undisturbed a own (mem S) ?own ?M" if "a \<noteq> Nobody" for a by (rule undisturbed_construct [OF m nw that])
  have "idle ?own ?M t ?V c" by (rule idle_stable [OF i st v(1) th(2) v(2)]) simp
  moreover have "cur_payload ?M c = p" using holding_stable(2) [of own "mem S" t "view h" c, OF _ st v(1) th(2) v(2)] i p(1) by (simp add: idle_def)
  moreover have "p \<noteq> r"
  proof
    assume "p = r"
    then have "Order p \<in> set ?L" by (simp add: split_locs_set)
    then show False using nw md(7) p(1) by simp
  qed
  moreover have "knows_node (mem S) (view h) k" if "nx = Node_Ptr k" for k
    using next_message [OF co th(2) md(3,4), of nx k 0] nx p(1) that by (simp add: node_of_def)
  then have "next_known ?M ?V r"
    using fr(1,4) filled_payload_locs [OF fr(1), of "Next r"] knows_node_mono [OF _ grown_construct [OF nw] v(1)]
    by (simp add: next_known_def)
  moreover have "private_payload ?own ?M t ?V r" "private_payload ?own ?M t ?V l"
    by (rule fresh_construct [OF fr(1) fw(1) ne(1) sub(1)], rule fresh_construct [OF fl(1) fw(2) ne(2) sub(2)])
  ultimately have "building ?own ?M t ?V c s l r"
    using fl(4) lr sub(3) by (auto simp: building_def split_locs_set split_init_def)
  moreover have "knowledge ?own ?M ?V (nodes h) (pays h) (words h) (ents h)"
    using knowledge_stable [OF th(1) me grown_construct [OF nw] v] nw by (auto simp: given_def)
  then have "knowledge ?own ?M ?V (nodes h) (pays h) (words h \<union> {(r, order_identity (length xs - kMid)), (l, order_identity kMid)}) (ents h)"
    using fr(2,3) fl(2,3) x16 by (simp add: knowledge_extend kMid_def node_consts min_def)
  moreover have "latest ?M ?V x" if "?own x = Thread t" for x
  proof (cases "x \<in> set ?L")
    case True
    then show ?thesis by (simp add: latest_def view_after_construct_def)
  next
    case False
    then show ?thesis using that th(3) by (simp add: latest_def view_after_construct_def)
  qed
  moreover have "unallocated (S\<lparr>mem := ?M, node_count := Suc s, payload_count := Suc l\<rparr>)"
    by (rule split_unallocated [OF u new])
  moreover have "?own x = Thread t' \<Longrightarrow> own x = Thread t'" if "t' \<noteq> t" for t' x using that by (simp add: given_def split: if_splits)
  ultimately show ?thesis using mo st by (simp add: goes_def thread_ok_def)
qed

end
