(* ===== verification/Publication_Orders.thy ===== *)
theory Publication_Orders
  imports Publication_Split
begin

text \<open>
  The invariant holds in every reachable state, and what follows from it: no access of any thread races, no pointer it
  follows is null, and the loads the source leaves relaxed under a lock return the last store.
\<close>

section \<open>One thread's step\<close>

lemma action_goes:
  assumes step: "action S h as S' h'" and m: "memory_ok own (mem S)" and u: "unallocated S" and t: "thread_ok own (mem S) t h"
  shows "\<exists>own'. goes own S t own' S' h'"
proof -
  note pl = threadD(4) [OF t]
  have quiet: "\<exists>own'. goes own S t own' S h'" if "S' = S" "\<not> list_ex is_write as"
    using reads_go [OF step m u t] moves_go [OF step m u t] that by blast
  show ?thesis
    using step
  proof cases
    case (arrive e)
    then show ?thesis using arrive_goes [OF t m u] by blast
  next
    case (lock e c lv)
    then show ?thesis using lock_goes [OF t m u] by blast
  next
    case (lock_taken e c lv)
    then show ?thesis using reads_go [OF step m u t] by blast
  next
    case (back_off e c p)
    have v: "view h \<le> view_after_store (mem S) (view h) (Lock c)" by (rule view_grows(1) [OF threadD(2) [OF t]])
    have "1 \<le> view h (Bytes e)" "idle own (mem S) t (view h) c" using pl back_off(4) by simp_all
    moreover from this(1) have "1 \<le> view_after_store (mem S) (view h) (Lock c) (Bytes e)" using v le_trans unfolding le_fun_def by blast
    ultimately show ?thesis unfolding back_off(2,3) by - (rule exI, rule unlock_goes [OF t m u], simp_all)
  next
    case (unlock c)
    then show ?thesis using pl unfolding unlock(2,3) by - (rule exI, rule unlock_goes [OF t m u], simp_all)
  next
    case (store_key e c p w rank)
    then have a: "appending own (mem S) t (view h) e c p w rank 1 1" using pl by simp
    show ?thesis unfolding store_key(2,3) by (rule exI, rule slot_store_goes [OF t m u a, where i' = 2 and j' = 1]) auto
  next
    case (store_lane e c p w rank x)
    then have a: "appending own (mem S) t (view h) e c p w rank 2 1" using pl by simp
    show ?thesis unfolding store_lane(2,3) by (rule exI, rule slot_store_goes [OF t m u a, where i' = 2 and j' = 2]) auto
  next
    case (store_hint e c p w rank x)
    then have a: "appending own (mem S) t (view h) e c p w rank 2 2" using pl by simp
    show ?thesis unfolding store_hint(2,3) by (rule exI, rule slot_store_goes [OF t m u a, where i' = 2 and j' = 2]) auto
  next
    case (store_order e c p w rank)
    then show ?thesis using pl order_store_goes [OF t m u] by fastforce
  next
    case (build e c p w s r l xs nx hgt pre_lens lanes)
    have "1 \<le> view h (Bytes e)" "idle own (mem S) t (view h) c" "settled_word (mem S) c p w" "order_count w = 15"
      using pl build(4) by simp_all
    then show ?thesis unfolding build(2,3) using build_goes [OF t m u _ _ _ _ build(5-10)] by blast
  next
    case (sibling_hint c s l r x)
    have b: "building own (mem S) t (view h) c s l r" using pl sibling_hint(4) by simp
    then have "own (Hint s) = Thread t" by (simp add: building_def)
    then show ?thesis
      unfolding sibling_hint(2,3) using building_hint [OF b threadD(2,3) [OF t] memory_okD(6) [OF m]] by - (rule exI, rule hint_store_goes [OF t m u], simp_all)
  next
    case (show_sibling c s l r)
    then show ?thesis using pl show_sibling_goes [OF t m u] by fastforce
  next
    case (cur_hint c s l r x)
    have b: "showing own (mem S) t (view h) c s l" using pl cur_hint(4) by simp
    then have "own (Hint c) = Thread t" by (simp add: showing_def idle_def holding_def)
    then show ?thesis
      unfolding cur_hint(2,3) using showing_hint [OF b threadD(2,3) [OF t] memory_okD(6) [OF m]] by - (rule exI, rule hint_store_goes [OF t m u], simp_all)
  next
    case (show_cur c s l r)
    then show ?thesis using pl show_cur_goes [OF t m u] by fastforce
  next
    case (store_tower c s lv pred v)
    then show ?thesis using pl tower_store_goes [OF t m u] by fastforce
  next
    case (swap c s lv pred v)
    then show ?thesis using pl swap_goes [OF t m u] by fastforce
  qed (use quiet in simp_all)
qed

section \<open>The readers\<close>

lemma plain_loads_iff: "l \<in> plain_loads as \<longleftrightarrow> Loads Plain l \<in> set as"
  by (induction as) (auto split: access.splits memory_order.splits)

text \<open>A slot is only ever read once a published word names it.\<close>

lemma slot_loads:
  assumes step: "action S h as S' h'" and m: "memory_ok own (mem S)" and t: "thread_ok own (mem S) t h"
    and a: "Loads Plain (Key q j) \<in> set as \<or> Loads Plain (Lane q j) \<in> set as"
  shows "mem S (Order q) \<noteq> [] \<and> j < order_count (last_word (mem S) q)"
proof -
  note th = threadD [OF t] and co = memory_okD(2) [OF m]
  have named: "mem S (Order q) \<noteq> [] \<and> k < order_count (last_word (mem S) q)" if "(q, w) \<in> words h" "k < order_count w" for q w k
    using stored_word_facts(2,3) [OF co knowledgeD(8) [OF th(1) that(1)]] that(2) by simp
  have fresh: "mem S (Order q) \<noteq> [] \<and> 0 < order_count (last_word (mem S) q)" if f: "private_payload own (mem S) t (view h) q" for q
  proof -
    have "own (Order q) = Thread t" using f by (simp add: private_payload_def)
    then show ?thesis using private_payload_slot(5) [OF f th(3)] own_nonempty [OF m] by blast
  qed
  show ?thesis
    using step
  proof cases
    case (load_key p w rank e)
    then have "rank < order_count w" "word_ok w" using stored_word_facts(1) [OF co knowledgeD(8) [OF th(1)]] by simp_all
    then show ?thesis using a load_key named word_ok_slot by auto
  next
    case (load_lane p w slot)
    then show ?thesis using a named by simp
  next
    case (build e c p w s r l xs nx hgt pre_lens lanes)
    have i: "idle own (mem S) t (view h) c" and p: "p = cur_payload (mem S) c" "w = last_word (mem S) p"
      using th(4) build(4) by (simp_all add: settled_word_def)
    note md = masterD [OF idleD(2) [OF i] co th(2)]
    have "q = p \<and> (\<exists>rank < order_count w. j = order_slot w rank)" using a unfolding build(1) by auto
    then show ?thesis using md(7) p word_ok_slot [OF stored_word_facts(1) [OF co md(6)]] by auto
  next
    case (sibling_hint c s l r x)
    then have "building own (mem S) t (view h) c s l r" "q = r" "j = 0" using th(4) a by auto
    then show ?thesis using fresh [of r] by (simp add: building_def)
  next
    case (sibling_hint_same c s l r x)
    then have "building own (mem S) t (view h) c s l r" "q = r" "j = 0" using th(4) a by auto
    then show ?thesis using fresh [of r] by (simp add: building_def)
  next
    case (cur_hint c s l r x)
    then have "showing own (mem S) t (view h) c s l" "q = l" "j = 0" using th(4) a by auto
    then show ?thesis using fresh [of l] by (simp add: showing_def)
  next
    case (cur_hint_same c s l r x)
    then have "showing own (mem S) t (view h) c s l" "q = l" "j = 0" using th(4) a by auto
    then show ?thesis using fresh [of l] by (simp add: showing_def)
  qed (use a in auto)
qed

lemma readers_grown:
  assumes r: "readers_ok M R" and c: "contents_ok M" "contents_ok M'" and g: "grown M M'"
    and R': "\<And>l. R' l \<noteq> {} \<Longrightarrow> R l \<noteq> {} \<or> l \<in> A" and A: "\<And>l. l \<in> A \<Longrightarrow> M l \<noteq> []"
      "\<And>p j. Key p j \<in> A \<or> Lane p j \<in> A \<Longrightarrow> M (Order p) \<noteq> [] \<and> j < order_count (last_word M p)"
  shows "readers_ok M' R'"
proof -
  have "M l \<noteq> []" if "R' l \<noteq> {}" for l using R' [OF that] r A(1) unfolding readers_ok_def by blast
  moreover have "M (Order p) \<noteq> [] \<and> j < order_count (last_word M p)" if "R' (Key p j) \<noteq> {} \<or> R' (Lane p j) \<noteq> {}" for p j
    using R' that r A(2) unfolding readers_ok_def by blast
  ultimately show ?thesis
    using grown_nonempty [OF g] last_word_grows [OF c g] unfolding readers_ok_def by (meson order_less_le_trans)
qed

section \<open>The invariant\<close>

lemma other_thread:
  assumes t: "thread_ok own M t h" and m: "messages_ok M" and s: "undisturbed (Thread t) own M own' M'"
    and o: "\<And>l. own' l = Thread t \<Longrightarrow> own l = Thread t"
  shows "thread_ok own' M' t h"
proof -
  note th = threadD [OF t] and g = undisturbedD(1) [OF s]
  have w: "within M' (view h)" by (rule within_grown [OF th(2) g])
  have "latest M' (view h) l" if "own' l = Thread t" for l
    using th(3) o [OF that] undisturbedD(3) [OF s o [OF that]] by (simp add: latest_def)
  then show ?thesis
    using knowledge_stable [OF th(1) m g order_refl w] undisturbedD(4) [OF s] stage_stable [OF th(4) m s order_refl th(2) w order_refl]
    by (simp add: thread_ok_def)
qed

lemma step_ok:
  assumes x: "system_ok own X" and s: "sys_step X t as X'"
  shows "\<exists>own'. system_ok own' X' \<and> grown (mem (sh X)) (mem (sh X'))"
  using s
proof cases
  case (act S' h')
  have m: "memory_ok own (mem (sh X))" and u: "unallocated (sh X)" and r: "readers_ok (mem (sh X)) (readers X)"
    and th: "\<And>t. thread_ok own (mem (sh X)) t (locals X t)" using x by (simp_all add: system_ok_def)
  obtain own' where g: "goes own (sh X) t own' S' h'" using action_goes [OF act(2) m u th] by blast
  have st: "undisturbed (Thread t') own (mem (sh X)) own' (mem S')" "own' l = Thread t' \<Longrightarrow> own l = Thread t'" if "t' \<noteq> t" for t' l
    using g that by (simp_all add: goes_def)
  have m': "memory_ok own' (mem S')" using g by (simp add: goes_def)
  have gr: "grown (mem (sh X)) (mem S')" using undisturbedD(1) [OF st(1) [of "Suc t"]] by simp
  have "thread_ok own' (mem S') t' (locals X t')" if "t' \<noteq> t" for t'
    by (rule other_thread [OF th memory_okD(1) [OF m] st(1) [OF that] st(2) [OF that]])
  moreover have "mem (sh X) l \<noteq> []" if "l \<in> plain_loads as" for l
  proof -
    have "1 \<le> view (locals X t) l"
      using action_race_free [OF act(2) m u r th, of "Loads Plain l"] that by (simp add: plain_loads_iff)
    then show ?thesis using within_length [OF threadD(2) [OF th [of t]], of l] by auto
  qed
  then have "readers_ok (mem S') (\<lambda>l. if l \<in> plain_loads as then insert t (readers X l) else readers X l)"
    using slot_loads [OF act(2) m th]
    by (intro readers_grown [OF r memory_okD(2) [OF m] memory_okD(2) [OF m'] gr, where A = "plain_loads as"])
      (auto simp: plain_loads_iff split: if_splits)
  ultimately have "system_ok own' X'" unfolding act(1) using g m' by (simp add: system_ok_def goes_def)
  then show ?thesis using gr act(1) by auto
qed

section \<open>Who holds a lock\<close>

fun held_lock :: "stage \<Rightarrow> nat option" where
  "held_lock Resting = None"
| "held_lock (Arrived e) = None"
| "held_lock (Locked e c) = Some c"
| "held_lock (Opened e c p) = Some c"
| "held_lock (To_Key e c p w rank) = Some c"
| "held_lock (To_Lane e c p w rank) = Some c"
| "held_lock (To_Hint e c p w rank) = Some c"
| "held_lock (To_Order e c p w rank) = Some c"
| "held_lock (Splitting e c p w) = Some c"
| "held_lock (Built c s l r) = Some c"
| "held_lock (Sibling_Hinted c s l r) = Some c"
| "held_lock (Sibling_Shown c s l r) = Some c"
| "held_lock (Cur_Hinted c s l r) = Some c"
| "held_lock (Linking c s lv) = Some c"
| "held_lock (Found c s lv pred v) = Some c"
| "held_lock (Swapping c s lv pred v) = Some c"
| "held_lock (Unlocking c) = Some c"

lemma held_owned:
  "stage_ok own M t V ns pl \<Longrightarrow> held_lock pl = Some c \<Longrightarrow> l \<in> prot M c \<Longrightarrow> own l = Thread t"
  by (cases pl) (auto simp: idle_def appending_def building_def showing_def link_stage_def holding_def)

lemma system_held:
  assumes "system_ok own X" "held_lock (stage (locals X t)) = Some c" "l \<in> prot (mem (sh X)) c"
  shows "own l = Thread t" "latest (mem (sh X)) (view (locals X t)) l" "1 \<le> view (locals X t) l"
proof -
  have t: "thread_ok own (mem (sh X)) t (locals X t)" and m: "memory_ok own (mem (sh X))" using assms(1) by (simp_all add: system_ok_def)
  show o: "own l = Thread t" by (rule held_owned [OF threadD(4) [OF t] assms(2,3)])
  show "latest (mem (sh X)) (view (locals X t)) l" "1 \<le> view (locals X t) l" by (rule owned_store [OF o threadD(3) [OF t] m])+
qed

section \<open>The start\<close>

definition head_init :: "loc \<Rightarrow> val" where
  "head_init l = (if l \<in> set (node_locs 0) then node_init kMaxHeight l else payload_init [] Null 0 (\<lambda>_. 0) l)"

text \<open>The constructor is a thread that builds the head and publishes its empty payload.\<close>

lemma head_memory_store:
  "head_memory = after_store data_store (construct head_locs head_init (\<lambda>_. [])) (view_after_construct head_locs bot) (Data 0) (Payload_Ptr 0)"
  "head_view = view_after_store (construct head_locs head_init (\<lambda>_. [])) (view_after_construct head_locs bot) (Data 0)"
proof -
  have d: "Data 0 \<in> set head_locs" by (simp add: head_locs_def)
  show v: "head_view = view_after_store (construct head_locs head_init (\<lambda>_. [])) (view_after_construct head_locs bot) (Data 0)"
    using d by (simp add: head_view_def view_after_store_def numeral_2_eq_2)
  have "construct head_locs head_init (\<lambda>_. []) (Data 0) = [\<lparr>content = Null, carried = bot\<rparr>]"
    using d by (simp add: head_init_def)
  then show "head_memory = after_store data_store (construct head_locs head_init (\<lambda>_. [])) (view_after_construct head_locs bot) (Data 0) (Payload_Ptr 0)"
    using v by (simp add: head_memory_def after_store_def data_store_def head_init_def [abs_def])
qed

lemma head_length: "length (head_memory l) = head_view l"
  by (simp add: head_memory_def head_view_def construct_def view_after_construct_def bot_nat_def)

lemma head_within: "within head_memory head_view"
  by (simp add: within_def head_length)

lemma head_ok:
  shows "messages_ok head_memory" "contents_ok head_memory" "knows_node head_memory head_view 0"
    "filled head_memory head_view 0" "next_known head_memory head_view 0" "cur_payload head_memory 0 = 0"
    "last_word head_memory 0 = 0"
proof -
  let ?M = "construct head_locs head_init (\<lambda>_. [])" and ?V = "view_after_construct head_locs bot"
  have e: "messages_ok (\<lambda>_. [])" "contents_ok (\<lambda>_. [])" by (simp_all add: messages_ok_def contents_ok_def bounded_def)
  have sub: "set (payload_locs 0) \<subseteq> set head_locs" "set (node_locs 0) \<subseteq> set head_locs" by (auto simp: head_locs_def)
  have bytes: "Bytes b \<notin> set head_locs" for b by (simp add: head_locs_def)
  have fw: "filled_with head_init [] Null 0" by (simp add: filled_with_def head_init_def)
  have m: "messages_ok ?M" by (rule messages_construct [OF e(1)]) (auto simp: head_locs_def head_init_def)
  have c: "contents_ok ?M"
  proof (rule contents_construct [OF e(2)])
    show "(\<exists>es nx. filled_with head_init es nx p) \<and> set (payload_locs p) \<subseteq> set head_locs" if "Order p \<in> set head_locs" for p
      using that fw sub by (auto simp: head_locs_def)
    show "set (payload_locs p) \<inter> set head_locs = {}" if "Order p \<notin> set head_locs" for p
      using that by (auto simp: head_locs_def payload_locs_def node_locs_def)
  qed (simp_all add: bytes)
  have w: "within ?M ?V" by (rule view_construct(2)) simp_all
  note f = filled_construct [OF fw sub(1) bytes, of bot "\<lambda>_. []", simplified]
  have v: "?V \<le> head_view" unfolding head_memory_store(2) by (rule view_grows(1) [OF w])
  have g: "grown ?M head_memory" unfolding head_memory_store(1) by simp
  show fl: "filled head_memory head_view 0" by (rule filled_mono [OF f(1) w g v])
  have "next_known ?M ?V 0" using filled_payload_locs [OF f(1), of "Next 0"] f(4) by (simp add: next_known_def)
  then show nk: "next_known head_memory head_view 0" by (rule next_known_mono [OF _ w g v])
  have nl: "\<forall>x \<in> set (node_locs 0). 1 \<le> ?V x" using sub(2) by (auto simp: view_after_construct_def)
  have d: "?M (Data 0) = [\<lparr>content = Null, carried = bot\<rparr>]" using sub(2) by (simp add: head_init_def subset_iff)
  have p: "publishes head_memory 0 2"
    using publishes_store [OF m w nl f(1)] nk d unfolding head_memory_store by (simp add: numeral_2_eq_2)
  show "messages_ok head_memory"
    unfolding head_memory_store(1)
    by (rule messages_release [OF m w]) (use p d in \<open>simp_all add: head_memory_store(1) data_store_def numeral_2_eq_2\<close>)
  show "contents_ok head_memory"
    unfolding head_memory_store(1) after_store_added by (rule contents_added [OF c]) simp_all
  show "knows_node head_memory head_view 0" by (simp add: knows_node_def head_memory_def store_at_def)
  show "cur_payload head_memory 0 = 0" by (simp add: cur_payload_def head_memory_def)
  show "last_word head_memory 0 = 0"
    using sub(1) by (simp add: last_word_def head_memory_def construct_def subset_iff order_identity_encode)
qed

lemma initial_ok: "system_ok (given (\<lambda>_. Nobody) (prot head_memory 0) (Node 0)) initial"
proof -
  let ?own = "given (\<lambda>_. Nobody) (prot head_memory 0) (Node 0)"
  note h = head_ok
  have pr: "prot head_memory 0 \<subseteq> set head_locs" using h(6) by (auto simp: prot_def head_locs_def)
  have ne: "head_memory l \<noteq> []" if "l \<in> set head_locs" for l
    using that by (auto simp: head_memory_def)
  have la: "latest head_memory head_view l" for l by (simp add: latest_def head_length)
  have tc: "tower_clear ?own s x" for s x by (simp add: tower_clear_def)
  have fw: "first_word head_memory 0 = 0"
    using h(7) by (simp add: first_word_def last_word_def head_memory_def head_locs_def store_at_def)
  have cv: "covers head_memory head_view 0 0" using h(4) fw by (simp add: filled_def)
  have ma: "master head_memory head_view 0" using h la cv by (simp add: master_def)
  have lv: "lock_view head_memory 0 = head_view"
    by (simp add: lock_view_def head_memory_def store_at_def head_locs_def fun_eq_iff sup_nat_def bot_nat_def)
  have un: "untouched head_memory 0"
    using h(6,7) by (simp add: untouched_def slots_from_def head_memory_def head_locs_def)
  have fr: "free_ok ?own head_memory d" if d: "free_node head_memory d" for d
  proof -
    have "d = 0" using d by (auto simp: free_node_def head_memory_def construct_def head_locs_def split: if_splits)
    then show ?thesis using ma un lv by (simp add: free_ok_def)
  qed
  have "memory_ok ?own head_memory"
    using h(1,2) tc fr ne pr unfolding memory_ok_def by (metis given_simps(2) subsetD)
  moreover have "thread_ok ?own head_memory t (locals initial t)" for t
    using head_within h(3) la tc by (simp add: thread_ok_def initial_def knowledge_def kMaxHeight_def)
  moreover have "unallocated (sh initial)"
    by (auto simp: unallocated_def initial_def head_memory_def construct_def head_locs_def node_locs_def payload_locs_def)
  ultimately show ?thesis by (simp add: system_ok_def readers_ok_def initial_def)
qed

lemma reachable_system_ok: "reachable X \<Longrightarrow> \<exists>own. system_ok own X"
proof (induction rule: reachable.induct)
  case start
  then show ?case using initial_ok by blast
next
  case (step X t as X')
  then show ?case using step_ok by blast
qed

definition later :: "system \<Rightarrow> system \<Rightarrow> bool" where
  "later = (\<lambda>X X'. \<exists>t as. sys_step X t as X')\<^sup>*\<^sup>*"

lemma later_ok:
  assumes "later X X'" "reachable X"
  shows "reachable X' \<and> grown (mem (sh X)) (mem (sh X'))"
  using assms(1) unfolding later_def
proof (induction rule: rtranclp_induct)
  case (step Y Z)
  then obtain t as where s: "sys_step Y t as Z" and y: "reachable Y" by blast
  obtain own where "system_ok own Y" using reachable_system_ok [OF y] by blast
  then have "grown (mem (sh Y)) (mem (sh Z))" using step_ok s by blast
  then show ?case using step.IH reachable.step [OF y s] grown_trans by blast
qed (simp add: assms(2))

section \<open>A run\<close>

text \<open>Thread 0 appends the first entry and is about to clear the lock; thread 1 has taken a snapshot that names it.\<close>

definition acted :: "system \<Rightarrow> nat \<Rightarrow> loc access list \<Rightarrow> shared \<Rightarrow> local \<Rightarrow> system" where
  "acted X t as S' h' =
     X\<lparr>sh := S', readers := (\<lambda>l. if l \<in> plain_loads as then insert t (readers X l) else readers X l), locals := (locals X)(t := h')\<rparr>"

lemma acted_simps [simp]: "sh (acted X t as S' h') = S'" "locals (acted X t as S' h') = (locals X)(t := h')"
  by (simp_all add: acted_def)

lemma reach: "reachable X \<Longrightarrow> action (sh X) (locals X t) as S' h' \<Longrightarrow> reachable (acted X t as S' h')"
  unfolding acted_def by (rule reachable.step [OF _ sys_step.act])

lemma head_at [simp]:
  "head_memory (Data 0) = [\<lparr>content = Null, carried = bot\<rparr>, \<lparr>content = Payload_Ptr 0, carried = head_view\<rparr>]"
  "head_memory (Order 0) = [\<lparr>content = Word 0, carried = bot\<rparr>]" "head_memory (Lock 0) = [\<lparr>content = Flag False, carried = bot\<rparr>]"
  "head_memory (Hint 0) = [\<lparr>content = Number 0, carried = bot\<rparr>]" "head_memory (Key 0 0) = [\<lparr>content = Null, carried = bot\<rparr>]"
  "head_memory (Bytes e) = []" "head_view (Data 0) = 2" "head_view (Order 0) = 1" "head_view (Hint 0) = 1"
  by (simp_all add: head_memory_def head_view_def head_locs_def construct_def view_after_construct_def order_identity_encode node_consts)

lemma first_word_run: "order_count 0 = 0" "order_count (order_insert 0 0 0) = 1" "order_slot (order_insert 0 0 0) 0 = 0"
proof -
  have z: "(0 :: u64) = encode []" by simp
  have w: "order_insert (encode []) 0 0 = encode [0]" using order_insert_encode [of "[]" 0 0] by (simp add: ins_at_def)
  show "order_count 0 = 0" unfolding z by (subst order_count_encode) simp_all
  show "order_count (order_insert 0 0 0) = 1" unfolding z w by (subst order_count_encode) simp_all
  show "order_slot (order_insert 0 0 0) 0 = 0" unfolding z w by (subst order_slot_encode) simp_all
qed

lemmas run_simps = after_store_def view_after_store_def after_exchange_def view_after_exchange_def after_load_def visible_def
  store_at_def memory_orders plain_content_def latest_def sup_nat_def bot_nat_def initial_def kMaxHeight_def node_consts first_word_run

lemma published_run:
  obtains X where "reachable X" "stage (locals X 0) = Unlocking 0" "(0, order_insert 0 0 0) \<in> words (locals X 1)"
    "plain_content (mem (sh X)) (view (locals X 1)) (Key 0 0) (Entry 0)"
proof -
  note r1 = reach [where t = 0, OF reachable.start arrive [OF _ refl], simplified, unfolded run_simps, simplified]
  note r2 = reach [where t = 0, OF r1 lock [where e = 0 and c = 0 and lv = 11], simplified, unfolded run_simps, simplified]
  note r3 = reach [where t = 0, OF r2 open_node [where e = 0 and c = 0 and i = 2 and p = 0], simplified, unfolded run_simps, simplified]
  note r4 = reach [where t = 0, OF r3 load_order [where e = 0 and c = 0 and p = 0 and i = 1 and w = 0 and rank = 0], simplified, unfolded run_simps, simplified]
  note r5 = reach [where t = 0, OF r4 store_key [where e = 0 and c = 0 and p = 0 and w = 0 and rank = 0], simplified, unfolded run_simps, simplified]
  note r6 = reach [where t = 0, OF r5 store_lane [where e = 0 and c = 0 and p = 0 and w = 0 and rank = 0], simplified, unfolded run_simps, simplified]
  note r7 = reach [where t = 0, OF r6 same_hint [where e = 0 and c = 0 and p = 0 and w = 0 and rank = 0 and i = 1], simplified, unfolded run_simps, simplified]
  note r8 = reach [where t = 0, OF r7 store_order [where e = 0 and c = 0 and p = 0 and w = 0 and rank = 0], simplified, unfolded run_simps, simplified]
  note r9 = reach [where t = 1, OF r8 load_data [where c = 0 and lv = 11 and i = 2 and p = 0], simplified, unfolded run_simps, simplified]
  note r10 = reach [where t = 1, OF r9 snapshot [where p = 0 and i = 2 and w = "order_insert 0 0 0"], simplified, unfolded run_simps, simplified]
  show ?thesis by (rule that [OF r10]) (simp_all add: run_simps)
qed

section \<open>Properties\<close>

text \<open>C7: The memory orders of the source suffice. Whatever the threads have done, the next access of any of them is free of
  races: a plain load sees every store to its location, a plain store comes after every access of another thread, an
  atomic access is to a location known to be initialised, a release store is ordered after every store before it, and
  no null pointer is followed.\<close>

theorem memory_orders_suffice:
  assumes "reachable X" "sys_step X t as X'" "a \<in> set as"
  shows "race_free (mem (sh X)) (readers X) t (view (locals X t)) a"
proof -
  obtain own where "system_ok own X" using reachable_system_ok [OF assms(1)] by blast
  then show ?thesis
    using assms(2) action_race_free [OF _ _ _ _ _ assms(3)] by (auto simp: system_ok_def elim!: sys_step.cases)
qed

theorem memory_orders_suffice_witness:
  "\<exists>X S' h'. reachable X \<and> stage (locals X 0) = Unlocking 0 \<and> sys_step X 1 [Loads Plain (Key 0 0)] (acted X 1 [Loads Plain (Key 0 0)] S' h') \<and>
     race_free (mem (sh X)) (readers X) 1 (view (locals X 1)) (Loads Plain (Key 0 0))"
proof -
  obtain X where x: "reachable X" "stage (locals X 0) = Unlocking 0" "(0, order_insert 0 0 0) \<in> words (locals X 1)"
    "plain_content (mem (sh X)) (view (locals X 1)) (Key 0 0) (Entry 0)" by (rule published_run)
  define h' where "h' = locals X 1\<lparr>ents := insert 0 (ents (locals X 1))\<rparr>"
  have "action (sh X) (locals X 1) [Loads Plain (Key 0 0)] (sh X) h'"
    using load_key [OF x(3), of 0 "sh X" 0] x(4) by (simp add: first_word_run h'_def)
  then have s: "sys_step X 1 [Loads Plain (Key 0 0)] (acted X 1 [Loads Plain (Key 0 0)] (sh X) h')"
    unfolding acted_def by (rule sys_step.act)
  have "race_free (mem (sh X)) (readers X) 1 (view (locals X 1)) (Loads Plain (Key 0 0))"
    by (rule memory_orders_suffice [OF x(1) s]) simp
  then show ?thesis using x(1,2) s by blast
qed

text \<open>C9: The lock is exclusive, and whoever holds it loads the last store of the node's payload pointer, of its hint and of
  the payload's order word, whatever the order of the load: the relaxed load of the order word in \<^verbatim>\<open>insert_entry\<close>
  is enough.\<close>

theorem locked_loads_are_current:
  assumes "reachable X" "held_lock (stage (locals X t)) = Some c" "l \<in> {Data c, Hint c, Order (cur_payload (mem (sh X)) c)}"
    "visible (mem (sh X)) (view (locals X t)) l i"
  shows "store_at (mem (sh X)) l i = last (mem (sh X) l) \<and> (\<forall>t'. held_lock (stage (locals X t')) = Some c \<longrightarrow> t' = t)"
proof -
  obtain own where x: "system_ok own X" using reachable_system_ok [OF assms(1)] by blast
  have l: "l \<in> prot (mem (sh X)) c" using assms(3) by auto
  note h = system_held [OF x assms(2) l]
  have "t' = t" if "held_lock (stage (locals X t')) = Some c" for t' using system_held(1) [OF x that l] h(1) by simp
  then show ?thesis using last_seen [OF h(2) assms(4)] by simp
qed

theorem locked_loads_are_current_witness:
  "\<exists>X i. reachable X \<and> held_lock (stage (locals X 0)) = Some 0 \<and> store_at (mem (sh X)) (Data 0) i = last (mem (sh X) (Data 0))"
proof -
  obtain X where x: "reachable X" "stage (locals X 0) = Unlocking 0" by (rule published_run)
  then have h: "held_lock (stage (locals X 0)) = Some 0" by simp
  obtain own where s: "system_ok own X" using reachable_system_ok [OF x(1)] by blast
  have "visible (mem (sh X)) (view (locals X 0)) (Data 0) (view (locals X 0) (Data 0))"
    using system_held [OF s h, of "Data 0"] by (simp add: visible_def latest_def)
  then have "store_at (mem (sh X)) (Data 0) (view (locals X 0) (Data 0)) = last (mem (sh X) (Data 0))"
    using locked_loads_are_current [OF x(1) h, of "Data 0"] by simp
  then show ?thesis using x(1) h by blast
qed

text \<open>C8: A snapshot stays true. Every slot named by an order word a thread has loaded holds an entry whose bytes the
  thread is entitled to read, and whatever all threads do afterwards, neither the key nor the lane of the slot is ever
  stored again.\<close>

theorem snapshot_frozen:
  assumes "reachable X" "(p, w) \<in> words (locals X t)" "rank < order_count w" "later X X'"
  shows "\<exists>e. content (last (mem (sh X) (Key p (order_slot w rank)))) = Entry e \<and> 1 \<le> view (locals X t) (Bytes e) \<and>
    mem (sh X') (Key p (order_slot w rank)) = mem (sh X) (Key p (order_slot w rank)) \<and>
    mem (sh X') (Lane p (order_slot w rank)) = mem (sh X) (Lane p (order_slot w rank))"
proof -
  let ?M = "mem (sh X)" and ?M' = "mem (sh X')" and ?j = "order_slot w rank"
  obtain own where x: "system_ok own X" using reachable_system_ok [OF assms(1)] by blast
  have r': "reachable X'" and g: "grown ?M ?M'" using later_ok [OF assms(4,1)] by simp_all
  obtain own' where x': "system_ok own' X'" using reachable_system_ok [OF r'] by blast
  have c: "contents_ok ?M" and c': "contents_ok ?M'" and t: "thread_ok own ?M t (locals X t)"
    using x x' memory_okD(2) by (auto simp: system_ok_def)
  note th = threadD [OF t] and k = knowledgeD(7,8) [OF threadD(1) [OF t] assms(2)]
  note f = stored_word_facts [OF c k(2)] and f' = stored_word_facts [OF c' stored_word_mono [OF k(2) g]]
  have j: "?j < order_count w" by (rule word_ok_slot [OF f(1) assms(3)])
  have "first_word ?M' p = first_word ?M p" using grown_store_at [OF g, of 1 "Order p"] f(3) by (simp add: first_word_def Suc_le_eq)
  then have s: "settled_at ?M' p ?j = settled_at ?M p ?j" by (simp add: settled_at_def)
  have "?M' (Key p ?j) = ?M (Key p ?j)" "?M' (Lane p ?j) = ?M (Lane p ?j)"
    using contents_okD(2,3) [OF c f(3)] contents_okD(2,3) [OF c' f'(3)] j f(2) f'(2) s by (auto intro!: grown_same [OF g])
  then show ?thesis using covers_slot(6) [OF c k th(2) j] by auto
qed

theorem snapshot_frozen_witness:
  "\<exists>X X' e. reachable X \<and> later X X' \<and> stage (locals X 0) = Unlocking 0 \<and> stage (locals X' 0) = Resting \<and>
     content (last (mem (sh X') (Key 0 0))) = Entry e \<and> 1 \<le> view (locals X 1) (Bytes e)"
proof -
  obtain X where x: "reachable X" "stage (locals X 0) = Unlocking 0" "(0, order_insert 0 0 0) \<in> words (locals X 1)" by (rule published_run)
  obtain S' h' where a: "action (sh X) (locals X 0) [Stores unlock_store (Lock 0)] S' h'" "stage h' = Resting"
    using unlock [OF x(2)] by fastforce
  let ?X = "acted X 0 [Stores unlock_store (Lock 0)] S' h'"
  have "sys_step X 0 [Stores unlock_store (Lock 0)] ?X" unfolding acted_def by (rule sys_step.act [OF a(1)])
  then have l: "later X ?X" unfolding later_def by blast
  then show ?thesis
    using snapshot_frozen [OF x(1,3) _ l, of 0] x(1,2) a(2) by (intro exI [of _ X] exI [of _ ?X]) (auto simp: first_word_run)
qed

end
