(* ===== verification/Spec2Isabelle.thy ===== *)
theory Spec2Isabelle
  imports Two_Nodes Memtable_Contract Standalone Plugin Thread_Progress Search_Bench Report_Lines Publication_Orders
begin

text \<open>
  The memtable of this repository, a two-tier ordered structure for an LSM tree: its nodes pack the
  32-bit surrogates of up to fifteen keys into one cache line that a vector kernel searches, and a
  skip list of such nodes orders them. This library models the C++ of \<^verbatim>\<open>include/aparajita\<close> and of the
  RocksDB plugin over it, and proves it correct, for one
  operation at a time, for inserts, lookups and scans that interleave store by store, and for the memory orders
  those stores and loads are given.

  The parts, and the theory that holds each:

  \<^item> \<^verbatim>\<open>Prelude\<close>: byte strings, insertion at a position, lower bounds; shared by all.
  \<^item> \<^verbatim>\<open>Order_Word\<close> (\<^verbatim>\<open>node.hpp\<close>): the 64-bit order word, sixteen nibbles of slot + 1. An order word stands for
    a list of slots in rank order (\<^verbatim>\<open>encode\<close>, \<^verbatim>\<open>ranks\<close>); \<^verbatim>\<open>order_insert\<close> is insertion into that list.
  \<^item> \<^verbatim>\<open>Surrogate\<close> (\<^verbatim>\<open>surrogate.hpp\<close>): the order-preserving 32- and 64-bit summaries of a key, the common
    prefix, and the bytewise comparison, which is the list order on bytes.
  \<^item> \<^verbatim>\<open>Search\<close> (\<^verbatim>\<open>search.hpp\<close>): the scalar, AVX2 and AVX-512 kernels over the intrinsics they call, one
    locale per kernel interface (\<^verbatim>\<open>eq_kernel\<close>, \<^verbatim>\<open>line_kernel\<close>, \<^verbatim>\<open>perm_kernel\<close>), interpreted for every kernel
    and for the dispatchers at every instruction set.
  \<^item> \<^verbatim>\<open>Traits\<close>: the policy class of \<^verbatim>\<open>memtable.hpp\<close> as a record of functions. The locale \<^verbatim>\<open>ordered_traits\<close> is
    the contract the header states (a total preorder, and the hint promise); \<^verbatim>\<open>bytewise_traits\<close> the
    stronger one of a comparator that follows the order bytes. \<^verbatim>\<open>StringViewTraits\<close> satisfies both.
  \<^item> \<^verbatim>\<open>Node_Data\<close>, \<^verbatim>\<open>Node_Lanes\<close>: one payload (\<^verbatim>\<open>BasicNodeData\<close>): the search for a rank, building, merging,
    appending. Its abstraction is the list of its entries in rank order. The first proves what holds
    whatever the lanes contain, the second when the lanes follow the frozen prefix: what the vector search then costs in
    comparator calls, and what an append does to the lanes, inside the prefix and outside it.
  \<^item> \<^verbatim>\<open>Table\<close>, \<^verbatim>\<open>Lookup\<close>: list nodes with their towers, publication, and the read paths. A table is the
    list of nodes and the list of payloads the allocator handed out; pointers are indices. Its
    invariant \<^verbatim>\<open>table_ok\<close> speaks of the level 0 chain from the head: distinct nodes and payloads, lawful
    payloads, hints that match the first keys, comparator order across the whole chain, and tower
    pointers that stay inside the chain and have no cycle on a level. The abstraction \<^verbatim>\<open>entries\<close> is the
    concatenation of the payloads' entries along the chain.
  \<^item> \<^verbatim>\<open>Insert\<close>: \<^verbatim>\<open>insert_entry\<close> with its lock, the append, the split and the linking of towers.
  \<^item> \<^verbatim>\<open>Iterator\<close>: the iterator, whose abstraction is an index into the entries, \<^verbatim>\<open>begin()\<close> and \<^verbatim>\<open>size()\<close>.
  \<^item> \<^verbatim>\<open>Check_Invariants\<close>: \<^verbatim>\<open>check_invariants()\<close>, message by message, what makes it pass, and two inserts after which it
    does not.
  \<^item> \<^verbatim>\<open>Memtable_Contract\<close>: the memtable interface as a locale (insert never loses an entry, membership by
    the comparator, scans in order), and the table as an instance under every lawful traits.
  \<^item> \<^verbatim>\<open>Two_Nodes\<close>: concrete lawful tables, used to evaluate the operations.
  \<^item> \<^verbatim>\<open>Threads\<close>: any number of threads that insert, look up, seek and scan in one table. A step is one load or one
    store of shared memory by one thread: a tower pointer, a hint, a payload pointer, an order word, the lock, one of
    the four stores of an append, the hint and the payload of a split, a compare-exchange of the linking.
  \<^item> \<^verbatim>\<open>Settled\<close>, \<^verbatim>\<open>Thread_Places\<close>, \<^verbatim>\<open>Thread_Steps\<close>, \<^verbatim>\<open>Thread_Writes\<close>: what holds at every moment in between.
    Between the two stores of a publication a hint may lie below the first key it stands for, so the invariant is
    that of the table with its hints settled (\<^verbatim>\<open>settle\<close>) and that no hint lies above; \<^verbatim>\<open>placed\<close> ties each place a
    thread can be at to the chain; \<^verbatim>\<open>evolves\<close> is what a step may do to the table as the other threads see it, and
    every place survives it (\<^verbatim>\<open>placed_evolves\<close>). The last two theories show that every step is such a change.
  \<^item> \<^verbatim>\<open>Interleaving\<close>: what follows for whole runs. Every interleaving keeps the chain lawful and loses no entry,
    and the locks never deadlock. It also
    shows where readers are not exact: a lookup and a seek do not look again, as an insert does under its lock, whether
    the node they came to has been split in the meantime.
  \<^item> \<^verbatim>\<open>Thread_Alone\<close>: one thread by itself computes what the sequential operations compute, so the two models of the
    code are one.
  \<^item> \<^verbatim>\<open>Thread_Progress\<close>: from every reachable state all operations can be brought to their end, and a scan that runs
    while others insert misses nothing that was there when it began.
  \<^item> \<^verbatim>\<open>Weak_Memory\<close>, \<^verbatim>\<open>Publication\<close>: the memory orders. Here a load need not see the last store: a location is a list of
    stores, each with the view it carries, and a thread has a view of its own that acquire loads raise. On that memory
    \<^verbatim>\<open>Publication\<close> has every access of \<^verbatim>\<open>insert_entry\<close>, the descents, the lookups and the iterators with the order the
    source gives it; which rank, lane, hint, height or predecessor is taken is left open there.
  \<^item> \<^verbatim>\<open>Publication_Safe\<close>, \<^verbatim>\<open>Publication_Owners\<close>, \<^verbatim>\<open>Publication_Races\<close>: the invariant. A store that publishes carries a view that
    covers what it publishes; each location still being written has one owner, a thread or the node whose lock is
    free, that knows its last store; under it no access races.
  \<^item> \<^verbatim>\<open>Publication_Steps\<close>, \<^verbatim>\<open>Publication_Writes\<close>, \<^verbatim>\<open>Publication_Handover\<close>, \<^verbatim>\<open>Publication_Split\<close>, \<^verbatim>\<open>Publication_Orders\<close>: every
    step keeps it, so the orders of the source suffice: no data race and no null pointer, a relaxed load under a lock
    sees the last store, and what a snapshot names is never stored again.
  \<^item> \<^verbatim>\<open>Arena\<close> (\<^verbatim>\<open>arena.hpp\<close>): the bump allocator on 64-bit sizes, with the alignment arithmetic; a pointer is a
    chunk and an offset. Allocations are disjoint, aligned and inside their chunks.
  \<^item> \<^verbatim>\<open>Standalone\<close>: \<^verbatim>\<open>MemTable\<close>, the core over string views with the arena it copies its keys into.
  \<^item> \<^verbatim>\<open>Adapter\<close> (\<^verbatim>\<open>plugin/aparajita\<close>): \<^verbatim>\<open>AparajitaTraits\<close> and \<^verbatim>\<open>AparajitaRep\<close>, with \<^verbatim>\<open>Get\<close>, the reservoir sample and
    the wrapped iterator. RocksDB is the record \<^verbatim>\<open>host\<close>; \<^verbatim>\<open>host_contract\<close> is what the adapter relies on, and the
    representation is an instance of the memtable interface under it.
  \<^item> \<^verbatim>\<open>Layout\<close>: how the structs lie in memory, and the static assertions about it. With the arena's theorems it gives
    that no node shares a cache line with anything else (in \<^verbatim>\<open>Standalone\<close>).
  \<^item> \<^verbatim>\<open>Plugin\<close> (\<^verbatim>\<open>plugin/aparajita\<close>): the aligned memory taken from RocksDB's allocator, where its iterators are built, the
    factory and its registration; RocksDB's object library is a record with a contract.
  \<^item> \<^verbatim>\<open>Workload\<close> (\<^verbatim>\<open>workload.hpp\<close>): the generators of nodes and needles over an abstract random engine; what they
    make is what the kernels' theorems ask for.
  \<^item> \<^verbatim>\<open>Kernel_Bench\<close>, \<^verbatim>\<open>Report_Lines\<close> (\<^verbatim>\<open>bench/counter_report.cpp\<close>, \<^verbatim>\<open>counters.hpp\<close>): the kernel tables, the gate that compares
    every kernel with its reference, the counter windows over the operating system's performance events, which are a
    record with a contract, and what the program computes from the readings and prints. What a call costs depends on the
    state of the machine in any way. The gate never fires, every descriptor is closed again, and a row shows the medians
    of readings that each cover one pass over the needles, on the machine an uncounted pass has warmed.
  \<^item> \<^verbatim>\<open>Search_Bench\<close> (\<^verbatim>\<open>bench_search.cpp\<close>): fixtures, bodies and registrations of the timed benchmarks, each of which hands
    over the answers of its family's scalar reference or is skipped. In both programs a kernel is a function with the
    instruction set it is compiled for, and no host is led into an instruction it lacks.
  \<^item> \<^verbatim>\<open>Doubles\<close>: the arithmetic of both reports, rationals with a rounding function, an infinity and NaN, and the decimal
    numbers they read and print.
  \<^item> \<^verbatim>\<open>Collision_Report\<close> (\<^verbatim>\<open>bench/collision_report.cpp\<close>): the eight key distributions and the two ways of taking a lane.
    The reported numbers are means over the keys, and the lane past a page's prefix is never worse than the lane from
    the start of the key.

  Loops that follow pointers are \<^verbatim>\<open>partial_function\<close>s into \<^verbatim>\<open>option\<close>, with no fuel: \<^verbatim>\<open>None\<close> is a loop that
  does not end, and the theorems prove \<^verbatim>\<open>Some\<close>. The walk along a tower level ends because a rank grows
  along its pointers; the walk along level 0 because the chain is finite. Equal keys are allowed
  everywhere; where the source is only exact for distinct keys (\<^verbatim>\<open>seek\<close>, \<^verbatim>\<open>seek_for_prev\<close>, \<^verbatim>\<open>prev\<close>) the statement says so.

  What the source leaves to chance or to its host is a parameter: the numbers the height generator
  draws, the spurious failures of a weak compare-exchange, the instruction set detected, and the bytes
  that follow a key in memory, which \<^verbatim>\<open>shares_prefix\<close> may read.

  Except in \<^verbatim>\<open>Threads\<close>, \<^verbatim>\<open>Publication\<close> and the theories over them every operation runs alone. In \<^verbatim>\<open>Threads\<close> the memory is
  sequentially consistent; reads of fields that nobody writes any more, and the stores into a sibling that nobody else
  can reach yet, are joined to the step they belong to; iterators move forward only. In \<^verbatim>\<open>Publication\<close> accesses happen in
  program order and a new store comes last in its location's modification order, which \<^verbatim>\<open>race_free\<close> asks of every store;
  a test-and-set that finds the lock taken leaves memory as it is. Load buffering, that is, a relaxed load that returns a
  store made after it, is outside that machine. What the values are, order and membership, is proved on \<^verbatim>\<open>Threads\<close>.

  Not modelled: the contents of nodes on a weak memory, the library that times
  \<^verbatim>\<open>bench_search.cpp\<close>, the fixed text the reports print, and the tests, whose checks are properties here. The \<^verbatim>\<open>int\<close> position of an iterator is unbounded. The core
  itself never sees an allocation fail; the standalone table, which owns its memory, does. The containers of the adapter
  and the benchmarks never fail to reserve their memory either (the reservoir of \<^verbatim>\<open>UniqueRandomSample\<close>, the needles). In
  the benchmarks only kernel calls and counter operations change the machine that is measured.
\<close>

section \<open>Inserting\<close>

text \<open>C1: whatever the tower height drawn and whichever compare-exchanges fail spuriously, an insert into a
  lawful table returns, leaves a lawful table with no lock held, and puts the entry between those at or
  below it and those at or above it, keeping every other entry in place.\<close>

theorem insert_correct:
  assumes "ordered_traits T" "table_ok T t"
  shows "\<exists>t' k. insert_entry T draws cas t e = Some t' \<and> table_ok T t' \<and>
    splits_at T (entries t) e k \<and> entries t' = ins_at k e (entries t)"
  using ordered_traits.insert_entry_table [OF assms, of draws cas e] by metis

theorem insert_correct_witness:
  "\<exists>t' k. insert_entry sample_traits (\<lambda>_. 4) (\<lambda>lv a. a = 7) sample_table (sample_key [0x62, 8, 1]) = Some t' \<and>
    table_ok sample_traits t' \<and> splits_at sample_traits (entries sample_table) (sample_key [0x62, 8, 1]) k \<and>
    entries t' = ins_at k (sample_key [0x62, 8, 1]) (entries sample_table)"
  by (rule insert_correct [OF sample_traits_lawful(2) sample_table_ok])

text \<open>When no entry compares equal to the new one, its place is exactly the lower bound, and keys that
  were pairwise distinct stay so.\<close>

theorem insert_strict:
  assumes "ordered_traits T" "table_ok T t" "strict_keys T (entries t)" "\<forall>x \<in> set (entries t). compare T x e \<noteq> 0"
  shows "\<exists>t'. insert_entry T draws cas t e = Some t' \<and> strict_keys T (entries t') \<and>
    entries t' = ins_at (lower_bound_of (\<lambda>x. compare T x e < 0) (entries t)) e (entries t)"
proof -
  obtain t' k where t': "insert_entry T draws cas t e = Some t'" "splits_at T (entries t) e k"
    "entries t' = ins_at k e (entries t)"
    using ordered_traits.insert_entry_table [OF assms(1,2), of draws cas e] by metis
  have k: "k = lower_bound_of (\<lambda>x. compare T x e < 0) (entries t)"
    using ordered_traits.splits_at_unique [OF assms(1) t'(2)] assms(4) in_set_takeD by metis
  have "strict_keys T (entries t')"
    unfolding t'(3) using assms(1,3) t'(2) assms(4) by (rule ordered_traits.ins_at_strict)
  then show ?thesis using t' k by simp
qed

theorem insert_strict_witness:
  "\<exists>t'. insert_entry sample_traits (\<lambda>_. 1) (\<lambda>_ _. True) sample_table (sample_key [0x61]) = Some t' \<and>
    strict_keys sample_traits (entries t') \<and> entries t' = sample_key [0x61] # low_keys @ high_keys"
  using insert_strict [OF sample_traits_lawful(2) sample_table_ok, of "sample_key [0x61]" "\<lambda>_. 1" "\<lambda>_ _. True"]
    sample_keys_strict
  by (simp add: sample_ok(2) lower_bound_of_def low_keys_def high_keys_def sample_key_def sample_traits_def compare_keys_order)

text \<open>C2: on a table built by any history of inserts, membership is what the history says, and a scan yields
  a sorted permutation of it; and every history can be carried out.\<close>

theorem history_correct:
  assumes "ordered_traits T"
  shows "(\<exists>t. steps (insert_step T) (new_table T) es t) \<and>
    (\<forall>t. steps (insert_step T) (new_table T) es t \<longrightarrow>
       contains_target T t e = Some (\<exists>x \<in> set es. compare T x e = 0) \<and>
       (\<exists>xs. scan_table t = Some xs \<and> mset xs = mset es \<and> sorted_wrt (le T) xs))"
proof -
  have m: "ordered_memtable (table_ok T) entries (compare T) (new_table T) (insert_step T) (contains_target T) scan_table"
    by (rule ordered_traits.memtable [OF assms])
  show ?thesis
    using ordered_memtable.history_total [OF m ordered_memtable.empty(1) [OF m]]
      ordered_memtable.history_member [OF m] ordered_memtable.history_scan [OF m] by blast
qed

theorem history_correct_witness:
  "\<exists>t. steps (insert_step sample_traits) (new_table sample_traits) (high_keys @ low_keys) t \<and>
    contains_target sample_traits t (sample_key [0x62, 3]) = Some True"
proof -
  obtain t where t: "steps (insert_step sample_traits) (new_table sample_traits) (high_keys @ low_keys) t"
    using history_correct [OF sample_traits_lawful(2), of "high_keys @ low_keys"] by blast
  then have "contains_target sample_traits t (sample_key [0x62, 3]) =
      Some (\<exists>x \<in> set (high_keys @ low_keys). compare sample_traits x (sample_key [0x62, 3]) = 0)"
    using history_correct [OF sample_traits_lawful(2), of "high_keys @ low_keys"] by blast
  also have "\<dots> = Some True"
    by (simp add: low_keys_def high_keys_def sample_key_def sample_traits_def compare_keys_order)
  finally show ?thesis using t by blast
qed

text \<open>The height drawn is between 1 and the top of the tower: one more than the run of draws with two
  zero low bits, cut at the top.\<close>

theorem random_height_correct:
  "1 \<le> random_height draws \<and> random_height draws \<le> kMaxHeight \<and>
    (\<forall>i. Suc i < random_height draws \<longrightarrow> draws i AND 3 = 0) \<and>
    (random_height draws < kMaxHeight \<longrightarrow> draws (random_height draws - 1) AND 3 \<noteq> 0)"
  using random_height_bounds [of draws] random_height_draws [where draws = draws] by auto

theorem random_height_correct_witness:
  "let draws = (\<lambda>i. if i = 1 then 2 else 4) in draws (random_height draws - 1) AND 3 \<noteq> 0 \<or> random_height draws = kMaxHeight"
  using random_height_correct [of "\<lambda>i. if i = 1 then 2 else 4"] by (auto simp: Let_def)

text \<open>Linking a node into the tower returns within its eight attempts a level and only ever adds a
  shortcut: the chain of level 0, the entries and the locks stay as they are, and the table stays lawful
  however many exchanges fail.\<close>

theorem link_tower_safe:
  assumes "table_ok T t" "node \<in> set (level0 t)" "unat (height (lnodes t ! node)) \<le> kMaxHeight"
    "\<forall>lv \<in> {1..<kMaxHeight}. unlinked t (level0 t) lv node"
  shows "\<exists>t'. link_tower T cas t node first = Some t' \<and> table_ok T t' \<and> level0 t' = level0 t \<and> entries t' = entries t"
proof -
  have ok: "chain_ok T t (level0 t)" "quiescent t" using assms(1) by (simp_all add: table_ok_level0)
  obtain t' where t': "link_tower T cas t node first = Some t'" "relinked T (level0 t) {1..<kMaxHeight} t t'"
    using link_tower_relinks [OF ok(1) assms(2,3), where cas = cas and first = first] assms(4) by auto
  then have ok': "chain_ok T t' (level0 t)" and e: "chain_entries t' (level0 t) = chain_entries t (level0 t)" and l: "locks t' = locks t"
    unfolding relinked_def by blast+
  have "quiescent t'" using ok(2) l by (simp add: quiescent_locks)
  then show ?thesis
    using t'(1) level0_chain [OF ok'] entries_chain [OF ok'] entries_chain [OF ok(1)] ok' e table_ok_def by metis
qed

theorem link_tower_safe_witness:
  "\<exists>t'. link_tower sample_traits (\<lambda>_ _. False) sample_table 1 (sample_key [0x62, 9]) = Some t' \<and> entries t' = low_keys @ high_keys"
proof -
  have l: "level0 sample_table = [0, 1]" by (simp add: sample_level0)
  have un: "\<forall>lv \<in> {1..<kMaxHeight}. unlinked sample_table (level0 sample_table) lv 1"
    unfolding l unlinked_def by (simp add: tower_at_def sample_table_def two_nodes_def new_list_node_def)
  have h: "unat (height (lnodes sample_table ! 1)) \<le> kMaxHeight"
    by (simp add: sample_table_def two_nodes_def new_list_node_def kMaxHeight_def)
  have "1 \<in> set (level0 sample_table)" by (simp add: l)
  from link_tower_safe [OF sample_table_ok this h un] show ?thesis by (auto simp: sample_ok(2))
qed

section \<open>Looking up\<close>

text \<open>The descent, through whatever tower there is, ends on the one node that can hold the key: every
  entry of an earlier node is at or below it and every entry of a later node above it.\<close>

theorem descend_correct:
  assumes "ordered_traits T" "table_ok T t"
  shows "\<exists>us c vs. descend T t key (order_bytes T key) = Some c \<and> level0 t = us @ c # vs \<and>
    (\<forall>x \<in> set (chain_entries t us). le T x key) \<and> (\<forall>x \<in> set (chain_entries t vs). compare T key x < 0)"
proof -
  have ok: "chain_ok T t (level0 t)" using assms(2) by (simp add: table_ok_level0)
  obtain us vs where "level0 t = us @ locate T t (level0 t) key # vs"
    "\<And>x. x \<in> set (chain_entries t us) \<Longrightarrow> le T x key" "\<And>x. x \<in> set (chain_entries t vs) \<Longrightarrow> compare T key x < 0"
    by (rule ordered_traits.locate_split [OF assms(1) ok, of key]) blast
  then show ?thesis using ordered_traits.descend_locate [OF assms(1) ok, of key] by blast
qed

theorem descend_correct_witness:
  "\<exists>us c vs. descend sample_traits sample_table (sample_key [0x62, 9, 1]) [0x62, 9, 1] = Some c \<and> level0 sample_table = us @ c # vs \<and>
    (\<forall>x \<in> set (chain_entries sample_table us). le sample_traits x (sample_key [0x62, 9, 1])) \<and>
    (\<forall>x \<in> set (chain_entries sample_table vs). compare sample_traits (sample_key [0x62, 9, 1]) x < 0)"
  using descend_correct [OF sample_traits_lawful(2) sample_table_ok, of "sample_key [0x62, 9, 1]"]
  by (simp add: sample_traits_def sample_key_def)

text \<open>C3: \<^verbatim>\<open>contains\<close> answers on every lawful table, with duplicates or not, and answers true exactly when an
  entry compares equal to the key.\<close>

theorem contains_correct:
  assumes "ordered_traits T" "table_ok T t"
  shows "contains_target T t key = Some (\<exists>x \<in> set (entries t). compare T x key = 0)"
  using assms(2) ordered_traits.contains_target_iff [OF assms(1)] unfolding table_ok_level0 by blast

theorem contains_correct_witness:
  "contains_target sample_traits sample_table (sample_key [0x62, 16]) = Some True \<and>
   contains_target sample_traits sample_table (sample_key [0x62]) = Some False"
  using contains_correct [OF sample_traits_lawful(2) sample_table_ok, of "sample_key [0x62, 16]"]
    contains_correct [OF sample_traits_lawful(2) sample_table_ok, of "sample_key [0x62]"]
  by (simp add: sample_ok(2) low_keys_def high_keys_def sample_key_def sample_traits_def compare_keys_order)

section \<open>Iterating\<close>

text \<open>C22: a scan from \<^verbatim>\<open>begin()\<close> by \<^verbatim>\<open>next()\<close> ends, yields every entry once in level 0 order, and \<^verbatim>\<open>size()\<close>
  counts them.\<close>

theorem scan_correct:
  assumes "table_ok T t"
  shows "scan_table t = Some (entries t) \<and> table_size t = Some (length (entries t))"
  using scan_entries [OF assms] by simp

theorem scan_correct_witness: "scan_table sample_table = Some (low_keys @ high_keys) \<and> table_size sample_table = Some 16"
  using scan_correct [OF sample_table_ok] by (simp add: sample_ok(2) low_keys_def high_keys_def)

text \<open>C19: \<^verbatim>\<open>seek\<close> ends on a position with everything before it at or below the target and everything from it
  on at or above, or invalid when that position is the end; with distinct keys it is the first entry not
  below the target.\<close>

theorem seek_correct:
  assumes "ordered_traits T" "table_ok T t"
  shows "\<exists>k it'. seek T t target it = Some it' \<and> splits_at T (entries t) target k \<and>
    (strict_keys T (entries t) \<longrightarrow> k = lower_bound_of (\<lambda>x. compare T x target < 0) (entries t)) \<and>
    (if k < length (entries t) then valid it' \<and> it_key t it' = entries t ! k else \<not> valid it')"
proof -
  have ok: "chain_ok T t (level0 t)" using assms(2) by (simp add: table_ok_level0)
  note e = entries_chain [OF ok]
  obtain k where k: "splits_at T (entries t) target k" "reaches t (level0 t) k (seek T t target it)"
    "strict_keys T (entries t) \<longrightarrow> k = lower_bound_of (\<lambda>x. compare T x target < 0) (entries t)"
    using ordered_traits.seek_reaches [OF assms(1) ok, of target it] unfolding e by metis
  then show ?thesis using points_valid points_key unfolding reaches_def e by (intro exI [of _ k]) fastforce
qed

theorem seek_correct_witness:
  "\<exists>it'. seek sample_traits sample_table (sample_key [0x62, 8, 1]) new_iterator = Some it' \<and> valid it' \<and>
    it_key sample_table it' = sample_key [0x62, 9]"
proof -
  have s: "strict_keys sample_traits (entries sample_table)" using sample_keys_strict by (simp add: sample_ok(2))
  have lb: "lower_bound_of (\<lambda>x. compare sample_traits x (sample_key [0x62, 8, 1]) < 0) (entries sample_table) = 8"
    by (simp add: sample_ok(2) lower_bound_of_def low_keys_def high_keys_def sample_key_def sample_traits_def compare_keys_order)
  show ?thesis
    using seek_correct [OF sample_traits_lawful(2) sample_table_ok, of "sample_key [0x62, 8, 1]" new_iterator] s lb
    by (auto simp: sample_ok(2) low_keys_def high_keys_def)
qed

text \<open>C21: in a table whose keys are pairwise distinct, \<^verbatim>\<open>next()\<close> then \<^verbatim>\<open>prev()\<close> comes back to the entry it left, and each
  moves by exactly one entry, also across nodes. With equal keys in several nodes \<^verbatim>\<open>prev()\<close> may skip entries, because
  \<^verbatim>\<open>pred_node\<close> looks for a node that starts strictly below.\<close>

theorem next_then_prev:
  assumes "ordered_traits T" "table_ok T t" "strict_keys T (entries t)" "points_at t (level0 t) it i" "Suc i < length (entries t)"
  shows "\<exists>it1 it2. next_entry t it = Some it1 \<and> valid it1 \<and> it_key t it1 = entries t ! Suc i \<and>
    prev_entry T t it1 = Some it2 \<and> valid it2 \<and> it_key t it2 = entries t ! i"
proof -
  have ok: "chain_ok T t (level0 t)" using assms(2) by (simp add: table_ok_level0)
  note e = entries_chain [OF ok]
  obtain it1 where it1: "next_entry t it = Some it1" "points_at t (level0 t) it1 (Suc i)"
    using next_reaches [OF ok assms(4)] assms(5) by (auto simp: reaches_def e)
  obtain it2 where it2: "prev_entry T t it1 = Some it2" "points_at t (level0 t) it2 i"
    using ordered_traits.prev_reaches [OF assms(1) ok assms(3) [unfolded e] it1(2)] by auto
  show ?thesis
    using it1 it2 points_valid [OF it1(2)] points_valid [OF it2(2)] points_key [OF it1(2)] points_key [OF it2(2)]
    by (simp add: e)
qed

lemma sample_begin:
  obtains it where "begin_iterator sample_table = Some it" "points_at sample_table (level0 sample_table) it 0"
proof -
  have ok: "chain_ok sample_traits sample_table (level0 sample_table)" using sample_table_ok by (simp add: table_ok_level0)
  show thesis using seek_to_first_reaches [OF ok, of new_iterator] that
    by (auto simp: reaches_def begin_iterator_def entries_chain [OF ok, symmetric] sample_ok(2) low_keys_def)
qed

lemma sample_strict: "strict_keys sample_traits (entries sample_table)"
  using sample_keys_strict by (simp add: sample_ok(2))

theorem next_then_prev_witness:
  "\<exists>it it1 it2. begin_iterator sample_table = Some it \<and> next_entry sample_table it = Some it1 \<and>
    it_key sample_table it1 = sample_key [0x62, 2] \<and> prev_entry sample_traits sample_table it1 = Some it2 \<and>
    it_key sample_table it2 = sample_key [0x62, 1]"
proof -
  obtain it where it: "begin_iterator sample_table = Some it" "points_at sample_table (level0 sample_table) it 0"
    by (rule sample_begin)
  show ?thesis
    using next_then_prev [OF sample_traits_lawful(2) sample_table_ok sample_strict it(2)] it(1)
    by (auto simp: sample_ok(2) low_keys_def high_keys_def)
qed

text \<open>\<^verbatim>\<open>prev()\<close> from the first entry runs off the front and leaves the iterator invalid; \<^verbatim>\<open>next()\<close> from the
  last one runs off the end.\<close>

theorem iterator_runs_off:
  assumes "ordered_traits T" "table_ok T t" "strict_keys T (entries t)"
    "points_at t (level0 t) first 0" "points_at t (level0 t) lst (length (entries t) - 1)"
  shows "\<exists>it1 it2. prev_entry T t first = Some it1 \<and> \<not> valid it1 \<and> next_entry t lst = Some it2 \<and> \<not> valid it2"
proof -
  have ok: "chain_ok T t (level0 t)" using assms(2) by (simp add: table_ok_level0)
  note e = entries_chain [OF ok]
  have "\<exists>it1. prev_entry T t first = Some it1 \<and> \<not> valid it1"
    using ordered_traits.prev_reaches [OF assms(1) ok assms(3) [unfolded e] assms(4)] by auto
  moreover have "\<exists>it2. next_entry t lst = Some it2 \<and> \<not> valid it2"
    using next_reaches [OF ok assms(5)] points_less [OF assms(4)] by (auto simp: reaches_def e)
  ultimately show ?thesis by blast
qed

theorem iterator_runs_off_witness:
  "\<exists>it lst it1 it2. begin_iterator sample_table = Some it \<and> seek_to_last sample_traits sample_table new_iterator = Some lst \<and>
    prev_entry sample_traits sample_table it = Some it1 \<and> \<not> valid it1 \<and> next_entry sample_table lst = Some it2 \<and> \<not> valid it2"
proof -
  have ok: "chain_ok sample_traits sample_table (level0 sample_table)" using sample_table_ok by (simp add: table_ok_level0)
  obtain it where it: "begin_iterator sample_table = Some it" "points_at sample_table (level0 sample_table) it 0"
    by (rule sample_begin)
  obtain lst where lst: "seek_to_last sample_traits sample_table new_iterator = Some lst"
    "points_at sample_table (level0 sample_table) lst (length (entries sample_table) - 1)"
    using ordered_traits.seek_to_last_reaches [OF sample_traits_lawful(2) ok, of new_iterator]
    by (auto simp: entries_chain [OF ok, symmetric] sample_ok(2) low_keys_def)
  show ?thesis
    using iterator_runs_off [OF sample_traits_lawful(2) sample_table_ok sample_strict it(2) lst(2)] it(1) lst(1) by blast
qed

text \<open>\<^verbatim>\<open>seek_to_last\<close> ends on the last entry, with duplicates or not, and is invalid on an empty table.\<close>

theorem seek_to_last_correct:
  assumes "ordered_traits T" "table_ok T t"
  shows "\<exists>it'. seek_to_last T t it = Some it' \<and>
    (if entries t = [] then \<not> valid it' else valid it' \<and> it_key t it' = last (entries t))"
proof -
  have ok: "chain_ok T t (level0 t)" using assms(2) by (simp add: table_ok_level0)
  note e = entries_chain [OF ok, symmetric]
  obtain it' where it': "seek_to_last T t it = Some it'"
    "if entries t = [] then \<not> valid it' else points_at t (level0 t) it' (length (entries t) - 1)"
    using ordered_traits.seek_to_last_reaches [OF assms(1) ok, of it] unfolding e by metis
  then show ?thesis
    using points_valid points_key [of t "level0 t"] unfolding e by (intro exI [of _ it']) (auto simp: last_conv_nth)
qed

theorem seek_to_last_correct_witness:
  "\<exists>it'. seek_to_last sample_traits sample_table new_iterator = Some it' \<and> it_key sample_table it' = sample_key [0x62, 16]"
  using seek_to_last_correct [OF sample_traits_lawful(2) sample_table_ok, of new_iterator]
  by (auto simp: sample_ok(2) high_keys_def)

text \<open>C20: in a table whose keys are pairwise distinct, \<^verbatim>\<open>seek_for_prev\<close> ends on the last entry at or below the target, and is
  invalid when there is none.\<close>

theorem seek_for_prev_correct:
  assumes "ordered_traits T" "table_ok T t" "strict_keys T (entries t)"
  shows "\<exists>it'. seek_for_prev T t target it = Some it' \<and>
    (let below = takeWhile (\<lambda>x. le T x target) (entries t)
     in if below = [] then \<not> valid it' else valid it' \<and> it_key t it' = last below)"
proof -
  have ok: "chain_ok T t (level0 t)" using assms(2) by (simp add: table_ok_level0)
  note e = entries_chain [OF ok, symmetric]
  let ?b = "takeWhile (\<lambda>x. le T x target) (entries t)"
  obtain it' where it': "seek_for_prev T t target it = Some it'"
    "if length ?b = 0 then \<not> valid it' else points_at t (level0 t) it' (length ?b - 1)"
    using ordered_traits.seek_for_prev_reaches [OF assms(1) ok, of target it] assms(3)
    unfolding e ordered_traits.upto_def [OF assms(1)] Let_def by metis
  have "last ?b = entries t ! (length ?b - 1)" if "?b \<noteq> []"
    using that by (simp add: last_conv_nth takeWhile_nth)
  then show ?thesis
    using it' points_valid points_key [of t "level0 t"] unfolding e by (intro exI [of _ it']) (auto simp: Let_def)
qed

theorem seek_for_prev_correct_witness:
  "\<exists>it'. seek_for_prev sample_traits sample_table (sample_key [0x62, 8, 1]) new_iterator = Some it' \<and>
    it_key sample_table it' = sample_key [0x62, 8]"
  using seek_for_prev_correct [OF sample_traits_lawful(2) sample_table_ok sample_strict, of "sample_key [0x62, 8, 1]" new_iterator]
  by (auto simp: sample_ok(2) low_keys_def high_keys_def sample_key_def sample_traits_def compare_keys_order)

section \<open>The structure's own check\<close>

text \<open>C16: a table filled from its smallest key on, in any order after that, passes \<^verbatim>\<open>check_invariants\<close>: under
  a comparator that follows the order bytes, with keys shorter than 4 GiB.\<close>

theorem check_invariants_passes:
  assumes T: "bytewise_traits T" and least: "\<forall>e \<in> set es. le T e0 e"
    and short: "\<forall>e \<in> set (e0 # es). length (order_bytes T e) < 2 ^ 32"
  shows "\<exists>t. insert_all T draws cas 0 (e0 # es) (new_table T) = Some t \<and> check_invariants T t = Some None \<and>
    mset (entries t) = mset (e0 # es)"
proof -
  note short_def = bytewise_traits.short_keys_def [OF T]
  obtain t1 k where t1: "insert_entry T (draws 0) (cas 0) (new_table T) e0 = Some t1" "table_lanes_ok T t1" "entries t1 = [e0]"
    using bytewise_traits.insert_entry_table_lanes [OF T new_table_lanes, of e0 "draws 0" "cas 0"] short
    by (auto simp: short_def new_table_ok)
  obtain t where "insert_all T draws cas 1 es t1 = Some t" "table_lanes_ok T t" "mset (entries t) = mset es + mset (entries t1)"
    using bytewise_traits.insert_all_lanes [OF T t1(2), of es draws cas 1] short least t1(3) by (auto simp: short_def)
  then show ?thesis using t1 bytewise_traits.table_lanes_pass [OF T] by simp
qed

theorem check_invariants_passes_witness:
  "\<exists>t. insert_all sample_traits (\<lambda>_ _. 4) (\<lambda>_ _ _. True) 0 (sample_key [1] # high_keys @ low_keys) (new_table sample_traits) = Some t \<and>
    check_invariants sample_traits t = Some None"
  using check_invariants_passes [OF sample_traits_lawful(1), of "high_keys @ low_keys" "sample_key [1]" "\<lambda>_ _. 4" "\<lambda>_ _ _. True"]
  by (auto simp: low_keys_def high_keys_def sample_key_def sample_traits_def compare_keys_order)

text \<open>C26: an append takes the payload's smallest key for its frozen prefix, and a key outside the prefix may become the
  smallest of the head. In every lawful table whose head is anchored at a prefix \<open>P\<close>, insert a key \<open>k0\<close> below every entry that is
  as long as \<open>P\<close> and does not carry it, and then a key \<open>k1\<close> that does, below some entry of the head that carries it with
  a lane short of the highest, both with room: the table stays lawful and holds both keys, and
  \<^verbatim>\<open>check_invariants\<close> reports that the lanes of a node are not sorted.\<close>

theorem smallest_key_outside_prefix_breaks_lanes:
  assumes T: "bytewise_traits T" and t: "table_ok T t" and d: "d = get_data t (head_node t)"
    and lanes: "lanes_at T d P" and room: "Suc (order_count (order d)) < kNodeCapacity"
    and k0: "\<forall>y \<in> set (entries t). compare T k0 y < 0" "length P \<le> length (order_bytes T k0)" "take (length P) (order_bytes T k0) \<noteq> P"
    and k1: "take (length P) (order_bytes T k1) = P"
    and x: "x \<in> set (node_entries d)" "compare T k1 x < 0" "take (length P) (order_bytes T x) = P"
      "surrogate_at (order_bytes T x) (length P) \<noteq> kEmptyKey"
  shows "\<exists>t2. insert_all T draws cas i [k0, k1] t = Some t2 \<and> table_ok T t2 \<and> mset (entries t2) = {#k0, k1#} + mset (entries t) \<and>
    check_invariants T t2 = Some (Some ''surrogate lanes within a node are not sorted'')"
proof -
  have ok: "chain_ok T t (level0 t)" "quiescent t" using t by (simp_all add: table_ok_level0)
  note e = entries_chain [OF ok(1)]
  obtain t1 t2 where "insert_entry T (draws i) (cas i) t k0 = Some t1" "insert_entry T (draws (Suc i)) (cas (Suc i)) t1 k1 = Some t2"
    "chain_ok T t2 (level0 t)" "quiescent t2" "mset (chain_entries t2 (level0 t)) = {#k0, k1#} + mset (entries t)"
    "check_invariants T t2 = Some (Some ''surrogate lanes within a node are not sorted'')"
    using bytewise_traits.prefix_lost_check [OF T ok d lanes room k0(1) [unfolded e] k0(2,3) k1 x,
        of "draws i" "cas i" "draws (Suc i)" "cas (Suc i)"] unfolding e by metis
  then show ?thesis using entries_chain [of T t2 "level0 t"] by (auto simp: table_ok_def)
qed

lemma sample_head:
  "get_data sample_table (head_node sample_table) = fill sample_traits (fresh_payload sample_traits) low_keys (Some 1)"
  by (simp add: get_data_def sample_table_def two_nodes_def)

theorem smallest_key_outside_prefix_breaks_lanes_witness:
  "\<exists>t2. insert_all sample_traits (\<lambda>_ _. 4) (\<lambda>_ _ _. True) 0 [sample_key [0x61], sample_key [0x62, 4, 0]] sample_table = Some t2 \<and>
    check_invariants sample_traits t2 = Some (Some ''surrogate lanes within a node are not sorted'')"
proof -
  let ?d = "get_data sample_table (head_node sample_table)"
  have len: "low_keys \<noteq> []" "length low_keys \<le> kNodeCapacity" by (simp_all add: low_keys_def node_consts)
  have sorted: "sorted_wrt (le sample_traits) low_keys"
    using ordered_traits.strict_keys_sorted [OF sample_traits_lawful(2) sample_keys_strict] by (simp add: sorted_wrt_append)
  have "fill_prefix sample_traits low_keys = 1"
    by (simp add: fill_prefix_def low_keys_def sample_key_def sample_traits_def common_prefix_len_def common_prefix_loop.simps)
  then have "lanes_at sample_traits ?d [0x62]"
    using bytewise_traits.fill_anchored [OF sample_traits_lawful(1) sorted len, of "fresh_payload sample_traits" "Some 1"]
    by (simp add: sample_head) (simp add: low_keys_def sample_key_def sample_traits_def)
  note at = smallest_key_outside_prefix_breaks_lanes [OF sample_traits_lawful(1) sample_table_ok HOL.refl this]
  show ?thesis
  proof (rule exE [OF at [of "sample_key [0x61]" "sample_key [0x62, 4, 0]" "sample_key [0x62, 5]" "\<lambda>_ _. 4" "\<lambda>_ _ _. True" 0]])
    show "\<forall>y \<in> set (entries sample_table). compare sample_traits (sample_key [0x61]) y < 0"
      by (simp add: sample_ok(2) low_keys_def high_keys_def sample_key_def sample_traits_def compare_keys_order)
    show "sample_key [0x62, 5] \<in> set (node_entries ?d)" by (simp add: sample_head fill_entries len del: fill_simps) (simp add: low_keys_def)
    show "Suc (order_count (order ?d)) < kNodeCapacity"
      by (simp add: sample_head fill_count len del: fill_simps) (simp add: low_keys_def node_consts)
    show "surrogate_at (order_bytes sample_traits (sample_key [0x62, 5])) (length [0x62 :: u8]) \<noteq> kEmptyKey"
      unfolding sample_traits_def sample_key_def by code_simp
  qed (auto simp: sample_key_def sample_traits_def compare_keys_order)
qed

section \<open>Equal keys in several nodes\<close>

text \<open>C27: where a key compares equal to the last entry before a node \<open>c\<close> and to the first entry of \<open>c\<close>, the last such
  node, the descent ends on \<open>c\<close>, which is not the head; an insert of the key sorts at rank 0 of that node, and goes
  directly in front of its entries; and \<^verbatim>\<open>seek\<close> stops on the first entry of \<open>c\<close>, past at least one entry that is not below
  the target.\<close>

theorem equal_keys_across_nodes:
  assumes "ordered_traits T" "table_ok T t" "level0 t = us @ c # vs"
    "chain_entries t us \<noteq> []" "compare T (last (chain_entries t us)) key = 0" "compare T (hd (entries_of t c)) key = 0"
    "\<forall>v \<in> set vs. compare T key (hd (entries_of t v)) < 0"
  shows "let n = length (chain_entries t us); d = get_data t c
    in descend T t key (order_bytes T key) = Some c \<and> c \<noteq> head_node t \<and>
       sorted_position T d (order d) (order_count (order d)) key (order_bytes T key) = 0 \<and>
       (\<exists>t'. insert_entry T draws cas t key = Some t' \<and> table_ok T t' \<and> entries t' = ins_at n key (entries t)) \<and>
       (\<exists>it'. seek T t key it = Some it' \<and> valid it' \<and> it_node it' = Some c \<and> it_pos it' = 0 \<and> it_key t it' = entries t ! n) \<and>
       0 < n \<and> compare T (entries t ! (n - 1)) key = 0 \<and> lower_bound_of (\<lambda>x. compare T x key < 0) (entries t) < n"
  by (rule ordered_traits.equal_across [OF assms])

text \<open>Sixteen inserts of one key make such a table, whatever the draws.\<close>

theorem equal_keys_across_nodes_witness:
  "\<exists>t c it'. insert_all sample_traits (\<lambda>_ _. 1) (\<lambda>_ _ _. True) 0 (replicate 16 (sample_key [5])) (new_table sample_traits) = Some t \<and>
    c \<noteq> head_node t \<and> descend sample_traits t (sample_key [5]) [5] = Some c \<and>
    seek sample_traits t (sample_key [5]) new_iterator = Some it' \<and> it_node it' = Some c \<and> it_pos it' = 0 \<and>
    (\<forall>x \<in> set (entries t). x = sample_key [5])"
proof -
  let ?k = "sample_key [5]"
  obtain t a b where t: "insert_all sample_traits (\<lambda>_ _. 1) (\<lambda>_ _ _. True) 0 (replicate 16 ?k) (new_table sample_traits) = Some t"
    "table_ok sample_traits t" "level0 t = [a, b]" "mset (entries t) = mset (replicate 16 ?k)"
    and len: "length (entries_of t a) = kMid" "length (entries_of t b) = kMid"
    by (rule ordered_traits.insert_all_full_node [OF sample_traits_lawful(2), of "replicate 16 ?k" "\<lambda>_ _. 1" "\<lambda>_ _ _. True"])
      (simp add: node_consts)
  have all: "\<forall>x \<in> set (entries t). x = ?k" using mset_eq_setD [OF t(4)] by simp
  have split: "entries t = entries_of t a @ entries_of t b"
    using entries_chain [of sample_traits t "[a, b]"] t(2) by (simp add: table_ok_level0 t(3))
  have ne: "entries_of t a \<noteq> []" "entries_of t b \<noteq> []" using len by (auto simp: kMid_def node_consts simp del: length_node_entries)
  have "last (entries_of t a) = ?k" "hd (entries_of t b) = ?k" using all ne by (simp_all add: split)
  then show ?thesis
    using equal_keys_across_nodes [OF sample_traits_lawful(2) t(2), of "[a]" b "[]" ?k "\<lambda>_. 1" "\<lambda>_ _. True" new_iterator] t(1,3) all ne
    by (auto simp: sample_traits_def sample_key_def compare_keys_order Let_def)
qed

end
